(* ===== verification/Prelude.thy ===== *)
theory Prelude
  imports Main "HOL-Library.Word"
begin

text \<open>
  The types and generic lemmas the components share: bytes and machine words, string
  literals as byte lists, little-endian integers, in-place writes into byte buffers, and
  the collections of rewrite rules that carry the component proofs.
\<close>

unbundle bit_operations_syntax

section \<open>Machine types\<close>

text \<open>
  C++ \<^verbatim>\<open>char\<close>/\<^verbatim>\<open>std::uint8_t\<close> are 8-bit words and a \<^verbatim>\<open>std::string_view\<close> is the list of
  its bytes. \<^verbatim>\<open>std::int64_t\<close> is a 64-bit word read through \<^const>\<open>sint\<close>. A
  \<^verbatim>\<open>std::size_t\<close> is a natural number, with the width written out where the code's
  behaviour depends on it.
\<close>

type_synonym byte = "8 word"
type_synonym bytes = "byte list"
type_synonym u16 = "16 word"
type_synonym u32 = "32 word"
type_synonym u64 = "64 word"
type_synonym int64 = "64 word"
type_synonym addr = nat

text \<open>A string literal of the source, as the bytes it stands for.\<close>

definition str :: "string \<Rightarrow> bytes" where
  "str s = map of_char s"

named_theorems pack_simps \<open>sizes and decodings of packed elements\<close>
named_theorems meta_simps \<open>fields of the packed node header\<close>

lemma length_str [simp]: "length (str s) = length s"
  by (simp add: str_def)

section \<open>Little-endian integers\<close>

primrec le_encode :: "nat \<Rightarrow> 'a::len word \<Rightarrow> bytes" where
  "le_encode 0 w = []"
| "le_encode (Suc n) w = ucast w # le_encode n (drop_bit 8 w)"

primrec le_decode :: "bytes \<Rightarrow> 'a::len word" where
  "le_decode [] = 0"
| "le_decode (b # bs) = ucast b OR push_bit 8 (le_decode bs)"

lemma length_le_encode [simp]: "length (le_encode n w) = n"
  by (induction n arbitrary: w) auto

lemma le_decode_encode_take:
  "le_decode (le_encode n w) = take_bit (8 * n) (w :: 'a::len word)"
proof (induction n arbitrary: w)
  case 0
  then show ?case by simp
next
  case (Suc n)
  show ?case
    by (rule bit_eqI) (auto simp: Suc bit_simps)
qed

lemma le_decode_encode:
  assumes "8 * n = LENGTH('a::len)"
  shows "le_decode (le_encode n (w :: 'a word)) = w"
  using assms by (simp add: le_decode_encode_take)

section \<open>Bits of bytes and packed words\<close>

lemma and_0x80_bit: "((b :: byte) AND 0x80 = 0) = (\<not> bit b 7)"
  using and_exp_eq_0_iff_not_bit [of b 7] by simp

lemma byte_low7: "(b :: byte) AND 0x7F = take_bit 7 b"
  by (simp add: take_bit_eq_mask mask_eq_exp_minus_1)

lemma unat_low7: "unat ((b :: byte) AND 0x7F) = unat b mod 128"
  by (simp only: byte_low7 unsigned_take_bit_eq) (simp add: take_bit_eq_mod)

lemma byte_top_bit: "bit (b :: byte) 7 = (128 \<le> unat b)"
proof -
  have lt: "unat b < 256" using unsigned_less [of b] by simp
  have "bit b 7 = bit (unat b) 7" by (simp add: bit_unsigned_iff)
  also have "\<dots> = odd (unat b div 2 ^ 7)" by (rule bit_iff_odd)
  also have "\<dots> = (128 \<le> unat b)"
  proof (cases "128 \<le> unat b")
    case True
    with lt have "unat b div 2 ^ 7 = 1" by (intro div_nat_eqI) auto
    with True show ?thesis by simp
  qed simp
  finally show ?thesis .
qed

lemma short_tag:
  assumes "n \<le> 127"
  shows "(of_nat n :: byte) AND 0x80 = 0" "unat ((of_nat n :: byte) AND 0x7F) = n"
  unfolding and_0x80_bit byte_top_bit unat_low7
  using assms by (simp_all add: unat_of_nat)

lemma low7_nat: "(drop_bit k n AND 0x7F :: nat) = n div 2 ^ k mod 128"
proof -
  have "(drop_bit k n AND 0x7F :: nat) = take_bit 7 (drop_bit k n)"
    by (simp add: take_bit_eq_mask mask_eq_exp_minus_1)
  then show ?thesis by (simp add: take_bit_eq_mod drop_bit_eq_div)
qed

lemma cont_byte:
  assumes "m < 128"
  shows "(of_nat m OR 0x80 :: byte) AND 0x80 \<noteq> 0"
    "(of_nat m OR 0x80 :: byte) AND 0x7F = of_nat m"
proof -
  have e: "(0x80 :: byte) = 2 ^ 7" by simp
  show "(of_nat m OR 0x80 :: byte) AND 0x80 \<noteq> 0"
    unfolding and_0x80_bit unfolding e by (simp add: bit_simps del: power_numeral)
  have n: "\<not> bit (of_nat m :: byte) 7"
    unfolding byte_top_bit using assms by (simp add: unat_of_nat)
  have "take_bit 7 (of_nat m OR 0x80 :: byte) = of_nat m"
  proof (rule bit_eqI)
    fix i assume "possible_bit TYPE(byte) i"
    then have "i < 8" by simp
    then have "i = 7 \<or> i < 7" by linarith
    then show "bit (take_bit 7 (of_nat m OR 0x80 :: byte)) i = bit (of_nat m :: byte) i"
      unfolding e using n by (auto simp: bit_simps simp del: power_numeral)
  qed
  then show "(of_nat m OR 0x80 :: byte) AND 0x7F = of_nat m" by (simp add: byte_low7)
qed

lemma or_push_bit_nat:
  fixes x m :: nat
  assumes "x < 2 ^ sh"
  shows "x OR push_bit sh m = x + 2 ^ sh * m"
proof -
  have "take_bit sh x = x" using assms by (simp add: take_bit_nat_eq_self)
  then have "\<not> bit x i \<or> \<not> bit (push_bit sh m) i" for i
    by (metis bit_push_bit_iff_nat bit_take_bit_iff not_le)
  then have "x + push_bit sh m = x OR push_bit sh m" by (rule disjunctive_add)
  then show ?thesis by (simp add: push_bit_eq_mult mult.commute)
qed

lemma or_push_bit_word:
  assumes "x < 2 ^ sh"
  shows "(of_nat x OR push_bit sh (of_nat m) :: 'a::len word) = of_nat (x + 2 ^ sh * m)"
  by (simp only: or_push_bit_nat [OF assms, symmetric] of_nat_or_eq push_bit_of_nat)

lemma ucast_small:
  assumes "m < 256"
  shows "(ucast (of_nat m :: byte) :: u64) = of_nat m"
  using assms by (simp add: unsigned_of_nat take_bit_nat_eq_self)

end
