(* ===== verification/Pack.thy ===== *)
theory Pack
  imports Prelude
begin

text \<open>
  The packed element codec (\<^verbatim>\<open>src/pack.hpp\<close>, \<^verbatim>\<open>src/pack.cpp\<close>). An encoder is the list
  of bytes the C++ writes at its output cursor; a decoder reads the bytes from a cursor
  on, and returns \<^const>\<open>None\<close> where the C++ would read past the buffer.
\<close>

section \<open>Definitions\<close>

datatype element = EString bytes | EInteger int64

definition integer_tag :: byte where
  "integer_tag = 0x80"

definition long_string_tag :: byte where
  "long_string_tag = 0xC0"

definition max_string_header :: nat where
  "max_string_header = 5"

definition load_u32 :: "bytes \<Rightarrow> u32 option" where
  "load_u32 p = (if length p < 4 then None else Some (le_decode (take 4 p)))"

definition store_u32 :: "u32 \<Rightarrow> bytes" where
  "store_u32 value = le_encode 4 value"

definition load_u64 :: "bytes \<Rightarrow> u64 option" where
  "load_u64 p = (if length p < 8 then None else Some (le_decode (take 8 p)))"

definition store_u64 :: "u64 \<Rightarrow> bytes" where
  "store_u64 value = le_encode 8 value"

definition header_and_payload :: "bytes \<Rightarrow> nat option" where
  "header_and_payload p =
     (case p of
        [] \<Rightarrow> None
      | tag # rest \<Rightarrow>
          if tag AND 0x80 = 0 then Some (1 + unat (tag AND 0x7F))
          else if tag AND 0xC0 = integer_tag then Some (1 + 8)
          else map_option (\<lambda>n. max_string_header + unat n) (load_u32 rest))"

definition backlen_bytes :: "nat \<Rightarrow> nat" where
  "backlen_bytes sz =
     (if sz \<le> 127 then 1
      else if sz < 16384 then 2
      else if sz < 2097152 then 3
      else if sz < 268435456 then 4
      else 5)"

definition body_size_text :: "bytes \<Rightarrow> nat" where
  "body_size_text text = (if length text \<le> 127 then 1 else max_string_header) + length text"

definition body_size_int :: "int64 \<Rightarrow> nat" where
  "body_size_int value = 1 + 8"

definition encoded_size_text :: "bytes \<Rightarrow> nat" where
  "encoded_size_text text =
     (let header = (if length text \<le> 127 then 1 else max_string_header);
          body = header + length text
      in body + backlen_bytes body)"

definition encoded_size_int :: "int64 \<Rightarrow> nat" where
  "encoded_size_int value = (let body = 1 + 8 in body + backlen_bytes body)"

definition encode_backlen :: "nat \<Rightarrow> bytes" where
  "encode_backlen sz =
     (let low = (\<lambda>k. of_nat (drop_bit k sz AND 0x7F) OR 0x80 :: byte)
      in if sz \<le> 127 then [of_nat sz]
         else if sz < 16384 then [of_nat (drop_bit 7 sz), low 0]
         else if sz < 2097152 then [of_nat (drop_bit 14 sz), low 7, low 0]
         else if sz < 268435456 then [of_nat (drop_bit 21 sz), low 14, low 7, low 0]
         else [of_nat (drop_bit 28 sz), low 21, low 14, low 7, low 0])"

definition encode_body_text :: "bytes \<Rightarrow> bytes" where
  "encode_body_text text =
     (if length text \<le> 127 then [of_nat (length text)]
      else long_string_tag # store_u32 (of_nat (length text))) @ text"

definition encode_body_int :: "int64 \<Rightarrow> bytes" where
  "encode_body_int value = integer_tag # store_u64 value"

definition encode_text :: "bytes \<Rightarrow> bytes" where
  "encode_text text =
     (let header = (if length text \<le> 127 then [of_nat (length text)]
                    else long_string_tag # store_u32 (of_nat (length text)));
          written = header @ text
      in written @ encode_backlen (length written))"

definition encode_int :: "int64 \<Rightarrow> bytes" where
  "encode_int value =
     (let body = 1 + 8 in (integer_tag # store_u64 value) @ encode_backlen body)"

definition element_size :: "bytes \<Rightarrow> nat option" where
  "element_size p = header_and_payload p"

definition stride :: "bytes \<Rightarrow> nat option" where
  "stride p = map_option (\<lambda>body. body + backlen_bytes body) (header_and_payload p)"

text \<open>
  The backward scan of \<^verbatim>\<open>decode_backlen\<close>: \<open>cursor\<close> is an offset into the buffer and
  the accumulator is a 64-bit \<^verbatim>\<open>std::size_t\<close>. Moving before the buffer, and a shift by
  64 or more, are undefined in C++ and give \<^const>\<open>None\<close>.
\<close>

fun decode_backlen_loop :: "bytes \<Rightarrow> nat \<Rightarrow> u64 \<Rightarrow> nat \<Rightarrow> u64 option" where
  "decode_backlen_loop buf 0 val sh = None"
| "decode_backlen_loop buf (Suc cursor) val sh =
     (if length buf \<le> cursor \<or> 64 \<le> sh then None
      else
        let b = buf ! cursor;
            val' = val OR push_bit sh (ucast (b AND 0x7F))
        in if b AND 0x80 = 0 then Some val'
           else decode_backlen_loop buf cursor val' (sh + 7))"

definition decode_backlen :: "bytes \<Rightarrow> nat \<Rightarrow> nat option" where
  "decode_backlen buf end = map_option unat (decode_backlen_loop buf end 0 0)"

definition text_at :: "nat \<Rightarrow> bytes \<Rightarrow> bytes option" where
  "text_at n p = (if length p < n then None else Some (take n p))"

definition decode :: "bytes \<Rightarrow> element option" where
  "decode p =
     (case p of
        [] \<Rightarrow> None
      | tag # rest \<Rightarrow>
          if tag AND 0x80 = 0
          then map_option EString (text_at (unat (tag AND 0x7F)) rest)
          else if tag AND 0xC0 = integer_tag
          then map_option EInteger (load_u64 rest)
          else (case load_u32 rest of
                  None \<Rightarrow> None
                | Some len \<Rightarrow> map_option EString (text_at (unat len) (drop 4 rest))))"

text \<open>The two overloads of each encoder, selected by the kind of the element.\<close>

fun encode_element :: "element \<Rightarrow> bytes" where
  "encode_element (EString t) = encode_text t"
| "encode_element (EInteger n) = encode_int n"

fun encode_body :: "element \<Rightarrow> bytes" where
  "encode_body (EString t) = encode_body_text t"
| "encode_body (EInteger n) = encode_body_int n"

fun element_ok :: "element \<Rightarrow> bool" where
  "element_ok (EString t) \<longleftrightarrow> length t < 2 ^ 32"
| "element_ok (EInteger n) \<longleftrightarrow> True"

section \<open>Back lengths\<close>

lemma tag_facts:
  "integer_tag AND 0x80 \<noteq> 0" "integer_tag AND 0xC0 = integer_tag"
  "long_string_tag AND 0x80 \<noteq> 0" "long_string_tag AND 0xC0 \<noteq> integer_tag"
  by (simp_all add: integer_tag_def long_string_tag_def)

lemma backlen_step:
  assumes "c < length buf" "sh < 64" "buf ! c = of_nat m OR 0x80" "m < 128" "x < 2 ^ sh"
  shows "decode_backlen_loop buf (Suc c) (of_nat x) sh
       = decode_backlen_loop buf c (of_nat (x + 2 ^ sh * m)) (sh + 7)"
  using assms by (simp add: cont_byte ucast_small or_push_bit_word Let_def del: of_nat_add)

lemma backlen_last:
  assumes "c < length buf" "sh < 64" "buf ! c = of_nat m" "m < 128" "x < 2 ^ sh"
  shows "decode_backlen_loop buf (Suc c) (of_nat x) sh = Some (of_nat (x + 2 ^ sh * m))"
proof -
  have "(of_nat m :: byte) AND 0x7F = of_nat m"
    using short_tag(2) [of m] assms(4)
    by (intro unsigned_word_eqI [where 'a = nat]) (simp add: unat_of_nat)
  then show ?thesis
    using assms short_tag(1) [of m] 
    by (simp add: ucast_small or_push_bit_word Let_def del: of_nat_add)
qed

lemma length_encode_backlen [pack_simps]: "length (encode_backlen n) = backlen_bytes n"
  by (simp add: encode_backlen_def backlen_bytes_def Let_def)

lemma backlen_bytes_pos [simp]: "0 < backlen_bytes n"
  by (simp add: backlen_bytes_def)


lemma encode_backlen_div:
  "encode_backlen n =
     (let low = (\<lambda>k. of_nat (n div 2 ^ k mod 128) OR 0x80 :: byte)
      in if n \<le> 127 then [of_nat n]
         else if n < 16384 then [of_nat (n div 2 ^ 7), low 0]
         else if n < 2097152 then [of_nat (n div 2 ^ 14), low 7, low 0]
         else if n < 268435456 then [of_nat (n div 2 ^ 21), low 14, low 7, low 0]
         else [of_nat (n div 2 ^ 28), low 21, low 14, low 7, low 0])"
  unfolding encode_backlen_def low7_nat unfolding drop_bit_eq_div ..

lemma backlen_sum: "n mod 2 ^ k + 2 ^ k * (n div 2 ^ k mod 128) = n mod 2 ^ (k + 7)" for n :: nat
  using mod_mult2_eq [of n "2 ^ k" 128] by (simp add: power_add add.commute)

lemma backlen_top: "n mod 2 ^ k + 2 ^ k * (n div 2 ^ k) = n" for n :: nat
  by simp

text \<open>A back length is its top seven-bit group followed by \<open>j\<close> continuation groups.\<close>

definition backlen_groups :: "nat \<Rightarrow> nat \<Rightarrow> bytes" where
  "backlen_groups n j =
     of_nat (n div 2 ^ (7 * j)) # rev (map (\<lambda>i. of_nat (n div 2 ^ (7 * i) mod 128) OR 0x80) [0..<j])"

lemma encode_backlen_groups: "encode_backlen n = backlen_groups n (backlen_bytes n - 1)"
proof -
  have u: "[0..<1] = [0::nat]" "[0..<2] = [0, 1::nat]" "[0..<3] = [0, 1, 2::nat]" "[0..<4] = [0, 1, 2, 3::nat]"
    by (simp_all add: upt_conv_Cons)
  show ?thesis
    by (simp add: encode_backlen_div backlen_groups_def backlen_bytes_def Let_def u)
qed

lemma backlen_bytes_fits: "n < 2 ^ 35 \<Longrightarrow> n < 2 ^ (7 * backlen_bytes n)"
  by (auto simp: backlen_bytes_def)

lemma backlen_loop_groups:
  assumes "i \<le> j" "j < 9" "buf = pre @ backlen_groups n j"
  shows "decode_backlen_loop buf (Suc (length pre) + j) 0 0
       = decode_backlen_loop buf (Suc (length pre) + (j - i)) (of_nat (n mod 2 ^ (7 * i))) (7 * i)"
  using assms(1)
proof (induction i)
  case 0
  then show ?case by simp
next
  case (Suc i)
  let ?c = "length pre + (j - i)"
  have c: "Suc (length pre) + (j - i) = Suc ?c" "Suc (length pre) + (j - Suc i) = ?c"
    using Suc.prems by simp_all
  obtain k where k: "j - i = Suc k" "j - Suc k = i" using Suc.prems
    by (metis Suc_diff_Suc Suc_le_lessD diff_diff_cancel less_imp_le)
  then have "buf ! ?c = of_nat (n div 2 ^ (7 * i) mod 128) OR 0x80" "?c < length buf"
    using Suc.prems
    by (simp_all add: assms(3) backlen_groups_def nth_append rev_nth)
  then have "decode_backlen_loop buf (Suc ?c) (of_nat (n mod 2 ^ (7 * i))) (7 * i)
      = decode_backlen_loop buf ?c
          (of_nat (n mod 2 ^ (7 * i) + 2 ^ (7 * i) * (n div 2 ^ (7 * i) mod 128))) (7 * i + 7)"
    using Suc.prems assms(2) by (intro backlen_step) simp_all
  with Suc show ?case by (simp only: c backlen_sum Suc_leD mult_Suc_right add.commute [of 7])
qed

lemma decode_backlen_encode:
  assumes "n < 2 ^ 35"
  shows "decode_backlen (pre @ encode_backlen n) (length pre + backlen_bytes n) = Some n"
proof -
  let ?j = "backlen_bytes n - 1" and ?buf = "pre @ encode_backlen n"
  have j: "?j < 9" "length pre + backlen_bytes n = Suc (length pre) + ?j" "7 * ?j < 64"
    by (simp_all add: backlen_bytes_def)
  have "n div 2 ^ (7 * ?j) < 128"
    using backlen_bytes_fits [OF assms] backlen_bytes_pos [of n]
    by (auto simp: backlen_bytes_def less_mult_imp_div_less split: if_splits)
  then have "decode_backlen_loop ?buf (Suc (length pre)) (of_nat (n mod 2 ^ (7 * ?j))) (7 * ?j)
      = Some (of_nat (n mod 2 ^ (7 * ?j) + 2 ^ (7 * ?j) * (n div 2 ^ (7 * ?j))))"
    using j by (intro backlen_last) (simp_all add: encode_backlen_groups backlen_groups_def nth_append)
  then have "decode_backlen_loop ?buf (length pre + backlen_bytes n) 0 0 = Some (of_nat n)"
    using backlen_loop_groups [OF order.refl j(1), of ?buf pre n]
    by (simp only: j encode_backlen_groups backlen_top diff_self_eq_0 add_0_right)
  then show ?thesis
    using assms by (simp add: decode_backlen_def unat_of_nat)
qed


section \<open>Round trips\<close>

lemma load_u32_store [pack_simps]: "load_u32 (store_u32 w @ rest) = Some w"
  by (simp add: load_u32_def store_u32_def le_decode_encode)

lemma load_u64_store [pack_simps]: "load_u64 (store_u64 w @ rest) = Some w"
  by (simp add: load_u64_def store_u64_def le_decode_encode)

lemma length_store [pack_simps]: "length (store_u32 w) = 4" "length (store_u64 v) = 8"
  by (simp_all add: store_u32_def store_u64_def)

lemma text_at_append [pack_simps]: "text_at (length t) (t @ rest) = Some t"
  by (simp add: text_at_def)

lemma encode_element_body [pack_simps]:
  "encode_element e = encode_body e @ encode_backlen (length (encode_body e))"
  by (cases e)
    (simp_all add: encode_text_def encode_body_text_def encode_int_def encode_body_int_def
      Let_def pack_simps)

lemma length_encode_body:
  "length (encode_body_text t) = body_size_text t"
  "length (encode_body_int n) = body_size_int n"
  by (simp_all add: encode_body_text_def encode_body_int_def body_size_text_def body_size_int_def
      max_string_header_def pack_simps)

lemma length_encode_element:
  "length (encode_element (EString t)) = encoded_size_text t"
  "length (encode_element (EInteger n)) = encoded_size_int n"
  unfolding encode_element_body
  by (simp_all add: length_encode_body length_encode_backlen encoded_size_text_def
      encoded_size_int_def body_size_text_def body_size_int_def Let_def)

lemma header_and_payload_encode [pack_simps]:
  assumes "element_ok e"
  shows "header_and_payload (encode_body e @ rest) = Some (length (encode_body e))"
proof (cases e)
  case (EString t)
  with assms show ?thesis
    by (auto simp: header_and_payload_def encode_body_text_def short_tag tag_facts
        pack_simps max_string_header_def unat_of_nat)
qed (simp add: header_and_payload_def encode_body_int_def tag_facts pack_simps)

lemma decode_encode_body [pack_simps]:
  assumes "element_ok e"
  shows "decode (encode_body e @ rest) = Some e"
proof (cases e)
  case (EString t)
  with assms show ?thesis
    by (auto simp: decode_def encode_body_text_def short_tag tag_facts
        pack_simps unat_of_nat)
qed (simp add: decode_def encode_body_int_def tag_facts pack_simps)

lemma encode_body_bound: "element_ok e \<Longrightarrow> length (encode_body e) < 2 ^ 35"
  by (cases e) (auto simp: length_encode_body body_size_text_def body_size_int_def max_string_header_def)

lemma stride_encode [pack_simps]:
  "element_ok e \<Longrightarrow> stride (encode_element e @ rest) = Some (length (encode_element e))"
  by (simp add: stride_def encode_element_body header_and_payload_encode length_encode_backlen)

lemma decode_encode_element [pack_simps]:
  "element_ok e \<Longrightarrow> decode (encode_element e @ rest) = Some e"
  by (simp add: encode_element_body decode_encode_body)

text \<open>Reading the last element of a run from its end, as \<^verbatim>\<open>list_pop\<close> does.\<close>

lemma decode_backlen_element:
  assumes "element_ok e"
  shows "decode_backlen (pre @ encode_element e) (length pre + length (encode_element e))
       = Some (length (encode_body e))"
  using decode_backlen_encode [OF encode_body_bound [OF assms], of "pre @ encode_body e"]
  by (simp add: encode_element_body length_encode_backlen add.assoc)

text \<open>Overwriting later bytes does not change what the backward scan reads.\<close>

lemma decode_backlen_loop_append:
  "cursor \<le> length buf \<Longrightarrow>
   decode_backlen_loop (buf @ rest) cursor val sh = decode_backlen_loop buf cursor val sh"
  by (induction buf cursor val sh rule: decode_backlen_loop.induct)
    (simp_all add: nth_append Let_def)

section \<open>Properties\<close>

text \<open>
  C25. Every element (a string shorter than 4 GiB or a 64-bit integer) that \<^verbatim>\<open>pack::encode\<close>
  writes is read back by \<^verbatim>\<open>pack::decode\<close> from the position it was written at, whatever
  bytes follow, and \<^verbatim>\<open>pack::stride\<close> moves the cursor exactly past it.
\<close>

theorem pack_roundtrip:
  assumes "element_ok e"
  shows "decode (encode_element e @ rest) = Some e
       \<and> stride (encode_element e @ rest) = Some (length (encode_element e))
       \<and> decode (encode_body e @ rest) = Some e
       \<and> element_size (encode_body e @ rest) = Some (length (encode_body e))"
  using assms
  by (simp add: decode_encode_element stride_encode decode_encode_body element_size_def
      header_and_payload_encode)

theorem pack_roundtrip_witness:
  "decode (encode_element (EString [104, 105]) @ [7]) = Some (EString [104, 105])
   \<and> stride (encode_element (EString [104, 105]) @ [7]) = Some 4"
proof -
  have ok: "element_ok (EString [104, 105])" by simp
  have len: "length (encode_element (EString [104, 105])) = 4"
    by (simp add: encode_text_def encode_backlen_def Let_def)
  show ?thesis using pack_roundtrip [OF ok, of "[7]"] unfolding len by blast
qed

text \<open>
  Reading a run backwards is sound: from the end of a run whose last element is \<open>e\<close>,
  \<^verbatim>\<open>pack::decode_backlen\<close> finds the size of its body, the start computed from that size
  (and \<^verbatim>\<open>pack::backlen_bytes\<close>) is where \<open>e\<close> begins, and \<^verbatim>\<open>pack::decode\<close> there gives \<open>e\<close>;
  bytes after the end of the run play no part.
\<close>

lemma pack_pop_back:
  assumes "element_ok e" and "buf = pre @ encode_element e @ slack"
    and "fin = length pre + length (encode_element e)"
  shows "\<exists>payload. decode_backlen buf fin = Some payload
       \<and> payload + backlen_bytes payload = length (encode_element e)
       \<and> decode (drop (fin - (payload + backlen_bytes payload)) buf) = Some e"
proof (intro exI conjI)
  show "decode_backlen buf fin = Some (length (encode_body e))"
    using decode_backlen_element [OF assms(1), of pre]
      decode_backlen_loop_append [of fin "pre @ encode_element e" slack]
    by (simp add: decode_backlen_def assms(2,3))
  show full: "length (encode_body e) + backlen_bytes (length (encode_body e)) = length (encode_element e)"
    by (simp add: encode_element_body length_encode_backlen)
  show "decode (drop (fin - (length (encode_body e) + backlen_bytes (length (encode_body e)))) buf) = Some e"
    unfolding full using assms by (simp add: decode_encode_element)
qed

lemma pack_pop_back_witness:
  "decode_backlen (encode_element (EInteger 1) @ encode_element (EInteger 5) @ [9]) 20 = Some 9"
proof -
  let ?e = "EInteger 5"
  have ok: "element_ok ?e" by simp
  have len: "length (encode_element (EInteger n)) = 10" for n
    by (simp add: encode_int_def encode_backlen_def store_u64_def Let_def)
  have "20 = length (encode_element (EInteger 1)) + length (encode_element ?e)"
    by (simp only: len)
  from pack_pop_back [OF ok refl this, of "[9]"] obtain payload where
    p: "decode_backlen (encode_element (EInteger 1) @ encode_element ?e @ [9]) 20 = Some payload"
       "payload + backlen_bytes payload = 10"
    unfolding len by blast
  from p(2) have "payload = 9" by (simp add: backlen_bytes_def split: if_splits)
  with p(1) show ?thesis by simp
qed

text \<open>
  The sizes computed before writing (\<^verbatim>\<open>pack::encoded_size\<close>, \<^verbatim>\<open>pack::body_size\<close>), which
  the database uses to reserve space, are exactly the number of bytes the encoders write.
\<close>

lemma pack_sizes_exact:
  "length (encode_text t) = encoded_size_text t
   \<and> length (encode_int n) = encoded_size_int n
   \<and> length (encode_body_text t) = body_size_text t
   \<and> length (encode_body_int n) = body_size_int n"
  using length_encode_element length_encode_body by simp

end
