(* ===== verification/Lru.thy ===== *)
theory Lru
  imports Prelude
begin

text \<open>
  The least-recently-used list of the database (\<^verbatim>\<open>lru_head_\<close>, \<^verbatim>\<open>lru_tail_\<close> and the
  \<^verbatim>\<open>lru_previous\<close>/\<^verbatim>\<open>lru_next\<close> fields of \<^verbatim>\<open>Database::Node\<close> in \<^verbatim>\<open>src/database.hpp\<close>, with
  \<^verbatim>\<open>unlink_lru\<close>, \<^verbatim>\<open>touch\<close> and the relinking in \<^verbatim>\<open>grow_node\<close> of \<^verbatim>\<open>src/database.cpp\<close>). The
  intrusive pointers are kept as pointers: one map per field, indexed by node address,
  with \<^const>\<open>None\<close> for a null pointer. The relation \<open>dll\<close> says which list of addresses
  the pointers spell out.
\<close>

section \<open>Definitions\<close>

record lru =
  lru_head :: "addr option"
  lru_tail :: "addr option"
  lru_previous :: "addr \<Rightarrow> addr option"
  lru_next :: "addr \<Rightarrow> addr option"

definition lru_init :: lru where
  "lru_init = \<lparr>lru_head = None, lru_tail = None, lru_previous = (\<lambda>_. None), lru_next = (\<lambda>_. None)\<rparr>"

definition unlink_lru :: "addr \<Rightarrow> lru \<Rightarrow> lru" where
  "unlink_lru node s =
     (let s1 = (case lru_previous s node of
                  Some p \<Rightarrow> s\<lparr>lru_next := (lru_next s)(p := lru_next s node)\<rparr>
                | None \<Rightarrow> s\<lparr>lru_head := lru_next s node\<rparr>);
          s2 = (case lru_next s1 node of
                  Some n \<Rightarrow> s1\<lparr>lru_previous := (lru_previous s1)(n := lru_previous s1 node)\<rparr>
                | None \<Rightarrow> s1\<lparr>lru_tail := lru_previous s1 node\<rparr>)
      in s2\<lparr>lru_previous := (lru_previous s2)(node := None),
            lru_next := (lru_next s2)(node := None)\<rparr>)"

definition touch :: "addr \<Rightarrow> lru \<Rightarrow> lru" where
  "touch node s =
     (if lru_head s = Some node then s
      else
        let s1 = (if lru_previous s node \<noteq> None \<or> lru_next s node \<noteq> None \<or> lru_tail s = Some node
                  then unlink_lru node s else s);
            s2 = s1\<lparr>lru_next := (lru_next s1)(node := lru_head s1)\<rparr>;
            s3 = s2\<lparr>lru_previous := (lru_previous s2)(node := None)\<rparr>;
            s4 = (case lru_head s3 of
                    Some h \<Rightarrow> s3\<lparr>lru_previous := (lru_previous s3)(h := Some node)\<rparr>
                  | None \<Rightarrow> s3\<lparr>lru_tail := Some node\<rparr>)
        in s4\<lparr>lru_head := Some node\<rparr>)"

text \<open>
  The relinking step of \<^verbatim>\<open>grow_node\<close>: the block \<open>fresh\<close> takes over the links of \<open>node\<close>,
  and its neighbours (or the head and tail) are redirected to it.
\<close>

definition relink_lru :: "addr \<Rightarrow> addr \<Rightarrow> lru \<Rightarrow> lru" where
  "relink_lru node fresh s =
     (let s1 = s\<lparr>lru_previous := (lru_previous s)(fresh := lru_previous s node)\<rparr>;
          s2 = s1\<lparr>lru_next := (lru_next s1)(fresh := lru_next s1 node)\<rparr>;
          s3 = (case lru_previous s2 fresh of
                  Some p \<Rightarrow> s2\<lparr>lru_next := (lru_next s2)(p := Some fresh)\<rparr>
                | None \<Rightarrow> s2\<lparr>lru_head := Some fresh\<rparr>)
      in case lru_next s3 fresh of
           Some n \<Rightarrow> s3\<lparr>lru_previous := (lru_previous s3)(n := Some fresh)\<rparr>
         | None \<Rightarrow> s3\<lparr>lru_tail := Some fresh\<rparr>)"

text \<open>
  \<^verbatim>\<open>create_node\<close> clears the links of a new block before it is linked; the address may
  have belonged to another node before.
\<close>

definition clear_links :: "addr \<Rightarrow> lru \<Rightarrow> lru" where
  "clear_links node s =
     s\<lparr>lru_previous := (lru_previous s)(node := None), lru_next := (lru_next s)(node := None)\<rparr>"

section \<open>The list the pointers represent\<close>

definition opt_hd :: "'a list \<Rightarrow> 'a option" where
  "opt_hd xs = (case xs of [] \<Rightarrow> None | x # _ \<Rightarrow> Some x)"

definition opt_last :: "'a list \<Rightarrow> 'a option" where
  "opt_last xs = (if xs = [] then None else Some (last xs))"

definition or_else :: "'a option \<Rightarrow> 'a option \<Rightarrow> 'a option" where
  "or_else a b = (case a of None \<Rightarrow> b | Some x \<Rightarrow> Some x)"

fun dseg :: "(addr \<Rightarrow> addr option) \<Rightarrow> (addr \<Rightarrow> addr option) \<Rightarrow> addr option \<Rightarrow> addr list \<Rightarrow> addr option \<Rightarrow> bool"
where
  "dseg P N p [] q = True"
| "dseg P N p (x # xs) q = (P x = p \<and> N x = or_else (opt_hd xs) q \<and> dseg P N (Some x) xs q)"

definition dll :: "lru \<Rightarrow> addr list \<Rightarrow> bool" where
  "dll s xs \<longleftrightarrow>
     distinct xs \<and> lru_head s = opt_hd xs \<and> lru_tail s = opt_last xs \<and>
     dseg (lru_previous s) (lru_next s) None xs None"

lemma opt_simps [simp]:
  "opt_hd [] = None" "opt_hd (x # xs) = Some x"
  "opt_last [] = None" "opt_last (xs @ [y]) = Some y"
  "or_else None b = b" "or_else (Some z) b = Some z" "or_else a None = a"
  by (simp_all add: opt_hd_def opt_last_def or_else_def split: list.split option.split)

lemma opt_last_Cons [simp]: "opt_last (x # xs) = or_else (opt_last xs) (Some x)"
  by (simp add: opt_last_def or_else_def split: list.split)

lemma opt_hd_append [simp]: "opt_hd (xs @ ys) = or_else (opt_hd xs) (opt_hd ys)"
  by (cases xs) simp_all

lemma opt_last_append [simp]: "opt_last (xs @ ys) = or_else (opt_last ys) (opt_last xs)"
  by (cases ys rule: rev_cases) (simp_all flip: append_assoc)

lemma or_else_assoc [simp]: "or_else (or_else a b) c = or_else a (or_else b c)"
  by (cases a) simp_all

lemma dseg_append [simp]:
  "dseg P N p (xs @ ys) q \<longleftrightarrow>
     dseg P N p xs (or_else (opt_hd ys) q) \<and> dseg P N (or_else (opt_last xs) p) ys q"
  by (induction xs arbitrary: p) auto

lemma dseg_frame [simp]:
  "a \<notin> set xs \<Longrightarrow> dseg (P(a := v)) N p xs q = dseg P N p xs q"
  "a \<notin> set xs \<Longrightarrow> dseg P (N(a := v)) p xs q = dseg P N p xs q"
  by (induction xs arbitrary: p) auto


lemma opt_hd_in: "opt_hd xs = Some a \<Longrightarrow> a \<in> set xs"
  by (cases xs) auto

lemma opt_last_in: "opt_last xs = Some a \<Longrightarrow> a \<in> set xs"
  by (cases xs rule: rev_cases) auto

lemma dll_ends:
  assumes "dll s xs" "n \<notin> set xs"
  shows "lru_head s \<noteq> Some n" "lru_tail s \<noteq> Some n"
  using assms opt_hd_in [of xs n] opt_last_in [of xs n] by (auto simp: dll_def)

lemma dll_split:
  assumes "dll s (as @ n # bs)"
  shows "lru_previous s n = opt_last as" "lru_next s n = opt_hd bs"
  using assms by (auto simp: dll_def)

lemma dll_init [simp]: "dll lru_init []"
  by (simp add: dll_def lru_init_def)

lemma unlink_lru_dll:
  assumes "dll s (as @ n # bs)"
  shows "dll (unlink_lru n s) (as @ bs)"
  using assms
  by (cases as rule: rev_cases; cases bs)
    (auto simp: dll_def unlink_lru_def Let_def)

lemma unlink_lru_unlinked:
  "lru_previous (unlink_lru n s) n = None" "lru_next (unlink_lru n s) n = None"
  by (simp_all add: unlink_lru_def Let_def)

lemma unlink_lru_other:
  assumes "dll s (as @ n # bs)" "m \<notin> set (as @ n # bs)"
  shows "lru_previous (unlink_lru n s) m = lru_previous s m"
    "lru_next (unlink_lru n s) m = lru_next s m"
  using assms
  by (cases as rule: rev_cases; cases bs; auto simp: dll_def unlink_lru_def Let_def)+

lemma dll_push:
  assumes "dll s xs" "n \<notin> set xs"
  shows "dll (s\<lparr>lru_next := (lru_next s)(n := lru_head s),
               lru_previous := (case lru_head s of
                   Some h \<Rightarrow> ((lru_previous s)(n := None))(h := Some n)
                 | None \<Rightarrow> (lru_previous s)(n := None)),
               lru_tail := (case lru_head s of Some h \<Rightarrow> lru_tail s | None \<Rightarrow> Some n),
               lru_head := Some n\<rparr>) (n # xs)"
  using assms by (cases xs) (auto simp: dll_def)

lemma touch_cases:
  "touch n s =
     (if lru_head s = Some n then s
      else
        let s1 = (if lru_previous s n \<noteq> None \<or> lru_next s n \<noteq> None \<or> lru_tail s = Some n
                  then unlink_lru n s else s)
        in s1\<lparr>lru_next := (lru_next s1)(n := lru_head s1),
               lru_previous := (case lru_head s1 of
                   Some h \<Rightarrow> ((lru_previous s1)(n := None))(h := Some n)
                 | None \<Rightarrow> (lru_previous s1)(n := None)),
               lru_tail := (case lru_head s1 of Some h \<Rightarrow> lru_tail s1 | None \<Rightarrow> Some n),
               lru_head := Some n\<rparr>)"
  by (simp add: touch_def Let_def split: option.split)

lemma touch_linked:
  assumes "dll s (as @ n # bs)"
  shows "dll (touch n s) (n # as @ bs)"
proof (cases "lru_head s = Some n")
  case True
  with assms have "as = []" by (cases as) (auto simp: dll_def)
  with True assms show ?thesis by (simp add: touch_def)
next
  case False
  then have "as \<noteq> []" using assms by (auto simp: dll_def)
  then have "lru_previous s n \<noteq> None"
    using dll_split(1) [OF assms] by (simp add: opt_last_def)
  moreover have "n \<notin> set (as @ bs)" using assms by (auto simp: dll_def)
  ultimately show ?thesis
    using dll_push [OF unlink_lru_dll [OF assms]] False by (simp add: touch_cases Let_def)
qed

lemma touch_fresh:
  assumes "dll s xs" "n \<notin> set xs" "lru_previous s n = None" "lru_next s n = None"
  shows "dll (touch n s) (n # xs)"
  using dll_push [OF assms(1,2)] dll_ends [OF assms(1,2)] assms(3,4)
  by (simp add: touch_cases Let_def)

lemma touch_other:
  assumes "dll s (as @ n # bs)" "m \<notin> set (as @ n # bs)"
  shows "lru_previous (touch n s) m = lru_previous s m" "lru_next (touch n s) m = lru_next s m"
proof -
  note u = unlink_lru_dll [OF assms(1)] unlink_lru_other [OF assms]
  have h: "lru_head (unlink_lru n s) \<noteq> Some m" "lru_head s \<noteq> Some m"
    using dll_ends(1) [OF u(1), of m] dll_ends(1) [OF assms] assms(2) by auto
  then show "lru_previous (touch n s) m = lru_previous s m" "lru_next (touch n s) m = lru_next s m"
    using u(2,3) assms(2) by (auto simp: touch_cases Let_def split: option.split)
qed

lemma clear_links_dll:
  "dll s xs \<Longrightarrow> n \<notin> set xs \<Longrightarrow> dll (clear_links n s) xs"
  by (simp add: dll_def clear_links_def)

lemma clear_links_unlinked [simp]:
  "lru_previous (clear_links n s) n = None" "lru_next (clear_links n s) n = None"
  by (simp_all add: clear_links_def)

lemma relink_lru_dll:
  assumes "dll s (as @ n # bs)" "m \<notin> set (as @ n # bs)"
  shows "dll (relink_lru n m s) (as @ m # bs)"
  using assms
  by (cases as rule: rev_cases; cases bs)
    (auto simp: dll_def relink_lru_def Let_def)

lemma dll_unique: "dll s xs \<Longrightarrow> dll s ys \<Longrightarrow> xs = ys"
proof -
  have seg: "dseg P N p xs None \<Longrightarrow> dseg P N p' ys None \<Longrightarrow> opt_hd xs = opt_hd ys \<Longrightarrow> xs = ys"
    for P N p p' xs ys
  proof (induction xs arbitrary: p p' ys)
    case Nil
    then show ?case by (cases ys) auto
  next
    case (Cons x xs)
    then obtain ys' where ys: "ys = x # ys'" by (cases ys) auto
    have "xs = ys'" by (rule Cons.IH [of "Some x" "Some x"]) (use Cons.prems ys in auto)
    with ys show ?case by simp
  qed
  show "dll s xs \<Longrightarrow> dll s ys \<Longrightarrow> xs = ys"
    by (auto simp: dll_def intro: seg)
qed


section \<open>The recency contract\<close>

text \<open>
  What the eviction code relies on: an ordering of nodes, most recent first, in which
  \<^verbatim>\<open>touch\<close> moves a node to the front, \<^verbatim>\<open>unlink_lru\<close> drops one and the tail is the oldest.
\<close>

locale recency =
  fixes rep :: "'s \<Rightarrow> 'a list \<Rightarrow> bool"
    and touch_op :: "'a \<Rightarrow> 's \<Rightarrow> 's"
    and drop_op :: "'a \<Rightarrow> 's \<Rightarrow> 's"
    and oldest :: "'s \<Rightarrow> 'a option"
  assumes rep_distinct: "rep s xs \<Longrightarrow> distinct xs"
    and rep_touch: "rep s xs \<Longrightarrow> n \<in> set xs \<Longrightarrow> rep (touch_op n s) (n # remove1 n xs)"
    and rep_drop: "rep s xs \<Longrightarrow> n \<in> set xs \<Longrightarrow> rep (drop_op n s) (remove1 n xs)"
    and rep_oldest: "rep s xs \<Longrightarrow> oldest s = (if xs = [] then None else Some (last xs))"
begin

lemma remove1_rep: "rep s xs \<Longrightarrow> remove1 n xs = filter (\<lambda>x. x \<noteq> n) xs"
  using rep_distinct [of s xs] by (simp add: distinct_remove1_removeAll removeAll_filter_not_eq)
    (metis (mono_tags, lifting) filter_cong)

lemma touches_rep:
  assumes "rep s xs" "set ns \<subseteq> set xs"
  shows "\<exists>front. rep (fold touch_op ns s) (front @ filter (\<lambda>x. x \<notin> set ns) xs) \<and> set front = set ns"
  using assms
proof (induction ns arbitrary: s xs)
  case Nil
  then show ?case by simp
next
  case (Cons n ns)
  let ?xs = "n # filter (\<lambda>x. x \<noteq> n) xs"
  have r: "rep (touch_op n s) ?xs"
    using rep_touch [of s xs n] Cons.prems by (simp add: remove1_rep)
  have "set ns \<subseteq> set ?xs" using Cons.prems by auto
  from Cons.IH [OF r this] obtain front where
    f: "rep (fold touch_op ns (touch_op n s)) (front @ filter (\<lambda>x. x \<notin> set ns) ?xs)" "set front = set ns"
    by blast
  have eq: "filter (\<lambda>x. x \<notin> set ns) (filter (\<lambda>x. x \<noteq> n) xs) = filter (\<lambda>x. x \<notin> set (n # ns)) xs"
    by (auto intro: filter_cong)
  show ?case
  proof (cases "n \<in> set ns")
    case True
    with f eq show ?thesis by (intro exI [of _ front]) auto
  next
    case False
    with f eq show ?thesis by (intro exI [of _ "front @ [n]"]) auto
  qed
qed

text \<open>As long as some linked node was not touched, the oldest node is an untouched one.\<close>

lemma oldest_untouched:
  assumes "rep s xs" "set ns \<subseteq> set xs" "m \<in> set xs" "m \<notin> set ns" "oldest (fold touch_op ns s) = Some v"
  shows "v \<in> set xs \<and> v \<notin> set ns \<and> v = last (filter (\<lambda>x. x \<notin> set ns) xs)"
proof -
  let ?rest = "filter (\<lambda>x. x \<notin> set ns) xs"
  obtain front where r: "rep (fold touch_op ns s) (front @ ?rest)" using touches_rep [OF assms(1,2)] by blast
  have ne: "?rest \<noteq> []" using assms(3,4) by (auto simp: filter_empty_conv)
  then have "v = last ?rest" using rep_oldest [OF r] assms(5) by simp
  moreover have "last ?rest \<in> set ?rest" using ne by (rule last_in_set)
  ultimately show ?thesis by auto
qed

end

interpretation lru_ptr: recency dll touch unlink_lru lru_tail
proof unfold_locales
  fix s xs n
  assume r: "dll s xs"
  show "distinct xs" using r by (simp add: dll_def)
  show "lru_tail s = (if xs = [] then None else Some (last xs))"
    using r by (simp add: dll_def opt_last_def)
  assume "n \<in> set xs"
  then obtain as bs where xs: "xs = as @ n # bs" "n \<notin> set as" by (meson split_list_first)
  then show "dll (touch n s) (n # remove1 n xs)" "dll (unlink_lru n s) (remove1 n xs)"
    using r touch_linked unlink_lru_dll by (simp_all add: remove1_append)
qed

section \<open>Properties\<close>

text \<open>
  C23. The pointer surgery of \<^verbatim>\<open>unlink_lru\<close> and \<^verbatim>\<open>touch\<close> implements the list operations: if the
  \<^verbatim>\<open>lru_previous\<close>/\<^verbatim>\<open>lru_next\<close> pointers, head and tail spell out the list \<open>xs\<close> and \<open>n\<close> is in
  it, unlinking leaves the list without \<open>n\<close> and touching moves \<open>n\<close> to the front; a node
  that is not linked and whose links are null is added at the front, and the block that
  replaces \<open>n\<close> in \<^verbatim>\<open>grow_node\<close> takes exactly its place.
\<close>

theorem lru_refines_list:
  assumes "dll s xs"
  shows "(n \<in> set xs \<longrightarrow>
            dll (unlink_lru n s) (remove1 n xs) \<and> dll (touch n s) (n # remove1 n xs)
            \<and> (m \<notin> set xs \<longrightarrow> dll (relink_lru n m s) (map (\<lambda>x. if x = n then m else x) xs)))
       \<and> (n \<notin> set xs \<longrightarrow> dll (touch n (clear_links n s)) (n # xs))"
proof (cases "n \<in> set xs")
  case True
  have d: "distinct xs" using assms by (simp add: dll_def)
  obtain as bs where xs: "xs = as @ n # bs" using True by (meson split_list)
  have "map (\<lambda>x. if x = n then m else x) xs = as @ m # bs"
    using d xs by (auto intro: map_idI)
  then have "m \<notin> set xs \<Longrightarrow> dll (relink_lru n m s) (map (\<lambda>x. if x = n then m else x) xs)"
    using relink_lru_dll [of s as n bs m] assms xs by simp
  then show ?thesis
    using lru_ptr.rep_drop [OF assms True] lru_ptr.rep_touch [OF assms True] True by blast
next
  case False
  then show ?thesis
    using touch_fresh [OF clear_links_dll [OF assms]] by simp
qed

theorem lru_refines_list_witness:
  "dll (touch 2 (clear_links 2 (touch 1 (clear_links 1 lru_init)))) [2, 1]
   \<and> dll (touch 1 (touch 2 (clear_links 2 (touch 1 (clear_links 1 lru_init))))) [1, 2]"
proof -
  have a: "dll (touch 1 (clear_links 1 lru_init)) [1]"
    using lru_refines_list [OF dll_init, of 1] by simp
  have b: "dll (touch 2 (clear_links 2 (touch 1 (clear_links 1 lru_init)))) [2, 1]"
    using lru_refines_list [OF a, of 2] by simp
  show ?thesis using b lru_refines_list [OF b, of 1] by simp
qed

text \<open>
  The LRU policy: starting from the order \<open>xs\<close> (most recent first), after any sequence of
  touches the node that eviction picks (the tail) is one that was not touched, as long as
  such a node exists, and among the untouched nodes it is the one that was oldest before.
\<close>

lemma lru_victim_untouched:
  assumes "dll s xs" "set ns \<subseteq> set xs" "m \<in> set xs" "m \<notin> set ns"
  shows "lru_tail (fold touch ns s) = Some (last (filter (\<lambda>x. x \<notin> set ns) xs))
       \<and> last (filter (\<lambda>x. x \<notin> set ns) xs) \<notin> set ns"
proof -
  obtain front where r: "dll (fold touch ns s) (front @ filter (\<lambda>x. x \<notin> set ns) xs)"
    using lru_ptr.touches_rep [OF assms(1,2)] by blast
  have "front @ filter (\<lambda>x. x \<notin> set ns) xs \<noteq> []" using assms(3,4) by (auto simp: filter_empty_conv)
  then obtain v where v: "lru_tail (fold touch ns s) = Some v"
    using lru_ptr.rep_oldest [OF r] by auto
  from lru_ptr.oldest_untouched [OF assms this] v show ?thesis by blast
qed

lemma lru_victim_untouched_witness:
  "lru_tail (fold touch [1, 2, 1] (fold (\<lambda>n s. touch n (clear_links n s)) [1, 3, 2] lru_init)) = Some 3"
proof -
  have a: "dll (touch 1 (clear_links 1 lru_init)) [1]"
    using touch_fresh [OF clear_links_dll [OF dll_init, of 1]] by simp
  have b: "dll (touch 3 (clear_links 3 (touch 1 (clear_links 1 lru_init)))) [3, 1]"
    using touch_fresh [OF clear_links_dll [OF a, of 3]] by simp
  have c: "dll (fold (\<lambda>n s. touch n (clear_links n s)) [1, 3, 2] lru_init) [2, 3, 1]"
    using touch_fresh [OF clear_links_dll [OF b, of 2]] by simp
  show ?thesis using lru_victim_untouched [OF c, of "[1, 2, 1]" 3] by simp
qed

end
