(* ===== verification/Expiry.thy ===== *)
theory Expiry
  imports Prelude
begin

text \<open>
  The expiry schedule of the database: the map \<^verbatim>\<open>expiries_\<close> from nodes to deadlines and heap
  positions and the binary min-heap \<^verbatim>\<open>expiry_heap_\<close> of nodes (\<^verbatim>\<open>src/database.hpp\<close>), with
  \<^verbatim>\<open>heap_fix\<close>, \<^verbatim>\<open>clear_expiry\<close>, \<^verbatim>\<open>schedule_expiry\<close> and the rekeying in \<^verbatim>\<open>commit_node\<close> and
  \<^verbatim>\<open>grow_node\<close> (\<^verbatim>\<open>src/database.cpp\<close>). A deadline is a 64-bit millisecond count, here an
  integer. The TTL flag of the node and the counters derived from the heap size belong to
  the database theory, which calls these operations.
\<close>

section \<open>Definitions\<close>

record expiry =
  deadline :: int
  index :: nat

record schedule =
  expiries :: "addr \<rightharpoonup> expiry"
  expiry_heap :: "addr list"

definition schedule_init :: schedule where
  "schedule_init = \<lparr>expiries = Map.empty, expiry_heap = []\<rparr>"

text \<open>
  The deadline of a node; \<^verbatim>\<open>expiries_.find(node)->second\<close> on a node without an entry is
  undefined in C++ and excluded by the invariant \<open>sched_inv\<close> below.
\<close>

definition deadline_of :: "schedule \<Rightarrow> addr \<Rightarrow> int" where
  "deadline_of s n = (case expiries s n of Some e \<Rightarrow> deadline e | None \<Rightarrow> 0)"

definition heap_less :: "schedule \<Rightarrow> nat \<Rightarrow> nat \<Rightarrow> bool" where
  "heap_less s a b \<longleftrightarrow> deadline_of s (expiry_heap s ! a) < deadline_of s (expiry_heap s ! b)"

definition set_index :: "addr \<Rightarrow> nat \<Rightarrow> schedule \<Rightarrow> schedule" where
  "set_index n i s =
     s\<lparr>expiries := (expiries s)(n := map_option (\<lambda>e. e\<lparr>index := i\<rparr>) (expiries s n))\<rparr>"

definition heap_swap :: "nat \<Rightarrow> nat \<Rightarrow> schedule \<Rightarrow> schedule" where
  "heap_swap a b s =
     (let h = expiry_heap s;
          s1 = s\<lparr>expiry_heap := h[a := h ! b, b := h ! a]\<rparr>;
          s2 = set_index (expiry_heap s1 ! a) a s1
      in set_index (expiry_heap s2 ! b) b s2)"

lemma heap_swap_heap [simp]:
  "expiry_heap (heap_swap a b s) = (expiry_heap s)[a := expiry_heap s ! b, b := expiry_heap s ! a]"
  by (simp add: heap_swap_def set_index_def Let_def)

fun heap_up :: "nat \<Rightarrow> schedule \<Rightarrow> nat \<times> schedule" where
  "heap_up i s =
     (if i \<noteq> 0 \<and> heap_less s i ((i - 1) div 2)
      then heap_up ((i - 1) div 2) (heap_swap i ((i - 1) div 2) s)
      else (i, s))"

function heap_down :: "nat \<Rightarrow> schedule \<Rightarrow> schedule" where
  "heap_down i s =
     (if i * 2 + 1 < length (expiry_heap s) then
        let c = i * 2 + 1;
            child = (if c + 1 < length (expiry_heap s) \<and> heap_less s (c + 1) c then c + 1 else c)
        in if \<not> heap_less s child i then s else heap_down child (heap_swap child i s)
      else s)"
  by pat_completeness auto
termination
  by (relation "measure (\<lambda>(i, s). length (expiry_heap s) - i)") (auto simp: Let_def)

declare heap_up.simps [simp del] heap_down.simps [simp del]

definition heap_fix :: "nat \<Rightarrow> schedule \<Rightarrow> schedule" where
  "heap_fix i s = (case heap_up i s of (j, s') \<Rightarrow> heap_down j s')"

definition sched_clear :: "addr \<Rightarrow> schedule \<Rightarrow> schedule" where
  "sched_clear n s =
     (case expiries s n of
        None \<Rightarrow> s
      | Some e \<Rightarrow>
          let i = index e;
              l = last (expiry_heap s);
              s1 = s\<lparr>expiry_heap := butlast (expiry_heap s)\<rparr>;
              s2 = s1\<lparr>expiries := (expiries s1)(n := None)\<rparr>
          in if i < length (expiry_heap s2)
             then heap_fix i (set_index l i (s2\<lparr>expiry_heap := (expiry_heap s2)[i := l]\<rparr>))
             else s2)"

definition sched_add :: "addr \<Rightarrow> int \<Rightarrow> schedule \<Rightarrow> schedule" where
  "sched_add n d s =
     (case expiries s n of
        None \<Rightarrow>
          let i = length (expiry_heap s)
          in heap_fix i (s\<lparr>expiries := (expiries s)(n \<mapsto> \<lparr>deadline = d, index = i\<rparr>),
                            expiry_heap := expiry_heap s @ [n]\<rparr>)
      | Some e \<Rightarrow>
          heap_fix (index e) (s\<lparr>expiries := (expiries s)(n \<mapsto> e\<lparr>deadline := d\<rparr>)\<rparr>))"

text \<open>The entry of a node moves to the block that replaces it.\<close>

definition sched_rekey :: "addr \<Rightarrow> addr \<Rightarrow> schedule \<Rightarrow> schedule" where
  "sched_rekey old fresh s =
     (case expiries s old of
        None \<Rightarrow> s
      | Some e \<Rightarrow>
          s\<lparr>expiry_heap := (expiry_heap s)[index e := fresh],
            expiries := ((expiries s)(old := None))(fresh \<mapsto> e)\<rparr>)"

text \<open>\<^verbatim>\<open>expiry_heap_.front()\<close> behind the \<^verbatim>\<open>empty()\<close> test of \<^verbatim>\<open>remove_expired_locked\<close>.\<close>

definition sched_front :: "schedule \<Rightarrow> addr option" where
  "sched_front s = (case expiry_heap s of [] \<Rightarrow> None | n # _ \<Rightarrow> Some n)"

text \<open>What the schedule stands for, and its invariant.\<close>

definition deadlines :: "schedule \<Rightarrow> addr \<rightharpoonup> int" where
  "deadlines s n = map_option deadline (expiries s n)"

definition indexed :: "schedule \<Rightarrow> bool" where
  "indexed s \<longleftrightarrow>
     (\<forall>i < length (expiry_heap s). \<exists>e. expiries s (expiry_heap s ! i) = Some e \<and> index e = i)
     \<and> (\<forall>n e. expiries s n = Some e \<longrightarrow>
          index e < length (expiry_heap s) \<and> expiry_heap s ! index e = n)"

definition parent :: "nat \<Rightarrow> nat" where
  "parent i = (i - 1) div 2"

definition heap_key :: "schedule \<Rightarrow> nat \<Rightarrow> int" where
  "heap_key s i = deadline_of s (expiry_heap s ! i)"

definition heap_ordered :: "nat \<Rightarrow> (nat \<Rightarrow> int) \<Rightarrow> bool" where
  "heap_ordered n f \<longleftrightarrow> (\<forall>j. 0 < j \<and> j < n \<longrightarrow> f (parent j) \<le> f j)"

text \<open>Ordered everywhere but at \<open>i\<close>, and ordered across \<open>i\<close>.\<close>

definition heap_except :: "nat \<Rightarrow> (nat \<Rightarrow> int) \<Rightarrow> nat \<Rightarrow> bool" where
  "heap_except n f i \<longleftrightarrow>
     (\<forall>j. 0 < j \<and> j < n \<and> j \<noteq> i \<and> parent j \<noteq> i \<longrightarrow> f (parent j) \<le> f j)
     \<and> (\<forall>j. 0 < j \<and> j < n \<and> parent j = i \<and> 0 < i \<longrightarrow> f (parent i) \<le> f j)"

definition sched_inv :: "schedule \<Rightarrow> bool" where
  "sched_inv s \<longleftrightarrow> indexed s \<and> heap_ordered (length (expiry_heap s)) (heap_key s)"

section \<open>Sifting over a function of positions\<close>

lemma parent_less [simp]: "0 < i \<Longrightarrow> parent i < i"
  by (simp add: parent_def)

lemma parent_bound [simp]: "0 < i \<Longrightarrow> i < n \<Longrightarrow> parent i < n"
  using parent_less less_trans by blast

lemma parent_neq [simp]: "0 < i \<Longrightarrow> parent i \<noteq> i" "0 < i \<Longrightarrow> i \<noteq> parent i"
  using parent_less by (metis less_irrefl)+

lemma parent_child: "0 < j \<Longrightarrow> parent j = i \<longleftrightarrow> j = i * 2 + 1 \<or> j = i * 2 + 2"
  by (auto simp: parent_def)

lemma except_up:
  assumes "heap_except n f i" "0 < i" "i < n" "f i < f (parent i)"
  shows "heap_except n (f(i := f (parent i), parent i := f i)) (parent i)"
proof -
  let ?p = "parent i" and ?g = "f(i := f (parent i), parent i := f i)"
  have pl: "?p < i" using assms(2) by simp
  have old: "f (parent j) \<le> f j" if "0 < j" "j < n" "j \<noteq> i" "parent j \<noteq> i" for j
    using assms(1) that by (auto simp: heap_except_def)
  have gp: "f ?p \<le> f j" if "0 < j" "j < n" "parent j = i" for j
    using assms(1,2) that by (auto simp: heap_except_def)
  have "?g (parent j) \<le> ?g j" if j: "0 < j" "j < n" "j \<noteq> ?p" "parent j \<noteq> ?p" for j
  proof (cases "parent j = i")
    case True
    have "j \<noteq> i" using j(1) True parent_less [of j] by auto
    then show ?thesis using gp [OF j(1,2) True] True j pl by simp
  next
    case False
    have "j \<noteq> i" using j(4) by auto
    then show ?thesis using old [OF j(1,2)] False j by auto
  qed
  moreover have "?g (parent ?p) \<le> ?g j" if j: "0 < j" "j < n" "parent j = ?p" "0 < ?p" for j
  proof -
    have pp: "parent ?p < ?p" using j(4) by simp
    have up: "f (parent ?p) \<le> f ?p" using old [of ?p] j(4) pl pp assms(3) by auto
    show ?thesis
    proof (cases "j = i")
      case True
      then show ?thesis using up pp pl by auto
    next
      case False
      have "j \<noteq> ?p" using j(1,3) parent_less [of j] by auto
      then show ?thesis using up old [OF j(1,2) False] j(3) pl pp False by auto
    qed
  qed
  ultimately show ?thesis by (auto simp: heap_except_def)
qed

lemma except_down:
  assumes "heap_except n f i" "i = 0 \<or> f (parent i) \<le> f i"
    and "0 < c" "c < n" "parent c = i" "f c < f i"
    and min: "\<And>j. 0 < j \<Longrightarrow> j < n \<Longrightarrow> parent j = i \<Longrightarrow> f c \<le> f j"
  shows "heap_except n (f(c := f i, i := f c)) c"
proof -
  let ?g = "f(c := f i, i := f c)"
  have ci: "i < c" using assms(3,5) parent_less [of c] by auto
  have old: "f (parent j) \<le> f j" if "0 < j" "j < n" "j \<noteq> i" "parent j \<noteq> i" for j
    using assms(1) that by (auto simp: heap_except_def)
  have "?g (parent j) \<le> ?g j" if j: "0 < j" "j < n" "j \<noteq> c" "parent j \<noteq> c" for j
  proof (cases "parent j = i")
    case True
    have "j \<noteq> i" using j(1) True parent_less [of j] by auto
    then show ?thesis using min [OF j(1,2) True] True j(3) ci by simp
  next
    case False
    show ?thesis
    proof (cases "j = i")
      case True
      have "f (parent i) \<le> f c"
        using assms(1,3,4,5) True j(1) by (auto simp: heap_except_def)
      then show ?thesis using True j ci False by auto
    next
      case ji: False
      show ?thesis using old [OF j(1,2) ji False] ji False j by auto
    qed
  qed
  moreover have "?g (parent c) \<le> ?g j" if j: "0 < j" "j < n" "parent j = c" for j
  proof -
    have "j \<noteq> i" "j \<noteq> c" using j ci parent_less [of j] by auto
    then show ?thesis using old [of j] j ci assms(5) by auto
  qed
  ultimately show ?thesis by (auto simp: heap_except_def)
qed

lemma except_done:
  assumes "heap_except n f i" "i = 0 \<or> f (parent i) \<le> f i"
    and "\<And>j. 0 < j \<Longrightarrow> j < n \<Longrightarrow> parent j = i \<Longrightarrow> f i \<le> f j"
  shows "heap_ordered n f"
proof -
  have "f (parent j) \<le> f j" if "0 < j" "j < n" for j
  proof (cases "parent j = i \<or> j = i")
    case True
    then show ?thesis using assms(2,3) that by auto
  next
    case False
    then show ?thesis using assms(1) that by (auto simp: heap_except_def)
  qed
  then show ?thesis by (simp add: heap_ordered_def)
qed

lemma ordered_min: "heap_ordered n f \<Longrightarrow> j < n \<Longrightarrow> f 0 \<le> f j"
proof (induction j rule: less_induct)
  case (less j)
  show ?case
  proof (cases "j = 0")
    case False
    then have "f 0 \<le> f (parent j)" using less by (auto intro: less.IH)
    also have "\<dots> \<le> f j" using less.prems False by (simp add: heap_ordered_def)
    finally show ?thesis .
  qed simp
qed


section \<open>Sifting the heap\<close>

lemma deadlines_set_index [simp]: "deadlines (set_index n i s) = deadlines s"
  by (auto simp: deadlines_def set_index_def option.map_comp comp_def)

lemma deadline_of_deadlines: "deadline_of s n = (case deadlines s n of Some d \<Rightarrow> d | None \<Rightarrow> 0)"
  by (simp add: deadline_of_def deadlines_def split: option.split)

lemma deadlines_heap_update [simp]: "deadlines (s\<lparr>expiry_heap := h\<rparr>) = deadlines s"
  by (auto simp: deadlines_def)

lemma deadlines_heap_swap [simp]: "deadlines (heap_swap a b s) = deadlines s"
  by (simp add: heap_swap_def Let_def)

lemma heap_key_swap:
  assumes "a < length (expiry_heap s)" "b < length (expiry_heap s)"
  shows "heap_key (heap_swap a b s) = (heap_key s)(a := heap_key s b, b := heap_key s a)"
  using assms by (auto simp: heap_key_def deadline_of_deadlines nth_list_update)

lemma indexed_nth:
  assumes "indexed s" "i < length (expiry_heap s)"
  shows "\<exists>e. expiries s (expiry_heap s ! i) = Some e \<and> index e = i"
  using assms by (auto simp: indexed_def)

lemma indexed_distinct:
  assumes "indexed s"
  shows "distinct (expiry_heap s)"
  unfolding distinct_conv_nth using indexed_nth [OF assms] by (metis option.inject)

lemma expiries_heap_swap:
  assumes "indexed s" "a < length (expiry_heap s)" "b < length (expiry_heap s)" "a \<noteq> b"
  shows "expiries (heap_swap a b s) n =
     (if n = expiry_heap s ! b then map_option (\<lambda>e. e\<lparr>index := a\<rparr>) (expiries s n)
      else if n = expiry_heap s ! a then map_option (\<lambda>e. e\<lparr>index := b\<rparr>) (expiries s n)
      else expiries s n)"
proof -
  have "expiry_heap s ! a \<noteq> expiry_heap s ! b"
    using indexed_distinct [OF assms(1)] assms(2-4) by (simp add: nth_eq_iff_index_eq)
  then show ?thesis
    using assms(2-4) by (auto simp: heap_swap_def set_index_def Let_def)
qed

lemma indexed_heap_swap:
  assumes "indexed s" "a < length (expiry_heap s)" "b < length (expiry_heap s)" "a \<noteq> b"
  shows "indexed (heap_swap a b s)"
proof -
  let ?h = "expiry_heap s" and ?t = "heap_swap a b s"
  have d: "distinct ?h" by (rule indexed_distinct [OF assms(1)])
  note ne = nth_eq_iff_index_eq [OF d]
  have "\<exists>e. expiries ?t (expiry_heap ?t ! i) = Some e \<and> index e = i" if i: "i < length ?h" for i
  proof -
    let ?k = "if i = a then b else if i = b then a else i"
    have "?k < length ?h" using assms(2,3) i by simp
    then obtain e where "expiries s (?h ! ?k) = Some e" using indexed_nth [OF assms(1)] by blast
    moreover obtain e' where "expiries s (?h ! i) = Some e'" "index e' = i"
      using indexed_nth [OF assms(1) i] by auto
    ultimately show ?thesis
      using i assms(2-4) ne [of i a] ne [of i b] ne [of a b]
      by (auto simp: expiries_heap_swap [OF assms] nth_list_update split: if_splits)
  qed
  moreover have "index e < length (expiry_heap ?t) \<and> expiry_heap ?t ! index e = n"
    if "expiries ?t n = Some e" for n e
    using that assms unfolding indexed_def
    by (auto simp: expiries_heap_swap [OF assms] nth_list_update split: if_splits)
  ultimately show ?thesis unfolding indexed_def by simp
qed

lemma heap_up_correct:
  assumes "heap_up i s = (j, t)" "i < length (expiry_heap s)" "indexed s"
    and "heap_except (length (expiry_heap s)) (heap_key s) i"
  shows "indexed t \<and> deadlines t = deadlines s \<and> length (expiry_heap t) = length (expiry_heap s)
       \<and> j < length (expiry_heap t) \<and> heap_except (length (expiry_heap t)) (heap_key t) j
       \<and> (j = 0 \<or> heap_key t (parent j) \<le> heap_key t j)"
  using assms
proof (induction i s rule: heap_up.induct)
  case (1 i s)
  show ?case
  proof (cases "i \<noteq> 0 \<and> heap_less s i ((i - 1) div 2)")
    case True
    let ?u = "heap_swap i (parent i) s"
    have lt: "heap_key s i < heap_key s (parent i)" and i: "0 < i"
      using True by (simp_all add: heap_less_def heap_key_def parent_def)
    have p: "parent i < length (expiry_heap s)" "parent i \<noteq> i"
      using "1.prems"(2) parent_less [OF i] by simp_all
    have "heap_up (parent i) ?u = (j, t)"
      using "1.prems"(1) True by (simp add: heap_up.simps [of i s] parent_def)
    moreover have "indexed ?u" using "1.prems" p i by (intro indexed_heap_swap) auto
    moreover have "heap_except (length (expiry_heap ?u)) (heap_key ?u) (parent i)"
      using except_up [OF "1.prems"(4) i "1.prems"(2) lt] "1.prems"(2) p by (simp add: heap_key_swap)
    ultimately have "indexed t \<and> deadlines t = deadlines ?u
        \<and> length (expiry_heap t) = length (expiry_heap ?u) \<and> j < length (expiry_heap t)
        \<and> heap_except (length (expiry_heap t)) (heap_key t) j
        \<and> (j = 0 \<or> heap_key t (parent j) \<le> heap_key t j)"
      by (intro "1.IH" [OF True, folded parent_def]) (simp_all add: p)
    then show ?thesis by (elim conjE) simp
  next
    case False
    then have "j = i" "t = s" using "1.prems"(1) by (auto simp: heap_up.simps [of i s])
    then show ?thesis using "1.prems" False
      by (auto simp: heap_less_def heap_key_def parent_def)
  qed
qed

lemma heap_down_correct:
  assumes "i < length (expiry_heap s)" "indexed s"
    and "heap_except (length (expiry_heap s)) (heap_key s) i"
    and "i = 0 \<or> heap_key s (parent i) \<le> heap_key s i"
  shows "sched_inv (heap_down i s) \<and> deadlines (heap_down i s) = deadlines s
       \<and> length (expiry_heap (heap_down i s)) = length (expiry_heap s)"
  using assms
proof (induction i s rule: heap_down.induct)
  case (1 i s)
  let ?n = "length (expiry_heap s)" and ?c = "i * 2 + 1"
  define child where "child = (if ?c + 1 < ?n \<and> heap_less s (?c + 1) ?c then ?c + 1 else ?c)"
  show ?case
  proof (cases "?c < ?n")
    case False
    have "heap_ordered ?n (heap_key s)"
      using False by (intro except_done [OF "1.prems"(3,4)]) (auto simp: parent_child)
    then show ?thesis using False "1.prems"(2) by (simp add: heap_down.simps [of i s] sched_inv_def)
  next
    case c: True
    have child: "0 < child" "child < ?n" "parent child = i" "i < child"
      using c by (auto simp: parent_def child_def)
    have min: "heap_key s child \<le> heap_key s j" if "0 < j" "j < ?n" "parent j = i" for j
      using that by (auto simp: parent_child heap_less_def heap_key_def child_def)
    have unf: "heap_down i s =
        (if \<not> heap_less s child i then s else heap_down child (heap_swap child i s))"
      using c by (simp only: heap_down.simps [of i s] Let_def if_True child_def)
    show ?thesis
    proof (cases "heap_less s child i")
      case False
      then have "heap_key s i \<le> heap_key s child" by (simp add: heap_less_def heap_key_def)
      then have "heap_ordered ?n (heap_key s)"
        by (rule except_done [OF "1.prems"(3,4) order_trans [OF _ min]])
      with False show ?thesis using "1.prems"(2) by (simp add: sched_inv_def unf)
    next
      case True
      let ?u = "heap_swap child i s"
      have lt: "heap_key s child < heap_key s i" using True by (simp add: heap_less_def heap_key_def)
      have key: "heap_key ?u = (heap_key s)(child := heap_key s i, i := heap_key s child)"
        by (rule heap_key_swap) (use child "1.prems"(1) in auto)
      have ex: "heap_except ?n (heap_key ?u) child"
        unfolding key by (rule except_down [OF "1.prems"(3,4) child(1-3) lt min])
      have idx: "indexed ?u" by (rule indexed_heap_swap) (use child "1.prems" in auto)
      have par: "heap_key ?u (parent child) \<le> heap_key ?u child"
        using lt child(4) by (simp add: key child(3))
      have "sched_inv (heap_down child ?u) \<and> deadlines (heap_down child ?u) = deadlines ?u
          \<and> length (expiry_heap (heap_down child ?u)) = length (expiry_heap ?u)"
        by (rule "1.IH" [OF c refl child_def]) (use True child ex idx par in simp_all)
      with True show ?thesis by (simp add: unf)
    qed
  qed
qed

lemma heap_fix_correct:
  assumes "i < length (expiry_heap s)" "indexed s"
    and "heap_except (length (expiry_heap s)) (heap_key s) i"
  shows "sched_inv (heap_fix i s) \<and> deadlines (heap_fix i s) = deadlines s
       \<and> length (expiry_heap (heap_fix i s)) = length (expiry_heap s)"
proof -
  obtain j t where jt: "heap_up i s = (j, t)" by (cases "heap_up i s")
  note up = heap_up_correct [OF jt assms]
  have "sched_inv (heap_down j t) \<and> deadlines (heap_down j t) = deadlines t
      \<and> length (expiry_heap (heap_down j t)) = length (expiry_heap t)"
    by (rule heap_down_correct) (use up in blast)+
  with up show ?thesis by (simp add: heap_fix_def jt)
qed


section \<open>The operations\<close>

lemma ordered_except:
  assumes "heap_ordered n f" "m \<le> n" "\<And>j. j < m \<Longrightarrow> j \<noteq> i \<Longrightarrow> g j = f j" "i < m"
  shows "heap_except m g i"
proof -
  have o: "f (parent j) \<le> f j" if "0 < j" "j < m" for j
    using assms(1,2) that by (simp add: heap_ordered_def)
  have "g (parent j) \<le> g j" if "0 < j" "j < m" "j \<noteq> i" "parent j \<noteq> i" for j
    using o [OF that(1,2)] assms(3) [of j] assms(3) [of "parent j"] that parent_less [of j] by simp
  moreover have "g (parent i) \<le> g j" if "0 < j" "j < m" "parent j = i" "0 < i" for j
  proof -
    have "parent i < i" "i < j" using that parent_less [of j] by auto
    moreover have "f (parent i) \<le> f j" using o [of i] o [of j] that assms(4) by simp
    ultimately show ?thesis using assms(3) [of j] assms(3) [of "parent i"] that by simp
  qed
  ultimately show ?thesis by (simp add: heap_except_def)
qed

lemma ordered_except_new:
  assumes "heap_ordered n f" "\<And>j. j < n \<Longrightarrow> g j = f j"
  shows "heap_except (Suc n) g n"
proof -
  have "g (parent j) \<le> g j" if "0 < j" "j < n" for j
    using assms that parent_less [of j] by (simp add: heap_ordered_def)
  moreover have "parent j \<noteq> n" if "0 < j" "j < Suc n" for j
    using parent_less [OF that(1)] that(2) by linarith
  ultimately show ?thesis by (auto simp: heap_except_def less_Suc_eq)
qed

lemma indexedI:
  assumes "\<And>i. i < length (expiry_heap s) \<Longrightarrow>
      \<exists>e. expiries s (expiry_heap s ! i) = Some e \<and> index e = i"
    and "\<And>n. expiries s n \<noteq> None \<Longrightarrow> n \<in> set (expiry_heap s)"
  shows "indexed s"
  using assms unfolding indexed_def by (metis in_set_conv_nth option.distinct(1) option.inject)

lemma indexed_mem: "indexed s \<Longrightarrow> n \<in> set (expiry_heap s) \<longleftrightarrow> expiries s n \<noteq> None"
  unfolding indexed_def by (metis in_set_conv_nth not_None_eq)

lemma dom_deadlines: "indexed s \<Longrightarrow> dom (deadlines s) = set (expiry_heap s)"
  using indexed_mem by (auto simp: deadlines_def)

lemma heap_size: "indexed s \<Longrightarrow> length (expiry_heap s) = card (dom (deadlines s))"
  by (simp add: dom_deadlines indexed_distinct distinct_card)

lemma sched_add_correct:
  assumes "sched_inv s"
  shows "sched_inv (sched_add n d s) \<and> deadlines (sched_add n d s) = (deadlines s)(n \<mapsto> d)"
proof -
  have idx: "indexed s" and ord: "heap_ordered (length (expiry_heap s)) (heap_key s)"
    using assms by (simp_all add: sched_inv_def)
  show ?thesis
  proof (cases "expiries s n")
    case None
    let ?i = "length (expiry_heap s)"
    let ?t = "s\<lparr>expiries := (expiries s)(n \<mapsto> \<lparr>deadline = d, index = ?i\<rparr>), expiry_heap := expiry_heap s @ [n]\<rparr>"
    have "n \<notin> set (expiry_heap s)" using indexed_mem [OF idx] None by simp
    then have new: "expiry_heap s ! j \<noteq> n" if "j < ?i" for j using that nth_mem by blast
    have "indexed ?t"
      using idx new None unfolding indexed_def by (auto simp: nth_append less_Suc_eq)
    moreover have "heap_except (Suc ?i) (heap_key ?t) ?i"
      by (rule ordered_except_new [OF ord]) (auto simp: heap_key_def deadline_of_def nth_append new)
    moreover have "deadlines ?t = (deadlines s)(n \<mapsto> d)" by (auto simp: deadlines_def)
    ultimately show ?thesis
      using heap_fix_correct [of ?i ?t] by (simp add: sched_add_def None Let_def)
  next
    case (Some e)
    let ?t = "s\<lparr>expiries := (expiries s)(n \<mapsto> e\<lparr>deadline := d\<rparr>)\<rparr>"
    have e: "index e < length (expiry_heap s)" "expiry_heap s ! index e = n"
      using idx Some by (auto simp: indexed_def)
    have ne: "expiry_heap s ! j \<noteq> n" if "j < length (expiry_heap s)" "j \<noteq> index e" for j
      using that e indexed_distinct [OF idx] by (metis nth_eq_iff_index_eq)
    have "indexed ?t" using idx Some e ne unfolding indexed_def by auto
    moreover have "heap_except (length (expiry_heap s)) (heap_key ?t) (index e)"
      by (rule ordered_except [OF ord order.refl _ e(1)]) (simp add: heap_key_def deadline_of_def ne)
    moreover have "deadlines ?t = (deadlines s)(n \<mapsto> d)" by (auto simp: deadlines_def)
    ultimately show ?thesis
      using heap_fix_correct [of "index e" ?t] e(1) by (simp add: sched_add_def Some)
  qed
qed

lemma sched_clear_correct:
  assumes "sched_inv s"
  shows "sched_inv (sched_clear n s) \<and> deadlines (sched_clear n s) = (deadlines s)(n := None)"
proof (cases "expiries s n")
  case None
  then show ?thesis using assms by (auto simp: sched_clear_def deadlines_def)
next
  case (Some e)
  let ?h = "expiry_heap s" and ?i = "index e"
  let ?m = "length ?h - 1"
  have idx: "indexed s" and ord: "heap_ordered (length ?h) (heap_key s)"
    using assms by (simp_all add: sched_inv_def)
  have e: "?i < length ?h" "?h ! ?i = n" using idx Some by (auto simp: indexed_def)
  have d: "distinct ?h" by (rule indexed_distinct [OF idx])
  have l: "last ?h = ?h ! ?m" by (rule last_conv_nth) (use e in auto)
  have ne: "?h ! j \<noteq> n" if "j < length ?h" "j \<noteq> ?i" for j
    using that e d by (metis nth_eq_iff_index_eq)
  have mem: "\<exists>j < length ?h. j \<noteq> ?i \<and> n' = ?h ! j" if "expiries s n' \<noteq> None" "n' \<noteq> n" for n'
    using that indexed_mem [OF idx, of n'] e(2) by (metis in_set_conv_nth)
  let ?s2 = "s\<lparr>expiry_heap := butlast ?h, expiries := (expiries s)(n := None)\<rparr>"
  have dl: "deadlines ?s2 = (deadlines s)(n := None)" by (auto simp: deadlines_def)
  show ?thesis
  proof (cases "?i < ?m")
    case False
    then have i: "?i = ?m" using e(1) by simp
    have "indexed ?s2"
    proof (rule indexedI)
      fix j assume "j < length (expiry_heap ?s2)"
      then show "\<exists>e. expiries ?s2 (expiry_heap ?s2 ! j) = Some e \<and> index e = j"
        using indexed_nth [OF idx, of j] ne [of j] i by (simp add: nth_butlast)
    next
      fix n' assume "expiries ?s2 n' \<noteq> None"
      then have "n' \<noteq> n" "expiries s n' \<noteq> None" by (auto split: if_splits)
      from mem [OF this(2,1)] obtain j where "j < ?m" "n' = ?h ! j"
        using i by (metis Suc_diff_1 e(1) gr_implies_not0 less_Suc_eq not_gr_zero)
      then show "n' \<in> set (expiry_heap ?s2)" by (auto simp: in_set_conv_nth nth_butlast)
    qed
    moreover have "heap_key ?s2 j = heap_key s j" if "j < ?m" for j
      using ne [of j] that i by (simp add: heap_key_def deadline_of_def nth_butlast)
    then have "heap_ordered ?m (heap_key ?s2)" using ord by (auto simp: heap_ordered_def)
    ultimately show ?thesis using False dl by (simp add: sched_clear_def Some Let_def sched_inv_def)
  next
    case True
    let ?t = "set_index (last ?h) ?i (?s2\<lparr>expiry_heap := (butlast ?h)[?i := last ?h]\<rparr>)"
    have nl: "last ?h \<noteq> n" using ne [of ?m] True by (simp add: l)
    have ml: "?h ! j \<noteq> last ?h" if "j < ?m" for j
      using that d by (simp add: l nth_eq_iff_index_eq)
    have ht: "expiry_heap ?t ! j = (if j = ?i then last ?h else ?h ! j)" if "j < ?m" for j
      using that by (simp add: set_index_def nth_list_update nth_butlast)
    have lt: "length (expiry_heap ?t) = ?m" by (simp add: set_index_def)
    have "?m < length ?h" using True by linarith
    then obtain el where el: "expiries s (last ?h) = Some el"
      using indexed_nth [OF idx, of ?m] unfolding l by blast
    have "indexed ?t"
    proof (rule indexedI)
      fix j assume "j < length (expiry_heap ?t)"
      then have j: "j < ?m" by (simp only: lt)
      then obtain ej where ej: "expiries s (?h ! j) = Some ej" "index ej = j" "j < length ?h"
        using indexed_nth [OF idx, of j] by force
      show "\<exists>e. expiries ?t (expiry_heap ?t ! j) = Some e \<and> index e = j"
        unfolding ht [OF j] using ej ne [of j] ml [OF j] el nl
        by (cases "j = ?i") (simp_all add: set_index_def)
    next
      fix n' assume "expiries ?t n' \<noteq> None"
      then have "n' \<noteq> n" "expiries s n' \<noteq> None" using el nl by (auto simp: set_index_def split: if_splits)
      from mem [OF this(2,1)] obtain j where j: "j < length ?h" "j \<noteq> ?i" "n' = ?h ! j" by blast
      then have "n' = expiry_heap ?t ! (if j = ?m then ?i else j)" "(if j = ?m then ?i else j) < ?m"
        using True ht by (auto simp: l)
      then show "n' \<in> set (expiry_heap ?t)" using lt by (metis nth_mem)
    qed
    moreover have dt: "deadlines ?t = (deadlines s)(n := None)" by simp (auto simp: deadlines_def)
    moreover have "heap_except ?m (heap_key ?t) ?i"
    proof (rule ordered_except [OF ord _ _ True])
      fix j assume j: "j < ?m" "j \<noteq> ?i"
      then show "heap_key ?t j = heap_key s j"
        unfolding heap_key_def deadline_of_deadlines ht [OF j(1)] dt using ne [of j] by simp
    qed simp
    moreover have "sched_clear n s = heap_fix ?i ?t"
      using True by (simp add: sched_clear_def Some Let_def)
    ultimately show ?thesis using heap_fix_correct [of ?i ?t] True lt by simp
  qed
qed


lemma sched_rekey_correct:
  assumes "sched_inv s" "expiries s fresh = None" "fresh \<noteq> old"
  shows "sched_inv (sched_rekey old fresh s)
       \<and> deadlines (sched_rekey old fresh s) =
           (case deadlines s old of None \<Rightarrow> deadlines s
            | Some d \<Rightarrow> (deadlines s)(old := None, fresh \<mapsto> d))"
proof (cases "expiries s old")
  case None
  then show ?thesis using assms(1) by (simp add: sched_rekey_def deadlines_def)
next
  case (Some e)
  let ?h = "expiry_heap s" and ?t = "sched_rekey old fresh s"
  have idx: "indexed s" and ord: "heap_ordered (length ?h) (heap_key s)"
    using assms(1) by (simp_all add: sched_inv_def)
  have e: "index e < length ?h" "?h ! index e = old" using idx Some by (auto simp: indexed_def)
  have t: "expiry_heap ?t = ?h[index e := fresh]"
      "expiries ?t = (expiries s)(old := None, fresh \<mapsto> e)"
    by (simp_all add: sched_rekey_def Some)
  have ne: "?h ! j \<noteq> old" "?h ! j \<noteq> fresh" if "j < length ?h" "j \<noteq> index e" for j
    using that e indexed_distinct [OF idx] indexed_nth [OF idx that(1)] assms(2)
    by (auto simp: nth_eq_iff_index_eq)
  have "indexed ?t"
  proof (rule indexedI)
    fix j assume j: "j < length (expiry_heap ?t)"
    then show "\<exists>e. expiries ?t (expiry_heap ?t ! j) = Some e \<and> index e = j"
      using indexed_nth [OF idx, of j] ne [of j] e by (cases "j = index e") (auto simp: t)
  next
    fix n assume "expiries ?t n \<noteq> None"
    then have "n = fresh \<or> n \<in> set ?h \<and> n \<noteq> old"
      using indexed_mem [OF idx, of n] by (auto simp: t split: if_splits)
    then show "n \<in> set (expiry_heap ?t)"
    proof
      assume "n \<in> set ?h \<and> n \<noteq> old"
      then obtain j where "j < length ?h" "n = ?h ! j" "j \<noteq> index e" using e by (metis in_set_conv_nth)
      then show ?thesis by (metis length_list_update nth_list_update_neq nth_mem t(1))
    qed (use e(1) in \<open>simp add: t set_update_memI\<close>)
  qed
  moreover have "heap_key ?t j = heap_key s j" if "j < length ?h" for j
    using that ne [of j] e Some
    by (cases "j = index e") (simp_all add: heap_key_def deadline_of_def t)
  then have "heap_ordered (length ?h) (heap_key ?t)" using ord by (auto simp: heap_ordered_def)
  ultimately show ?thesis
    by (auto simp: sched_inv_def t deadlines_def Some)
qed

lemma sched_front_min:
  assumes "sched_inv s" "sched_front s = Some n"
  shows "\<exists>d. deadlines s n = Some d \<and> (\<forall>m d'. deadlines s m = Some d' \<longrightarrow> d \<le> d')"
proof -
  have idx: "indexed s" and ord: "heap_ordered (length (expiry_heap s)) (heap_key s)"
    using assms(1) by (simp_all add: sched_inv_def)
  have n: "0 < length (expiry_heap s)" "expiry_heap s ! 0 = n"
    using assms(2) by (auto simp: sched_front_def split: list.splits)
  obtain d where d: "deadlines s n = Some d"
    using indexed_nth [OF idx n(1)] by (auto simp: deadlines_def n)
  have "d \<le> d'" if m: "deadlines s m = Some d'" for m d'
  proof -
    have "m \<in> set (expiry_heap s)" using m dom_deadlines [OF idx] by blast
    then obtain j where "j < length (expiry_heap s)" "expiry_heap s ! j = m" by (metis in_set_conv_nth)
    with ordered_min [OF ord, of j] d m n(2) show ?thesis
      by (simp add: heap_key_def deadline_of_deadlines)
  qed
  with d show ?thesis by blast
qed

lemma sched_front_None: "indexed s \<Longrightarrow> sched_front s = None \<longleftrightarrow> deadlines s = Map.empty"
  using dom_deadlines [of s] by (cases "expiry_heap s") (auto simp: sched_front_def)

lemma sched_inv_init [simp]: "sched_inv schedule_init" "deadlines schedule_init = Map.empty"
  by (auto simp: sched_inv_def schedule_init_def indexed_def heap_ordered_def deadlines_def)

section \<open>The deadline-queue contract\<close>

text \<open>
  What expiry and its clients rely on: a finite map from nodes to deadlines with a node of
  least deadline in front.
\<close>

locale deadline_queue =
  fixes inv :: "'s \<Rightarrow> bool"
    and dl :: "'s \<Rightarrow> 'a \<rightharpoonup> int"
    and add_op :: "'a \<Rightarrow> int \<Rightarrow> 's \<Rightarrow> 's"
    and clear_op :: "'a \<Rightarrow> 's \<Rightarrow> 's"
    and front :: "'s \<Rightarrow> 'a option"
  assumes inv_add: "inv s \<Longrightarrow> inv (add_op n d s)"
    and dl_add: "inv s \<Longrightarrow> dl (add_op n d s) = (dl s)(n \<mapsto> d)"
    and inv_clear: "inv s \<Longrightarrow> inv (clear_op n s)"
    and dl_clear: "inv s \<Longrightarrow> dl (clear_op n s) = (dl s)(n := None)"
    and front_None: "inv s \<Longrightarrow> front s = None \<longleftrightarrow> dl s = Map.empty"
    and front_min: "inv s \<Longrightarrow> front s = Some n \<Longrightarrow>
          \<exists>d. dl s n = Some d \<and> (\<forall>m d'. dl s m = Some d' \<longrightarrow> d \<le> d')"
    and dl_finite: "inv s \<Longrightarrow> finite (dom (dl s))"
begin

text \<open>Looking only at the front decides whether anything is due.\<close>

lemma front_due:
  assumes "inv s"
  shows "(\<exists>m d. dl s m = Some d \<and> d \<le> now) \<longleftrightarrow> (\<exists>n d. front s = Some n \<and> dl s n = Some d \<and> d \<le> now)"
proof
  assume "\<exists>m d. dl s m = Some d \<and> d \<le> now"
  then obtain m d where m: "dl s m = Some d" "d \<le> now" by blast
  then obtain n where n: "front s = Some n" using front_None [OF assms] by fastforce
  from front_min [OF assms n] m n show "\<exists>n d. front s = Some n \<and> dl s n = Some d \<and> d \<le> now"
    by force
qed blast

text \<open>The sequence of fronts removed while due: exactly the due entries, in any order.\<close>

fun drain :: "int \<Rightarrow> nat \<Rightarrow> 's \<Rightarrow> 's" where
  "drain now 0 s = s"
| "drain now (Suc k) s =
     (case front s of
        None \<Rightarrow> s
      | Some n \<Rightarrow> if now < the (dl s n) then s else drain now k (clear_op n s))"

lemma drain_removes_due:
  assumes "inv s" "card {n. \<exists>d. dl s n = Some d \<and> d \<le> now} \<le> k"
  shows "inv (drain now k s) \<and>
     dl (drain now k s) = (\<lambda>n. case dl s n of None \<Rightarrow> None | Some d \<Rightarrow> if d \<le> now then None else Some d)"
  using assms
proof (induction k arbitrary: s)
  case 0
  let ?due = "{n. \<exists>d. dl s n = Some d \<and> d \<le> now}"
  have "finite ?due" by (rule finite_subset [OF _ dl_finite [OF "0.prems"(1)]]) auto
  with "0.prems"(2) have "?due = {}" by simp
  then have "dl s n = Some d \<Longrightarrow> \<not> d \<le> now" for n d by blast
  with 0 show ?case by (auto simp: fun_eq_iff split: option.split)
next
  case (Suc k)
  let ?due = "\<lambda>s. {n. \<exists>d. dl s n = Some d \<and> d \<le> now}"
  show ?case
  proof (cases "\<exists>n d. front s = Some n \<and> dl s n = Some d \<and> d \<le> now")
    case False
    then have "dl s n = Some d \<Longrightarrow> \<not> d \<le> now" for n d using front_due [OF Suc.prems(1), of now] by blast
    moreover have "drain now (Suc k) s = s"
      using False front_min [OF Suc.prems(1)] by (force split: option.split)
    ultimately show ?thesis using Suc.prems(1) by (auto simp: fun_eq_iff split: option.split)
  next
    case True
    then obtain n d where n: "front s = Some n" "dl s n = Some d" "d \<le> now" by blast
    have fin: "finite (?due s)" by (rule finite_subset [OF _ dl_finite [OF Suc.prems(1)]]) auto
    have "?due (clear_op n s) = ?due s - {n}" using dl_clear [OF Suc.prems(1)] by (auto split: if_splits)
    moreover have "n \<in> ?due s" using n by blast
    ultimately have "card (?due (clear_op n s)) \<le> k" using Suc.prems(2) fin by simp
    from Suc.IH [OF inv_clear [OF Suc.prems(1)] this] n show ?thesis
      using dl_clear [OF Suc.prems(1)] by (auto simp: fun_eq_iff split: option.split)
  qed
qed

end

interpretation expiry_heap_queue: deadline_queue sched_inv deadlines sched_add sched_clear sched_front
proof unfold_locales
  fix s n d
  assume i: "sched_inv s"
  show "sched_inv (sched_add n d s)" "deadlines (sched_add n d s) = (deadlines s)(n \<mapsto> d)"
    using sched_add_correct [OF i] by simp_all
  show "sched_inv (sched_clear n s)" "deadlines (sched_clear n s) = (deadlines s)(n := None)"
    using sched_clear_correct [OF i] by simp_all
  show "sched_front s = None \<longleftrightarrow> deadlines s = Map.empty" "finite (dom (deadlines s))"
    using i sched_front_None dom_deadlines [of s] by (auto simp: sched_inv_def)
  show "sched_front s = Some n \<Longrightarrow> \<exists>d. deadlines s n = Some d \<and> (\<forall>m d'. deadlines s m = Some d' \<longrightarrow> d \<le> d')"
    using sched_front_min [OF i] by simp
qed

section \<open>Properties\<close>

text \<open>
  C22. \<^verbatim>\<open>schedule_expiry\<close>, \<^verbatim>\<open>clear_expiry\<close> and the move of an entry to the block that replaces its
  node keep the indexed min-heap consistent (every node with a deadline is in the heap at the
  position its entry records, and no node expires before its parent in the heap) and change
  exactly the entry of their node, whatever position it has; a move to a block without an entry
  carries the deadline over. The node in front has the least deadline of all, and there is none
  in front only when no node has a deadline.
\<close>

theorem schedule_correct:
  assumes "sched_inv s"
  shows "sched_inv (sched_add n d s) \<and> deadlines (sched_add n d s) = (deadlines s)(n \<mapsto> d)
       \<and> sched_inv (sched_clear n s) \<and> deadlines (sched_clear n s) = (deadlines s)(n := None)
       \<and> (deadlines s fresh = None \<and> fresh \<noteq> old \<longrightarrow>
            sched_inv (sched_rekey old fresh s)
            \<and> deadlines (sched_rekey old fresh s) = (deadlines s)(old := None, fresh := deadlines s old))
       \<and> (case sched_front s of
            None \<Rightarrow> deadlines s = Map.empty
          | Some m \<Rightarrow> \<exists>dm. deadlines s m = Some dm \<and> (\<forall>k dk. deadlines s k = Some dk \<longrightarrow> dm \<le> dk))"
proof -
  have "sched_inv (sched_rekey old fresh s)
      \<and> deadlines (sched_rekey old fresh s) = (deadlines s)(old := None, fresh := deadlines s old)"
    if "deadlines s fresh = None" "fresh \<noteq> old"
  proof -
    have "expiries s fresh = None" using that(1) by (simp add: deadlines_def)
    from sched_rekey_correct [OF assms this that(2)] show ?thesis
      using that(1) by (cases "deadlines s old") (auto simp: fun_eq_iff)
  qed
  moreover have "case sched_front s of
       None \<Rightarrow> deadlines s = Map.empty
     | Some m \<Rightarrow> \<exists>dm. deadlines s m = Some dm \<and> (\<forall>k dk. deadlines s k = Some dk \<longrightarrow> dm \<le> dk)"
    using sched_front_min [OF assms] assms sched_front_None dom_deadlines [of s]
    by (auto simp: sched_inv_def split: option.splits)
  ultimately show ?thesis using sched_add_correct [OF assms] sched_clear_correct [OF assms] by blast
qed

theorem schedule_correct_witness:
  "let s = sched_add 9 10 (sched_add 8 20 (sched_add 7 5 schedule_init)) in
     sched_inv (sched_clear 7 s) \<and> sched_front (sched_clear 7 s) = Some 9
     \<and> sched_inv (sched_rekey 7 6 s) \<and> sched_front (sched_rekey 7 6 s) = Some 6 \<and> deadlines (sched_rekey 7 6 s) 6 = Some 5"
proof -
  have a: "sched_inv (sched_add 7 5 schedule_init)" using schedule_correct [OF sched_inv_init(1)] by blast
  have b: "sched_inv (sched_add 8 20 (sched_add 7 5 schedule_init))" using schedule_correct [OF a] by blast
  let ?s = "sched_add 9 10 (sched_add 8 20 (sched_add 7 5 schedule_init))"
  have c: "sched_inv ?s" using schedule_correct [OF b] by blast
  have d: "sched_inv (sched_clear 7 ?s)" using schedule_correct [OF c] by blast
  have s: "deadlines ?s 6 = None" "deadlines ?s 7 = Some 5"
    "sched_front (sched_clear 7 ?s) = Some 9" "sched_front (sched_rekey 7 6 ?s) = Some 6"
    by (simp_all add: sched_front_def sched_clear_def sched_add_def sched_rekey_def schedule_init_def heap_fix_def
        heap_up.simps heap_down.simps heap_swap_def set_index_def heap_less_def deadline_of_def deadlines_def Let_def)
  have "sched_inv (sched_rekey 7 6 ?s) \<and> deadlines (sched_rekey 7 6 ?s) = (deadlines ?s)(7 := None, 6 := deadlines ?s 7)"
    using schedule_correct [OF c, where old = 7 and fresh = 6] s(1) by simp
  with d s show ?thesis by (simp add: Let_def)
qed

end
