(* ===== verification/NodeMeta.thy ===== *)
theory NodeMeta
  imports Prelude
begin

text \<open>
  The packed node header of the database (\<^verbatim>\<open>Database::Node\<close> in \<^verbatim>\<open>src/database.hpp\<close>): the
  32-bit \<^verbatim>\<open>key_meta\<close> word with the key length (bits 0-20), node type (21-23), flags (24-25)
  and slab class (26-31), and the \<^verbatim>\<open>count\<close> word, which for a packed hash holds the number
  of pairs (low half) and the bytes used (high half).
\<close>

section \<open>Definitions\<close>

datatype node_kind = NString | NInteger | NList | NHash

fun kind_code :: "node_kind \<Rightarrow> u32" where
  "kind_code NString = 0"
| "kind_code NInteger = 1"
| "kind_code NList = 2"
| "kind_code NHash = 3"

definition key_length_mask :: u32 where
  "key_length_mask = 0x001FFFFF"

definition max_key_length :: nat where
  "max_key_length = 0x001FFFFF"

definition flag_hash_promoted :: byte where
  "flag_hash_promoted = 0x01"

definition flag_has_ttl :: byte where
  "flag_has_ttl = 0x02"

definition oversized_class :: byte where
  "oversized_class = 63"

definition make_key_meta :: "nat \<Rightarrow> node_kind \<Rightarrow> byte \<Rightarrow> byte \<Rightarrow> u32" where
  "make_key_meta key_length type flags cls =
     (of_nat key_length AND key_length_mask)
     OR push_bit 21 (kind_code type)
     OR push_bit 24 (ucast flags)
     OR push_bit 26 (ucast cls)"

definition meta_key_length :: "u32 \<Rightarrow> u32" where
  "meta_key_length key_meta = key_meta AND key_length_mask"

text \<open>
  The cast to the enumeration; the codes 4 to 7 are never written (every type stored is
  one of the four), and the \<^verbatim>\<open>switch\<close> statements treat them as hashes.
\<close>

definition meta_type :: "u32 \<Rightarrow> node_kind" where
  "meta_type key_meta =
     (let code = drop_bit 21 key_meta AND 0x07
      in if code = 0 then NString else if code = 1 then NInteger else if code = 2 then NList else NHash)"

definition meta_flags :: "u32 \<Rightarrow> byte" where
  "meta_flags key_meta = ucast (drop_bit 24 key_meta AND 0x03)"

definition meta_size_class :: "u32 \<Rightarrow> byte" where
  "meta_size_class key_meta = ucast (drop_bit 26 key_meta AND 0x3F)"

definition set_meta_type :: "node_kind \<Rightarrow> u32 \<Rightarrow> u32" where
  "set_meta_type type key_meta = (key_meta AND NOT (push_bit 21 0x07)) OR push_bit 21 (kind_code type)"

definition set_meta_flags :: "byte \<Rightarrow> u32 \<Rightarrow> u32" where
  "set_meta_flags flags key_meta =
     (key_meta AND NOT (push_bit 24 0x03)) OR push_bit 24 (ucast (flags AND 0x03))"

definition set_meta_size_class :: "byte \<Rightarrow> u32 \<Rightarrow> u32" where
  "set_meta_size_class cls key_meta =
     (key_meta AND NOT (push_bit 26 0x3F)) OR push_bit 26 (ucast cls)"

definition hash_count_of :: "u32 \<Rightarrow> u32" where
  "hash_count_of count = count AND 0xFFFF"

definition set_hash_count_of :: "u32 \<Rightarrow> u32 \<Rightarrow> u32" where
  "set_hash_count_of n count = (count AND 0xFFFF0000) OR (n AND 0xFFFF)"

definition hash_used_of :: "u32 \<Rightarrow> u32" where
  "hash_used_of count = drop_bit 16 count"

definition set_hash_used_of :: "u32 \<Rightarrow> u32 \<Rightarrow> u32" where
  "set_hash_used_of used count = (count AND 0xFFFF) OR push_bit 16 used"

definition key_stride :: "u32 \<Rightarrow> u32" where
  "key_stride key_length = (key_length + 7) AND NOT 7"

section \<open>Masks as bit ranges\<close>

lemma mask_consts:
  "(0x001FFFFF :: u32) = mask 21" "(0x07 :: u32) = mask 3" "(0x03 :: u32) = mask 2"
  "(0x3F :: u32) = mask 6" "(0xFFFF :: u32) = mask 16" "(0x03 :: byte) = mask 2"
  "(0xFFFF0000 :: u32) = push_bit 16 (mask 16)" "(7 :: u32) = mask 3"
  by (simp_all add: mask_eq_exp_minus_1)

lemma small_word_bits:
  assumes "unat (w :: 'a::len word) < 2 ^ k" "bit w n"
  shows "n < k"
proof -
  have "bit (take_bit k (unat w)) n"
    using assms by (simp add: take_bit_nat_eq_self bit_unsigned_iff)
  then show ?thesis by (simp add: bit_take_bit_iff)
qed

lemma kind_code_bits: "bit (kind_code t) n \<Longrightarrow> n < 2"
  by (rule small_word_bits [of "kind_code t" 2]) (cases t; simp)+

lemma kind_code_inj:
  "kind_code t = 0 \<longleftrightarrow> t = NString" "kind_code t = 1 \<longleftrightarrow> t = NInteger" "kind_code t = 2 \<longleftrightarrow> t = NList"
  by (cases t; simp)+

lemma meta_type_code: "drop_bit 21 m AND 0x07 = kind_code t \<Longrightarrow> meta_type m = t"
  by (cases t) (simp_all add: meta_type_def Let_def)

text \<open>Each field of a header word, as a range of its bits.\<close>

lemma make_key_meta_code: "drop_bit 21 (make_key_meta k t f c) AND 0x07 = kind_code t"
proof (rule bit_eqI)
  fix i assume "possible_bit TYPE(u32) i"
  then show "bit (drop_bit 21 (make_key_meta k t f c) AND 0x07) i = bit (kind_code t) i"
    using kind_code_bits [of t i]
    unfolding make_key_meta_def key_length_mask_def mask_consts
    by (auto simp: bit_simps)
qed

lemma make_key_meta_type [meta_simps]: "meta_type (make_key_meta k t f c) = t"
  by (rule meta_type_code [OF make_key_meta_code])

lemma make_key_meta_length [meta_simps]:
  assumes "k \<le> max_key_length"
  shows "unat (meta_key_length (make_key_meta k t f c)) = k"
proof -
  have "meta_key_length (make_key_meta k t f c) = take_bit 21 (of_nat k)"
    unfolding make_key_meta_def meta_key_length_def key_length_mask_def mask_consts
    by (rule bit_eqI) (auto simp: bit_simps)
  then show ?thesis
    using assms by (simp add: unsigned_take_bit_eq take_bit_nat_eq_self max_key_length_def unat_of_nat)
qed

lemma make_key_meta_flags [meta_simps]:
  assumes "unat f < 4"
  shows "meta_flags (make_key_meta k t f c) = f"
proof -
  have f: "bit f n \<Longrightarrow> n < 2" for n using assms small_word_bits [of f 2 n] by simp
  have t: "bit (kind_code t) n \<Longrightarrow> n < 2" for n by (rule kind_code_bits)
  show ?thesis
    unfolding make_key_meta_def meta_flags_def key_length_mask_def mask_consts
    by (rule bit_eqI) (auto simp: bit_simps dest: f t)
qed

lemma make_key_meta_class [meta_simps]:
  assumes "unat c < 64" "unat f < 4"
  shows "meta_size_class (make_key_meta k t f c) = c"
proof -
  have f: "bit f n \<Longrightarrow> n < 2" for n using assms(2) small_word_bits [of f 2 n] by simp
  have c: "bit c n \<Longrightarrow> n < 6" for n using assms(1) small_word_bits [of c 6 n] by simp
  have t: "bit (kind_code t) n \<Longrightarrow> n < 2" for n by (rule kind_code_bits)
  show ?thesis
    unfolding make_key_meta_def meta_size_class_def key_length_mask_def mask_consts
    by (rule bit_eqI) (auto simp: bit_simps dest: f t c)
qed


text \<open>A setter changes its own field only.\<close>

lemma set_meta_type_fields [meta_simps]:
  "meta_type (set_meta_type t m) = t"
  "meta_key_length (set_meta_type t m) = meta_key_length m"
  "meta_flags (set_meta_type t m) = meta_flags m"
  "meta_size_class (set_meta_type t m) = meta_size_class m"
proof -
  have t: "bit (kind_code t) n \<Longrightarrow> n < 2" for n by (rule kind_code_bits)
  have "drop_bit 21 (set_meta_type t m) AND 0x07 = kind_code t"
    unfolding set_meta_type_def mask_consts by (rule bit_eqI) (auto simp: bit_simps dest: t)
  then show "meta_type (set_meta_type t m) = t" by (rule meta_type_code)
  show "meta_key_length (set_meta_type t m) = meta_key_length m"
    unfolding set_meta_type_def meta_key_length_def key_length_mask_def mask_consts
    by (rule bit_eqI) (auto simp: bit_simps)
  show "meta_flags (set_meta_type t m) = meta_flags m"
    unfolding set_meta_type_def meta_flags_def mask_consts
    by (rule bit_eqI) (auto simp: bit_simps dest: t)
  show "meta_size_class (set_meta_type t m) = meta_size_class m"
    unfolding set_meta_type_def meta_size_class_def mask_consts
    by (rule bit_eqI) (auto simp: bit_simps dest: t)
qed

lemma set_meta_flags_fields [meta_simps]:
  "meta_flags (set_meta_flags f m) = f AND 0x03"
  "meta_type (set_meta_flags f m) = meta_type m"
  "meta_key_length (set_meta_flags f m) = meta_key_length m"
  "meta_size_class (set_meta_flags f m) = meta_size_class m"
proof -
  show "meta_flags (set_meta_flags f m) = f AND 0x03"
    unfolding set_meta_flags_def meta_flags_def mask_consts
    by (rule bit_eqI) (auto simp: bit_simps)
  have "drop_bit 21 (set_meta_flags f m) AND 0x07 = drop_bit 21 m AND 0x07"
    unfolding set_meta_flags_def mask_consts by (rule bit_eqI) (auto simp: bit_simps)
  then show "meta_type (set_meta_flags f m) = meta_type m" by (simp add: meta_type_def Let_def)
  show "meta_key_length (set_meta_flags f m) = meta_key_length m"
    unfolding set_meta_flags_def meta_key_length_def key_length_mask_def mask_consts
    by (rule bit_eqI) (auto simp: bit_simps)
  show "meta_size_class (set_meta_flags f m) = meta_size_class m"
    unfolding set_meta_flags_def meta_size_class_def mask_consts
    by (rule bit_eqI) (auto simp: bit_simps)
qed

lemma set_meta_size_class_fields [meta_simps]:
  "unat c < 64 \<Longrightarrow> meta_size_class (set_meta_size_class c m) = c"
  "meta_type (set_meta_size_class c m) = meta_type m"
  "meta_key_length (set_meta_size_class c m) = meta_key_length m"
  "meta_flags (set_meta_size_class c m) = meta_flags m"
proof -
  assume "unat c < 64"
  then have c: "bit c n \<Longrightarrow> n < 6" for n using small_word_bits [of c 6 n] by simp
  show "meta_size_class (set_meta_size_class c m) = c"
    unfolding set_meta_size_class_def meta_size_class_def mask_consts
    by (rule bit_eqI) (auto simp: bit_simps dest: c)
next
  have "drop_bit 21 (set_meta_size_class c m) AND 0x07 = drop_bit 21 m AND 0x07"
    unfolding set_meta_size_class_def mask_consts by (rule bit_eqI) (auto simp: bit_simps)
  then show "meta_type (set_meta_size_class c m) = meta_type m" by (simp add: meta_type_def Let_def)
  show "meta_key_length (set_meta_size_class c m) = meta_key_length m"
    unfolding set_meta_size_class_def meta_key_length_def key_length_mask_def mask_consts
    by (rule bit_eqI) (auto simp: bit_simps)
  show "meta_flags (set_meta_size_class c m) = meta_flags m"
    unfolding set_meta_size_class_def meta_flags_def mask_consts
    by (rule bit_eqI) (auto simp: bit_simps)
qed

lemma hash_count_fields [meta_simps]:
  "hash_count_of (set_hash_count_of n w) = n AND 0xFFFF"
  "hash_used_of (set_hash_count_of n w) = hash_used_of w"
  "hash_count_of (set_hash_used_of u w) = hash_count_of w"
  "hash_used_of (set_hash_used_of u w) = u AND 0xFFFF"
  unfolding hash_count_of_def set_hash_count_of_def hash_used_of_def set_hash_used_of_def mask_consts
  by (rule bit_eqI; auto simp: bit_simps dest: bit_imp_le_length)+

lemma low16_id:
  assumes "unat (n :: u32) < 65536"
  shows "n AND 0xFFFF = n"
proof -
  have "bit n i \<Longrightarrow> i < 16" for i using assms small_word_bits [of n 16 i] by simp
  then show ?thesis unfolding mask_consts by (intro bit_eqI) (auto simp: bit_simps)
qed

lemma unat_key_stride:
  assumes "unat k + 7 < 2 ^ 32"
  shows "unat (key_stride k) = (unat k + 7) div 8 * 8"
proof -
  have "key_stride k = push_bit 3 (drop_bit 3 (k + 7))"
    unfolding key_stride_def mask_consts by (rule bit_eqI) (auto simp: bit_simps)
  moreover have "unat (k + 7) = unat k + 7"
    using assms by (simp add: unat_word_ariths)
  moreover have "(unat k + 7) div 8 * 8 < 2 ^ 32" using assms by linarith
  ultimately show ?thesis
    by (simp only: unsigned_push_bit_eq unsigned_drop_bit_eq)
      (simp add: push_bit_eq_mult drop_bit_eq_div take_bit_nat_eq_self)
qed

section \<open>Properties\<close>

text \<open>
  The packed header loses nothing: for every key length up to \<^verbatim>\<open>max_key_length\<close>, type,
  two-bit flags and six-bit size class, the four accessors read back what
  \<^verbatim>\<open>make_key_meta\<close> stored, and changing the type, the flags or the class of a header
  (as \<^verbatim>\<open>increment\<close>, \<^verbatim>\<open>schedule_expiry\<close> and \<^verbatim>\<open>clear_expiry\<close> do) leaves the other fields alone.
\<close>

lemma key_meta_roundtrip:
  assumes "k \<le> max_key_length" "unat f < 4" "unat c < 64"
  shows "unat (meta_key_length (make_key_meta k t f c)) = k
       \<and> meta_type (make_key_meta k t f c) = t
       \<and> meta_flags (make_key_meta k t f c) = f
       \<and> meta_size_class (make_key_meta k t f c) = c
       \<and> meta_key_length (set_meta_flags g (set_meta_type u m)) = meta_key_length m
       \<and> meta_type (set_meta_flags g (set_meta_type u m)) = u
       \<and> meta_flags (set_meta_flags g (set_meta_type u m)) = g AND 0x03
       \<and> meta_size_class (set_meta_flags g (set_meta_type u m)) = meta_size_class m"
  using assms by (simp add: meta_simps)

lemma key_meta_roundtrip_witness:
  "unat (meta_key_length (make_key_meta 5 NHash 2 63)) = 5
   \<and> meta_type (make_key_meta 5 NHash 2 63) = NHash
   \<and> meta_flags (make_key_meta 5 NHash 2 63) = 2
   \<and> meta_size_class (make_key_meta 5 NHash 2 63) = 63"
  using key_meta_roundtrip [of 5 2 63 NHash] by (simp add: max_key_length_def)

text \<open>
  The count word of a packed hash: for a pair count and a byte count below 65536 (the
  promotion limits are 128 pairs and 4096 bytes), writing both, as \<^verbatim>\<open>hash_assign\<close> does,
  reads back both, whatever the word held before.
\<close>

lemma hash_counts_roundtrip:
  assumes "unat n < 65536" "unat u < 65536"
  shows "hash_count_of (set_hash_used_of u (set_hash_count_of n w)) = n
       \<and> hash_used_of (set_hash_used_of u (set_hash_count_of n w)) = u"
  using assms by (simp add: meta_simps low16_id)

lemma hash_counts_roundtrip_witness:
  "hash_count_of (set_hash_used_of 4096 (set_hash_count_of 128 0xFFFFFFFF)) = 128
   \<and> hash_used_of (set_hash_used_of 4096 (set_hash_count_of 128 0xFFFFFFFF)) = 4096"
  using hash_counts_roundtrip [of 128 4096 "0xFFFFFFFF"] by simp

end
