(* ===== verification/Errors.thy ===== *)
theory Errors
  imports Prelude
begin

text \<open>
  Error codes and messages (\<^verbatim>\<open>src/error.hpp\<close>, \<^verbatim>\<open>src/error.cpp\<close>), the \<^verbatim>\<open>Result\<close> alias
  (\<^verbatim>\<open>src/result.hpp\<close>) and the C++ exceptions of the program: \<^verbatim>\<open>Error\<close>, and \<^verbatim>\<open>std::bad_alloc\<close>
  with its subclass \<^verbatim>\<open>MemoryLimit\<close> (\<^verbatim>\<open>src/memory.hpp\<close>), and \<^verbatim>\<open>std::filesystem::filesystem_error\<close>.
\<close>

datatype error_code =
    empty_resp_input
  | expected_resp_array_prefix
  | missing_crlf
  | invalid_resp_array_length
  | empty_resp_array
  | missing_bulk_string_prefix
  | expected_bulk_string_prefix
  | invalid_bulk_string_length
  | incomplete_bulk_string_data
  | missing_bulk_string_terminator
  | wrong_argument_count
  | unknown_command
  | protocol_error_prefix
  | value_not_integer
  | wrong_type
  | unsupported_info_section
  | request_too_large
  | disk_write_failed
  | disk_read_failed
  | socket_startup_failed
  | socket_poll_failed
  | socket_creation_failed
  | socket_bind_failed
  | socket_listen_failed
  | socket_accept_failed
  | socket_nonblocking_failed
  | listening_socket_failed

primrec error_message :: "error_code \<Rightarrow> string" where
  "error_message empty_resp_input = ''Empty RESP input''"
| "error_message expected_resp_array_prefix = ''Expected RESP array prefix '' @ [CHR 0x27, CHR ''*'', CHR 0x27]"
| "error_message missing_crlf = ''Missing CRLF''"
| "error_message invalid_resp_array_length = ''Invalid RESP array length''"
| "error_message empty_resp_array = ''RESP array contains no command''"
| "error_message missing_bulk_string_prefix = ''Missing bulk string prefix''"
| "error_message expected_bulk_string_prefix = ''Expected bulk string prefix '' @ [CHR 0x27, CHR ''$'', CHR 0x27]"
| "error_message invalid_bulk_string_length = ''Invalid RESP bulk string length''"
| "error_message incomplete_bulk_string_data = ''RESP bulk string data is incomplete''"
| "error_message missing_bulk_string_terminator = ''RESP bulk string is missing trailing CRLF''"
| "error_message wrong_argument_count = ''ERR wrong number of arguments for''"
| "error_message unknown_command = ''ERR unknown command''"
| "error_message protocol_error_prefix = ''ERR Protocol error: ''"
| "error_message value_not_integer = ''ERR value is not an integer or out of range''"
| "error_message wrong_type = ''WRONGTYPE Operation against a key holding the wrong kind of value''"
| "error_message unsupported_info_section = ''ERR unsupported INFO section''"
| "error_message request_too_large = ''ERR request exceeds maximum buffer size''"
| "error_message disk_write_failed = ''Failed to write WAL''"
| "error_message disk_read_failed = ''Failed to read WAL''"
| "error_message socket_startup_failed = ''Failed to initialize socket system''"
| "error_message socket_poll_failed = ''Socket event polling failed''"
| "error_message socket_creation_failed = ''Failed to create TCP socket''"
| "error_message socket_bind_failed = ''Failed to bind TCP socket''"
| "error_message socket_listen_failed = ''Failed to listen on TCP socket''"
| "error_message socket_accept_failed = ''Failed to accept TCP client''"
| "error_message socket_nonblocking_failed = ''Failed to set socket as nonblocking''"
| "error_message listening_socket_failed = ''Listening socket failed''"

datatype exn = Error error_code | BadAlloc | MemoryLimit | FilesystemError

definition is_bad_alloc :: "exn \<Rightarrow> bool" where
  "is_bad_alloc e \<longleftrightarrow> e = BadAlloc \<or> e = MemoryLimit"

type_synonym 'a result = "error_code + 'a"

end
