(* ===== verification/Slab.thy ===== *)
theory Slab
  imports Errors
begin

text \<open>
  The memory budget (\<^verbatim>\<open>MemoryResource\<close>, \<^verbatim>\<open>src/memory.hpp\<close>) and the slab allocator built on it
  (\<^verbatim>\<open>SlabPool\<close>, \<^verbatim>\<open>src/slab.hpp\<close>, \<^verbatim>\<open>src/slab.cpp\<close>), in one state because each calls the
  other: the pool allocates through the resource and the resource asks the pool to
  reclaim empty chunks when the budget is exhausted. \<^verbatim>\<open>operator new\<close> is the parameter
  \<open>place\<close>: given the blocks in use and a size it picks an address, or fails.
\<close>

section \<open>Definitions\<close>

subsection \<open>Size classes\<close>

definition class_sizes :: "nat list" where
  "class_sizes =
     [8, 16, 24, 32, 40, 48, 56, 64, 72, 80, 88, 96,
      104, 112, 120, 128, 160, 192, 224, 256, 320, 384, 448, 512,
      640, 768, 896, 1024, 1280, 1536, 1792, 2048, 2560, 3072, 3584, 4096]"

definition class_count :: nat where
  "class_count = length class_sizes"

definition dense_limit :: nat where
  "dense_limit = 128"

definition dense_classes :: nat where
  "dense_classes = dense_limit div 8"

definition largest_class :: nat where
  "largest_class = class_sizes ! (class_count - 1)"

function class_search :: "nat \<Rightarrow> nat \<Rightarrow> nat \<Rightarrow> nat" where
  "class_search sz low high =
     (if low < high then
        let middle = (low + high) div 2
        in if class_sizes ! middle < sz then class_search sz (middle + 1) high
           else class_search sz low middle
      else low)"
  by pat_completeness auto

termination
  by (relation "measure (\<lambda>(sz, low, high). high - low)") (auto simp: Let_def)

declare class_search.simps [simp del]

definition class_index :: "nat \<Rightarrow> nat" where
  "class_index sz =
     (if sz \<le> dense_limit then (if sz \<le> 8 then 0 else (sz + 7) div 8 - 1)
      else class_search sz dense_classes (class_count - 1))"

subsection \<open>The memory resource\<close>

record chunk =
  c_memory :: addr
  c_bytes :: nat
  c_index :: nat
  c_self :: addr

record pool =
  mem_limit :: nat
  mem_used :: nat
  has_reclaim :: bool
  regions :: "(addr \<times> nat) list"
  free_lists :: "addr list list"
  chunks :: "chunk list"
  reserved :: nat

text \<open>Subtraction of \<^verbatim>\<open>std::size_t\<close> values wraps around.\<close>

definition sub64 :: "nat \<Rightarrow> nat \<Rightarrow> nat" where
  "sub64 a b = (if b \<le> a then a - b else a + 2 ^ 64 - b)"

definition mem_deallocate :: "addr \<Rightarrow> nat \<Rightarrow> pool \<Rightarrow> pool" where
  "mem_deallocate p bytes s =
     s\<lparr>regions := remove1 (p, bytes) (regions s), mem_used := sub64 (mem_used s) bytes\<rparr>"

definition in_chunk :: "chunk \<Rightarrow> addr \<Rightarrow> bool" where
  "in_chunk c a \<longleftrightarrow> c_memory c \<le> a \<and> a < c_memory c + c_bytes c"

definition chunk_struct_bytes :: nat where
  "chunk_struct_bytes = 32"

fun reclaim_loop :: "chunk list \<Rightarrow> pool \<Rightarrow> chunk list \<times> pool" where
  "reclaim_loop [] s = ([], s)"
| "reclaim_loop (c # cs) s =
     (let free = length (filter (in_chunk c) (free_lists s ! c_index c))
      in if free \<noteq> c_bytes c div (class_sizes ! c_index c)
         then (case reclaim_loop cs s of (kept, s') \<Rightarrow> (c # kept, s'))
         else
           let s1 = s\<lparr>free_lists := (free_lists s)[c_index c :=
                        filter (\<lambda>a. \<not> in_chunk c a) (free_lists s ! c_index c)]\<rparr>;
               s2 = s1\<lparr>reserved := sub64 (reserved s1) (c_bytes c)\<rparr>;
               s3 = mem_deallocate (c_memory c) (c_bytes c) s2;
               s4 = mem_deallocate (c_self c) chunk_struct_bytes s3
           in reclaim_loop cs s4)"

definition reclaim :: "pool \<Rightarrow> pool" where
  "reclaim s = (case reclaim_loop (chunks s) s of (kept, s') \<Rightarrow> s'\<lparr>chunks := kept\<rparr>)"

type_synonym placer = "(addr \<times> nat) list \<Rightarrow> nat \<Rightarrow> addr option"

definition new_allocate :: "placer \<Rightarrow> nat \<Rightarrow> pool \<Rightarrow> (exn + addr) \<times> pool" where
  "new_allocate place bytes s =
     (case place (regions s) bytes of
        None \<Rightarrow> (Inl BadAlloc, s)
      | Some p \<Rightarrow> (Inr p, s\<lparr>regions := (p, bytes) # regions s, mem_used := mem_used s + bytes\<rparr>))"

definition mem_allocate :: "placer \<Rightarrow> nat \<Rightarrow> pool \<Rightarrow> (exn + addr) \<times> pool" where
  "mem_allocate place bytes s =
     (if mem_limit s \<noteq> 0 \<and> sub64 (mem_limit s) (mem_used s) < bytes then
        let s1 = (if has_reclaim s then reclaim s else s)
        in if sub64 (mem_limit s1) (mem_used s1) < bytes then (Inl MemoryLimit, s1)
           else new_allocate place bytes s1
      else new_allocate place bytes s)"

subsection \<open>The slab pool\<close>

definition pool_init :: "nat \<Rightarrow> bool \<Rightarrow> pool" where
  "pool_init lim rec =
     \<lparr>mem_limit = lim, mem_used = 0, has_reclaim = rec, regions = [],
      free_lists = replicate class_count [], chunks = [], reserved = 0\<rparr>"

definition chunk_bytes :: nat where
  "chunk_bytes = 64 * 1024"

function grow_bytes :: "nat \<Rightarrow> nat \<Rightarrow> nat" where
  "grow_bytes bytes block = (if 0 < bytes \<and> bytes < block * 16 then grow_bytes (bytes * 2) block else bytes)"
  by pat_completeness auto

termination
  by (relation "measure (\<lambda>(bytes, block). block * 16 - bytes)") auto

declare grow_bytes.simps [simp del]

text \<open>Pushing the blocks of a new chunk, lowest address first, onto a free list.\<close>

fun push_blocks :: "addr \<Rightarrow> nat \<Rightarrow> nat \<Rightarrow> nat \<Rightarrow> addr list \<Rightarrow> addr list" where
  "push_blocks memory block offset 0 free = free"
| "push_blocks memory block offset (Suc n) free =
     push_blocks memory block (Suc offset) n ((memory + offset * block) # free)"

definition add_chunk :: "placer \<Rightarrow> nat \<Rightarrow> pool \<Rightarrow> (exn + unit) \<times> pool" where
  "add_chunk place i s =
     (let block = class_sizes ! i;
          bytes = grow_bytes chunk_bytes block
      in case mem_allocate place bytes s of
           (Inl e, s1) \<Rightarrow> (Inl e, s1)
         | (Inr memory, s1) \<Rightarrow>
             (case mem_allocate place chunk_struct_bytes s1 of
                (Inl e, s2) \<Rightarrow> (Inl e, mem_deallocate memory bytes s2)
              | (Inr self, s2) \<Rightarrow>
                  let s3 = s2\<lparr>chunks := \<lparr>c_memory = memory, c_bytes = bytes, c_index = i, c_self = self\<rparr>
                                         # chunks s2\<rparr>;
                      s4 = s3\<lparr>reserved := reserved s3 + bytes\<rparr>
                  in (Inr (), s4\<lparr>free_lists := (free_lists s4)[i :=
                        push_blocks memory block 0 (bytes div block) (free_lists s4 ! i)]\<rparr>)))"

definition pop_free :: "nat \<Rightarrow> pool \<Rightarrow> (exn + addr) \<times> pool" where
  "pop_free i s =
     (case free_lists s ! i of
        [] \<Rightarrow> (Inl BadAlloc, s)
      | b # rest \<Rightarrow> (Inr b, s\<lparr>free_lists := (free_lists s)[i := rest]\<rparr>))"

definition slab_allocate :: "placer \<Rightarrow> nat \<Rightarrow> pool \<Rightarrow> (exn + addr) \<times> pool" where
  "slab_allocate place sz s =
     (if largest_class < sz then mem_allocate place sz s
      else
        let i = class_index sz
        in if free_lists s ! i = []
           then (case add_chunk place i s of
                   (Inl e, s1) \<Rightarrow> (Inl e, s1)
                 | (Inr _, s1) \<Rightarrow> pop_free i s1)
           else pop_free i s)"

definition slab_deallocate :: "addr \<Rightarrow> nat \<Rightarrow> pool \<Rightarrow> pool" where
  "slab_deallocate block sz s =
     (if block = 0 then s
      else if largest_class < sz then mem_deallocate block sz s
      else
        let i = class_index sz
        in s\<lparr>free_lists := (free_lists s)[i := block # free_lists s ! i]\<rparr>)"

fun release_loop :: "chunk list \<Rightarrow> pool \<Rightarrow> pool" where
  "release_loop [] s = s"
| "release_loop (c # cs) s =
     release_loop cs (mem_deallocate (c_self c) chunk_struct_bytes
       (mem_deallocate (c_memory c) (c_bytes c) s))"

definition release :: "pool \<Rightarrow> pool" where
  "release s =
     (release_loop (chunks s) s)\<lparr>chunks := [], free_lists := replicate class_count [], reserved := 0\<rparr>"

text \<open>
  \<open>live\<close> maps the address of every slab block handed out and not yet returned to the size it
  was requested with; \<open>held\<close> is the set of regions taken from the budget directly. The
  invariant accounts for every region and every slot: a region is either held or belongs to a
  chunk, and a slot of a chunk is either on the free list of its class or live, never both.
\<close>

definition rng :: "addr \<times> nat \<Rightarrow> addr set" where
  "rng r = {fst r..<fst r + snd r}"

definition block_size :: "chunk \<Rightarrow> nat" where
  "block_size c = class_sizes ! c_index c"

definition slots :: "chunk \<Rightarrow> addr set" where
  "slots c = (\<lambda>k. c_memory c + k * block_size c) ` {..<c_bytes c div block_size c}"

definition class_slots :: "chunk list \<Rightarrow> nat \<Rightarrow> addr set" where
  "class_slots cs i = (\<Union>c \<in> {c \<in> set cs. c_index c = i}. slots c)"

definition live_class :: "(addr \<rightharpoonup> nat) \<Rightarrow> nat \<Rightarrow> addr set" where
  "live_class live i = {a. \<exists>sz. live a = Some sz \<and> sz \<le> largest_class \<and> class_index sz = i}"

definition chunk_regions :: "chunk list \<Rightarrow> (addr \<times> nat) set" where
  "chunk_regions cs =
     (\<lambda>c. (c_memory c, c_bytes c)) ` set cs \<union> (\<lambda>c. (c_self c, chunk_struct_bytes)) ` set cs"

definition regions_ok :: "pool \<Rightarrow> bool" where
  "regions_ok s \<longleftrightarrow>
     distinct (regions s) \<and> (\<forall>r \<in> set (regions s). 0 < fst r \<and> 0 < snd r)
     \<and> (\<forall>r \<in> set (regions s). \<forall>q \<in> set (regions s). r \<noteq> q \<longrightarrow> rng r \<inter> rng q = {})"

definition used_ok :: "pool \<Rightarrow> bool" where
  "used_ok s \<longleftrightarrow>
     mem_used s = sum_list (map snd (regions s)) \<and> (mem_limit s \<noteq> 0 \<longrightarrow> mem_used s \<le> mem_limit s)"

definition chunks_ok :: "chunk list \<Rightarrow> pool \<Rightarrow> bool" where
  "chunks_ok cs s \<longleftrightarrow>
     distinct (map c_memory cs) \<and> distinct (map c_self cs)
     \<and> (\<forall>c \<in> set cs. c_index c < 36 \<and> c_bytes c = 65536)
     \<and> reserved s = sum_list (map c_bytes cs)"

definition held_ok :: "chunk list \<Rightarrow> pool \<Rightarrow> (addr \<rightharpoonup> nat) \<Rightarrow> (addr \<times> nat) set \<Rightarrow> bool" where
  "held_ok cs s live held \<longleftrightarrow>
     set (regions s) = held \<union> chunk_regions cs \<and> held \<inter> chunk_regions cs = {}
     \<and> (\<forall>a sz. live a = Some sz \<and> largest_class < sz \<longrightarrow> (a, sz) \<in> held)"

definition free_ok :: "chunk list \<Rightarrow> pool \<Rightarrow> (addr \<rightharpoonup> nat) \<Rightarrow> bool" where
  "free_ok cs s live \<longleftrightarrow>
     length (free_lists s) = 36 \<and>
     (\<forall>i < 36. distinct (free_lists s ! i)
        \<and> set (free_lists s ! i) \<inter> live_class live i = {}
        \<and> set (free_lists s ! i) \<union> live_class live i = class_slots cs i)"

definition pool_inv_for :: "chunk list \<Rightarrow> pool \<Rightarrow> (addr \<rightharpoonup> nat) \<Rightarrow> (addr \<times> nat) set \<Rightarrow> bool" where
  "pool_inv_for cs s live held \<longleftrightarrow>
     regions_ok s \<and> used_ok s \<and> chunks_ok cs s \<and> held_ok cs s live held \<and> free_ok cs s live"

definition pool_inv :: "pool \<Rightarrow> (addr \<rightharpoonup> nat) \<Rightarrow> (addr \<times> nat) set \<Rightarrow> bool" where
  "pool_inv s live held \<longleftrightarrow> pool_inv_for (chunks s) s live held"

text \<open>What \<^verbatim>\<open>operator new\<close> promises: a non-null block apart from every block in use.\<close>

definition placer_ok :: "placer \<Rightarrow> bool" where
  "placer_ok place \<longleftrightarrow>
     (\<forall>rs n a. place rs n = Some a \<longrightarrow> 0 < a \<and> (\<forall>r \<in> set rs. rng (a, n) \<inter> rng r = {}))"

definition drop_chunk :: "chunk \<Rightarrow> pool \<Rightarrow> pool" where
  "drop_chunk c s =
     mem_deallocate (c_self c) chunk_struct_bytes (mem_deallocate (c_memory c) (c_bytes c)
       (s\<lparr>free_lists := (free_lists s)[c_index c := filter (\<lambda>a. \<not> in_chunk c a) (free_lists s ! c_index c)],
          reserved := sub64 (reserved s) (c_bytes c)\<rparr>))"

definition adopt :: "nat \<Rightarrow> addr \<Rightarrow> addr \<Rightarrow> pool \<Rightarrow> pool" where
  "adopt i m q s =
     s\<lparr>chunks := \<lparr>c_memory = m, c_bytes = 65536, c_index = i, c_self = q\<rparr> # chunks s,
       reserved := reserved s + 65536,
       free_lists := (free_lists s)[i := push_blocks m (class_sizes ! i) 0 (65536 div class_sizes ! i)
                                          (free_lists s ! i)]\<rparr>"

definition held_alloc :: "addr \<Rightarrow> nat \<Rightarrow> (addr \<times> nat) set \<Rightarrow> (addr \<times> nat) set" where
  "held_alloc a sz held = (if largest_class < sz then insert (a, sz) held else held)"

definition held_free :: "addr \<Rightarrow> nat \<Rightarrow> (addr \<times> nat) set \<Rightarrow> (addr \<times> nat) set" where
  "held_free a sz held = (if largest_class < sz then held - {(a, sz)} else held)"

definition pool_ok :: "pool \<Rightarrow> (addr \<rightharpoonup> nat) \<Rightarrow> bool" where
  "pool_ok s live \<longleftrightarrow> (\<exists>held. pool_inv s live held)"

inductive pool_step :: "placer \<Rightarrow> pool \<times> (addr \<rightharpoonup> nat) \<Rightarrow> pool \<times> (addr \<rightharpoonup> nat) \<Rightarrow> bool"
  for place :: placer where
  block_out: "slab_allocate place n s = (Inr a, s') \<Longrightarrow> pool_step place (s, live) (s', live(a \<mapsto> n))"
| block_refused: "slab_allocate place n s = (Inl e, s') \<Longrightarrow> pool_step place (s, live) (s', live)"
| block_back: "live a = Some n \<Longrightarrow> pool_step place (s, live) (slab_deallocate a n s, live(a := None))"
| chunks_reclaimed: "pool_step place (s, live) (reclaim s, live)"

inductive_cases pool_stepE: "pool_step place (s, live) (s', live')"

definition large_blocks :: "(addr \<rightharpoonup> nat) \<Rightarrow> (addr \<times> nat) set" where
  "large_blocks live = {(a, n). live a = Some n \<and> largest_class < n}"

text \<open>A placement policy for the examples: directly above everything in use.\<close>

definition bump :: placer where
  "bump rs n = Some (1 + foldr (\<lambda>r m. max (fst r + snd r) m) rs 0)"

definition two_blocks :: "(exn + addr) \<times> pool" where
  "two_blocks = slab_allocate bump 4096 (snd (slab_allocate bump 5000 (pool_init 100000 True)))"

section \<open>Size classes\<close>

lemma class_count_val [simp]: "class_count = 36" "length class_sizes = 36"
  by (simp_all add: class_count_def class_sizes_def)

lemma class_consts [simp]: "dense_limit = 128" "dense_classes = 16" "largest_class = 4096"
  by (simp_all add: dense_limit_def dense_classes_def largest_class_def) (simp add: class_sizes_def)

lemma class_sizes_sorted: "sorted class_sizes"
  by (simp add: class_sizes_def)

lemma class_sizes_dense:
  assumes "i < 16"
  shows "class_sizes ! i = 8 * (i + 1)"
proof -
  have "take 16 class_sizes = map (\<lambda>i. 8 * (i + 1)) [0..<16]"
    by (simp add: class_sizes_def upt_conv_Cons)
  then have "take 16 class_sizes ! i = 8 * (i + 1)" using assms by simp
  then show ?thesis using assms by simp
qed

lemma class_sizes_bounds:
  assumes "i < 36"
  shows "8 \<le> class_sizes ! i" "class_sizes ! i \<le> 4096" "class_sizes ! i mod 8 = 0"
proof -
  have "\<forall>x \<in> set class_sizes. 8 \<le> x \<and> x \<le> 4096 \<and> x mod 8 = 0"
    by (simp add: class_sizes_def)
  then show "8 \<le> class_sizes ! i" "class_sizes ! i \<le> 4096" "class_sizes ! i mod 8 = 0"
    using assms by simp_all
qed

lemma class_search_correct:
  assumes "low \<le> high" "high < 36" "sz \<le> class_sizes ! high" "\<And>j. j < low \<Longrightarrow> class_sizes ! j < sz"
  shows "class_search sz low high \<le> high \<and> sz \<le> class_sizes ! class_search sz low high
       \<and> (\<forall>j < class_search sz low high. class_sizes ! j < sz)"
  using assms
proof (induction sz low high rule: class_search.induct)
  case (1 sz low high)
  let ?m = "(low + high) div 2"
  show ?case
  proof (cases "low < high")
    case False
    then have "class_search sz low high = low" by (simp add: class_search.simps [of sz low high])
    then show ?thesis using "1.prems" False by simp
  next
    case True
    show ?thesis
    proof (cases "class_sizes ! ?m < sz")
      case less: True
      have "class_sizes ! j < sz" if "j < ?m + 1" for j
      proof -
        have "class_sizes ! j \<le> class_sizes ! ?m"
          using that True "1.prems"(2) class_sizes_sorted by (intro sorted_nth_mono) auto
        then show ?thesis using less by simp
      qed
      then have "class_search sz (?m + 1) high \<le> high \<and> sz \<le> class_sizes ! class_search sz (?m + 1) high
          \<and> (\<forall>j < class_search sz (?m + 1) high. class_sizes ! j < sz)"
        using True "1.prems" by (intro "1.IH"(1) [OF True refl less]) auto
      then show ?thesis using True less by (simp add: class_search.simps [of sz low high] Let_def)
    next
      case ge: False
      have "class_search sz low ?m \<le> ?m \<and> sz \<le> class_sizes ! class_search sz low ?m
          \<and> (\<forall>j < class_search sz low ?m. class_sizes ! j < sz)"
        using True ge "1.prems" by (intro "1.IH"(2) [OF True refl ge]) auto
      then show ?thesis using True ge by (auto simp: class_search.simps [of sz low high] Let_def)
    qed
  qed
qed

lemma class_index_correct:
  assumes "sz \<le> 4096"
  shows "class_index sz < 36 \<and> sz \<le> class_sizes ! class_index sz
       \<and> (\<forall>j < class_index sz. class_sizes ! j < sz)"
proof (cases "sz \<le> 128")
  case True
  show ?thesis
  proof (cases "sz \<le> 8")
    case True
    then show ?thesis using class_sizes_dense [of 0] by (simp add: class_index_def)
  next
    case False
    have "(sz + 7) div 8 < 17" using True by (intro less_mult_imp_div_less) simp
    then have i: "(sz + 7) div 8 - 1 < 16" by linarith
    have "class_sizes ! j < sz" if "j < (sz + 7) div 8 - 1" for j
    proof -
      have "(j + 2) * 8 \<le> sz + 7"
        using that by (simp flip: less_eq_div_iff_mult_less_eq)
      then have "8 * j + 8 < sz" by (simp add: algebra_simps)
      then show ?thesis using that i by (simp add: class_sizes_dense)
    qed
    moreover have "1 \<le> (sz + 7) div 8" using False by (simp add: less_eq_div_iff_mult_less_eq)
    moreover have "(sz + 7) mod 8 < 8" by simp
    then have "sz \<le> 8 * ((sz + 7) div 8)" using mult_div_mod_eq [of 8 "sz + 7"] by linarith
    ultimately show ?thesis using False True i by (simp add: class_index_def class_sizes_dense)
  qed
next
  case False
  have last: "class_sizes ! 35 = 4096" by (simp add: class_sizes_def)
  have "class_sizes ! j < sz" if "j < 16" for j using that False by (simp add: class_sizes_dense)
  then have "class_search sz 16 35 \<le> 35 \<and> sz \<le> class_sizes ! class_search sz 16 35
      \<and> (\<forall>j < class_search sz 16 35. class_sizes ! j < sz)"
    using assms last by (intro class_search_correct) auto
  then show ?thesis using False by (simp add: class_index_def)
qed

section \<open>The allocator invariant\<close>

lemma pool_inv_forI:
  assumes "regions_ok s" "used_ok s" "chunks_ok cs s" "held_ok cs s live held" "free_ok cs s live"
  shows "pool_inv_for cs s live held"
  using assms by (simp add: pool_inv_for_def)

lemma pool_inv_forD:
  assumes "pool_inv_for cs s live held"
  shows "regions_ok s" "used_ok s" "chunks_ok cs s" "held_ok cs s live held" "free_ok cs s live"
  using assms by (simp_all add: pool_inv_for_def)

lemma mem_deallocate_fields [simp]:
  "free_lists (mem_deallocate p n s) = free_lists s" "chunks (mem_deallocate p n s) = chunks s"
  "reserved (mem_deallocate p n s) = reserved s" "mem_limit (mem_deallocate p n s) = mem_limit s"
  "has_reclaim (mem_deallocate p n s) = has_reclaim s"
  by (simp_all add: mem_deallocate_def)

lemma mem_deallocate_regions:
  assumes "regions_ok s" "used_ok s" "(p, n) \<in> set (regions s)"
  shows "regions_ok (mem_deallocate p n s)" "used_ok (mem_deallocate p n s)"
    "set (regions (mem_deallocate p n s)) = set (regions s) - {(p, n)}"
    "mem_used (mem_deallocate p n s) + n = mem_used s"
proof -
  have d: "distinct (regions s)" using assms(1) by (simp add: regions_ok_def)
  show set: "set (regions (mem_deallocate p n s)) = set (regions s) - {(p, n)}"
    using d by (simp add: mem_deallocate_def)
  show "regions_ok (mem_deallocate p n s)"
    using assms(1) d by (auto simp: regions_ok_def mem_deallocate_def)
  have "sum_list (map snd (regions s)) = n + sum_list (map snd (remove1 (p, n) (regions s)))"
    using sum_list_map_remove1 [OF assms(3), of snd] by simp
  then show "used_ok (mem_deallocate p n s)" "mem_used (mem_deallocate p n s) + n = mem_used s"
    using assms(2) by (auto simp: used_ok_def mem_deallocate_def sub64_def)
qed

subsection \<open>Slots\<close>

lemma block_size_pos:
  assumes "chunks_ok cs s" "c \<in> set cs"
  shows "8 \<le> block_size c" "block_size c \<le> 4096" "c_bytes c = 65536" "c_index c < 36"
  using assms class_sizes_bounds [of "c_index c"] by (auto simp: block_size_def chunks_ok_def)

lemma slot_in_region:
  assumes "a \<in> slots c" "n \<le> block_size c"
  shows "rng (a, n) \<subseteq> rng (c_memory c, c_bytes c)"
proof -
  obtain k where k: "k < c_bytes c div block_size c" "a = c_memory c + k * block_size c"
    using assms(1) by (auto simp: slots_def)
  have "(k + 1) * block_size c \<le> c_bytes c div block_size c * block_size c"
    using k(1) by (intro mult_right_mono) auto
  also have "\<dots> \<le> c_bytes c" by simp
  finally show ?thesis using k(2) assms(2) by (auto simp: rng_def algebra_simps)
qed

lemma slot_in_chunk: "a \<in> slots c \<Longrightarrow> 0 < block_size c \<Longrightarrow> in_chunk c a"
  using slot_in_region [of a c "block_size c"] by (auto simp: rng_def in_chunk_def)

lemma in_chunk_rng: "in_chunk c a \<longleftrightarrow> a \<in> rng (c_memory c, c_bytes c)"
  by (auto simp: in_chunk_def rng_def)

lemma slots_disjoint:
  assumes "a \<in> slots c" "b \<in> slots c" "a \<noteq> b" "m \<le> block_size c" "n \<le> block_size c"
  shows "rng (a, m) \<inter> rng (b, n) = {}"
proof -
  obtain j k where jk: "a = c_memory c + j * block_size c" "b = c_memory c + k * block_size c"
    using assms(1,2) by (auto simp: slots_def)
  have "j \<noteq> k" using assms(3) jk by auto
  then have "(j + 1) * block_size c \<le> k * block_size c \<or> (k + 1) * block_size c \<le> j * block_size c"
    by (metis Suc_eq_plus1 Suc_leI linorder_neqE_nat mult_le_mono1)
  then show ?thesis using jk assms(4,5) by (auto simp: rng_def algebra_simps)
qed

lemma card_slots: "0 < block_size c \<Longrightarrow> finite (slots c) \<and> card (slots c) = c_bytes c div block_size c"
  unfolding slots_def by (subst card_image) (auto intro!: inj_onI)

lemma chunk_region_disjoint:
  assumes "pool_inv_for cs s live held" "c \<in> set cs" "d \<in> set cs" "c \<noteq> d"
  shows "rng (c_memory c, c_bytes c) \<inter> rng (c_memory d, c_bytes d) = {}"
proof -
  have "(c_memory c, c_bytes c) \<in> set (regions s)" "(c_memory d, c_bytes d) \<in> set (regions s)"
    using assms by (auto simp: pool_inv_for_def held_ok_def chunk_regions_def)
  moreover have "c_memory c \<noteq> c_memory d"
    using assms by (auto simp: pool_inv_for_def chunks_ok_def distinct_map inj_on_def)
  ultimately show ?thesis
    using assms(1) by (simp add: pool_inv_for_def regions_ok_def)
qed

lemma slots_of_two_chunks:
  assumes "pool_inv_for cs s live held" "c \<in> set cs" "d \<in> set cs" "a \<in> slots c" "in_chunk d a"
  shows "c = d"
proof (rule ccontr)
  assume "c \<noteq> d"
  then have "rng (c_memory c, c_bytes c) \<inter> rng (c_memory d, c_bytes d) = {}"
    by (rule chunk_region_disjoint [OF assms(1-3)])
  moreover have "in_chunk c a"
    using block_size_pos [OF pool_inv_forD(3) [OF assms(1)] assms(2)] assms(4) by (intro slot_in_chunk) auto
  ultimately show False using assms(5) by (auto simp: in_chunk_rng)
qed

subsection \<open>Reclaiming empty chunks\<close>

lemma free_slots_of_empty_chunk:
  assumes inv: "pool_inv_for cs s live held" and c: "c \<in> set cs"
    and full: "length (filter (in_chunk c) (free_lists s ! c_index c)) = c_bytes c div block_size c"
  shows "slots c \<subseteq> set (free_lists s ! c_index c)"
    and "set (filter (\<lambda>a. \<not> in_chunk c a) (free_lists s ! c_index c)) = set (free_lists s ! c_index c) - slots c"
proof -
  let ?fl = "free_lists s ! c_index c"
  note bs = block_size_pos [OF pool_inv_forD(3) [OF inv] c]
  have fl: "distinct ?fl" "set ?fl \<subseteq> class_slots cs (c_index c)"
    using inv bs(4) by (auto simp: pool_inv_for_def free_ok_def)
  have sub: "set (filter (in_chunk c) ?fl) \<subseteq> slots c"
  proof
    fix a assume a: "a \<in> set (filter (in_chunk c) ?fl)"
    then obtain d where d: "d \<in> set cs" "a \<in> slots d" using fl(2) by (auto simp: class_slots_def)
    then have "d = c" using slots_of_two_chunks [OF inv d(1) c d(2)] a by simp
    then show "a \<in> slots c" using d by simp
  qed
  moreover have "card (set (filter (in_chunk c) ?fl)) = card (slots c)"
    using full distinct_card [of "filter (in_chunk c) ?fl"] fl(1) card_slots [of c] bs(1) by simp
  ultimately have eq: "set (filter (in_chunk c) ?fl) = slots c"
    using card_slots [of c] bs(1) by (intro card_subset_eq) auto
  then show "slots c \<subseteq> set ?fl" by auto
  show "set (filter (\<lambda>a. \<not> in_chunk c a) ?fl) = set ?fl - slots c"
    using eq by auto
qed

lemma class_slots_remove:
  assumes inv: "pool_inv_for (ks @ c # cs) s live held"
  shows "class_slots (ks @ cs) i = (if i = c_index c then class_slots (ks @ c # cs) i - slots c
                                     else class_slots (ks @ c # cs) i)"
proof -
  have "distinct (ks @ c # cs)"
    using inv unfolding pool_inv_for_def chunks_ok_def by (metis distinct_map)
  then have nc: "c \<notin> set (ks @ cs)" by auto
  have "slots d \<inter> slots c = {}" if "d \<in> set (ks @ cs)" for d
  proof -
    have "in_chunk c a" if "a \<in> slots c" for a
      using that block_size_pos(1) [OF pool_inv_forD(3) [OF inv], of c] by (intro slot_in_chunk) auto
    then show ?thesis using slots_of_two_chunks [OF inv, of d c] that nc by auto
  qed
  then show ?thesis unfolding class_slots_def by auto
qed

lemma drop_chunk_inv:
  assumes inv: "pool_inv_for (ks @ c # cs) s live held"
    and full: "length (filter (in_chunk c) (free_lists s ! c_index c)) = c_bytes c div block_size c"
  shows "pool_inv_for (ks @ cs) (drop_chunk c s) live held" "mem_used (drop_chunk c s) \<le> mem_used s"
proof -
  let ?i = "c_index c" and ?fl = "free_lists s ! c_index c"
  note p = pool_inv_forD [OF inv]
  have c: "c \<in> set (ks @ c # cs)" by simp
  note bs = block_size_pos [OF p(3) c] and em = free_slots_of_empty_chunk [OF inv c full]
  let ?s1 = "s\<lparr>free_lists := (free_lists s)[?i := filter (\<lambda>a. \<not> in_chunk c a) ?fl],
               reserved := sub64 (reserved s) (c_bytes c)\<rparr>"
  let ?s2 = "mem_deallocate (c_memory c) (c_bytes c) ?s1"
  have r1: "regions_ok ?s1" "used_ok ?s1" using p(1,2) by (auto simp: regions_ok_def used_ok_def)
  have m1: "(c_memory c, c_bytes c) \<in> set (regions ?s1)" "(c_self c, chunk_struct_bytes) \<in> set (regions ?s1)"
    using p(4) by (auto simp: held_ok_def chunk_regions_def)
  note r2 = mem_deallocate_regions [OF r1 m1(1)]
  have m2: "(c_self c, chunk_struct_bytes) \<in> set (regions ?s2)"
    using m1 bs(3) r2(3) by (simp add: chunk_struct_bytes_def)
  note r3 = mem_deallocate_regions [OF r2(1,2) m2]
  have cr: "chunk_regions (ks @ cs)
      = chunk_regions (ks @ c # cs) - {(c_memory c, c_bytes c)} - {(c_self c, chunk_struct_bytes)}"
  proof -
    have "(c_memory c, c_bytes c) \<notin> chunk_regions (ks @ cs)"
      using p(3) by (auto simp: chunks_ok_def chunk_struct_bytes_def chunk_regions_def)
    moreover have "(c_self c, chunk_struct_bytes) \<notin> chunk_regions (ks @ cs)"
      using p(3) by (auto simp: chunks_ok_def chunk_struct_bytes_def chunk_regions_def)
    moreover have "chunk_regions (ks @ c # cs)
        = insert (c_memory c, c_bytes c) (insert (c_self c, chunk_struct_bytes) (chunk_regions (ks @ cs)))"
      by (auto simp: chunk_regions_def)
    ultimately show ?thesis by blast
  qed
  show "mem_used (drop_chunk c s) \<le> mem_used s" using r2(4) r3(4) by (simp add: drop_chunk_def)
  show "pool_inv_for (ks @ cs) (drop_chunk c s) live held"
  proof (rule pool_inv_forI)
    show "regions_ok (drop_chunk c s)" "used_ok (drop_chunk c s)" using r3 by (simp_all add: drop_chunk_def)
    show "chunks_ok (ks @ cs) (drop_chunk c s)"
      using p(3) by (auto simp: chunks_ok_def drop_chunk_def sub64_def)
    let ?m = "(c_memory c, c_bytes c)" and ?q = "(c_self c, chunk_struct_bytes)"
    have "set (regions (drop_chunk c s)) = set (regions s) - {?m} - {?q}"
      using r3(3) r2(3) by (simp add: drop_chunk_def)
    moreover have "?m \<in> chunk_regions (ks @ c # cs)" "?q \<in> chunk_regions (ks @ c # cs)"
      by (simp_all add: chunk_regions_def)
    ultimately show "held_ok (ks @ cs) (drop_chunk c s) live held"
      using p(4) unfolding held_ok_def cr by blast
    have nl: "live_class live ?i \<inter> slots c = {}"
      using p(5) bs(4) em(1) unfolding free_ok_def by blast
    have fl: "free_lists (drop_chunk c s) = (free_lists s)[?i := filter (\<lambda>a. \<not> in_chunk c a) ?fl]"
      by (simp add: drop_chunk_def)
    show "free_ok (ks @ cs) (drop_chunk c s) live"
      unfolding free_ok_def
    proof (intro conjI allI impI)
      show "length (free_lists (drop_chunk c s)) = 36" using p(5) by (simp add: fl free_ok_def)
      fix i :: nat assume i: "i < 36"
      have o: "distinct (free_lists s ! i)" "set (free_lists s ! i) \<inter> live_class live i = {}"
        "set (free_lists s ! i) \<union> live_class live i = class_slots (ks @ c # cs) i"
        using p(5) i by (simp_all add: free_ok_def)
      have n: "free_lists (drop_chunk c s) ! i = (if i = ?i then filter (\<lambda>a. \<not> in_chunk c a) ?fl else free_lists s ! i)"
        using p(5) i by (simp add: fl free_ok_def)
      show "distinct (free_lists (drop_chunk c s) ! i)" using o(1) n by auto
      have st: "set (free_lists (drop_chunk c s) ! i) = (if i = ?i then set ?fl - slots c else set (free_lists s ! i))"
        using n em(2) by simp
      show "set (free_lists (drop_chunk c s) ! i) \<inter> live_class live i = {}"
        unfolding st using o(2) by auto
      show "set (free_lists (drop_chunk c s) ! i) \<union> live_class live i = class_slots (ks @ cs) i"
        unfolding st class_slots_remove [OF inv] using o(3) nl by auto
    qed
  qed
qed

lemma reclaim_loop_inv:
  assumes "pool_inv_for (ks @ cs) s live held" "reclaim_loop cs s = (kept, s')"
  shows "pool_inv_for (ks @ kept) s' live held \<and> mem_limit s' = mem_limit s \<and> has_reclaim s' = has_reclaim s
       \<and> chunks s' = chunks s \<and> mem_used s' \<le> mem_used s"
  using assms
proof (induction cs s arbitrary: ks kept s' rule: reclaim_loop.induct)
  case (1 s)
  then show ?case by simp
next
  case (2 c cs s)
  let ?n = "length (filter (in_chunk c) (free_lists s ! c_index c))"
  show ?case
  proof (cases "?n = c_bytes c div block_size c")
    case False
    then obtain k where k: "reclaim_loop cs s = (k, s')" "kept = c # k"
      using "2.prems"(2) by (auto simp: Let_def block_size_def split: prod.splits)
    have "pool_inv_for ((ks @ [c]) @ cs) s live held" using "2.prems"(1) by simp
    then show ?thesis using "2.IH"(1) [OF refl, of "ks @ [c]" k s'] False k by (simp add: block_size_def)
  next
    case True
    note step = drop_chunk_inv [OF "2.prems"(1) True]
    have run: "reclaim_loop cs (drop_chunk c s) = (kept, s')"
      using "2.prems"(2) True by (simp add: Let_def block_size_def drop_chunk_def)
    have "pool_inv_for (ks @ kept) s' live held \<and> mem_limit s' = mem_limit (drop_chunk c s)
        \<and> has_reclaim s' = has_reclaim (drop_chunk c s) \<and> chunks s' = chunks (drop_chunk c s)
        \<and> mem_used s' \<le> mem_used (drop_chunk c s)"
      using "2.IH"(2) [OF refl, of _ _ _ _ ks kept s'] True step(1) run
      by (simp add: block_size_def drop_chunk_def)
    then show ?thesis using step(2) by (simp add: drop_chunk_def)
  qed
qed

lemma pool_inv_for_chunks [simp]: "pool_inv_for cs (s\<lparr>chunks := ks\<rparr>) live held = pool_inv_for cs s live held"
  by (simp add: pool_inv_for_def regions_ok_def used_ok_def chunks_ok_def held_ok_def free_ok_def)

lemma reclaim_inv:
  assumes "pool_inv s live held"
  shows "pool_inv (reclaim s) live held" "mem_limit (reclaim s) = mem_limit s"
    "mem_used (reclaim s) \<le> mem_used s" "has_reclaim (reclaim s) = has_reclaim s"
proof -
  obtain kept s' where r: "reclaim_loop (chunks s) s = (kept, s')" by (metis surj_pair)
  have "pool_inv_for ([] @ chunks s) s live held" using assms by (simp add: pool_inv_def)
  from reclaim_loop_inv [OF this r]
  show "pool_inv (reclaim s) live held" "mem_limit (reclaim s) = mem_limit s"
    "mem_used (reclaim s) \<le> mem_used s" "has_reclaim (reclaim s) = has_reclaim s"
    using r by (simp_all add: reclaim_def pool_inv_def)
qed

subsection \<open>Live blocks\<close>

lemma live_slot:
  assumes "pool_inv s live held" "live a = Some sz" "sz \<le> 4096"
  obtains c where "c \<in> set (chunks s)" "c_index c = class_index sz" "a \<in> slots c" "sz \<le> block_size c"
proof -
  have i: "class_index sz < 36" "sz \<le> class_sizes ! class_index sz"
    using class_index_correct [OF assms(3)] by auto
  have "a \<in> live_class live (class_index sz)" using assms by (auto simp: live_class_def)
  then have "a \<in> class_slots (chunks s) (class_index sz)"
    using assms(1) i(1) unfolding pool_inv_def pool_inv_for_def free_ok_def by blast
  then show ?thesis using that i(2) by (auto simp: class_slots_def block_size_def)
qed

lemma held_chunk_disjoint:
  assumes "pool_inv s live held" "r \<in> held" "c \<in> set (chunks s)"
  shows "rng r \<inter> rng (c_memory c, c_bytes c) = {}"
proof -
  have "(c_memory c, c_bytes c) \<in> chunk_regions (chunks s)" using assms(3) by (auto simp: chunk_regions_def)
  moreover have "r \<in> set (regions s)" "r \<notin> chunk_regions (chunks s)"
    "chunk_regions (chunks s) \<subseteq> set (regions s)"
    using assms(1,2) unfolding pool_inv_def pool_inv_for_def held_ok_def by blast+
  moreover have "\<And>r q. r \<in> set (regions s) \<Longrightarrow> q \<in> set (regions s) \<Longrightarrow> r \<noteq> q \<Longrightarrow> rng r \<inter> rng q = {}"
    using assms(1) by (simp add: pool_inv_def pool_inv_for_def regions_ok_def)
  ultimately show ?thesis by (metis subsetD)
qed

lemma live_held: "pool_inv s live held \<Longrightarrow> live a = Some sz \<Longrightarrow> 4096 < sz \<Longrightarrow> (a, sz) \<in> held"
  by (auto simp: pool_inv_def pool_inv_for_def held_ok_def)

lemma held_disjoint:
  "pool_inv s live held \<Longrightarrow> r \<in> held \<Longrightarrow> q \<in> held \<Longrightarrow> r \<noteq> q \<Longrightarrow> rng r \<inter> rng q = {}"
  unfolding pool_inv_def pool_inv_for_def held_ok_def regions_ok_def by blast

lemma small_large_disjoint:
  assumes "pool_inv s live held" "live a = Some m" "m \<le> 4096" "r \<in> held"
  shows "rng (a, m) \<inter> rng r = {}"
proof -
  obtain c where c: "c \<in> set (chunks s)" "a \<in> slots c" "m \<le> block_size c"
    using live_slot [OF assms(1-3)] by metis
  show ?thesis
    using slot_in_region [OF c(2,3)] held_chunk_disjoint [OF assms(1,4) c(1)] by blast
qed

lemma live_disjoint:
  assumes inv: "pool_inv s live held" and l: "live a = Some m" "live b = Some n" "a \<noteq> b"
  shows "rng (a, m) \<inter> rng (b, n) = {}"
proof (cases "m \<le> 4096")
  case m: True
  show ?thesis
  proof (cases "n \<le> 4096")
    case True
    obtain c where c: "c \<in> set (chunks s)" "a \<in> slots c" "m \<le> block_size c"
      using live_slot [OF inv l(1) m] by metis
    obtain d where d: "d \<in> set (chunks s)" "b \<in> slots d" "n \<le> block_size d"
      using live_slot [OF inv l(2) True] by metis
    show ?thesis
    proof (cases "c = d")
      case True
      then show ?thesis using slots_disjoint [OF c(2) _ l(3) c(3)] d by simp
    next
      case False
      then have "rng (c_memory c, c_bytes c) \<inter> rng (c_memory d, c_bytes d) = {}"
        using chunk_region_disjoint c(1) d(1) inv unfolding pool_inv_def by blast
      then show ?thesis using slot_in_region [OF c(2,3)] slot_in_region [OF d(2,3)] by blast
    qed
  next
    case False
    then show ?thesis using small_large_disjoint [OF inv l(1) m live_held [OF inv l(2)]] by simp
  qed
next
  case m: False
  then have h: "(a, m) \<in> held" using live_held [OF inv l(1)] by simp
  show ?thesis
  proof (cases "n \<le> 4096")
    case True
    then show ?thesis using small_large_disjoint [OF inv l(2) True h] by blast
  next
    case False
    then have "(b, n) \<in> held" using live_held [OF inv l(2)] by simp
    then show ?thesis using held_disjoint [OF inv h] l(3) by simp
  qed
qed

lemma free_not_live:
  assumes inv: "pool_inv s live held" and a: "a \<in> set (free_lists s ! i)" "i < 36"
  shows "live a = None"
proof (rule ccontr)
  assume "live a \<noteq> None"
  then obtain n where n: "live a = Some n" by auto
  have f: "set (free_lists s ! i) \<inter> live_class live i = {}" "set (free_lists s ! i) \<subseteq> class_slots (chunks s) i"
    using inv a(2) unfolding pool_inv_def pool_inv_for_def free_ok_def by blast+
  then obtain c where c: "c \<in> set (chunks s)" "c_index c = i" "a \<in> slots c"
    using a(1) by (auto simp: class_slots_def)
  have co: "chunks_ok (chunks s) s" using inv by (simp add: pool_inv_def pool_inv_for_def)
  have ac: "in_chunk c a" using block_size_pos(1) [OF co c(1)] c(3) by (intro slot_in_chunk) auto
  show False
  proof (cases "n \<le> 4096")
    case True
    obtain d where d: "d \<in> set (chunks s)" "c_index d = class_index n" "a \<in> slots d"
      using live_slot [OF inv n True] by metis
    then have "d = c" using slots_of_two_chunks [OF _ d(1) c(1) d(3) ac] inv by (auto simp: pool_inv_def)
    then have "a \<in> live_class live i" using n True c d by (auto simp: live_class_def)
    then show False using a f by blast
  next
    case False
    then have "rng (a, n) \<inter> rng (c_memory c, c_bytes c) = {}"
      using held_chunk_disjoint [OF inv live_held [OF inv n] c(1)] by simp
    moreover have "a \<in> rng (a, n)" using False by (simp add: rng_def)
    ultimately show False using ac by (auto simp: in_chunk_rng)
  qed
qed

subsection \<open>The memory resource\<close>

lemma new_allocate_inv:
  assumes "placer_ok place" "pool_inv s live held" "0 < n"
    and "mem_limit s \<noteq> 0 \<longrightarrow> n + mem_used s \<le> mem_limit s" "new_allocate place n s = (Inr a, s')"
  shows "pool_inv s' live (insert (a, n) held)" "(a, n) \<notin> held" "0 < a"
proof -
  have p: "place (regions s) n = Some a"
    "s' = s\<lparr>regions := (a, n) # regions s, mem_used := mem_used s + n\<rparr>"
    using assms(5) by (auto simp: new_allocate_def split: option.splits)
  have a: "0 < a" "\<forall>r \<in> set (regions s). rng (a, n) \<inter> rng r = {}"
    using assms(1) p(1) unfolding placer_ok_def by blast+
  have "(a, n) \<notin> set (regions s)"
  proof
    assume "(a, n) \<in> set (regions s)"
    then have "rng (a, n) = {}" using a(2) by blast
    then show False using assms(3) by (simp add: rng_def)
  qed
  note p5 = pool_inv_forD [OF assms(2) [unfolded pool_inv_def]]
  have ro: "regions_ok s'"
    using p5(1) a assms(3) \<open>(a, n) \<notin> set (regions s)\<close>
    unfolding regions_ok_def p(2) by (simp add: Int_commute)
  have uo: "used_ok s'" using p5(2) assms(4) by (simp add: used_ok_def p(2) ac_simps)
  have ho: "held_ok (chunks s) s' live (insert (a, n) held)"
    using p5(4) \<open>(a, n) \<notin> set (regions s)\<close> unfolding held_ok_def p(2) by auto
  have "chunks s' = chunks s" by (simp add: p(2))
  then show "pool_inv s' live (insert (a, n) held)"
    unfolding pool_inv_def using ro uo ho p5(3,5)
    by (intro pool_inv_forI) (simp_all add: p(2) chunks_ok_def free_ok_def)
  show "(a, n) \<notin> held" using p5(4) \<open>(a, n) \<notin> set (regions s)\<close> by (auto simp: held_ok_def)
  show "0 < a" by (rule a)
qed

lemma mem_allocate_inv:
  assumes "placer_ok place" "pool_inv s live held" "0 < n" "mem_allocate place n s = (r, s')"
  shows "mem_limit s' = mem_limit s \<and> has_reclaim s' = has_reclaim s
       \<and> (case r of Inl e \<Rightarrow> pool_inv s' live held \<and> is_bad_alloc e
          | Inr a \<Rightarrow> pool_inv s' live (insert (a, n) held) \<and> (a, n) \<notin> held \<and> 0 < a)"
proof -
  have new: "mem_limit s' = mem_limit t \<and> has_reclaim s' = has_reclaim t
       \<and> (case r of Inl e \<Rightarrow> pool_inv s' live held \<and> is_bad_alloc e
          | Inr a \<Rightarrow> pool_inv s' live (insert (a, n) held) \<and> (a, n) \<notin> held \<and> 0 < a)"
    if t: "pool_inv t live held" "mem_limit t \<noteq> 0 \<longrightarrow> \<not> sub64 (mem_limit t) (mem_used t) < n"
      "new_allocate place n t = (r, s')" for t
  proof -
    have le: "mem_limit t \<noteq> 0 \<longrightarrow> n + mem_used t \<le> mem_limit t"
      using t(1,2) by (auto simp: pool_inv_def pool_inv_for_def used_ok_def sub64_def)
    show ?thesis
    proof (cases r)
      case (Inl e)
      then show ?thesis using t by (auto simp: new_allocate_def is_bad_alloc_def split: option.splits)
    next
      case (Inr a)
      then show ?thesis using new_allocate_inv [OF assms(1) t(1) assms(3) le] t(3)
        by (auto simp: new_allocate_def split: option.splits)
    qed
  qed
  define t where "t = (if has_reclaim s then reclaim s else s)"
  have t: "pool_inv t live held" "mem_limit t = mem_limit s" "has_reclaim t = has_reclaim s"
    using reclaim_inv [OF assms(2)] assms(2) by (simp_all add: t_def)
  show ?thesis
  proof (cases "mem_limit s \<noteq> 0 \<and> sub64 (mem_limit s) (mem_used s) < n")
    case full: True
    show ?thesis
    proof (cases "sub64 (mem_limit t) (mem_used t) < n")
      case True
      then have "r = Inl MemoryLimit" "s' = t"
        using full assms(4) by (simp_all add: mem_allocate_def t_def Let_def split: if_splits)
      then show ?thesis using t by (simp add: is_bad_alloc_def)
    next
      case False
      then have "new_allocate place n t = (r, s')"
        using full assms(4) by (simp add: mem_allocate_def t_def Let_def split: if_splits)
      then show ?thesis using new [OF t(1)] False t by simp
    qed
  next
    case False
    then have "new_allocate place n s = (r, s')" using assms(4) by (auto simp: mem_allocate_def)
    then show ?thesis using new [OF assms(2)] False by auto
  qed
qed

subsection \<open>Adding a chunk\<close>

lemma grow_bytes_class: "i < 36 \<Longrightarrow> grow_bytes chunk_bytes (class_sizes ! i) = 65536"
  using class_sizes_bounds(2) [of i] by (simp add: grow_bytes.simps chunk_bytes_def)

lemma set_push_blocks:
  "set (push_blocks m b j n fl) = (\<lambda>k. m + k * b) ` {j..<j + n} \<union> set fl"
proof (induction n arbitrary: j fl)
  case (Suc n)
  have "{j..<j + Suc n} = insert j {Suc j..<Suc j + n}" by auto
  then show ?case by (simp add: Suc.IH)
qed simp

lemma distinct_push_blocks:
  assumes "0 < b" "distinct fl" "(\<lambda>k. m + k * b) ` {j..<j + n} \<inter> set fl = {}"
  shows "distinct (push_blocks m b j n fl)"
  using assms
proof (induction n arbitrary: j fl)
  case (Suc n)
  have e: "{j..<j + Suc n} = insert j {Suc j..<Suc j + n}" by auto
  have "m + j * b \<notin> (\<lambda>k. m + k * b) ` {Suc j..<Suc j + n}" using Suc.prems(1) by auto
  then have "(\<lambda>k. m + k * b) ` {Suc j..<Suc j + n} \<inter> set ((m + j * b) # fl) = {}"
    using Suc.prems(3) unfolding e by auto
  moreover have "distinct ((m + j * b) # fl)" using Suc.prems(2,3) unfolding e by auto
  ultimately show ?case using Suc.IH [OF Suc.prems(1)] by simp
qed simp

lemma chunk_regions_mem:
  assumes "d \<in> set cs"
  shows "(c_memory d, c_bytes d) \<in> chunk_regions cs" "(c_self d, 32) \<in> chunk_regions cs"
  using assms by (simp_all add: chunk_regions_def chunk_struct_bytes_def)

lemma class_slots_Cons:
  "class_slots (c # cs) j = (if j = c_index c then slots c \<union> class_slots cs j else class_slots cs j)"
  by (auto simp: class_slots_def)

lemma move_pair:
  assumes "R = insert x (insert y H) \<union> C" "insert x (insert y H) \<inter> C = {}" "x \<notin> H" "y \<notin> H"
  shows "R = H \<union> insert y (insert x C)" "H \<inter> insert y (insert x C) = {}"
  using assms by blast+

lemma adopt_inv:
  assumes inv: "pool_inv s live (insert (q, 32) (insert (m, 65536) held))" and i: "i < 36"
    and fresh: "(m, 65536) \<notin> held" "(q, 32) \<notin> held"
    and large: "\<And>a sz. live a = Some sz \<Longrightarrow> 4096 < sz \<Longrightarrow> (a, sz) \<in> held"
  shows "pool_inv (adopt i m q s) live held" "free_lists (adopt i m q s) ! i \<noteq> []"
proof -
  let ?H = "insert (q, 32) (insert (m, 65536) held)"
  define c where "c = \<lparr>c_memory = m, c_bytes = 65536, c_index = i, c_self = q\<rparr>"
  note p = pool_inv_forD [OF inv [unfolded pool_inv_def]]
  have bs: "8 \<le> class_sizes ! i" "block_size c = class_sizes ! i" "class_sizes ! i \<le> 4096"
    using class_sizes_bounds [OF i] by (simp_all add: block_size_def c_def)
  have s': "chunks (adopt i m q s) = c # chunks s" "reserved (adopt i m q s) = reserved s + 65536"
    "regions (adopt i m q s) = regions s" "mem_used (adopt i m q s) = mem_used s"
    "mem_limit (adopt i m q s) = mem_limit s"
    by (simp_all add: adopt_def c_def)
  have "(m, 65536) \<notin> chunk_regions (chunks s)" "(q, 32) \<notin> chunk_regions (chunks s)"
    using p(4) unfolding held_ok_def by blast+
  then have nm: "m \<notin> c_memory ` set (chunks s)" "q \<notin> c_self ` set (chunks s)"
    using chunk_regions_mem block_size_pos(3) [OF p(3)] by (metis imageE)+
  have apart: "slots c \<inter> class_slots (chunks s) j = {}" for j
  proof -
    have "slots c \<inter> slots d = {}" if d: "d \<in> set (chunks s)" for d
    proof -
      have "rng (m, 65536) \<inter> rng (c_memory d, c_bytes d) = {}"
        using held_chunk_disjoint [OF inv _ d] by simp
      moreover have "a \<in> rng (m, 65536)" if "a \<in> slots c" for a
        using slot_in_chunk [OF that] bs by (simp add: in_chunk_rng c_def)
      moreover have "a \<in> rng (c_memory d, c_bytes d)" if "a \<in> slots d" for a
        using slot_in_chunk [OF that] block_size_pos(1) [OF p(3) d] by (simp add: in_chunk_rng)
      ultimately show ?thesis by blast
    qed
    then show ?thesis by (auto simp: class_slots_def)
  qed
  have sl: "slots c = (\<lambda>k. m + k * class_sizes ! i) ` {0..<0 + 65536 div class_sizes ! i}"
    unfolding slots_def bs(2) by (simp add: c_def lessThan_atLeast0)
  have fl: "set (free_lists s ! j) \<inter> live_class live j = {}" "distinct (free_lists s ! j)"
    "set (free_lists s ! j) \<union> live_class live j = class_slots (chunks s) j" if "j < 36" for j
    using p(5) that by (simp_all add: free_ok_def)
  have len: "length (free_lists s) = 36" using p(5) by (simp add: free_ok_def)
  have new: "free_lists (adopt i m q s) ! j = (if j = i then push_blocks m (class_sizes ! i) 0
       (65536 div class_sizes ! i) (free_lists s ! i) else free_lists s ! j)" if "j < 36" for j
    using that len by (simp add: adopt_def)
  have st: "set (free_lists (adopt i m q s) ! j)
      = (if j = i then slots c \<union> set (free_lists s ! i) else set (free_lists s ! j))" if "j < 36" for j
    unfolding new [OF that] sl by (simp only: set_push_blocks split: if_split) blast
  have cl: "class_slots (c # chunks s) j
      = (if j = i then slots c \<union> class_slots (chunks s) j else class_slots (chunks s) j)" for j
    using class_slots_Cons [of c "chunks s" j] by (simp add: c_def)
  have "free_ok (c # chunks s) (adopt i m q s) live"
    unfolding free_ok_def
  proof (intro conjI allI impI)
    show "length (free_lists (adopt i m q s)) = 36" using len by (simp add: adopt_def)
    fix j :: nat assume j: "j < 36"
    have "slots c \<inter> set (free_lists s ! i) = {}" using apart [of i] fl(3) [OF i] by blast
    then have "distinct (push_blocks m (class_sizes ! i) 0 (65536 div class_sizes ! i) (free_lists s ! i))"
      unfolding sl using bs(1) fl(2) [OF i] by (intro distinct_push_blocks) auto
    then show "distinct (free_lists (adopt i m q s) ! j)" using new [OF j] fl(2) [OF j] by simp
    show "set (free_lists (adopt i m q s) ! j) \<inter> live_class live j = {}"
      unfolding st [OF j] using fl(1,3) [OF j] apart [of j] by auto
    show "set (free_lists (adopt i m q s) ! j) \<union> live_class live j = class_slots (c # chunks s) j"
      unfolding st [OF j] cl using fl(3) [OF j] by auto
  qed
  moreover have "held_ok (c # chunks s) (adopt i m q s) live held"
  proof -
    have "chunk_regions (c # chunks s) = insert (m, 65536) (insert (q, 32) (chunk_regions (chunks s)))"
      by (auto simp: chunk_regions_def c_def chunk_struct_bytes_def)
    moreover have "set (regions s) = ?H \<union> chunk_regions (chunks s)" "?H \<inter> chunk_regions (chunks s) = {}"
      using p(4) by (simp_all only: held_ok_def)
    note move_pair [OF this fresh(2,1)]
    ultimately show ?thesis using large by (simp only: held_ok_def s' class_consts) simp
  qed
  moreover have "chunks_ok (c # chunks s) (adopt i m q s)"
    using p(3) nm i by (auto simp: chunks_ok_def s' c_def)
  moreover have "regions_ok (adopt i m q s)" "used_ok (adopt i m q s)"
    using p(1,2) unfolding regions_ok_def used_ok_def s' by blast+
  ultimately show "pool_inv (adopt i m q s) live held"
    unfolding pool_inv_def s' by (intro pool_inv_forI)
  have "0 < 65536 div class_sizes ! i" using bs by (simp add: div_greater_zero_iff)
  then have "m \<in> slots c" unfolding sl by (intro image_eqI [of _ _ 0]) auto
  then have "set (free_lists (adopt i m q s) ! i) \<noteq> {}" using st [OF i] by auto
  then show "free_lists (adopt i m q s) ! i \<noteq> []" by auto
qed

lemma mem_deallocate_held:
  assumes "pool_inv s live held" "(p, n) \<in> held" "\<And>a sz. live a = Some sz \<Longrightarrow> 4096 < sz \<Longrightarrow> (a, sz) \<noteq> (p, n)"
  shows "pool_inv (mem_deallocate p n s) live (held - {(p, n)})"
proof -
  note q = pool_inv_forD [OF assms(1) [unfolded pool_inv_def]]
  have "(p, n) \<in> set (regions s)" using q(4) assms(2) by (auto simp: held_ok_def)
  note r = mem_deallocate_regions [OF q(1,2) this]
  have "held_ok (chunks s) (mem_deallocate p n s) live (held - {(p, n)})"
    using q(4) assms(2,3) unfolding held_ok_def r(3) by auto
  then show ?thesis using q(3,5) r(1,2) unfolding pool_inv_def pool_inv_for_def
    by (simp add: chunks_ok_def free_ok_def)
qed

lemma add_chunk_inv:
  assumes pl: "placer_ok place" and inv: "pool_inv s live held" and i: "i < 36"
    and run: "add_chunk place i s = (r, s')"
  shows "mem_limit s' = mem_limit s \<and> has_reclaim s' = has_reclaim s \<and> pool_inv s' live held
       \<and> (case r of Inl e \<Rightarrow> is_bad_alloc e | Inr _ \<Rightarrow> free_lists s' ! i \<noteq> [])"
proof -
  obtain x s1 where a1: "mem_allocate place 65536 s = (x, s1)" by (metis surj_pair)
  note m1 = mem_allocate_inv [OF pl inv _ a1, simplified]
  have large: "\<And>a sz. live a = Some sz \<Longrightarrow> 4096 < sz \<Longrightarrow> (a, sz) \<in> held"
    by (rule live_held [OF inv])
  show ?thesis
  proof (cases x)
    case (Inl e)
    then show ?thesis using run m1 a1 by (auto simp: add_chunk_def grow_bytes_class [OF i] Let_def)
  next
    case x: (Inr m)
    have inv1: "pool_inv s1 live (insert (m, 65536) held)" "(m, 65536) \<notin> held" using m1 x by auto
    obtain y s2 where a2: "mem_allocate place 32 s1 = (y, s2)" by (metis surj_pair)
    note m2 = mem_allocate_inv [OF pl inv1(1) _ a2, simplified]
    show ?thesis
    proof (cases y)
      case (Inl e)
      then have "r = Inl e" "s' = mem_deallocate m 65536 s2"
        using run x a1 a2 by (simp_all add: add_chunk_def grow_bytes_class [OF i] Let_def chunk_struct_bytes_def)
      moreover have "pool_inv (mem_deallocate m 65536 s2) live (insert (m, 65536) held - {(m, 65536)})"
        using m2 Inl inv1(2) large by (intro mem_deallocate_held) auto
      ultimately show ?thesis using m1 m2 x Inl inv1(2) by simp
    next
      case y: (Inr q)
      have inv2: "pool_inv s2 live (insert (q, 32) (insert (m, 65536) held))" "(q, 32) \<notin> held"
        using m2 y by auto
      have "s' = adopt i m q s2" "r = Inr ()"
        using run x y a1 a2
        by (simp_all add: add_chunk_def grow_bytes_class [OF i] Let_def chunk_struct_bytes_def adopt_def)
      then show ?thesis
        using adopt_inv [OF inv2(1) i inv1(2) inv2(2) large] m1 m2 x y by (simp add: adopt_def)
    qed
  qed
qed

subsection \<open>Allocating and returning blocks\<close>

lemma free_lists_frame [simp]:
  "regions_ok (s\<lparr>free_lists := f\<rparr>) = regions_ok s" "used_ok (s\<lparr>free_lists := f\<rparr>) = used_ok s"
  "chunks_ok cs (s\<lparr>free_lists := f\<rparr>) = chunks_ok cs s"
  "held_ok cs (s\<lparr>free_lists := f\<rparr>) live held = held_ok cs s live held"
  by (simp_all add: regions_ok_def used_ok_def chunks_ok_def held_ok_def)

lemma held_ok_live:
  assumes "held_ok cs s live held" "\<And>a sz. live' a = Some sz \<Longrightarrow> 4096 < sz \<Longrightarrow> (a, sz) \<in> held"
  shows "held_ok cs s live' held"
  using assms by (simp add: held_ok_def)

lemma free_ok_live:
  assumes "free_ok cs s live" "\<And>j. live_class live' j = live_class live j"
  shows "free_ok cs s live'"
  using assms by (simp add: free_ok_def)

lemma free_okD:
  assumes "free_ok cs s live" "i < 36"
  shows "distinct (free_lists s ! i)" "set (free_lists s ! i) \<inter> live_class live i = {}"
    "set (free_lists s ! i) \<union> live_class live i = class_slots cs i"
  using assms by (simp_all add: free_ok_def)

lemma region_pos: "regions_ok s \<Longrightarrow> (a, n) \<in> set (regions s) \<Longrightarrow> 0 < a"
  by (auto simp: regions_ok_def)

lemma live_class_upd:
  assumes "live a = None" "sz \<le> 4096"
  shows "live_class (live(a \<mapsto> sz)) j = (if j = class_index sz then insert a (live_class live j) else live_class live j)"
  using assms by (auto simp: live_class_def)

lemma live_class_upd_large: "live a = None \<Longrightarrow> 4096 < sz \<Longrightarrow> live_class (live(a \<mapsto> sz)) j = live_class live j"
  by (auto simp: live_class_def)

lemma live_class_del:
  assumes "live a = Some sz" "sz \<le> 4096"
  shows "live_class (live(a := None)) j = (if j = class_index sz then live_class live j - {a} else live_class live j)"
  using assms by (auto simp: live_class_def)

lemma live_class_del_large: "live a = Some sz \<Longrightarrow> 4096 < sz \<Longrightarrow> live_class (live(a := None)) j = live_class live j"
  by (auto simp: live_class_def)

lemma chunk_memory_pos: "pool_inv s live held \<Longrightarrow> c \<in> set (chunks s) \<Longrightarrow> 0 < c_memory c"
proof -
  assume inv: "pool_inv s live held" and c: "c \<in> set (chunks s)"
  have "(c_memory c, c_bytes c) \<in> set (regions s)"
    using inv chunk_regions_mem(1) [OF c] unfolding pool_inv_def pool_inv_for_def held_ok_def by blast
  then show "0 < c_memory c" using inv by (auto simp: pool_inv_def pool_inv_for_def regions_ok_def)
qed

lemma pop_free_inv:
  assumes inv: "pool_inv s live held" and sz: "sz \<le> 4096" and ne: "free_lists s ! class_index sz \<noteq> []"
    and run: "pop_free (class_index sz) s = (r, s')"
  shows "mem_limit s' = mem_limit s \<and> (\<exists>a. r = Inr a \<and> live a = None \<and> 0 < a \<and> pool_inv s' (live(a \<mapsto> sz)) held)"
proof -
  let ?i = "class_index sz"
  have i: "?i < 36" using class_index_correct [OF sz] by blast
  obtain b rest where b: "free_lists s ! ?i = b # rest" using ne by (cases "free_lists s ! ?i") auto
  have r: "r = Inr b" "s' = s\<lparr>free_lists := (free_lists s)[?i := rest]\<rparr>"
    using run b by (simp_all add: pop_free_def)
  have nl: "live b = None" using free_not_live [OF inv, of b ?i] b i by simp
  note p = pool_inv_forD [OF inv [unfolded pool_inv_def]]
  have len: "length (free_lists s) = 36" using p(5) by (simp add: free_ok_def)
  have fo: "free_ok (chunks s) s' (live(b \<mapsto> sz))"
    unfolding free_ok_def
  proof (intro conjI allI impI)
    show "length (free_lists s') = 36" using len r by simp
    fix j :: nat assume j: "j < 36"
    note o = free_okD [OF p(5) j]
    have n: "free_lists s' ! j = (if j = ?i then rest else free_lists s ! j)" using r len j by simp
    show "distinct (free_lists s' ! j)" using n o(1) b by auto
    have "j = ?i \<Longrightarrow> b \<notin> set rest \<and> set (free_lists s ! j) = insert b (set rest)" using o(1) b by simp
    then show "set (free_lists s' ! j) \<inter> live_class (live(b \<mapsto> sz)) j = {}"
      "set (free_lists s' ! j) \<union> live_class (live(b \<mapsto> sz)) j = class_slots (chunks s) j"
      unfolding n live_class_upd [of live b, OF nl sz] using o(2,3) by (cases "j = ?i"; auto)+
  qed
  have ho: "held_ok (chunks s) s' (live(b \<mapsto> sz)) held"
    unfolding r(2) free_lists_frame
    by (rule held_ok_live [OF p(4)]) (use live_held [OF inv] sz in \<open>auto split: if_splits\<close>)
  have "pool_inv s' (live(b \<mapsto> sz)) held"
    unfolding pool_inv_def using fo ho p(1-3) r(2) by (intro pool_inv_forI) simp_all
  moreover have "0 < b"
  proof -
    have "b \<in> class_slots (chunks s) ?i"
      using free_okD(3) [OF p(5) i] b by auto
    then obtain c where c: "c \<in> set (chunks s)" "b \<in> slots c" by (auto simp: class_slots_def)
    then show ?thesis using chunk_memory_pos [OF inv c(1)] by (auto simp: slots_def)
  qed
  ultimately show ?thesis using r nl by simp
qed

lemma slab_allocate_inv:
  assumes pl: "placer_ok place" and inv: "pool_inv s live held" and run: "slab_allocate place sz s = (r, s')"
  shows "mem_limit s' = mem_limit s
       \<and> (case r of Inl e \<Rightarrow> is_bad_alloc e \<and> pool_inv s' live held
          | Inr a \<Rightarrow> live a = None \<and> 0 < a \<and> pool_inv s' (live(a \<mapsto> sz)) (held_alloc a sz held))"
proof (cases "4096 < sz")
  case True
  then have m: "mem_allocate place sz s = (r, s')" using run by (simp add: slab_allocate_def)
  note mi = mem_allocate_inv [OF pl inv _ m]
  show ?thesis
  proof (cases r)
    case (Inl e)
    then show ?thesis using mi True by simp
  next
    case (Inr a)
    have i': "pool_inv s' live (insert (a, sz) held)" "(a, sz) \<notin> held" "0 < a"
      using mi True Inr by simp_all
    note q = pool_inv_forD [OF i'(1) [unfolded pool_inv_def]]
    have nl: "live a = None"
    proof (rule ccontr)
      assume "live a \<noteq> None"
      then obtain n where n: "live a = Some n" by auto
      have "a \<in> rng (a, sz)" using True by (simp add: rng_def)
      show False
      proof (cases "n \<le> 4096")
        case False
        then have "(a, n) \<in> held" using live_held [OF inv n] by simp
        then have "rng (a, sz) \<inter> rng (a, n) = {}" using held_disjoint [OF i'(1)] i'(2) by blast
        then show False using True False by (auto simp: rng_def)
      next
        case small: True
        obtain c where c: "c \<in> set (chunks s')" "a \<in> slots c" using live_slot [OF i'(1) n small] by metis
        have "in_chunk c a" using block_size_pos(1) [OF q(3) c(1)] c(2) by (intro slot_in_chunk) auto
        then show False
          using held_chunk_disjoint [OF i'(1) _ c(1), of "(a, sz)"] \<open>a \<in> rng (a, sz)\<close> by (auto simp: in_chunk_rng)
      qed
    qed
    have "held_ok (chunks s') s' (live(a \<mapsto> sz)) (insert (a, sz) held)"
      by (rule held_ok_live [OF q(4)]) (use live_held [OF i'(1)] in \<open>auto split: if_splits\<close>)
    moreover have "free_ok (chunks s') s' (live(a \<mapsto> sz))"
      by (rule free_ok_live [OF q(5)]) (rule live_class_upd_large [of live a, OF nl True])
    ultimately have "pool_inv s' (live(a \<mapsto> sz)) (insert (a, sz) held)"
      unfolding pool_inv_def using q(1-3) by (intro pool_inv_forI)
    then show ?thesis using mi True Inr i' nl by (simp add: held_alloc_def)
  qed
next
  case False
  then have sz: "sz \<le> 4096" by simp
  let ?i = "class_index sz"
  have i: "?i < 36" using class_index_correct [OF sz] by blast
  show ?thesis
  proof (cases "free_lists s ! ?i = []")
    case False
    then have "pop_free ?i s = (r, s')" using run sz by (simp add: slab_allocate_def Let_def)
    then show ?thesis using pop_free_inv [OF inv sz False] sz by (auto simp: held_alloc_def)
  next
    case True
    obtain x s1 where a: "add_chunk place ?i s = (x, s1)" by (metis surj_pair)
    note ac = add_chunk_inv [OF pl inv i a]
    show ?thesis
    proof (cases x)
      case (Inl e)
      then show ?thesis using run sz True a ac by (auto simp: slab_allocate_def Let_def)
    next
      case (Inr u)
      then have "pop_free ?i s1 = (r, s')" using run sz True a by (simp add: slab_allocate_def Let_def)
      moreover have "pool_inv s1 live held" "free_lists s1 ! ?i \<noteq> []" "mem_limit s1 = mem_limit s"
        using ac Inr by simp_all
      ultimately show ?thesis using pop_free_inv [of s1 live held sz r s'] sz by (auto simp: held_alloc_def)
    qed
  qed
qed

lemma slab_deallocate_inv:
  assumes inv: "pool_inv s live held" and l: "live a = Some sz"
  shows "pool_inv (slab_deallocate a sz s) (live(a := None)) (held_free a sz held)"
proof (cases "4096 < sz")
  case True
  note p = pool_inv_forD [OF inv [unfolded pool_inv_def]]
  have h: "(a, sz) \<in> held" by (rule live_held [OF inv l True])
  then have "(a, sz) \<in> set (regions s)" using p(4) by (simp add: held_ok_def)
  then have a: "0 < a" by (rule region_pos [OF p(1)])
  have "held_ok (chunks s) s (live(a := None)) held"
    by (rule held_ok_live [OF p(4)]) (use live_held [OF inv] in \<open>auto split: if_splits\<close>)
  moreover have "free_ok (chunks s) s (live(a := None))"
    by (rule free_ok_live [OF p(5)]) (rule live_class_del_large [of live a, OF l True])
  ultimately have "pool_inv s (live(a := None)) held"
    unfolding pool_inv_def using p(1-3) by (intro pool_inv_forI)
  then have "pool_inv (mem_deallocate a sz s) (live(a := None)) (held - {(a, sz)})"
    using h by (rule mem_deallocate_held) (auto split: if_splits)
  then show ?thesis using True a by (simp add: slab_deallocate_def held_free_def)
next
  case False
  then have sz: "sz \<le> 4096" by simp
  let ?i = "class_index sz"
  have i: "?i < 36" using class_index_correct [OF sz] by blast
  obtain c where c: "c \<in> set (chunks s)" "c_index c = ?i" "a \<in> slots c"
    using live_slot [OF inv l sz] by metis
  have a: "0 < a" using chunk_memory_pos [OF inv c(1)] c(3) by (auto simp: slots_def)
  note p = pool_inv_forD [OF inv [unfolded pool_inv_def]]
  let ?s = "s\<lparr>free_lists := (free_lists s)[?i := a # free_lists s ! ?i]\<rparr>"
  have len: "length (free_lists s) = 36" using p(5) by (simp add: free_ok_def)
  have al: "a \<in> live_class live ?i" using l sz by (auto simp: live_class_def)
  have "free_ok (chunks s) ?s (live(a := None))"
    unfolding free_ok_def
  proof (intro conjI allI impI)
    show "length (free_lists ?s) = 36" using len by simp
    fix j :: nat assume j: "j < 36"
    note o = free_okD [OF p(5) j]
    have n: "free_lists ?s ! j = (if j = ?i then a # free_lists s ! ?i else free_lists s ! j)" using len j by simp
    show "distinct (free_lists ?s ! j)" unfolding n using o(1,2) al by auto
    show "set (free_lists ?s ! j) \<inter> live_class (live(a := None)) j = {}"
      unfolding n live_class_del [of live a, OF l sz] using o(2) by auto
    show "set (free_lists ?s ! j) \<union> live_class (live(a := None)) j = class_slots (chunks s) j"
      unfolding n live_class_del [of live a, OF l sz] using o(3) al by auto
  qed
  moreover have "held_ok (chunks s) ?s (live(a := None)) held"
    unfolding free_lists_frame
    by (rule held_ok_live [OF p(4)]) (use live_held [OF inv] in \<open>auto split: if_splits\<close>)
  ultimately have "pool_inv ?s (live(a := None)) held"
    unfolding pool_inv_def using p(1-3) by (intro pool_inv_forI) simp_all
  then show ?thesis using False a by (simp add: slab_deallocate_def held_free_def Let_def)
qed

subsection \<open>Completeness of reclaiming and release\<close>

lemma kept_chunk_live:
  assumes inv: "pool_inv_for cs s live held" and c: "c \<in> set cs"
    and busy: "length (filter (in_chunk c) (free_lists s ! c_index c)) \<noteq> c_bytes c div block_size c"
  shows "\<exists>a \<in> slots c. live a \<noteq> None"
proof (rule ccontr)
  let ?fl = "free_lists s ! c_index c"
  assume none: "\<not> ?thesis"
  note bs = block_size_pos [OF pool_inv_forD(3) [OF inv] c]
  note f = free_okD [OF pool_inv_forD(5) [OF inv] bs(4)]
  have "slots c \<subseteq> class_slots cs (c_index c)" using c by (auto simp: class_slots_def)
  moreover have "slots c \<inter> live_class live (c_index c) = {}" using none by (auto simp: live_class_def)
  ultimately have "slots c \<subseteq> set ?fl" using f(3) by blast
  moreover have "set (filter (in_chunk c) ?fl) \<subseteq> slots c"
  proof
    fix a assume a: "a \<in> set (filter (in_chunk c) ?fl)"
    then have "a \<in> class_slots cs (c_index c)" using f(3) by auto
    then obtain d where d: "d \<in> set cs" "a \<in> slots d" by (auto simp: class_slots_def)
    then show "a \<in> slots c" using slots_of_two_chunks [OF inv d(1) c d(2)] a by simp
  qed
  moreover have "in_chunk c a" if "a \<in> slots c" for a using slot_in_chunk [OF that] bs by simp
  ultimately have "set (filter (in_chunk c) ?fl) = slots c" by auto
  then show False using busy card_slots [of c] bs(1) distinct_card [OF distinct_filter [OF f(1)], of "in_chunk c"] by simp
qed

lemma reclaim_loop_kept:
  assumes "pool_inv_for (ks @ cs) s live held" "reclaim_loop cs s = (kept, s')"
  shows "set kept \<subseteq> set cs \<and> (\<forall>c \<in> set kept. \<exists>a \<in> slots c. live a \<noteq> None)"
  using assms
proof (induction cs s arbitrary: ks kept s' rule: reclaim_loop.induct)
  case (1 s)
  then show ?case by simp
next
  case (2 c cs s)
  let ?n = "length (filter (in_chunk c) (free_lists s ! c_index c))"
  show ?case
  proof (cases "?n = c_bytes c div block_size c")
    case False
    then obtain k where k: "reclaim_loop cs s = (k, s')" "kept = c # k"
      using "2.prems"(2) by (auto simp: Let_def block_size_def split: prod.splits)
    have "pool_inv_for ((ks @ [c]) @ cs) s live held" using "2.prems"(1) by simp
    then have "set k \<subseteq> set cs \<and> (\<forall>c \<in> set k. \<exists>a \<in> slots c. live a \<noteq> None)"
      using "2.IH"(1) [OF refl, of "ks @ [c]" k s'] False k by (simp add: block_size_def)
    moreover have "\<exists>a \<in> slots c. live a \<noteq> None"
      using kept_chunk_live [OF "2.prems"(1) _ False] by simp
    ultimately show ?thesis using k by auto
  next
    case True
    note step = drop_chunk_inv [OF "2.prems"(1) True]
    have run: "reclaim_loop cs (drop_chunk c s) = (kept, s')"
      using "2.prems"(2) True by (simp add: Let_def block_size_def drop_chunk_def)
    have "set kept \<subseteq> set cs \<and> (\<forall>c \<in> set kept. \<exists>a \<in> slots c. live a \<noteq> None)"
      using "2.IH"(2) [OF refl, of _ _ _ _ ks kept s'] True step(1) run
      by (simp add: block_size_def drop_chunk_def)
    then show ?thesis by auto
  qed
qed

lemma release_loop_regions:
  assumes "regions_ok s" "used_ok s" "set (regions s) = held \<union> chunk_regions cs" "held \<inter> chunk_regions cs = {}"
    "distinct (map c_memory cs)" "distinct (map c_self cs)" "\<forall>c \<in> set cs. c_bytes c = 65536"
  shows "regions_ok (release_loop cs s) \<and> used_ok (release_loop cs s) \<and> set (regions (release_loop cs s)) = held
       \<and> mem_limit (release_loop cs s) = mem_limit s"
  using assms
proof (induction cs arbitrary: s)
  case Nil
  then show ?case by (simp add: chunk_regions_def)
next
  case (Cons c cs)
  let ?m = "(c_memory c, c_bytes c)" and ?q = "(c_self c, chunk_struct_bytes)"
  let ?s1 = "mem_deallocate (c_memory c) (c_bytes c) s"
  let ?s2 = "mem_deallocate (c_self c) chunk_struct_bytes ?s1"
  have cr: "chunk_regions (c # cs) = insert ?m (insert ?q (chunk_regions cs))"
    by (auto simp: chunk_regions_def)
  have ne: "?m \<notin> chunk_regions cs" "?q \<notin> chunk_regions cs" "?m \<noteq> ?q"
    using Cons.prems(5-7) by (auto simp: chunk_regions_def chunk_struct_bytes_def)
  have "?m \<in> set (regions s)" using Cons.prems(3) cr by simp
  note r1 = mem_deallocate_regions [OF Cons.prems(1,2) this]
  have "?q \<in> set (regions ?s1)" unfolding r1(3) Cons.prems(3) cr using not_sym [OF ne(3)] by blast
  note r2 = mem_deallocate_regions [OF r1(1,2) this]
  have "set (regions ?s2) = held \<union> chunk_regions cs"
    using r2(3) r1(3) Cons.prems(3,4) cr ne by auto
  moreover have "held \<inter> chunk_regions cs = {}" using Cons.prems(4) cr by auto
  ultimately show ?case using Cons.IH [OF r2(1,2)] Cons.prems(5-7) by simp
qed

subsection \<open>The allocator contract\<close>

text \<open>
  What the database relies on: a block handed out is fresh and apart from every live block, a
  failed allocation and a returned block leave the other blocks as they are.
\<close>

locale block_allocator =
  fixes env_ok :: "'e \<Rightarrow> bool"
    and alloc :: "'e \<Rightarrow> nat \<Rightarrow> 's \<Rightarrow> (exn + addr) \<times> 's"
    and dealloc :: "addr \<Rightarrow> nat \<Rightarrow> 's \<Rightarrow> 's"
    and inv :: "'s \<Rightarrow> (addr \<rightharpoonup> nat) \<Rightarrow> bool"
  assumes alloc_ok: "\<lbrakk>env_ok e; inv s live; alloc e n s = (Inr a, s')\<rbrakk>
      \<Longrightarrow> live a = None \<and> 0 < a \<and> inv s' (live(a \<mapsto> n))"
    and alloc_fail: "\<lbrakk>env_ok e; inv s live; alloc e n s = (Inl x, s')\<rbrakk> \<Longrightarrow> is_bad_alloc x \<and> inv s' live"
    and dealloc_ok: "\<lbrakk>inv s live; live a = Some n\<rbrakk> \<Longrightarrow> inv (dealloc a n s) (live(a := None))"
    and apart: "\<lbrakk>inv s live; live a = Some m; live b = Some n; a \<noteq> b\<rbrakk> \<Longrightarrow> rng (a, m) \<inter> rng (b, n) = {}"
begin

text \<open>Moving to a block of another size: the new block first, then the old one back.\<close>

lemma move_block:
  assumes "env_ok e" "inv s live" "live a = Some m" "alloc e n s = (Inr b, s')"
  shows "inv (dealloc a m s') (live(b \<mapsto> n, a := None))" "rng (a, m) \<inter> rng (b, n) = {}" "a \<noteq> b"
proof -
  have b: "live b = None" "inv s' (live(b \<mapsto> n))" using alloc_ok [OF assms(1,2,4)] by auto
  show "a \<noteq> b" using b(1) assms(3) by auto
  then show "inv (dealloc a m s') (live(b \<mapsto> n, a := None))" using dealloc_ok [OF b(2)] assms(3) by simp
  show "rng (a, m) \<inter> rng (b, n) = {}" using apart [OF b(2)] assms(3) \<open>a \<noteq> b\<close> by simp
qed

lemma alloc_apart:
  assumes "env_ok e" "inv s live" "alloc e n s = (Inr b, s')" "live a = Some m"
  shows "rng (a, m) \<inter> rng (b, n) = {}"
proof -
  have b: "live b = None" "inv s' (live(b \<mapsto> n))" using alloc_ok [OF assms(1-3)] by auto
  then have "a \<noteq> b" using assms(4) by auto
  then show ?thesis using apart [OF b(2), of a m b n] assms(4) by simp
qed

end

interpretation slab: block_allocator placer_ok slab_allocate slab_deallocate pool_ok
proof
  fix place n s s' a live
  assume "placer_ok place" "pool_ok s live" "slab_allocate place n s = (Inr a, s')"
  then show "live a = None \<and> 0 < a \<and> pool_ok s' (live(a \<mapsto> n))"
    using slab_allocate_inv by (fastforce simp: pool_ok_def)
next
  fix place n s s' x live
  assume "placer_ok place" "pool_ok s live" "slab_allocate place n s = (Inl x, s')"
  then show "is_bad_alloc x \<and> pool_ok s' live"
    using slab_allocate_inv by (fastforce simp: pool_ok_def)
next
  fix s live a n
  assume "pool_ok s live" "live a = Some n"
  then show "pool_ok (slab_deallocate a n s) (live(a := None))"
    using slab_deallocate_inv by (fastforce simp: pool_ok_def)
next
  fix s live a b m n
  assume "pool_ok s live" "live a = Some m" "live b = Some n" "a \<noteq> b"
  then show "rng (a, m) \<inter> rng (b, n) = {}" using live_disjoint by (fastforce simp: pool_ok_def)
qed

lemma pool_init_inv: "pool_inv (pool_init lim rec) Map.empty {}"
  by (auto simp: pool_inv_def pool_inv_for_def pool_init_def regions_ok_def used_ok_def chunks_ok_def
      held_ok_def free_ok_def chunk_regions_def live_class_def class_slots_def)

lemma bump_above: "r \<in> set rs \<Longrightarrow> fst r + snd r \<le> foldr (\<lambda>r m. max (fst r + snd r) m) rs (0::nat)"
  by (induction rs) auto

lemma bump_ok: "placer_ok bump"
  using bump_above by (fastforce simp: placer_ok_def bump_def rng_def)

lemma large_blocks_alloc:
  "live a = None \<Longrightarrow> large_blocks (live(a \<mapsto> n)) = held_alloc a n (large_blocks live)"
  by (auto simp: large_blocks_def held_alloc_def split: if_splits)

lemma large_blocks_free:
  "live a = Some n \<Longrightarrow> large_blocks (live(a := None)) = held_free a n (large_blocks live)"
  by (auto simp: large_blocks_def held_free_def split: if_splits)

lemma slab_deallocate_limit: "mem_limit (slab_deallocate a n s) = mem_limit s"
  by (simp add: slab_deallocate_def Let_def)

lemma pool_step_inv:
  assumes "placer_ok place" "pool_step place (s, live) (s', live')" "pool_inv s live (large_blocks live)"
  shows "pool_inv s' live' (large_blocks live') \<and> mem_limit s' = mem_limit s"
  using assms(2)
proof (rule pool_stepE)
  fix n a
  assume "slab_allocate place n s = (Inr a, s')" "live' = live(a \<mapsto> n)"
  then show ?thesis
    using slab_allocate_inv [OF assms(1,3), of n "Inr a" s'] large_blocks_alloc [of live a n] by simp
next
  fix n e
  assume "slab_allocate place n s = (Inl e, s')" "live' = live"
  then show ?thesis using slab_allocate_inv [OF assms(1,3), of n "Inl e" s'] by simp
next
  fix a n
  assume "s' = slab_deallocate a n s" "live' = live(a := None)" "live a = Some n"
  then show ?thesis
    using slab_deallocate_inv [OF assms(3)] large_blocks_free [of live a n]
    by (simp add: slab_deallocate_limit)
next
  assume "s' = reclaim s" "live' = live"
  then show ?thesis using reclaim_inv [OF assms(3)] by simp
qed

lemma pool_reachable_inv:
  assumes "placer_ok place" "(pool_step place)\<^sup>*\<^sup>* (pool_init lim rec, Map.empty) (s, live)"
  shows "pool_inv s live (large_blocks live) \<and> mem_limit s = lim"
  using assms(2)
proof (induction "(s, live)" arbitrary: s live rule: rtranclp_induct)
  case base
  then show ?case using pool_init_inv by (simp add: large_blocks_def pool_init_def)
next
  case (step y)
  then show ?case
    using pool_step_inv [OF assms(1), of "fst y" "snd y" s live] step.hyps(3) [of "fst y" "snd y"] by simp
qed

lemma used_split:
  assumes "pool_inv s live held"
  shows "mem_used s = (\<Sum>r \<in> held. snd r) + reserved s + chunk_struct_bytes * length (chunks s)"
proof -
  let ?M = "(\<lambda>c. (c_memory c, c_bytes c)) ` set (chunks s)"
  let ?Q = "(\<lambda>c. (c_self c, chunk_struct_bytes)) ` set (chunks s)"
  note p = pool_inv_forD [OF assms [unfolded pool_inv_def]]
  have d: "distinct (regions s)" using p(1) by (simp add: regions_ok_def)
  have R: "set (regions s) = held \<union> (?M \<union> ?Q)" "held \<inter> (?M \<union> ?Q) = {}"
    using p(4) by (simp_all add: held_ok_def chunk_regions_def)
  have dj: "distinct (map c_memory (chunks s))" "distinct (map c_self (chunks s))"
    using p(3) by (simp_all add: chunks_ok_def)
  have "?M \<inter> ?Q = {}" using p(3) by (auto simp: chunks_ok_def chunk_struct_bytes_def)
  have fin: "finite held" using R(1) finite_set [of "regions s"] by (metis finite_Un)
  have "mem_used s = (\<Sum>r \<in> set (regions s). snd r)"
    using p(2) d by (simp add: used_ok_def sum_list_distinct_conv_sum_set)
  also have "\<dots> = sum snd held + (sum snd ?M + sum snd ?Q)"
    unfolding R(1) using fin R(2) \<open>?M \<inter> ?Q = {}\<close> by (simp add: sum.union_disjoint)
  also have "sum snd ?M = (\<Sum>c \<in> set (chunks s). c_bytes c)"
    using dj(1) by (subst sum.reindex) (auto simp: distinct_map inj_on_def)
  also have "\<dots> = reserved s"
    using p(3) dj(1) by (simp add: chunks_ok_def distinct_map sum_list_distinct_conv_sum_set)
  also have "sum snd ?Q = chunk_struct_bytes * card (set (chunks s))"
    using dj(2) by (subst sum.reindex) (auto simp: distinct_map inj_on_def)
  also have "card (set (chunks s)) = length (chunks s)"
    using dj(1) by (auto simp: distinct_map distinct_card)
  finally show ?thesis by simp
qed

lemma class_index_examples: "class_index 4096 = 35" "class_index 5 = 0" "class_index 200 = 18"
  by (simp_all add: class_index_def class_search.simps class_sizes_def)

lemma first_block:
  "slab_allocate bump 5000 (pool_init 100000 True)
     = (Inr 1, (pool_init 100000 True)\<lparr>regions := [(1, 5000)], mem_used := 5000\<rparr>)"
  by (simp add: slab_allocate_def mem_allocate_def new_allocate_def pool_init_def bump_def sub64_def)

lemma push_blocks_top: "push_blocks m b j (Suc n) fl = (m + (j + n) * b) # push_blocks m b j n fl"
proof (induction n arbitrary: j fl)
  case (Suc n)
  have "push_blocks m b j (Suc (Suc n)) fl = push_blocks m b (Suc j) (Suc n) ((m + j * b) # fl)"
    by (rule push_blocks.simps)
  also have "\<dots> = (m + (Suc j + n) * b) # push_blocks m b (Suc j) n ((m + j * b) # fl)" by (rule Suc.IH)
  finally show ?case by simp
qed simp

lemma second_block: "fst two_blocks = Inr 66442" "mem_used (snd two_blocks) = 70568"
proof -
  let ?s = "(pool_init 100000 True)\<lparr>regions := [(1, 5000)], mem_used := 5000\<rparr>"
  have l: "class_sizes ! 35 = 4096" by (simp add: class_sizes_def)
  have p: "push_blocks 5002 4096 0 16 [] = 66442 # push_blocks 5002 4096 0 15 []"
    using push_blocks_top [of 5002 4096 0 15 "[]"] by simp
  define s1 where "s1 = ?s\<lparr>regions := [(5002, 65536), (1, 5000)], mem_used := 70536\<rparr>"
  define s2 where "s2 = s1\<lparr>regions := [(70539, 32), (5002, 65536), (1, 5000)], mem_used := 70568\<rparr>"
  have "mem_allocate bump 65536 ?s = (Inr 5002, s1)"
    by (simp add: mem_allocate_def new_allocate_def pool_init_def bump_def sub64_def s1_def)
  moreover have "mem_allocate bump 32 s1 = (Inr 70539, s2)"
    by (simp add: mem_allocate_def new_allocate_def pool_init_def bump_def sub64_def s1_def s2_def)
  moreover have fl: "free_lists s2 ! 35 = []" "length (free_lists s2) = 36" "mem_used s2 = 70568"
    by (simp_all add: s2_def s1_def pool_init_def)
  ultimately have "add_chunk bump 35 ?s = (Inr (), adopt 35 5002 70539 s2)"
    by (simp add: add_chunk_def grow_bytes_class chunk_struct_bytes_def Let_def adopt_def)
  moreover have "free_lists (adopt 35 5002 70539 s2) ! 35 = 66442 # push_blocks 5002 4096 0 15 []"
    using fl by (simp add: adopt_def l p)
  moreover have "free_lists ?s ! 35 = []" by (simp add: pool_init_def)
  moreover have "mem_used (adopt 35 5002 70539 s2) = 70568" using fl by (simp add: adopt_def)
  ultimately show "fst two_blocks = Inr 66442" "mem_used (snd two_blocks) = 70568"
    unfolding two_blocks_def first_block
    by (simp_all add: slab_allocate_def Let_def class_index_examples pop_free_def)
qed

lemma two_blocks_reached:
  "(pool_step bump)\<^sup>*\<^sup>* (pool_init 100000 True, Map.empty) (snd two_blocks, [1 \<mapsto> 5000, 66442 \<mapsto> 4096])"
proof (rule converse_rtranclp_into_rtranclp)
  show "pool_step bump (pool_init 100000 True, Map.empty)
      (snd (slab_allocate bump 5000 (pool_init 100000 True)), [1 \<mapsto> 5000])"
    by (rule pool_step.block_out) (simp add: first_block)
  show "(pool_step bump)\<^sup>*\<^sup>* (snd (slab_allocate bump 5000 (pool_init 100000 True)), [1 \<mapsto> 5000])
      (snd two_blocks, [1 \<mapsto> 5000, 66442 \<mapsto> 4096])"
    by (rule r_into_rtranclp, rule pool_step.block_out)
      (metis second_block(1) two_blocks_def prod.collapse)
qed

lemma slot_in_pool_chunk:
  assumes inv: "pool_inv s live held" and c: "c \<in> set (chunks s)" "a \<in> slots c"
  shows "in_chunk c a"
  using block_size_pos(1) [OF pool_inv_forD(3) [OF inv [unfolded pool_inv_def]] c(1)] c(2)
  by (intro slot_in_chunk) auto

lemma live_chunk_unique:
  assumes inv: "pool_inv s live held" and c: "c \<in> set (chunks s)" "a \<in> slots c" and l: "live a = Some n"
  shows "n \<le> 4096"
proof (rule ccontr)
  assume "\<not> n \<le> 4096"
  then have h: "(a, n) \<in> held" "a \<in> rng (a, n)" using live_held [OF inv l] by (simp_all add: rng_def)
  have "in_chunk c a" by (rule slot_in_pool_chunk [OF inv c])
  then show False using held_chunk_disjoint [OF inv h(1) c(1)] h(2) by (auto simp: in_chunk_rng)
qed

lemma reclaim_chunks:
  assumes inv: "pool_inv s live held"
  shows "set (chunks (reclaim s)) = {c \<in> set (chunks s). \<exists>a \<in> slots c. live a \<noteq> None}"
proof -
  obtain kept s' where r: "reclaim_loop (chunks s) s = (kept, s')" by (metis surj_pair)
  have "pool_inv_for ([] @ chunks s) s live held" using inv by (simp add: pool_inv_def)
  from reclaim_loop_kept [OF this r] have k: "chunks (reclaim s) = kept" "set kept \<subseteq> set (chunks s)"
    "\<forall>c \<in> set kept. \<exists>a \<in> slots c. live a \<noteq> None"
    using r by (simp_all add: reclaim_def)
  have "c \<in> set kept" if c: "c \<in> set (chunks s)" "a \<in> slots c" "live a = Some n" for c a n
  proof -
    have n: "n \<le> 4096" by (rule live_chunk_unique [OF inv c])
    obtain d where d: "d \<in> set kept" "a \<in> slots d"
      using live_slot [OF reclaim_inv(1) [OF inv] c(3) n] k(1) by metis
    have "in_chunk c a" by (rule slot_in_pool_chunk [OF inv c(1,2)])
    then have "d = c" using slots_of_two_chunks [of "chunks s" s live held d c a] inv d k(2) c(1)
      by (auto simp: pool_inv_def)
    then show ?thesis using d(1) by simp
  qed
  then show ?thesis using k by (simp only: k(1)) blast
qed

section \<open>Properties\<close>

text \<open>
  C11. No two blocks the allocator has handed out ever overlap, whatever sequence of allocations,
  failed allocations, returns and reclaims led here, and the bytes charged to the budget are
  exactly the large blocks plus the chunks with their descriptors, never more than the limit.
\<close>

theorem slab_no_overlap:
  assumes "placer_ok place" "(pool_step place)\<^sup>*\<^sup>* (pool_init lim rec, Map.empty) (s, live)"
  shows "(\<forall>a b m n. live a = Some m \<and> live b = Some n \<and> a \<noteq> b \<longrightarrow> rng (a, m) \<inter> rng (b, n) = {})
       \<and> mem_used s = (\<Sum>r \<in> large_blocks live. snd r) + reserved s + chunk_struct_bytes * length (chunks s)
       \<and> (lim \<noteq> 0 \<longrightarrow> mem_used s \<le> lim)"
proof -
  have inv: "pool_inv s live (large_blocks live)" "mem_limit s = lim"
    using pool_reachable_inv [OF assms] by auto
  have "lim \<noteq> 0 \<longrightarrow> mem_used s \<le> lim" using inv by (auto simp: pool_inv_def pool_inv_for_def used_ok_def)
  then show ?thesis using live_disjoint [OF inv(1)] used_split [OF inv(1)] by simp
qed

theorem slab_no_overlap_witness:
  "rng (1, 5000) \<inter> rng (66442, 4096) = {} \<and> mem_used (snd two_blocks) \<le> 100000"
  using slab_no_overlap [OF bump_ok two_blocks_reached] by simp

text \<open>
  The size class chosen for a request up to 4096 bytes exists, holds the request, and is
  the smallest class that does: the dense formula and the binary search agree with a linear scan.
\<close>

lemma slab_class_fit:
  assumes "sz \<le> largest_class"
  shows "class_index sz < class_count \<and> sz \<le> class_sizes ! class_index sz
       \<and> (\<forall>j < class_count. sz \<le> class_sizes ! j \<longrightarrow> class_index sz \<le> j)"
  using class_index_correct [of sz] assms by (auto simp: not_less [symmetric])

lemma slab_class_fit_witness: "(200::nat) \<le> largest_class \<and> 200 \<le> class_sizes ! class_index 200"
  using slab_class_fit [of 200] by simp

text \<open>
  C26. Reclaiming gives back exactly the chunks without a live block: every live block keeps
  its place, the invariant survives, every chunk that stays holds a live block, and the
  budget never grows.
\<close>

theorem slab_reclaim_exact:
  assumes "pool_inv s live held"
  shows "pool_inv (reclaim s) live held \<and> mem_used (reclaim s) \<le> mem_used s
       \<and> set (chunks (reclaim s)) = {c \<in> set (chunks s). \<exists>a \<in> slots c. live a \<noteq> None}"
  using reclaim_inv [OF assms] reclaim_chunks [OF assms] by blast

theorem slab_reclaim_exact_witness:
  "pool_inv (reclaim (snd two_blocks)) [1 \<mapsto> 5000, 66442 \<mapsto> 4096]
     (large_blocks [1 \<mapsto> 5000, 66442 \<mapsto> 4096])"
  using slab_reclaim_exact [OF conjunct1 [OF pool_reachable_inv [OF bump_ok two_blocks_reached]]] by simp

text \<open>
  Destroying the pool returns every chunk and its descriptor to the budget: afterwards
  exactly the blocks its owner holds directly are still charged.
\<close>

lemma slab_release_returns_all:
  assumes "pool_inv s live held"
  shows "set (regions (release s)) = held \<and> mem_used (release s) = (\<Sum>r \<in> held. snd r)
       \<and> chunks (release s) = [] \<and> reserved (release s) = 0"
proof -
  note p = pool_inv_forD [OF assms [unfolded pool_inv_def]]
  have r: "regions_ok (release_loop (chunks s) s)" "used_ok (release_loop (chunks s) s)"
    "set (regions (release_loop (chunks s) s)) = held"
    using release_loop_regions [OF p(1,2), of held "chunks s"] p(3,4) by (simp_all add: held_ok_def chunks_ok_def)
  then have "mem_used (release_loop (chunks s) s) = (\<Sum>r \<in> held. snd r)"
    by (simp add: used_ok_def regions_ok_def sum_list_distinct_conv_sum_set)
  then show ?thesis using r(3) by (simp add: release_def)
qed

lemma slab_release_returns_all_witness:
  "mem_used (release (snd two_blocks)) = (\<Sum>r \<in> large_blocks [1 \<mapsto> 5000, 66442 \<mapsto> 4096]. snd r)"
  using slab_release_returns_all [OF conjunct1 [OF pool_reachable_inv [OF bump_ok two_blocks_reached]]] by simp

end
