(* ===== verification/Wal.thy ===== *)
theory Wal
  imports Errors
begin

text \<open>
  The write-ahead log (\<^verbatim>\<open>src/wal.hpp\<close>, \<^verbatim>\<open>src/wal.cpp\<close>). The log file is the list of its bytes;
  a state \<open>wal\<close> keeps every byte handed to the C stream in order, how many of them an
  \<^verbatim>\<open>fdatasync\<close> has made durable, and the fields of the class. Calls into the operating system
  succeed or fail as an environment \<open>io_env\<close> says, call by call, so every error path is a
  branch. After a crash any prefix of the bytes that keeps the durable part may be left.
\<close>

section \<open>Definitions\<close>

subsection \<open>Records on disk\<close>

datatype wal_sync = Everysec | Always | NoSync

datatype wal_op =
    op_set | op_increment | op_push_left | op_push_right | op_pop_left | op_pop_right
  | op_hash_set | op_hash_del | op_expire_at | op_del | op_integer_set

primrec op_code :: "wal_op \<Rightarrow> byte" where
  "op_code op_set = 0"
| "op_code op_increment = 1"
| "op_code op_push_left = 2"
| "op_code op_push_right = 3"
| "op_code op_pop_left = 4"
| "op_code op_pop_right = 5"
| "op_code op_hash_set = 6"
| "op_code op_hash_del = 7"
| "op_code op_expire_at = 8"
| "op_code op_del = 9"
| "op_code op_integer_set = 10"

definition magic :: bytes where
  "magic = str ''RDWAL001''"

definition max_record :: nat where
  "max_record = 128 * 1024 * 1024"

definition crc_bit :: "u32 \<Rightarrow> u32" where
  "crc_bit c = drop_bit 1 c XOR (if c AND 1 \<noteq> 0 then 0xedb88320 else 0)"

definition crc_table :: "u32 list" where
  "crc_table = map (\<lambda>i. (crc_bit ^^ 8) (of_nat i)) [0..<256]"

definition crc_byte :: "u32 \<Rightarrow> byte \<Rightarrow> u32" where
  "crc_byte c ch = crc_table ! unat ((c XOR ucast ch) AND 255) XOR drop_bit 8 c"

definition crc :: "bytes \<Rightarrow> u32" where
  "crc bs = NOT (foldl crc_byte (NOT 0) bs)"

definition put32 :: "u32 \<Rightarrow> bytes" where
  "put32 n = map (\<lambda>i. ucast (drop_bit (8 * i) n)) [0..<4]"

definition get32 :: "bytes \<Rightarrow> u32" where
  "get32 p = fold (\<lambda>i n. n OR push_bit (8 * i) (ucast (p ! i))) [0..<4] 0"

subsection \<open>Recovery\<close>

text \<open>
  Outcomes of the operating system calls, by the number of the call: whether it succeeds,
  how many bytes a write accepts, and the offset at which reading the device fails.
\<close>

record io_env =
  io_ok :: "nat \<Rightarrow> bool"
  io_count :: "nat \<Rightarrow> nat"
  io_bad :: "nat \<Rightarrow> nat option"

text \<open>\<^verbatim>\<open>input.read\<close> at a position: the bytes it gets, and whether it stopped at the end of the file.\<close>

definition read_at :: "nat option \<Rightarrow> bytes \<Rightarrow> nat \<Rightarrow> nat \<Rightarrow> bytes \<times> bool" where
  "read_at bad file pos n =
     (let readable = (case bad of None \<Rightarrow> file | Some b \<Rightarrow> take b file);
          got = take n (drop pos readable)
      in (got, length got < n \<and> length readable = length file))"

lemma read_at_bound:
  assumes "(got, eof) = read_at bad file pos n" "length got = n" "0 < n"
  shows "pos + n \<le> length file"
proof -
  have "length got \<le> length file - pos"
    using assms(1) by (auto simp: read_at_def Let_def split: option.splits)
  then show ?thesis using assms(2,3) by linarith
qed

fun parse_args :: "bytes \<Rightarrow> nat \<Rightarrow> nat \<Rightarrow> bytes list \<Rightarrow> (bytes list \<times> nat) option" where
  "parse_args payload 0 pos args = Some (args, pos)"
| "parse_args payload (Suc argc) pos args =
     (if length payload - pos < 4 then None
      else
        let n = unat (get32 (drop pos payload)); pos1 = pos + 4
        in if length payload - pos1 < n then None
           else parse_args payload argc (pos1 + n) (args @ [take n (drop pos1 payload)]))"

type_synonym 's replay = "byte \<Rightarrow> bytes list \<Rightarrow> 's \<Rightarrow> (exn + unit) \<times> 's"

text \<open>
  One record after the other; \<open>valid\<close> is both the end of the last good record and the read
  position. The result is that position and whether the tail is torn.
\<close>

function recover_loop :: "nat option \<Rightarrow> 's replay \<Rightarrow> bytes \<Rightarrow> nat \<Rightarrow> 's \<Rightarrow> (exn + nat \<times> bool) \<times> 's" where
  "recover_loop bad replay file valid st =
     (case read_at bad file valid 8 of (header, eof) \<Rightarrow>
        if header = [] \<and> eof then (Inr (valid, False), st)
        else if length header \<noteq> 8 then
          (if \<not> eof then (Inl (Error disk_read_failed), st) else (Inr (valid, True), st))
        else
          let sz = unat (get32 header); checksum = get32 (drop 4 header)
          in if sz < 2 \<or> max_record < sz then (Inl (Error disk_read_failed), st)
             else (case read_at bad file (valid + 8) sz of (payload, eof2) \<Rightarrow>
               if length payload \<noteq> sz then
                 (if \<not> eof2 then (Inl (Error disk_read_failed), st) else (Inr (valid, True), st))
               else if crc payload \<noteq> checksum then (Inl (Error disk_read_failed), st)
               else (case parse_args payload (unat (payload ! 1)) 2 [] of
                       None \<Rightarrow> (Inl (Error disk_read_failed), st)
                     | Some (args, pos) \<Rightarrow>
                         if pos \<noteq> length payload then (Inl (Error disk_read_failed), st)
                         else (case replay (payload ! 0) args st of
                                 (Inl e, st1) \<Rightarrow> (Inl e, st1)
                               | (Inr _, st1) \<Rightarrow> recover_loop bad replay file (valid + 8 + sz) st1))))"
  by pat_completeness auto
termination
  by (relation "measure (\<lambda>(bad, replay, file, valid, st). length file - valid)")
    (auto dest!: read_at_bound)

declare recover_loop.simps [simp del]

definition recover :: "io_env \<Rightarrow> nat \<Rightarrow> 's replay \<Rightarrow> bytes option \<Rightarrow> 's \<Rightarrow> (exn + nat) \<times> bytes option \<times> 's" where
  "recover env k replay path st =
     (if \<not> io_ok env k then (Inl FilesystemError, path, st)
      else case path of
        None \<Rightarrow> (Inr 0, path, st)
      | Some file \<Rightarrow>
          if file = [] then (Inr 0, path, st)
          else
            let bad = io_bad env (k + 1)
            in if fst (read_at bad file 0 8) \<noteq> magic then (Inl (Error disk_read_failed), path, st)
               else (case recover_loop bad replay file 8 st of
                       (Inl e, st1) \<Rightarrow> (Inl e, path, st1)
                     | (Inr (valid, torn), st1) \<Rightarrow>
                         if torn then
                           (if io_ok env (k + 2) then (Inr valid, Some (take valid file), st1)
                            else (Inl FilesystemError, path, st1))
                         else (Inr valid, path, st1)))"

subsection \<open>The log object\<close>

record wal =
  w_file :: bytes
  w_durable :: nat
  w_sync :: wal_sync
  w_total :: nat
  w_failed :: bool
  w_dirty :: bool
  w_defer :: bool
  w_io :: nat

definition write_failure :: "wal \<Rightarrow> (exn + unit) \<times> wal" where
  "write_failure w = (Inl (Error disk_write_failed), w\<lparr>w_failed := True\<rparr>)"

definition flush_locked :: "io_env \<Rightarrow> wal \<Rightarrow> (exn + unit) \<times> wal" where
  "flush_locked env w =
     (if w_failed w then (Inl (Error disk_write_failed), w)
      else if \<not> w_dirty w then (Inr (), w)
      else
        let w1 = w\<lparr>w_io := w_io w + 1\<rparr>
        in if \<not> io_ok env (w_io w) then write_failure w1
           else if w_sync w1 \<noteq> NoSync then
             let w2 = w1\<lparr>w_io := w_io w1 + 1\<rparr>
             in if \<not> io_ok env (w_io w1) then write_failure w2
                else (Inr (), w2\<lparr>w_durable := length (w_file w2), w_dirty := False\<rparr>)
           else (Inr (), w1\<lparr>w_dirty := False\<rparr>))"

text \<open>The size check of \<^verbatim>\<open>append\<close>: the size of the payload, or \<^verbatim>\<open>request_too_large\<close>.\<close>

fun record_size :: "nat \<Rightarrow> bytes list \<Rightarrow> nat option" where
  "record_size sz [] = Some sz"
| "record_size sz (arg # args) =
     (if max_record - 4 < length arg \<or> max_record - length arg - 4 < sz then None
      else record_size (sz + (4 + length arg)) args)"

definition encode_payload :: "byte \<Rightarrow> bytes list \<Rightarrow> bytes" where
  "encode_payload opc args =
     opc # of_nat (length args) # concat (map (\<lambda>a. put32 (of_nat (length a)) @ a) args)"

definition encode_record :: "byte \<Rightarrow> bytes list \<Rightarrow> bytes" where
  "encode_record opc args =
     (let payload = encode_payload opc args
      in put32 (of_nat (length payload)) @ put32 (crc payload) @ payload)"

definition append :: "io_env \<Rightarrow> byte \<Rightarrow> bytes list \<Rightarrow> wal \<Rightarrow> (exn + unit) \<times> wal" where
  "append env opc args w =
     (if w_failed w then (Inl (Error disk_write_failed), w)
      else case record_size 2 args of
        None \<Rightarrow> (Inl (Error request_too_large), w)
      | Some sz \<Rightarrow>
          if max_record < sz \<or> 255 < length args then (Inl (Error request_too_large), w)
          else
            let buffer = encode_record opc args;
                accepted = min (io_count env (w_io w)) (length buffer);
                w1 = w\<lparr>w_file := w_file w @ take accepted buffer, w_io := w_io w + 1\<rparr>
            in if accepted \<noteq> length buffer then write_failure w1
               else
                 let w2 = w1\<lparr>w_total := w_total w1 + length buffer, w_dirty := True\<rparr>
                 in if w_sync w2 = Always \<and> \<not> w_defer w2 then flush_locked env w2 else (Inr (), w2))"

definition reserve_record :: "nat \<Rightarrow> wal \<Rightarrow> (exn + unit) \<times> wal" where
  "reserve_record n w = (if max_record + 8 < n then (Inl (Error request_too_large), w) else (Inr (), w))"

definition begin_batch :: "wal \<Rightarrow> wal" where
  "begin_batch w = w\<lparr>w_defer := (w_sync w = Always)\<rparr>"

definition end_batch :: "io_env \<Rightarrow> wal \<Rightarrow> (exn + unit) \<times> wal" where
  "end_batch env w =
     (let w1 = w\<lparr>w_defer := False\<rparr> in if w_sync w1 = Always then flush_locked env w1 else (Inr (), w1))"

text \<open>One round of the flusher thread, and the flush of the destructor.\<close>

definition flusher_round :: "io_env \<Rightarrow> wal \<Rightarrow> wal" where
  "flusher_round env w =
     (case flush_locked env w of (Inl _, w1) \<Rightarrow> w1\<lparr>w_failed := True\<rparr> | (Inr _, w1) \<Rightarrow> w1)"

text \<open>
  The constructor: the lock file, the log file opened for appending, recovery, and the header of
  a new log. The calls are numbered from \<open>k\<close> on.
\<close>

definition wal_open ::
  "io_env \<Rightarrow> nat \<Rightarrow> wal_sync \<Rightarrow> 's replay \<Rightarrow> bytes option \<Rightarrow> 's \<Rightarrow> (exn + wal) \<times> bytes option \<times> 's"
where
  "wal_open env k sync replay path st =
     (if \<not> io_ok env k \<or> \<not> io_ok env (k + 1) \<or> \<not> io_ok env (k + 2) then
        (Inl (Error disk_write_failed), path, st)
      else
        let created = Some (case path of None \<Rightarrow> [] | Some f \<Rightarrow> f)
        in if \<not> io_ok env (k + 3) then (Inl (Error disk_write_failed), created, st)
           else (case recover env (k + 4) replay created st of
             (Inl e, path1, st1) \<Rightarrow> (Inl e, path1, st1)
           | (Inr valid, path1, st1) \<Rightarrow>
               if \<not> io_ok env (k + 7) then (Inl (Error disk_write_failed), path1, st1)
               else
                 let content = (case path1 of None \<Rightarrow> [] | Some f \<Rightarrow> f);
                     w = \<lparr>w_file = content, w_durable = 0, w_sync = sync, w_total = valid, w_failed = False,
                          w_dirty = False, w_defer = False, w_io = k + 8\<rparr>
                 in if valid \<noteq> 0 then (Inr w, path1, st1)
                    else
                      let accepted = min (io_count env (k + 8)) (length magic);
                          w1 = w\<lparr>w_file := w_file w @ take accepted magic, w_io := k + 9\<rparr>
                      in if accepted \<noteq> length magic then
                           (Inl (Error disk_write_failed), Some (w_file w1), st1)
                         else (case flush_locked env (w1\<lparr>w_total := length magic, w_dirty := True\<rparr>) of
                           (Inl e, w2) \<Rightarrow> (Inl e, Some (w_file w2), st1)
                         | (Inr _, w2) \<Rightarrow>
                             if sync \<noteq> NoSync then
                               (if \<not> io_ok env (w_io w2) \<or> \<not> io_ok env (w_io w2 + 1) then
                                  (Inl (Error disk_write_failed), Some (w_file w2), st1)
                                else (Inr (w2\<lparr>w_io := w_io w2 + 2\<rparr>), Some (w_file w2), st1))
                             else (Inr w2, Some (w_file w2), st1))))"

definition wal_close :: "io_env \<Rightarrow> wal \<Rightarrow> wal" where
  "wal_close env w =
     (case flush_locked env w of (Inl _, w1) \<Rightarrow> w1\<lparr>w_failed := True\<rparr> | (Inr _, w1) \<Rightarrow> w1)"

definition no_replay :: "unit replay" where
  "no_replay opc args st = (Inr (), st)"

text \<open>The replacement log of \<^verbatim>\<open>compact\<close>, from the call numbered \<open>k\<close> on.\<close>

definition write_replacement :: "io_env \<Rightarrow> nat \<Rightarrow> (wal \<Rightarrow> (exn + unit) \<times> wal) \<Rightarrow> exn + wal" where
  "write_replacement env k write =
     (case wal_open env k Always no_replay None () of
        (Inl e, _) \<Rightarrow> Inl e
      | (Inr r, _) \<Rightarrow>
          (case write (begin_batch r) of
             (Inl e, _) \<Rightarrow> Inl e
           | (Inr _, r1) \<Rightarrow>
               (case end_batch env r1 of
                  (Inl e, _) \<Rightarrow> Inl e
                | (Inr _, r2) \<Rightarrow>
                    (case flush_locked env r2 of
                       (Inl e, _) \<Rightarrow> Inl e
                     | (Inr _, r3) \<Rightarrow> Inr (wal_close env r3)))))"

text \<open>
  Switching to the replacement: close, rename, sync of the directory, reopen, lock. Once the
  rename is done the path shows the new bytes; until the directory is synced it is not
  certain which generation a crash leaves.
\<close>

definition switch_to :: "io_env \<Rightarrow> nat \<Rightarrow> wal \<Rightarrow> wal \<Rightarrow> (exn + unit) \<times> wal" where
  "switch_to env k r w =
     (if \<not> io_ok env k then (Inl (Error disk_write_failed), w\<lparr>w_failed := True\<rparr>)
      else if \<not> io_ok env (k + 1) then (Inl FilesystemError, w\<lparr>w_failed := True\<rparr>)
      else
        let w1 = w\<lparr>w_file := w_file r\<rparr>
        in if \<not> io_ok env (k + 2) \<or> \<not> io_ok env (k + 3) then
             (Inl (Error disk_write_failed), w1\<lparr>w_failed := True, w_durable := 0\<rparr>)
           else if \<not> io_ok env (k + 4) \<or> \<not> io_ok env (k + 5) then
             (Inl (Error disk_write_failed), w1\<lparr>w_failed := True, w_durable := w_durable r\<rparr>)
           else
             (Inr (), w1\<lparr>w_durable := w_durable r, w_total := w_total r, w_dirty := False, w_io := k + 6\<rparr>))"

definition compact :: "io_env \<Rightarrow> (wal \<Rightarrow> (exn + unit) \<times> wal) \<Rightarrow> wal \<Rightarrow> (exn + unit) \<times> wal" where
  "compact env write w =
     (if w_failed w \<or> w_defer w \<or> \<not> io_ok env (w_io w) then (Inl (Error disk_write_failed), w)
      else case write_replacement env (w_io w + 1) write of
        Inl e \<Rightarrow> (Inl e, w)
      | Inr r \<Rightarrow>
          (case recover env (w_io r) no_replay (Some (w_file r)) () of
             (Inl e, _) \<Rightarrow> (Inl e, w)
           | (Inr valid, _) \<Rightarrow>
               if valid \<noteq> w_total r then (Inl (Error disk_read_failed), w)
               else (case flush_locked env (w\<lparr>w_io := w_io r + 3\<rparr>) of
                       (Inl e, w1) \<Rightarrow> (Inl e, w1)
                     | (Inr _, w1) \<Rightarrow> switch_to env (w_io w1) r w1)))"

text \<open>A logged record: its operation code and arguments; which records \<^verbatim>\<open>append\<close> accepts.\<close>

type_synonym log_record = "byte \<times> bytes list"

definition encode_rec :: "log_record \<Rightarrow> bytes" where
  "encode_rec r = encode_record (fst r) (snd r)"

definition record_ok :: "log_record \<Rightarrow> bool" where
  "record_ok r \<longleftrightarrow> length (snd r) \<le> 255 \<and> length (encode_payload (fst r) (snd r)) \<le> max_record"

definition encode_log :: "log_record list \<Rightarrow> bytes" where
  "encode_log rs = concat (map encode_rec rs)"

text \<open>Replaying a list of records, stopping at the first exception.\<close>

fun replay_all :: "'s replay \<Rightarrow> log_record list \<Rightarrow> 's \<Rightarrow> (exn + unit) \<times> 's" where
  "replay_all replay [] st = (Inr (), st)"
| "replay_all replay (r # rs) st =
     (case replay (fst r) (snd r) st of
        (Inl e, st1) \<Rightarrow> (Inl e, st1)
      | (Inr _, st1) \<Rightarrow> replay_all replay rs st1)"

text \<open>How many records lie completely within the first \<open>k\<close> bytes.\<close>

fun complete_records :: "nat \<Rightarrow> log_record list \<Rightarrow> nat" where
  "complete_records k [] = 0"
| "complete_records k (r # rs) =
     (if length (encode_rec r) \<le> k then Suc (complete_records (k - length (encode_rec r)) rs) else 0)"

text \<open>
  The file holds the header and the records \<open>rs\<close>; only a log that has failed may end in a
  part of one more record.
\<close>

definition log_inv :: "wal \<Rightarrow> log_record list \<Rightarrow> bool" where
  "log_inv w rs \<longleftrightarrow>
     (\<forall>r \<in> set rs. record_ok r) \<and> w_durable w \<le> length (w_file w)
     \<and> (if w_failed w
        then \<exists>r j. record_ok r \<and> j < length (encode_rec r) \<and> w_file w = magic @ encode_log rs @ take j (encode_rec r)
        else w_file w = magic @ encode_log rs \<and> w_total w = length (w_file w))"

fun log_all :: "(log_record \<Rightarrow> 'w \<Rightarrow> (exn + unit) \<times> 'w) \<Rightarrow> log_record list \<Rightarrow> 'w \<Rightarrow> (exn + unit) \<times> 'w" where
  "log_all add [] w = (Inr (), w)"
| "log_all add (r # rs) w =
     (case add r w of
        (Inl e, w1) \<Rightarrow> (Inl e, w1)
      | (Inr _, w1) \<Rightarrow> log_all add rs w1)"

abbreviation append_rec :: "io_env \<Rightarrow> log_record \<Rightarrow> wal \<Rightarrow> (exn + unit) \<times> wal" where
  "append_rec env r \<equiv> append env (fst r) (snd r)"

abbreviation append_all :: "io_env \<Rightarrow> log_record list \<Rightarrow> wal \<Rightarrow> (exn + unit) \<times> wal" where
  "append_all env \<equiv> log_all (append_rec env)"

text \<open>An environment without failures, and a small log, for the examples.\<close>

definition calm :: io_env where
  "calm = \<lparr>io_ok = (\<lambda>_. True), io_count = (\<lambda>_. 2 ^ 30), io_bad = (\<lambda>_. None)\<rparr>"

definition sample_log :: "log_record list" where
  "sample_log = [(0, [[107], [118]]), (9, [[107]])]"

definition sample_wal :: wal where
  "sample_wal =
     \<lparr>w_file = magic @ encode_log sample_log, w_durable = 8 + length (encode_rec (0, [[107], [118]])),
      w_sync = Always, w_total = length (magic @ encode_log sample_log), w_failed = False, w_dirty = True,
      w_defer = False, w_io = 0\<rparr>"

definition collect :: "log_record list replay" where
  "collect opc args st = (Inr (), st @ [(opc, args)])"

section \<open>The checksum\<close>

lemma crc_bit_alt: "crc_bit c = drop_bit 1 c XOR (if bit c 0 then 0xedb88320 else 0)"
proof -
  have "(c AND 1 \<noteq> 0) = bit c 0" using and_exp_eq_0_iff_not_bit [of c 0] by simp
  then show ?thesis by (simp add: crc_bit_def)
qed

lemma crc_bit_xor: "crc_bit (a XOR b) = crc_bit a XOR crc_bit b"
  by (cases "bit a 0"; cases "bit b 0")
    (simp_all add: crc_bit_alt bit_xor_iff drop_bit_xor ac_simps)

lemma crc_bits_xor: "(crc_bit ^^ n) (a XOR b) = (crc_bit ^^ n) a XOR (crc_bit ^^ n) b"
  by (induction n) (simp_all add: crc_bit_xor)

lemma crc_bits_high:
  assumes "take_bit n x = 0"
  shows "(crc_bit ^^ n) x = drop_bit n x"
  using assms
proof (induction n arbitrary: x)
  case (Suc n)
  have z: "\<not> bit x i" if "i < Suc n" for i
    using Suc.prems that by (metis bit_0_eq bit_take_bit_iff bot_apply bot_bool_def)
  have "crc_bit x = drop_bit 1 x" using z [of 0] by (simp add: crc_bit_alt)
  moreover have "take_bit n (drop_bit 1 x) = 0"
    by (rule bit_eqI) (use z in \<open>auto simp: bit_simps\<close>)
  ultimately show ?case using Suc.IH [of "drop_bit 1 x"]
    by (simp add: funpow_swap1 drop_bit_drop_bit ac_simps)
qed simp

lemma crc_byte_bitwise: "crc_byte c ch = (crc_bit ^^ 8) (c XOR ucast ch)"
proof -
  let ?d = "c XOR ucast ch :: u32"
  let ?lo = "?d AND 255"
  have lo: "?lo = take_bit 8 ?d" by (simp add: take_bit_eq_mask mask_eq_exp_minus_1)
  have "unat ?lo < 256"
    unfolding lo unsigned_take_bit_eq using take_bit_nat_less_exp [of 8 "unat ?d"] by simp
  then have t: "crc_table ! unat ?lo = (crc_bit ^^ 8) ?lo" by (simp add: crc_table_def)
  let ?hi = "?d XOR ?lo"
  have "take_bit 8 ?hi = 0" unfolding lo by (rule bit_eqI) (simp add: bit_simps)
  then have "(crc_bit ^^ 8) ?hi = drop_bit 8 ?hi" by (rule crc_bits_high)
  also have "drop_bit 8 ?hi = drop_bit 8 c"
    unfolding lo by (rule bit_eqI) (auto simp: bit_simps dest: bit_imp_le_length)
  finally have h: "(crc_bit ^^ 8) ?hi = drop_bit 8 c" .
  have "(crc_bit ^^ 8) ?d = (crc_bit ^^ 8) (?lo XOR ?hi)" by (simp add: ac_simps)
  also have "\<dots> = (crc_bit ^^ 8) ?lo XOR drop_bit 8 c" by (subst crc_bits_xor) (simp only: h)
  finally show ?thesis by (simp only: crc_byte_def t)
qed

lemma crc_bit_inj:
  assumes "crc_bit a = crc_bit b"
  shows "a = b"
proof -
  have top: "bit (crc_bit c) 31 = bit c 0" for c
    by (auto simp: crc_bit_alt bit_simps dest: bit_imp_le_length)
  have zero: "x = 0" if "crc_bit x = 0" for x
  proof -
    have b0: "\<not> bit x 0" using top [of x] that by simp
    then have "drop_bit 1 x = 0" using that by (simp add: crc_bit_alt)
    then have "\<not> bit (drop_bit 1 x) n" for n by simp
    then have "\<not> bit x (Suc n)" for n by (simp add: bit_drop_bit_eq)
    then have "\<not> bit x n" for n using b0 by (cases n) simp_all
    then show "x = 0" by (intro bit_eqI) simp
  qed
  have "crc_bit (a XOR b) = 0" using assms by (simp add: crc_bit_xor)
  then have "a XOR b = 0" by (rule zero)
  then show ?thesis by (metis bit.xor_left_self xor.right_neutral)
qed

lemma crc_bits_inj: "(crc_bit ^^ n) a = (crc_bit ^^ n) b \<Longrightarrow> a = b"
  by (induction n) (auto dest: crc_bit_inj)

lemma crc_byte_inj: "crc_byte c x = crc_byte d x \<longleftrightarrow> c = d" "crc_byte c x = crc_byte c y \<longleftrightarrow> x = y"
proof -
  have "c XOR ucast x = d XOR ucast x \<Longrightarrow> c = d" for c d :: u32
    by (metis bit.xor_left_self xor.commute)
  then show "crc_byte c x = crc_byte d x \<longleftrightarrow> c = d"
    unfolding crc_byte_bitwise by (auto dest: crc_bits_inj)
  have "c XOR ucast x = c XOR ucast y \<Longrightarrow> x = y" for c :: u32
  proof -
    assume "c XOR ucast x = c XOR ucast y"
    then have "(ucast x :: u32) = ucast y" by (metis bit.xor_left_self)
    then have "(ucast (ucast x :: u32) :: byte) = ucast (ucast y :: u32)" by simp
    moreover have "ucast (ucast z :: u32) = z" for z :: byte
      by (rule bit_eqI) (auto simp: bit_simps dest: bit_imp_le_length)
    ultimately show "x = y" by simp
  qed
  then show "crc_byte c x = crc_byte c y \<longleftrightarrow> x = y"
    unfolding crc_byte_bitwise by (auto dest: crc_bits_inj)
qed

lemma crc_fold_inj: "foldl crc_byte c bs = foldl crc_byte d bs \<longleftrightarrow> c = d"
  by (induction bs arbitrary: c d) (simp_all add: crc_byte_inj)

lemma crc_change: "x \<noteq> y \<Longrightarrow> crc (as @ x # bs) \<noteq> crc (as @ y # bs)"
  by (simp add: crc_def crc_fold_inj crc_byte_inj)

section \<open>Records\<close>

lemma upt4: "[0..<4] = [0, 1, 2, 3 :: nat]"
  by (simp add: upt_rec)

lemma length_put32 [simp]: "length (put32 n) = 4"
  by (simp add: put32_def)

lemma put32_le: "put32 n = le_encode 4 n"
proof -
  have four: "(4 :: nat) = Suc (Suc (Suc (Suc 0)))" by simp
  show ?thesis unfolding four le_encode.simps by (simp add: put32_def upt4 drop_bit_drop_bit)
qed

lemma get32_le: "get32 (a # b # c # d # rest) = le_decode [a, b, c, d]"
  by (simp add: get32_def upt4 push_bit_or push_bit_push_bit ac_simps)

lemma get32_put32 [simp]: "get32 (put32 n @ rest) = n"
proof -
  obtain a b c d where p: "put32 n = [a, b, c, d]" by (simp add: put32_def upt4)
  have "get32 (put32 n @ rest) = le_decode (put32 n)" by (simp add: p get32_le)
  then show ?thesis by (simp add: put32_le le_decode_encode)
qed

lemma payload_shape:
  "length (encode_payload opc args) = 2 + (\<Sum>a\<leftarrow>args. 4 + length a)"
  by (simp add: encode_payload_def length_concat comp_def)

lemma record_size_sum:
  assumes "n \<le> max_record"
  shows "record_size n args =
     (if n + (\<Sum>a\<leftarrow>args. 4 + length a) \<le> max_record then Some (n + (\<Sum>a\<leftarrow>args. 4 + length a)) else None)"
  using assms
proof (induction args arbitrary: n)
  case (Cons a args)
  have m: "4 \<le> max_record" by (simp add: max_record_def)
  show ?case
  proof (cases "n + 4 + length a \<le> max_record")
    case True
    then have "\<not> (max_record - 4 < length a \<or> max_record - length a - 4 < n)" by linarith
    then show ?thesis using Cons.IH [of "n + (4 + length a)"] True by (simp add: ac_simps)
  next
    case False
    then have "max_record - 4 < length a \<or> max_record - length a - 4 < n" using m Cons.prems by linarith
    then show ?thesis using False by auto
  qed
qed simp

lemma append_accepts:
  "(\<exists>sz. record_size 2 args = Some sz \<and> \<not> (max_record < sz \<or> 255 < length args)) \<longleftrightarrow> record_ok (opc, args)"
  using record_size_sum [of 2 args]
  by (auto simp: record_ok_def payload_shape max_record_def)

lemma length_encode_rec: "length (encode_rec r) = 8 + length (encode_payload (fst r) (snd r))"
  by (simp add: encode_rec_def encode_record_def Let_def)

lemma max_record_32: "n \<le> max_record \<Longrightarrow> unat (of_nat n :: u32) = n"
  by (simp add: max_record_def unsigned_of_nat take_bit_nat_eq_self)

lemma parse_args_payload:
  assumes "\<forall>a \<in> set args. length a \<le> max_record"
  shows "parse_args (pre @ concat (map (\<lambda>a. put32 (of_nat (length a)) @ a) args) @ post) (length args) (length pre) acc
       = Some (acc @ args, length pre + (\<Sum>a\<leftarrow>args. 4 + length a))"
  using assms
proof (induction args arbitrary: pre acc)
  case (Cons a args)
  let ?enc = "concat (map (\<lambda>a. put32 (of_nat (length a)) @ a) args)"
  have n: "unat (of_nat (length a) :: u32) = length a" using Cons.prems by (simp add: max_record_32)
  have "parse_args ((pre @ put32 (of_nat (length a)) @ a) @ ?enc @ post) (length args)
      (length (pre @ put32 (of_nat (length a)) @ a)) (acc @ [a])
      = Some ((acc @ [a]) @ args, length (pre @ put32 (of_nat (length a)) @ a) + (\<Sum>a\<leftarrow>args. 4 + length a))"
    using Cons.prems by (intro Cons.IH) simp
  then show ?case by (simp add: n Let_def ac_simps)
qed simp

lemma payload_parse:
  assumes "record_ok (opc, args)"
  shows "parse_args (encode_payload opc args) (unat (encode_payload opc args ! 1)) 2 []
       = Some (args, length (encode_payload opc args))" "encode_payload opc args ! 0 = opc"
proof -
  let ?enc = "concat (map (\<lambda>a. put32 (of_nat (length a)) @ a) args)"
  have len: "length args \<le> 255" using assms by (simp add: record_ok_def)
  then have c: "unat (of_nat (length args) :: byte) = length args" by (simp add: unsigned_of_nat take_bit_nat_eq_self)
  have "length a \<le> max_record" if "a \<in> set args" for a
  proof -
    have "4 + length a \<le> (\<Sum>a\<leftarrow>args. 4 + length a)" using that by (intro member_le_sum_list) auto
    then show ?thesis using assms by (simp add: record_ok_def payload_shape)
  qed
  then have "parse_args ([opc, of_nat (length args)] @ ?enc @ []) (length args) (length [opc, of_nat (length args) :: byte]) []
      = Some ([] @ args, length [opc, of_nat (length args) :: byte] + (\<Sum>a\<leftarrow>args. 4 + length a))"
    by (intro parse_args_payload) blast
  then show "parse_args (encode_payload opc args) (unat (encode_payload opc args ! 1)) 2 []
       = Some (args, length (encode_payload opc args))"
    by (simp add: payload_shape) (simp add: encode_payload_def c numeral_2_eq_2)
  show "encode_payload opc args ! 0 = opc" by (simp add: encode_payload_def)
qed

section \<open>Recovery\<close>

lemma read_at_None [simp]: "read_at None file pos n = (take n (drop pos file), length file - pos < n)"
  by (auto simp: read_at_def Let_def)

lemma encode_rec_shape:
  "encode_rec r = put32 (of_nat (length (encode_payload (fst r) (snd r)))) @ put32 (crc (encode_payload (fst r) (snd r)))
     @ encode_payload (fst r) (snd r)"
  by (simp add: encode_rec_def encode_record_def Let_def)

lemma recover_loop_record:
  assumes "record_ok r"
  shows "recover_loop None replay (pre @ encode_rec r @ rest) (length pre) st =
     (case replay (fst r) (snd r) st of
        (Inl e, st1) \<Rightarrow> (Inl e, st1)
      | (Inr _, st1) \<Rightarrow> recover_loop None replay (pre @ encode_rec r @ rest) (length pre + length (encode_rec r)) st1)"
proof -
  let ?p = "encode_payload (fst r) (snd r)"
  let ?h = "put32 (of_nat (length ?p)) @ put32 (crc ?p)"
  let ?file = "pre @ encode_rec r @ rest"
  have len: "2 \<le> length ?p" "length ?p \<le> max_record" using assms by (simp_all add: record_ok_def payload_shape)
  have n: "unat (of_nat (length ?p) :: u32) = length ?p" using len by (simp add: max_record_32)
  have r1: "read_at None ?file (length pre) 8 = (?h, False)"
    by (simp add: encode_rec_shape)
  have r2: "fst (read_at None ?file (length pre + 8) (length ?p)) = ?p"
    by (simp add: encode_rec_shape)
  note pp = payload_parse [of "fst r" "snd r"]
  have ok: "record_ok (fst r, snd r)" using assms by simp
  have g: "get32 ?h = of_nat (length ?p)" "get32 (drop 4 ?h) = crc ?p" "length ?h = 8"
    using get32_put32 [of "crc ?p" "[]"] by simp_all
  obtain e2 where r2': "read_at None ?file (length pre + 8) (length ?p) = (?p, e2)" using r2 by (metis prod.collapse)
  have l: "length pre + length (encode_rec r) = length pre + 8 + length ?p" by (simp add: length_encode_rec)
  show ?thesis
    unfolding recover_loop.simps [of None replay ?file "length pre"] r1 l
    using len g r2' pp [OF ok] by (simp add: n Let_def del: read_at_None)
qed

lemma recover_loop_tail:
  assumes "record_ok r" "j < length (encode_rec r)" "tail = take j (encode_rec r)"
  shows "recover_loop None replay (pre @ tail) (length pre) st = (Inr (length pre, tail \<noteq> []), st)"
proof -
  let ?p = "encode_payload (fst r) (snd r)"
  let ?h = "put32 (of_nat (length ?p)) @ put32 (crc ?p)"
  have len: "2 \<le> length ?p" "length ?p \<le> max_record" using assms(1) by (simp_all add: record_ok_def payload_shape)
  have n: "unat (of_nat (length ?p) :: u32) = length ?p" using len by (simp add: max_record_32)
  have lt: "length tail = j" using assms(2,3) by simp
  show ?thesis
  proof (cases "j < 8")
    case True
    then show ?thesis using lt
      by (auto simp: recover_loop.simps [of None replay "pre @ tail" "length pre"])
  next
    case False
    have h: "take 8 tail = ?h" using False assms(3) by (simp add: encode_rec_shape min_def)
    have g: "get32 ?h = of_nat (length ?p)" "get32 (drop 4 ?h) = crc ?p"
      using get32_put32 [of "crc ?p" "[]"] by simp_all
    have r1: "read_at None (pre @ tail) (length pre) 8 = (?h, False)" using h lt False by simp
    have r2: "read_at None (pre @ tail) (length pre + 8) (length ?p) = (drop 8 tail, True)"
      using lt assms(2) len by (simp add: length_encode_rec)
    have "length (drop 8 tail) \<noteq> length ?p" using lt assms(2) False by (simp add: length_encode_rec)
    moreover have "tail \<noteq> []" using lt False by auto
    ultimately show ?thesis
      unfolding recover_loop.simps [of None replay "pre @ tail" "length pre"] r1
      using len g r2 by (simp add: n Let_def del: read_at_None)
  qed
qed

lemma recover_loop_log:
  assumes "\<forall>r \<in> set rs. record_ok r" "record_ok r" "j < length (encode_rec r)"
  shows "recover_loop None replay (pre @ encode_log rs @ take j (encode_rec r)) (length pre) st =
     (case replay_all replay rs st of
        (Inl e, st1) \<Rightarrow> (Inl e, st1)
      | (Inr _, st1) \<Rightarrow> (Inr (length pre + length (encode_log rs), 0 < j), st1))"
  using assms(1)
proof (induction rs arbitrary: pre st)
  case Nil
  have "take j (encode_rec r) \<noteq> [] \<longleftrightarrow> 0 < j" using assms(3) by auto
  then show ?case using recover_loop_tail [OF assms(2,3) refl, of replay pre st] by (simp add: encode_log_def)
next
  case (Cons x xs)
  let ?rest = "encode_log xs @ take j (encode_rec r)"
  have f: "pre @ encode_log (x # xs) @ take j (encode_rec r) = pre @ encode_rec x @ ?rest"
    by (simp add: encode_log_def)
  have IH: "recover_loop None replay ((pre @ encode_rec x) @ ?rest) (length (pre @ encode_rec x)) s1 =
     (case replay_all replay xs s1 of
        (Inl e, st1) \<Rightarrow> (Inl e, st1)
      | (Inr _, st1) \<Rightarrow> (Inr (length (pre @ encode_rec x) + length (encode_log xs), 0 < j), st1))" for s1
    using Cons by (intro Cons.IH) simp
  show ?case
    unfolding f using recover_loop_record [of x replay pre ?rest st] Cons.prems IH
    by (auto simp: encode_log_def split: prod.splits sum.splits)
qed

lemma take_log:
  assumes "k \<le> length (encode_log rs)"
  shows "\<exists>j r. take k (encode_log rs) = encode_log (take (complete_records k rs) rs) @ take j (encode_rec r)
       \<and> (rs \<noteq> [] \<longrightarrow> r \<in> set rs) \<and> (j = 0 \<or> j < length (encode_rec r) \<and> r \<in> set rs)"
  using assms
proof (induction rs arbitrary: k)
  case Nil
  then show ?case by (auto simp: encode_log_def intro!: exI [of _ 0])
next
  case (Cons x xs)
  show ?case
  proof (cases "length (encode_rec x) \<le> k")
    case True
    let ?k = "k - length (encode_rec x)"
    have "?k \<le> length (encode_log xs)" using Cons.prems True by (simp add: encode_log_def)
    from Cons.IH [OF this] obtain j r where
      e: "take ?k (encode_log xs) = encode_log (take (complete_records ?k xs) xs) @ take j (encode_rec r)"
      and r: "j = 0 \<or> j < length (encode_rec r) \<and> r \<in> set xs" by blast
    have "take k (encode_log (x # xs)) = encode_rec x @ take ?k (encode_log xs)"
      using True by (simp add: encode_log_def)
    then have 1: "take k (encode_log (x # xs)) = encode_log (take (complete_records k (x # xs)) (x # xs)) @ take j (encode_rec r)"
      using True e by (simp add: encode_log_def)
    show ?thesis
    proof (cases "j = 0")
      case True
      then show ?thesis using 1 by (intro exI [of _ 0] exI [of _ x]) simp
    next
      case False
      then show ?thesis using 1 r by (intro exI [of _ j] exI [of _ r]) auto
    qed
  next
    case False
    then show ?thesis by (intro exI [of _ k] exI [of _ x]) (simp add: encode_log_def)
  qed
qed

section \<open>The log object\<close>

lemma length_magic [simp]: "length magic = 8"
  by (simp add: magic_def)

lemma encode_log_snoc: "encode_log (rs @ [r]) = encode_log rs @ encode_rec r"
  by (simp add: encode_log_def)

lemma empty_record: "record_ok (0, [])" "0 < length (encode_rec (0, []))"
  by (simp_all add: record_ok_def encode_payload_def max_record_def length_encode_rec)

text \<open>Setting the failure flag on a log keeps what it holds.\<close>

lemma log_inv_fail: "log_inv w rs \<Longrightarrow> log_inv (w\<lparr>w_failed := True, w_io := k\<rparr>) rs"
  using empty_record by (auto simp: log_inv_def split: if_splits intro!: exI [of _ "0::nat"])

lemma flush_locked_cases:
  assumes "flush_locked env w = (r, w')"
  shows "w_file w' = w_file w \<and> w_sync w' = w_sync w \<and> w_total w' = w_total w \<and> w_defer w' = w_defer w
       \<and> (case r of
            Inl e \<Rightarrow> e = Error disk_write_failed \<and> w_failed w' \<and> w_durable w' = w_durable w
          | Inr _ \<Rightarrow> \<not> w_failed w \<and> \<not> w_failed w' \<and> \<not> w_dirty w'
              \<and> w_durable w' = (if w_dirty w \<and> w_sync w \<noteq> NoSync then length (w_file w) else w_durable w))"
  using assms by (auto simp: flush_locked_def write_failure_def Let_def split: if_splits)

lemma log_inv_same:
  assumes "log_inv w rs" "w_file w' = w_file w" "w_total w' = w_total w" "w_durable w' \<le> length (w_file w)"
    "w_failed w \<longrightarrow> w_failed w'"
  shows "log_inv w' rs"
  using assms empty_record by (auto simp: log_inv_def split: if_splits intro!: exI [of _ "0::nat"])

lemma flush_locked_inv: "log_inv w rs \<Longrightarrow> flush_locked env w = (r, w') \<Longrightarrow> log_inv w' rs"
  using flush_locked_cases [of env w r w']
  by (intro log_inv_same [of w rs w']) (auto simp: log_inv_def split: sum.splits if_splits)

lemma append_cases:
  assumes "append env opc args w = (r, w')"
  shows "(\<not> w_failed w \<and> record_ok (opc, args) \<and> w_file w' = w_file w @ encode_rec (opc, args)
            \<and> w_total w' = w_total w + length (encode_rec (opc, args))
            \<and> (case r of
                 Inl e \<Rightarrow> e = Error disk_write_failed \<and> w_failed w' \<and> w_durable w' = w_durable w
               | Inr _ \<Rightarrow> \<not> w_failed w' \<and> w_durable w' =
                   (if w_sync w = Always \<and> \<not> w_defer w then length (w_file w') else w_durable w)))
       \<or> (\<exists>j < length (encode_rec (opc, args)). \<not> w_failed w \<and> record_ok (opc, args) \<and> w_failed w'
            \<and> w_file w' = w_file w @ take j (encode_rec (opc, args)) \<and> w_durable w' = w_durable w
            \<and> r = Inl (Error disk_write_failed))
       \<or> w' = w \<and> r = Inl (Error (if w_failed w then disk_write_failed else request_too_large))
            \<and> (w_failed w \<or> \<not> record_ok (opc, args))"
proof (cases "w_failed w \<or> \<not> record_ok (opc, args)")
  case True
  have "w' = w \<and> r = Inl (Error (if w_failed w then disk_write_failed else request_too_large))"
  proof (cases "w_failed w")
    case False
    then have "\<nexists>sz. record_size 2 args = Some sz \<and> \<not> (max_record < sz \<or> 255 < length args)"
      using True append_accepts by blast
    then show ?thesis using assms False by (auto simp: append_def split: option.splits if_splits)
  qed (use assms in \<open>simp add: append_def\<close>)
  then show ?thesis using True by blast
next
  case False
  then obtain sz where sz: "record_size 2 args = Some sz" "\<not> (max_record < sz \<or> 255 < length args)"
    using append_accepts by blast
  let ?b = "encode_record opc args"
  have b: "encode_rec (opc, args) = ?b" by (simp add: encode_rec_def)
  define a where "a = min (io_count env (w_io w)) (length ?b)"
  define w1 where "w1 = w\<lparr>w_file := w_file w @ take a ?b, w_io := w_io w + 1\<rparr>"
  define w2 where "w2 = w1\<lparr>w_total := w_total w1 + length ?b, w_dirty := True\<rparr>"
  have run: "(if a \<noteq> length ?b then write_failure w1
      else if w_sync w2 = Always \<and> \<not> w_defer w2 then flush_locked env w2 else (Inr (), w2)) = (r, w')"
    using assms False sz unfolding append_def Let_def a_def [symmetric] w1_def [symmetric] w2_def [symmetric] by simp
  show ?thesis
  proof (cases "a = length ?b")
    case part: False
    have "a \<le> length ?b" by (simp add: a_def)
    moreover have "r = Inl (Error disk_write_failed)" "w' = w1\<lparr>w_failed := True\<rparr>"
      using run part by (simp_all add: write_failure_def)
    ultimately show ?thesis using part False b by (intro disjI2 disjI1 exI [of _ a]) (auto simp: w1_def)
  next
    case True
    then have f: "w_file w2 = w_file w @ encode_rec (opc, args)" "w_sync w2 = w_sync w" "w_defer w2 = w_defer w"
      "w_total w2 = w_total w + length (encode_rec (opc, args))" "w_dirty w2" "w_failed w2 = w_failed w"
      "w_durable w2 = w_durable w"
      by (simp_all add: w2_def w1_def b)
    show ?thesis
    proof (cases "w_sync w = Always \<and> \<not> w_defer w")
      case sync: True
      then have "flush_locked env w2 = (r, w')" using run True f by simp
      from flush_locked_cases [OF this] show ?thesis
        using sync False f by (intro disjI1) (auto split: sum.splits)
    next
      case nosync: False
      then have "r = Inr ()" "w' = w2" using run True f by auto
      then show ?thesis using nosync False f by (intro disjI1) auto
    qed
  qed
qed

lemma append_inv:
  assumes inv: "log_inv w rs" and run: "append env opc args w = (r, w')"
  shows "case r of
      Inl _ \<Rightarrow> log_inv w' rs \<or> log_inv w' (rs @ [(opc, args)]) \<and> w_failed w'
    | Inr _ \<Rightarrow> log_inv w' (rs @ [(opc, args)]) \<and> \<not> w_failed w'"
  using append_cases [OF run]
proof (elim disjE conjE exE, goal_cases)
  case 1
  have "log_inv w' (rs @ [(opc, args)])"
    using inv 1 empty_record
    by (auto simp: log_inv_def encode_log_snoc split: sum.splits if_splits intro!: exI [of _ "0::nat"])
  then show ?case using 1 by (auto split: sum.splits)
next
  case (2 j)
  then have "log_inv w' rs" using inv by (auto simp: log_inv_def)
  then show ?case using 2 by simp
qed (use inv in simp_all)

text \<open>
  What a client of the log relies on: an accepted record is added at the end, a refused one is
  not, unless the log is broken from then on.
\<close>

locale record_log =
  fixes add :: "log_record \<Rightarrow> 'w \<Rightarrow> (exn + unit) \<times> 'w"
    and holds :: "'w \<Rightarrow> log_record list \<Rightarrow> bool"
    and broken :: "'w \<Rightarrow> bool"
  assumes add_ok: "\<lbrakk>holds w rs; add r w = (Inr u, w')\<rbrakk> \<Longrightarrow> holds w' (rs @ [r]) \<and> \<not> broken w'"
    and add_err: "\<lbrakk>holds w rs; add r w = (Inl e, w')\<rbrakk> \<Longrightarrow> holds w' rs \<or> holds w' (rs @ [r]) \<and> broken w'"
begin

lemma log_all_holds:
  assumes "holds w rs" "log_all add new w = (x, w')"
  shows "case x of
      Inl _ \<Rightarrow> \<exists>n \<le> length new. holds w' (rs @ take n new)
    | Inr _ \<Rightarrow> holds w' (rs @ new) \<and> (new \<noteq> [] \<longrightarrow> \<not> broken w')"
  using assms
proof (induction new arbitrary: w rs)
  case Nil
  then show ?case by auto
next
  case (Cons r new)
  obtain y w1 where a: "add r w = (y, w1)" by (metis surj_pair)
  show ?case
  proof (cases y)
    case (Inl e)
    then have x: "x = Inl e" "w' = w1" using Cons.prems(2) a by simp_all
    have "holds w1 rs \<or> holds w1 (rs @ [r])" using add_err Cons.prems(1) a Inl by blast
    then have "\<exists>n \<le> length (r # new). holds w1 (rs @ take n (r # new))"
      by (auto intro: exI [of _ "0::nat"] exI [of _ "1::nat"])
    then show ?thesis using x by simp
  next
    case (Inr u)
    then have run: "log_all add new w1 = (x, w')" using Cons.prems(2) a by simp
    have h: "holds w1 (rs @ [r])" "\<not> broken w1" using add_ok Cons.prems(1) a Inr by blast+
    note IH = Cons.IH [OF h(1) run]
    show ?thesis
    proof (cases x)
      case (Inl e)
      then obtain n where "n \<le> length new" "holds w' ((rs @ [r]) @ take n new)" using IH by auto
      then show ?thesis using Inl by (auto intro!: exI [of _ "Suc n"])
    next
      case (Inr v)
      then show ?thesis using IH run h(2) by (cases new) auto
    qed
  qed
qed

end

interpretation wal_log: record_log "append_rec env" log_inv w_failed
proof
  fix w rs r u w'
  assume "log_inv w rs" "append_rec env r w = (Inr u, w')"
  then show "log_inv w' (rs @ [r]) \<and> \<not> w_failed w'" using append_inv by fastforce
next
  fix w rs r e w'
  assume "log_inv w rs" "append_rec env r w = (Inl e, w')"
  then show "log_inv w' rs \<or> log_inv w' (rs @ [r]) \<and> w_failed w'" using append_inv by fastforce
qed

section \<open>Opening, crashing and compacting\<close>

lemma recover_log:
  assumes "io_ok env k" "io_bad env (k + 1) = None" "io_ok env (k + 2)"
    and ok: "\<forall>r \<in> set rs. record_ok r" "record_ok r" "j < length (encode_rec r)"
    and f: "file = magic @ encode_log rs @ take j (encode_rec r)"
  shows "recover env k replay (Some file) st =
     (case replay_all replay rs st of
        (Inl e, st1) \<Rightarrow> (Inl e, Some file, st1)
      | (Inr _, st1) \<Rightarrow> (Inr (8 + length (encode_log rs)), Some (magic @ encode_log rs), st1))"
proof -
  have ne: "file \<noteq> []" using f by (simp add: magic_def str_def)
  have h: "fst (read_at None file 0 8) = magic" using f by simp
  have t: "take (8 + length (encode_log rs)) file = magic @ encode_log rs" using f by simp
  have j0: "\<not> 0 < j \<Longrightarrow> file = magic @ encode_log rs" using f by simp
  note l = recover_loop_log [OF ok, of replay magic st, folded f, simplified]
  show ?thesis
    unfolding recover_def using assms(1-3) ne h t j0
    by (simp add: l Let_def del: read_at_None split: prod.splits sum.splits)
qed

lemma take_log_file:
  assumes ok: "\<forall>r \<in> set rs. record_ok r" and k: "8 \<le> k" "k \<le> 8 + length (encode_log rs)"
  shows "\<exists>r j. record_ok r \<and> j < length (encode_rec r)
       \<and> take k (magic @ encode_log rs) = magic @ encode_log (take (complete_records (k - 8) rs) rs) @ take j (encode_rec r)"
proof -
  have "k - 8 \<le> length (encode_log rs)" using k by linarith
  from take_log [OF this] obtain j r where t: "take (k - 8) (encode_log rs) = encode_log (take (complete_records (k - 8) rs) rs) @ take j (encode_rec r)"
    and jr: "j = 0 \<or> j < length (encode_rec r) \<and> r \<in> set rs"
    by blast
  have e: "take k (magic @ encode_log rs) = magic @ take (k - 8) (encode_log rs)" using k by simp
  show ?thesis
  proof (cases "j = 0")
    case True
    then show ?thesis using e t empty_record by (intro exI [of _ "(0, [])"] exI [of _ 0]) simp
  next
    case False
    then show ?thesis using e t jr ok by (intro exI [of _ r] exI [of _ j]) simp
  qed
qed

lemma complete_records_append:
  "length (encode_log ds) \<le> k \<Longrightarrow>
     complete_records k (ds @ us) = length ds + complete_records (k - length (encode_log ds)) us"
proof (induction ds arbitrary: k)
  case (Cons d ds)
  have "length (encode_log (d # ds)) = length (encode_rec d) + length (encode_log ds)" by (simp add: encode_log_def)
  then have "length (encode_rec d) \<le> k" "length (encode_log ds) \<le> k - length (encode_rec d)"
    "k - length (encode_log (d # ds)) = k - length (encode_rec d) - length (encode_log ds)"
    using Cons.prems by linarith+
  then show ?case using Cons.IH [of "k - length (encode_rec d)"] by simp
qed (simp add: encode_log_def)

lemma complete_records_le: "complete_records k rs \<le> length rs"
  by (induction k rs rule: complete_records.induct) auto

text \<open>A crash may leave any prefix of the file that keeps the durable bytes.\<close>

lemma crash_recover:
  assumes inv: "log_inv w rs" and k: "8 \<le> k" "k \<le> length (w_file w)"
    and env: "io_ok env n" "io_bad env (n + 1) = None" "io_ok env (n + 2)"
  shows "recover env n replay (Some (take k (w_file w))) st =
     (case replay_all replay (take (complete_records (k - 8) rs) rs) st of
        (Inl e, st1) \<Rightarrow> (Inl e, Some (take k (w_file w)), st1)
      | (Inr _, st1) \<Rightarrow> (Inr (8 + length (encode_log (take (complete_records (k - 8) rs) rs))),
          Some (magic @ encode_log (take (complete_records (k - 8) rs) rs)), st1))"
proof -
  have ok: "\<forall>r \<in> set rs. record_ok r" using inv by (simp add: log_inv_def)
  obtain r j where f: "w_file w = magic @ encode_log rs @ take j (encode_rec r)" "record_ok r" "j < length (encode_rec r)"
    using inv empty_record by (auto simp: log_inv_def split: if_splits)
  have "\<exists>r j. record_ok r \<and> j < length (encode_rec r) \<and> take k (w_file w)
      = magic @ encode_log (take (complete_records (k - 8) rs) rs) @ take j (encode_rec r)"
  proof (cases "k \<le> 8 + length (encode_log rs)")
    case True
    then have "take k (w_file w) = take k (magic @ encode_log rs)" using f(1) by simp
    then show ?thesis using take_log_file [OF ok k(1) True] by simp
  next
    case False
    then have "complete_records (k - 8) (rs @ []) = length rs"
      by (subst complete_records_append) auto
    then show ?thesis using f False by (intro exI [of _ r] exI [of _ "min (k - 8 - length (encode_log rs)) j"]) (simp add: min_def)
  qed
  then obtain r' j' where e: "record_ok r'" "j' < length (encode_rec r')"
    "take k (w_file w) = magic @ encode_log (take (complete_records (k - 8) rs) rs) @ take j' (encode_rec r')" by blast
  have "\<forall>r \<in> set (take (complete_records (k - 8) rs) rs). record_ok r" using ok by (meson in_set_takeD)
  from recover_log [OF env this e] show ?thesis .
qed

lemma wal_open_fresh:
  assumes "wal_open env k sync replay None st = (Inr w, path, st')"
  shows "log_inv w [] \<and> \<not> w_failed w \<and> \<not> w_dirty w \<and> w_sync w = sync \<and> \<not> w_defer w \<and> st' = st
       \<and> (sync \<noteq> NoSync \<longrightarrow> w_durable w = 8)"
proof -
  have "recover env (k + 4) replay (Some []) st = (if io_ok env (k + 4) then (Inr 0, Some [], st) else (Inl FilesystemError, Some [], st))"
    by (simp add: recover_def)
  then show ?thesis
    using assms flush_locked_cases
    by (auto simp: wal_open_def Let_def log_inv_def encode_log_def split: if_splits prod.splits sum.splits)
      (force)+
qed

lemma append_synced:
  assumes "append env opc args w = (Inr u, w')"
  shows "w_sync w' = w_sync w \<and> w_defer w' = w_defer w \<and> (w_dirty w' \<or> w_durable w' = length (w_file w'))"
proof (cases "w_sync w = Always \<and> \<not> w_defer w")
  case True
  then obtain w2 where "flush_locked env w2 = (Inr u, w')" "w_sync w2 = w_sync w" "w_defer w2 = w_defer w" "w_dirty w2"
    using assms by (auto simp: append_def Let_def write_failure_def split: if_splits option.splits)
  then show ?thesis using flush_locked_cases [of env w2 "Inr u" w'] True by simp
next
  case False
  then show ?thesis
    using assms by (auto simp: append_def Let_def write_failure_def split: if_splits option.splits)
qed

lemma append_all_synced:
  assumes "append_all env new w = (Inr u, w')" "w_dirty w \<or> w_durable w = length (w_file w)"
  shows "w_sync w' = w_sync w \<and> w_defer w' = w_defer w \<and> (w_dirty w' \<or> w_durable w' = length (w_file w'))"
  using assms
proof (induction new arbitrary: w)
  case Nil
  then show ?case by simp
next
  case (Cons x new)
  obtain v w1 where a: "append env (fst x) (snd x) w = (Inr v, w1)"
    using Cons.prems(1) by (auto split: prod.splits sum.splits)
  then have "append_all env new w1 = (Inr u, w')" using Cons.prems(1) by simp
  then show ?case using Cons.IH [of w1] append_synced [OF a] by simp
qed

lemma flush_locked_synced:
  assumes "flush_locked env w = (Inr u, w')" "w_dirty w \<or> w_durable w = length (w_file w)" "w_sync w \<noteq> NoSync"
  shows "w_durable w' = length (w_file w') \<and> w_sync w' = w_sync w"
  using flush_locked_cases [OF assms(1)] assms(2,3) by auto

lemma write_replacement_log:
  assumes run: "write_replacement env k (append_all env new) = Inr r"
  shows "w_file r = magic @ encode_log new \<and> w_total r = length (w_file r) \<and> w_durable r = length (w_file r)
       \<and> (\<forall>x \<in> set new. record_ok x)"
proof -
  obtain r0 p0 st0 where o: "wal_open env k Always no_replay None () = (Inr r0, p0, st0)"
    using run by (auto simp: write_replacement_def split: prod.splits sum.splits)
  note i0 = wal_open_fresh [OF o]
  obtain r1 where a: "append_all env new (begin_batch r0) = (Inr (), r1)"
    using run o by (auto simp: write_replacement_def split: prod.splits sum.splits)
  have b: "log_inv (begin_batch r0) []" "w_durable (begin_batch r0) = length (w_file (begin_batch r0))"
    "w_sync (begin_batch r0) = Always"
    using i0 by (simp_all add: begin_batch_def log_inv_def encode_log_def)
  note i1 = wal_log.log_all_holds [OF b(1) a, simplified] and s1 = append_all_synced [OF a disjI2 [OF b(2)]]
  have nf: "\<not> w_failed r1" using i1 a i0 by (cases "new = []") (auto simp: begin_batch_def)
  obtain r2 where e: "end_batch env r1 = (Inr (), r2)"
    using run o a by (auto simp: write_replacement_def split: prod.splits sum.splits)
  obtain r3 where fl: "flush_locked env r2 = (Inr (), r3)" "r = wal_close env r3"
    using run o a e by (auto simp: write_replacement_def split: prod.splits sum.splits)
  have e': "flush_locked env (r1\<lparr>w_defer := False\<rparr>) = (Inr (), r2)"
    using e s1 b(3) by (simp add: end_batch_def Let_def split: if_splits)
  have f1: "w_file r1 = magic @ encode_log new" "w_total r1 = length (w_file r1)" "\<forall>x \<in> set new. record_ok x"
    using i1 nf by (simp_all add: log_inv_def)
  have s2: "w_durable r2 = length (w_file r2)" "w_sync r2 = Always" "w_file r2 = w_file r1" "w_total r2 = w_total r1"
    using flush_locked_synced [OF e'] flush_locked_cases [OF e'] s1 b(3) by simp_all
  have s3: "w_durable r3 = length (w_file r3)" "w_file r3 = w_file r1" "w_total r3 = w_total r1" "\<not> w_dirty r3" "\<not> w_failed r3"
    using flush_locked_synced [OF fl(1)] flush_locked_cases [OF fl(1)] s2 by simp_all
  have "r = r3" using fl(2) s3 by (simp add: wal_close_def flush_locked_def)
  then show ?thesis using s3 f1 by simp
qed

lemma compact_cases:
  assumes run: "compact env (append_all env new) w = (x, w')"
  shows "case x of
      Inl _ \<Rightarrow> w_failed w' \<or> w_file w' = w_file w \<and> w_durable w' = w_durable w
    | Inr _ \<Rightarrow> \<not> w_failed w' \<and> w_file w' = magic @ encode_log new \<and> w_total w' = length (w_file w')
        \<and> w_durable w' = length (w_file w') \<and> (\<forall>r \<in> set new. record_ok r)"
proof (cases x)
  case (Inl e)
  then show ?thesis
    using run flush_locked_cases
    by (auto simp: compact_def switch_to_def Let_def split: if_splits prod.splits sum.splits) (force)+
next
  case (Inr u)
  then obtain r w1 where r: "write_replacement env (w_io w + 1) (append_all env new) = Inr r"
    and f: "flush_locked env (w\<lparr>w_io := w_io r + 3\<rparr>) = (Inr (), w1)" and s: "switch_to env (w_io w1) r w1 = (Inr u, w')"
    using run by (auto simp: compact_def split: if_splits prod.splits sum.splits)
  show ?thesis
    using write_replacement_log [OF r] flush_locked_cases [OF f] s Inr
    by (auto simp: switch_to_def Let_def split: if_splits)
qed

text \<open>A refused compaction leaves the old file or the complete replacement.\<close>

lemma switch_to_file:
  assumes "switch_to env k r w = (Inl x, w')"
  shows "w_failed w' \<and> (w_file w' = w_file w \<and> w_durable w' = w_durable w
    \<or> w_file w' = w_file r \<and> w_durable w' \<in> {0, w_durable r})"
  using assms by (auto simp: switch_to_def Let_def split: if_splits)

lemma compact_file:
  assumes run: "compact env (append_all env new) w = (Inl x, w')"
  shows "w_file w' = w_file w \<and> w_durable w' \<in> {w_durable w, length (w_file w)}
    \<or> w_failed w' \<and> log_inv w' new \<and> w_file w' = magic @ encode_log new"
proof -
  consider "w' = w" | j y where "flush_locked env (w\<lparr>w_io := j\<rparr>) = (Inl y, w')"
    | r w1 u where "write_replacement env (w_io w + 1) (append_all env new) = Inr r"
        "flush_locked env (w\<lparr>w_io := w_io r + 3\<rparr>) = (Inr u, w1)" "switch_to env (w_io w1) r w1 = (Inl x, w')"
    using run by (auto simp: compact_def split: if_splits prod.splits sum.splits)
  then show ?thesis
  proof cases
    case 2
    then show ?thesis using flush_locked_cases by fastforce
  next
    case 3
    note nl = write_replacement_log [OF 3(1)]
    have f: "w_file w1 = w_file w" "w_durable w1 \<in> {w_durable w, length (w_file w)}" using flush_locked_cases [OF 3(2)] by auto
    have "log_inv w' new" if "w_failed w'" "w_file w' = w_file r" "w_durable w' \<in> {0, w_durable r}"
      unfolding log_inv_def using that nl empty_record
      by (auto intro!: exI [of _ "0 :: byte"] exI [of _ "[] :: bytes list"] exI [of _ "0 :: nat"])
    then show ?thesis using switch_to_file [OF 3(3)] f nl by metis
  qed simp
qed

lemma sample_inv: "log_inv sample_wal (take 1 sample_log @ drop 1 sample_log)"
  by (simp add: log_inv_def sample_wal_def sample_log_def record_ok_def encode_payload_def max_record_def encode_log_def)

lemma replay_collect: "replay_all collect rs st = (Inr (), st @ rs)"
  by (induction rs arbitrary: st) (auto simp: collect_def)

lemma log_inv_defer [simp]: "log_inv (w\<lparr>w_defer := d\<rparr>) rs = log_inv w rs"
  unfolding log_inv_def by simp

lemma recover_loop_checksum:
  assumes "2 \<le> length p" "length p \<le> max_record" "length q = length p" "crc q \<noteq> crc p"
  shows "recover_loop None replay (pre @ put32 (of_nat (length p)) @ put32 (crc p) @ q @ rest) (length pre) st
     = (Inl (Error disk_read_failed), st)"
proof -
  let ?h = "put32 (of_nat (length p)) @ put32 (crc p)"
  let ?file = "pre @ put32 (of_nat (length p)) @ put32 (crc p) @ q @ rest"
  have n: "unat (of_nat (length p) :: u32) = length p" using assms(2) by (simp add: max_record_32)
  have r1: "read_at None ?file (length pre) 8 = (?h, False)" by simp
  have r2: "fst (read_at None ?file (length pre + 8) (length p)) = q" using assms(3) by simp
  then obtain e2 where r2': "read_at None ?file (length pre + 8) (length p) = (q, e2)" by (metis prod.collapse)
  have g: "get32 ?h = of_nat (length p)" "get32 (drop 4 ?h) = crc p" "length ?h = 8"
    using get32_put32 [of "crc p" "[]"] by simp_all
  show ?thesis
    unfolding recover_loop.simps [of None replay ?file "length pre"] r1
    using assms g r2' by (simp add: n Let_def del: read_at_None)
qed

lemma crc_update: "i < length p \<Longrightarrow> y \<noteq> p ! i \<Longrightarrow> crc (p[i := y]) \<noteq> crc p"
  using crc_change [of y "p ! i" "take i p" "drop (Suc i) p"]
  by (simp add: upd_conv_take_nth_drop id_take_nth_drop [symmetric])

lemma corrupt_record:
  assumes ok: "record_ok r" and i: "i < length (encode_payload (fst r) (snd r))" "y \<noteq> encode_payload (fst r) (snd r) ! i"
  shows "recover_loop None replay (pre @ (encode_rec r)[8 + i := y] @ rest) (length pre) st
     = (Inl (Error disk_read_failed), st)"
proof -
  let ?p = "encode_payload (fst r) (snd r)"
  have e: "(encode_rec r)[8 + i := y] = put32 (of_nat (length ?p)) @ put32 (crc ?p) @ ?p[i := y]"
    by (simp add: encode_rec_shape list_update_append)
  have "2 \<le> length ?p" "length ?p \<le> max_record" using ok by (simp_all add: record_ok_def payload_shape)
  then show ?thesis
    unfolding e append_assoc using crc_update [OF i] by (intro recover_loop_checksum) auto
qed

lemma recover_loop_through:
  assumes "\<forall>r \<in> set rs. record_ok r"
    and "\<And>st. recover_loop None replay (pre @ encode_log rs @ rest) (length pre + length (encode_log rs)) st = f st"
  shows "recover_loop None replay (pre @ encode_log rs @ rest) (length pre) st =
     (case replay_all replay rs st of (Inl e, st1) \<Rightarrow> (Inl e, st1) | (Inr _, st1) \<Rightarrow> f st1)"
  using assms
proof (induction rs arbitrary: pre st)
  case Nil
  then show ?case by (simp add: encode_log_def)
next
  case (Cons x xs)
  have e: "pre @ encode_log (x # xs) @ rest = pre @ encode_rec x @ encode_log xs @ rest" by (simp add: encode_log_def)
  have "recover_loop None replay ((pre @ encode_rec x) @ encode_log xs @ rest) (length (pre @ encode_rec x)) s1 =
     (case replay_all replay xs s1 of (Inl e, st1) \<Rightarrow> (Inl e, st1) | (Inr _, st1) \<Rightarrow> f st1)" for s1
    using Cons.prems by (intro Cons.IH) (simp_all add: encode_log_def add.assoc)
  then show ?case
    unfolding e using recover_loop_record [of x replay pre "encode_log xs @ rest" st] Cons.prems(1)
    by (auto split: prod.splits sum.splits)
qed

section \<open>Properties\<close>

text \<open>
  C12. After a crash that leaves any part of the file keeping its durable bytes, recovery replays
  all durable records and then a prefix of the others, in the order they were appended, and cuts
  the file back to exactly the records it replayed.
\<close>

theorem wal_crash_recovery:
  assumes "log_inv w (ds @ us)" "length (magic @ encode_log ds) \<le> w_durable w"
    and "w_durable w \<le> k" "k \<le> length (w_file w)"
    and "io_ok env m" "io_bad env (m + 1) = None" "io_ok env (m + 2)"
  shows "\<exists>n \<le> length us. recover env m replay (Some (take k (w_file w))) st =
     (case replay_all replay (ds @ take n us) st of
        (Inl e, st1) \<Rightarrow> (Inl e, Some (take k (w_file w)), st1)
      | (Inr _, st1) \<Rightarrow> (Inr (length (magic @ encode_log (ds @ take n us))),
          Some (magic @ encode_log (ds @ take n us)), st1))"
proof -
  have k: "8 \<le> k" "length (encode_log ds) \<le> k - 8" using assms(2,3) by simp_all
  let ?n = "complete_records (k - 8 - length (encode_log ds)) us"
  have "take (complete_records (k - 8) (ds @ us)) (ds @ us) = ds @ take ?n us"
    using complete_records_append [OF k(2), of us] by simp
  note t = this
  show ?thesis
    using crash_recover [OF assms(1) k(1) assms(4-7), of replay st]
    by (intro exI [of _ ?n] conjI complete_records_le) (simp only: t length_append length_magic)
qed

theorem wal_crash_recovery_witness:
  "\<exists>n \<le> 1. recover calm 0 collect (Some (take 30 (w_file sample_wal))) []
     = (Inr (length (magic @ encode_log (take 1 sample_log @ take n (drop 1 sample_log)))),
        Some (magic @ encode_log (take 1 sample_log @ take n (drop 1 sample_log))),
        take 1 sample_log @ take n (drop 1 sample_log))"
proof -
  have "length (magic @ encode_log (take 1 sample_log)) \<le> w_durable sample_wal" "w_durable sample_wal \<le> 30"
    "30 \<le> length (w_file sample_wal)" "length (drop 1 sample_log) = 1"
    by (simp_all add: sample_wal_def sample_log_def encode_log_def length_encode_rec encode_payload_def)
  then show ?thesis
    using wal_crash_recovery [OF sample_inv, of 30 calm 0 collect "[]"]
    by (simp only: replay_collect prod.case sum.case append_Nil) (simp add: calm_def)
qed

text \<open>
  C20. Every branch of \<^verbatim>\<open>append\<close>: an acknowledged record is the last record of the log and, with
  syncing on every write outside a batch, durable; a record too large is refused and changes
  nothing; every other failure marks the log as failed, for good.
\<close>

theorem wal_append_contract:
  assumes "log_inv w rs" "append env opc args w = (r, w')"
  shows "(\<forall>u. r = Inr u \<longrightarrow> log_inv w' (rs @ [(opc, args)]) \<and> \<not> w_failed w'
             \<and> (w_sync w = Always \<and> \<not> w_defer w \<longrightarrow> w_durable w' = length (w_file w')))
       \<and> (r = Inl (Error request_too_large) \<longrightarrow> w' = w \<and> \<not> record_ok (opc, args))
       \<and> (\<forall>e. r = Inl e \<and> e \<noteq> Error request_too_large \<longrightarrow> e = Error disk_write_failed \<and> w_failed w'
             \<and> (log_inv w' rs \<or> log_inv w' (rs @ [(opc, args)])))"
  using append_inv [OF assms] append_cases [OF assms(2)] by (cases r) (auto split: if_splits)

theorem wal_append_contract_witness:
  "log_inv (snd (append calm 9 [[107]] sample_wal)) (sample_log @ [(9, [[107]])])"
proof -
  have "log_inv sample_wal sample_log" using sample_inv by simp
  moreover have "fst (append calm 9 [[107]] sample_wal) = Inr ()"
    by (simp add: append_def sample_wal_def calm_def max_record_def Let_def flush_locked_def encode_record_def encode_payload_def)
  ultimately show ?thesis
    using wal_append_contract [of sample_wal sample_log calm 9 "[[107]]" _ "snd (append calm 9 [[107]] sample_wal)"]
    by (metis prod.collapse)
qed

text \<open>
  C21. When a batch of appends and its end are acknowledged, every record of the batch is in the log.
  With syncing on every write the whole file is then durable; with periodic syncing it becomes
  durable with the next flush that is acknowledged.
\<close>

theorem wal_batch_durable:
  assumes "log_inv w rs" "append_all env new (begin_batch w) = (Inr u, w1)" "end_batch env w1 = (Inr v, w2)" "new \<noteq> []"
  shows "log_inv w2 (rs @ new) \<and> \<not> w_defer w2 \<and> (w_sync w = Always \<longrightarrow> w_durable w2 = length (w_file w2))
    \<and> (\<forall>env' w3. flush_locked env' w2 = (Inr (), w3) \<and> w_sync w \<noteq> NoSync \<longrightarrow>
         log_inv w3 (rs @ new) \<and> w_durable w3 = length (w_file w3))"
proof -
  have "log_inv (begin_batch w) rs" using assms(1) by (simp add: begin_batch_def)
  from wal_log.log_all_holds [OF this assms(2)] assms(4)
  have i1: "log_inv w1 (rs @ new)" "\<not> w_failed w1" by simp_all
  obtain r rest where "new = r # rest" using assms(4) by (cases new) auto
  then obtain wa where "append_rec env r (begin_batch w) = (Inr (), wa)" "append_all env rest wa = (Inr u, w1)"
    using assms(2) by (auto split: prod.splits sum.splits)
  then have s1: "w_sync w1 = w_sync w" "w_dirty w1 \<or> w_durable w1 = length (w_file w1)"
    using append_synced append_all_synced by (fastforce simp: begin_batch_def)+
  let ?w = "w1\<lparr>w_defer := False\<rparr>"
  have i: "log_inv ?w (rs @ new)" using i1 by simp
  have i2: "log_inv w2 (rs @ new) \<and> \<not> w_defer w2 \<and> (w_sync w = Always \<longrightarrow> w_durable w2 = length (w_file w2))
    \<and> w_sync w2 = w_sync w \<and> (w_dirty w2 \<or> w_durable w2 = length (w_file w2))"
  proof (cases "w_sync w = Always")
    case True
    then have f: "flush_locked env ?w = (Inr v, w2)" using assms(3) s1 by (simp add: end_batch_def Let_def)
    show ?thesis using flush_locked_inv [OF i f] flush_locked_cases [OF f] flush_locked_synced [OF f] s1 True by simp
  next
    case False
    then show ?thesis using assms(3) s1 i by (auto simp: end_batch_def Let_def)
  qed
  moreover have "log_inv w3 (rs @ new) \<and> w_durable w3 = length (w_file w3)"
    if "flush_locked env' w2 = (Inr (), w3)" "w_sync w \<noteq> NoSync" for env' w3
    using flush_locked_inv [OF _ that(1)] flush_locked_synced [OF that(1)] i2 that(2) by simp
  ultimately show ?thesis by blast
qed

theorem wal_batch_durable_witness:
  "fst (end_batch calm (snd (append_all calm [(9, [[107]])] (begin_batch sample_wal)))) = Inr ()
   \<and> log_inv (snd (end_batch calm (snd (append_all calm [(9, [[107]])] (begin_batch sample_wal)))))
       (sample_log @ [(9, [[107]])])"
proof -
  have i: "log_inv sample_wal sample_log" using sample_inv by simp
  have a: "append_all calm [(9, [[107]])] (begin_batch sample_wal)
      = (Inr (), snd (append_all calm [(9, [[107]])] (begin_batch sample_wal)))"
    by (simp add: append_def begin_batch_def sample_wal_def calm_def max_record_def Let_def encode_record_def encode_payload_def)
  have e: "end_batch calm (snd (append_all calm [(9, [[107]])] (begin_batch sample_wal)))
      = (Inr (), snd (end_batch calm (snd (append_all calm [(9, [[107]])] (begin_batch sample_wal)))))"
    by (simp add: append_def begin_batch_def end_batch_def flush_locked_def sample_wal_def calm_def max_record_def Let_def
        encode_record_def encode_payload_def)
  show ?thesis
  proof
    show "fst (end_batch calm (snd (append_all calm [(9, [[107]])] (begin_batch sample_wal)))) = Inr ()"
      by (subst e) (rule fst_conv)
    show "log_inv (snd (end_batch calm (snd (append_all calm [(9, [[107]])] (begin_batch sample_wal)))))
       (sample_log @ [(9, [[107]])])"
      by (rule conjunct1 [OF wal_batch_durable [OF i a e]]) simp
  qed
qed

text \<open>
  C27. A changed byte in the payload of a record is always detected: recovery replays the records
  before it, fails with \<^verbatim>\<open>disk_read_failed\<close> and leaves the file as it is.
\<close>

theorem wal_corruption_detected:
  assumes "\<forall>r \<in> set ds. record_ok r" "record_ok r"
    and "i < length (encode_payload (fst r) (snd r))" "y \<noteq> encode_payload (fst r) (snd r) ! i"
    and "io_ok env m" "io_bad env (m + 1) = None"
    and "file = magic @ encode_log ds @ (encode_rec r)[8 + i := y] @ rest"
  shows "recover env m replay (Some file) st =
     (case replay_all replay ds st of
        (Inl e, st1) \<Rightarrow> (Inl e, Some file, st1)
      | (Inr _, st1) \<Rightarrow> (Inl (Error disk_read_failed), Some file, st1))"
proof -
  have "recover_loop None replay file (length magic) st =
     (case replay_all replay ds st of (Inl e, st1) \<Rightarrow> (Inl e, st1) | (Inr _, st1) \<Rightarrow> (Inl (Error disk_read_failed), st1))"
    unfolding assms(7)
    using recover_loop_through [OF assms(1), of replay magic "(encode_rec r)[8 + i := y] @ rest"
        "\<lambda>st1. (Inl (Error disk_read_failed), st1)" st]
      corrupt_record [OF assms(2-4), of replay "magic @ encode_log ds" rest] by simp
  moreover have "file \<noteq> []" "fst (read_at None file 0 8) = magic" using assms(7) by (simp_all add: magic_def str_def)
  ultimately show ?thesis
    using assms(5,6) by (simp add: recover_def Let_def del: read_at_None split: prod.splits sum.splits)
qed

theorem wal_corruption_detected_witness:
  "recover calm 0 collect (Some (magic @ encode_log [(9, [[107]])] @ (encode_rec (0, [[107], [118]]))[8 + 6 := 108])) []
     = (Inl (Error disk_read_failed),
        Some (magic @ encode_log [(9, [[107]])] @ (encode_rec (0, [[107], [118]]))[8 + 6 := 108]), [(9, [[107]])])"
proof -
  have "\<forall>r \<in> set [(9, [[107]]) :: log_record]. record_ok r" "record_ok (0, [[107], [118]])"
    "6 < length (encode_payload 0 [[107], [118]])" "108 \<noteq> encode_payload 0 [[107], [118]] ! 6"
    by (simp_all add: record_ok_def encode_payload_def max_record_def put32_def upt4)
  then show ?thesis
    using wal_corruption_detected [of "[(9, [[107]])]" "(0, [[107], [118]])" 6 108 calm 0 _ "[]" collect "[]"]
    by (simp only: replay_collect prod.case sum.case append_Nil append_Nil2 fst_conv snd_conv) (simp add: calm_def)
qed

text \<open>
  C28. The table-driven checksum is the bit-by-bit CRC-32 with the reflected polynomial \<^verbatim>\<open>0xedb88320\<close>.
\<close>

theorem crc_table_driven:
  "crc bs = NOT (foldl (\<lambda>c ch. (crc_bit ^^ 8) (c XOR ucast ch)) (NOT 0) bs)"
  by (simp add: crc_def crc_byte_bitwise [abs_def])

text \<open>
  C29. Compaction is all or nothing: acknowledged, the log consists of exactly the records the
  writer appended to the replacement, all of them durable; refused, the file is the old log,
  byte for byte and with no byte less durable, or the complete replacement, and where anything at
  all was changed on the way the log is marked as failed, so that nothing more is appended to it.
\<close>

theorem wal_compact_atomic:
  "case compact env (append_all env new) w of
     (Inl _, w') \<Rightarrow>
       (w_failed w' \<or> w_file w' = w_file w \<and> w_durable w' = w_durable w)
       \<and> (w_file w' = w_file w \<and> w_durable w' \<in> {w_durable w, length (w_file w)}
          \<or> w_failed w' \<and> log_inv w' new \<and> w_file w' = magic @ encode_log new)
   | (Inr _, w') \<Rightarrow> log_inv w' new \<and> \<not> w_failed w' \<and> w_durable w' = length (w_file w')"
proof -
  obtain x w' where r: "compact env (append_all env new) w = (x, w')" by (rule prod.exhaust)
  show ?thesis using compact_cases [OF r] compact_file [of env new w _ w'] r by (cases x) (auto simp: log_inv_def)
qed

end
