(* ===== verification/Resp.thy ===== *)
theory Resp
  imports Errors
begin

text \<open>
  The wire protocol (\<^verbatim>\<open>src/resp.hpp\<close>, \<^verbatim>\<open>src/resp.cpp\<close>): numbers in decimal, the reply writers with
  their size limit, the classification of command names, the argument list with its inline
  storage, and the two request parsers, the general one and the fast path in front of it.
  Views into the input are the bytes they show.
\<close>

section \<open>Definitions\<close>

definition CRLF :: bytes where
  "CRLF = [13, 10]"

subsection \<open>Numbers\<close>

text \<open>\<^verbatim>\<open>std::to_chars\<close> in base ten.\<close>

fun decimal_nat :: "nat \<Rightarrow> bytes" where
  "decimal_nat n = (if n < 10 then [of_nat (48 + n)] else decimal_nat (n div 10) @ [of_nat (48 + n mod 10)])"

declare decimal_nat.simps [simp del]

definition decimal :: "int \<Rightarrow> bytes" where
  "decimal i = (if i < 0 then 45 # decimal_nat (nat (- i)) else decimal_nat (nat i))"

text \<open>The value of a digit, in unsigned arithmetic: anything but a digit is more than nine.\<close>

definition digit :: "byte \<Rightarrow> nat" where
  "digit b = unat (ucast b - 48 :: u32)"

definition digits_value :: "bytes \<Rightarrow> nat" where
  "digits_value ds = foldl (\<lambda>v b. v * 10 + digit b) 0 ds"

text \<open>
  \<^verbatim>\<open>std::from_chars\<close> on the whole text: no result when there is no digit, when other characters
  follow or when the value does not fit. A sign is taken for signed types only.
\<close>

definition from_chars_u64 :: "bytes \<Rightarrow> nat option" where
  "from_chars_u64 text =
     (if text \<noteq> [] \<and> (\<forall>b \<in> set text. digit b \<le> 9) \<and> digits_value text < 2 ^ 64
      then Some (digits_value text) else None)"

definition from_chars_i64 :: "bytes \<Rightarrow> int64 option" where
  "from_chars_i64 text =
     (let negative = (text \<noteq> [] \<and> hd text = 45);
          ds = (if negative then tl text else text);
          v = (if negative then - int (digits_value ds) else int (digits_value ds))
      in if ds \<noteq> [] \<and> (\<forall>b \<in> set ds. digit b \<le> 9) \<and> - (2 ^ 63) \<le> v \<and> v < 2 ^ 63
         then Some (word_of_int v) else None)"

subsection \<open>Replies\<close>

definition max_reply_bytes :: nat where
  "max_reply_bytes = 1024 * 1024"

definition require_reply_space :: "bytes \<Rightarrow> nat \<Rightarrow> exn + unit" where
  "require_reply_space output n =
     (if max_reply_bytes < n \<or> max_reply_bytes - n < length output then Inl (Error request_too_large) else Inr ())"

text \<open>A writer appends to the output or raises, and then leaves the output as it was.\<close>

definition append_guarded :: "nat \<Rightarrow> bytes \<Rightarrow> bytes \<Rightarrow> exn + bytes" where
  "append_guarded n text output =
     (case require_reply_space output n of Inl e \<Rightarrow> Inl e | Inr _ \<Rightarrow> Inr (output @ text))"

definition append_simple_string :: "bytes \<Rightarrow> bytes \<Rightarrow> exn + bytes" where
  "append_simple_string text output = append_guarded (length text + 3) (str ''+'' @ text @ CRLF) output"

definition append_error :: "bytes \<Rightarrow> bytes \<Rightarrow> exn + bytes" where
  "append_error text output = append_guarded (length text + 3) (str ''-'' @ text @ CRLF) output"

definition append_integer :: "int \<Rightarrow> bytes \<Rightarrow> exn + bytes" where
  "append_integer v output = append_guarded 24 (str '':'' @ decimal v @ CRLF) output"

definition append_array_header :: "int \<Rightarrow> bytes \<Rightarrow> exn + bytes" where
  "append_array_header count output = append_guarded 24 (str ''*'' @ decimal count @ CRLF) output"

definition append_null :: "bytes \<Rightarrow> exn + bytes" where
  "append_null output = append_guarded 5 (str ''$-1'' @ CRLF) output"

definition append_bulk_view :: "bytes \<Rightarrow> bytes \<Rightarrow> exn + bytes" where
  "append_bulk_view text output =
     (if max_reply_bytes - 32 < length text then Inl (Error request_too_large)
      else
        let header = str ''$'' @ decimal_nat (length text) @ CRLF
        in append_guarded (length text + 32) (header @ text @ CRLF) output)"

text \<open>
  \<^verbatim>\<open>append_bulk_string\<close> copies a text that lies inside the output before appending it; on values
  both branches append the same bytes.
\<close>

definition append_bulk_string :: "bytes \<Rightarrow> bytes \<Rightarrow> exn + bytes" where
  "append_bulk_string text output = append_bulk_view text output"

definition append_wrong_arguments :: "bytes \<Rightarrow> bytes \<Rightarrow> exn + bytes" where
  "append_wrong_arguments name output =
     append_error (str (error_message wrong_argument_count) @ str '' '' @ [39] @ name @ [39] @ str '' command'') output"

subsection \<open>Command names\<close>

datatype command_id =
    c_unknown | c_ping | c_info | c_get | c_set | c_increment | c_list_push_left | c_list_push_right
  | c_list_pop_left | c_list_pop_right | c_list_length | c_hash_set | c_hash_get | c_hash_del
  | c_hash_length | c_expire | c_ttl | c_del

record command_info =
  cid :: command_id
  is_write :: bool

definition fold_byte :: "byte \<Rightarrow> nat \<Rightarrow> u64" where
  "fold_byte b i = push_bit (i * 8) (ucast b OR 0x20)"

text \<open>The tag of a literal, computed at compile time.\<close>

definition tag_of_literal :: "bytes \<Rightarrow> u64" where
  "tag_of_literal text =
     (let len = min (length text) 8
      in foldl (\<lambda>tag i. tag OR fold_byte (text ! i) i) 0 [0..<len] OR push_bit 56 (of_nat len))"

text \<open>The tag of a received name: three and four byte names are loaded as one integer.\<close>

definition tag_of :: "bytes \<Rightarrow> u64" where
  "tag_of name =
     (if length name = 3 then
        (le_decode (take 2 name) OR push_bit 16 (ucast (name ! 2)) OR 0x202020) OR push_bit 56 3
      else if length name = 4 then
        (le_decode (take 4 name) OR 0x20202020) OR push_bit 56 4
      else
        let len = (if length name < 8 then length name else 8)
        in foldl (\<lambda>tag i. tag OR fold_byte (name ! i) i) 0 [0..<len]
             OR push_bit 56 (of_nat (length name mod 256)))"

definition classify_command :: "bytes \<Rightarrow> command_info" where
  "classify_command name =
     (if length name = 3 then
        let folded = (ucast (name ! 0) OR 0x20) OR push_bit 8 (ucast (name ! 1) OR 0x20)
                       OR push_bit 16 (ucast (name ! 2) OR 0x20) :: u32
        in if folded = ucast (tag_of_literal (str ''get'')) then \<lparr>cid = c_get, is_write = False\<rparr>
           else if folded = ucast (tag_of_literal (str ''set'')) then \<lparr>cid = c_set, is_write = True\<rparr>
           else if folded = ucast (tag_of_literal (str ''del'')) then \<lparr>cid = c_del, is_write = True\<rparr>
           else if folded = ucast (tag_of_literal (str ''ttl'')) then \<lparr>cid = c_ttl, is_write = False\<rparr>
           else \<lparr>cid = c_unknown, is_write = True\<rparr>
      else
        let tag = tag_of name
        in if tag = tag_of_literal (str ''ping'') then \<lparr>cid = c_ping, is_write = False\<rparr>
           else if tag = tag_of_literal (str ''info'') then \<lparr>cid = c_info, is_write = False\<rparr>
           else if tag = tag_of_literal (str ''get'') then \<lparr>cid = c_get, is_write = False\<rparr>
           else if tag = tag_of_literal (str ''set'') then \<lparr>cid = c_set, is_write = True\<rparr>
           else if tag = tag_of_literal (str ''incr'') then \<lparr>cid = c_increment, is_write = True\<rparr>
           else if tag = tag_of_literal (str ''lpush'') then \<lparr>cid = c_list_push_left, is_write = True\<rparr>
           else if tag = tag_of_literal (str ''rpush'') then \<lparr>cid = c_list_push_right, is_write = True\<rparr>
           else if tag = tag_of_literal (str ''lpop'') then \<lparr>cid = c_list_pop_left, is_write = True\<rparr>
           else if tag = tag_of_literal (str ''rpop'') then \<lparr>cid = c_list_pop_right, is_write = True\<rparr>
           else if tag = tag_of_literal (str ''llen'') then \<lparr>cid = c_list_length, is_write = False\<rparr>
           else if tag = tag_of_literal (str ''hset'') then \<lparr>cid = c_hash_set, is_write = True\<rparr>
           else if tag = tag_of_literal (str ''hget'') then \<lparr>cid = c_hash_get, is_write = False\<rparr>
           else if tag = tag_of_literal (str ''hdel'') then \<lparr>cid = c_hash_del, is_write = True\<rparr>
           else if tag = tag_of_literal (str ''hlen'') then \<lparr>cid = c_hash_length, is_write = False\<rparr>
           else if tag = tag_of_literal (str ''expire'') then \<lparr>cid = c_expire, is_write = True\<rparr>
           else if tag = tag_of_literal (str ''ttl'') then \<lparr>cid = c_ttl, is_write = False\<rparr>
           else if tag = tag_of_literal (str ''del'') then \<lparr>cid = c_del, is_write = True\<rparr>
           else \<lparr>cid = c_unknown, is_write = True\<rparr>)"

subsection \<open>The argument list\<close>

definition inline_capacity :: nat where
  "inline_capacity = 8"

record argument_list =
  al_size :: nat
  al_inline :: "bytes list"
  al_overflow :: "bytes list"

definition al_new :: argument_list where
  "al_new = \<lparr>al_size = 0, al_inline = replicate inline_capacity [], al_overflow = []\<rparr>"

definition al_clear :: "argument_list \<Rightarrow> argument_list" where
  "al_clear a = a\<lparr>al_size := 0, al_overflow := []\<rparr>"

definition al_push_back :: "bytes \<Rightarrow> argument_list \<Rightarrow> argument_list" where
  "al_push_back v a =
     (if al_size a < inline_capacity then
        a\<lparr>al_inline := (al_inline a)[al_size a := v], al_size := al_size a + 1\<rparr>
      else
        let a1 = (if al_size a = inline_capacity then a\<lparr>al_overflow := take inline_capacity (al_inline a)\<rparr> else a)
        in a1\<lparr>al_overflow := al_overflow a1 @ [v], al_size := al_size a1 + 1\<rparr>)"

definition al_data :: "argument_list \<Rightarrow> bytes list" where
  "al_data a = (if al_size a \<le> inline_capacity then al_inline a else al_overflow a)"

definition al_items :: "argument_list \<Rightarrow> bytes list" where
  "al_items a = take (al_size a) (al_data a)"

subsection \<open>Requests\<close>

record command =
  cmd_name :: bytes
  cmd_arguments :: "bytes list"
  bytes_consumed :: nat

definition parse_number :: "bytes \<Rightarrow> error_code \<Rightarrow> nat result" where
  "parse_number text code = (case from_chars_u64 text of None \<Rightarrow> Inl code | Some v \<Rightarrow> Inr v)"

text \<open>\<^verbatim>\<open>input.find("\r\n", pos)\<close>, relative to \<open>pos\<close>.\<close>

fun find_crlf :: "bytes \<Rightarrow> nat option" where
  "find_crlf (a # b # rest) = (if a = 13 \<and> b = 10 then Some 0 else map_option Suc (find_crlf (b # rest)))"
| "find_crlf _ = None"

definition readline :: "bytes \<Rightarrow> nat \<Rightarrow> (bytes \<times> nat) result" where
  "readline input pos =
     (case find_crlf (drop pos input) of
        None \<Rightarrow> Inl missing_crlf
      | Some n \<Rightarrow> Inr (take n (drop pos input), pos + n + 2))"

fun slow_strings :: "bytes \<Rightarrow> nat \<Rightarrow> nat \<Rightarrow> bytes list \<Rightarrow> (bytes list \<times> nat) result" where
  "slow_strings input 0 pos acc = Inr (acc, pos)"
| "slow_strings input (Suc n) pos acc =
     (if length input \<le> pos then Inl missing_bulk_string_prefix
      else if input ! pos \<noteq> 36 then Inl expected_bulk_string_prefix
      else case readline input (pos + 1) of
        Inl e \<Rightarrow> Inl e
      | Inr (line, pos1) \<Rightarrow>
          (case parse_number line invalid_bulk_string_length of
             Inl e \<Rightarrow> Inl e
           | Inr len \<Rightarrow>
               if length input < pos1 \<or> length input - pos1 < 2 \<or> length input - pos1 - 2 < len
               then Inl incomplete_bulk_string_data
               else
                 let v = take len (drop pos1 input); pos2 = pos1 + len
                 in if length input - pos2 < 2 then Inl missing_bulk_string_terminator
                    else if take 2 (drop pos2 input) \<noteq> CRLF then Inl missing_bulk_string_terminator
                    else slow_strings input n (pos2 + 2) (acc @ [v])))"

text \<open>The first string is the name, the others are the arguments.\<close>

definition make_command :: "bytes list \<Rightarrow> nat \<Rightarrow> command" where
  "make_command strings pos = \<lparr>cmd_name = hd strings, cmd_arguments = tl strings, bytes_consumed = pos\<rparr>"

definition parse_command_slow :: "bytes \<Rightarrow> command result" where
  "parse_command_slow input =
     (if input = [] then Inl empty_resp_input
      else if input ! 0 \<noteq> 42 then Inl expected_resp_array_prefix
      else case readline input 1 of
        Inl e \<Rightarrow> Inl e
      | Inr (line, pos) \<Rightarrow>
          (case parse_number line invalid_resp_array_length of
             Inl e \<Rightarrow> Inl e
           | Inr argc \<Rightarrow>
               if argc = 0 then Inl empty_resp_array
               else (case slow_strings input argc pos [] of
                       Inl e \<Rightarrow> Inl e
                     | Inr (strings, pos1) \<Rightarrow> Inr (make_command strings pos1))))"

text \<open>The digit loop of \<^verbatim>\<open>read_length\<close>, with its overflow test on 64 bits.\<close>

fun scan_digits :: "bytes \<Rightarrow> nat \<Rightarrow> (nat \<times> bytes) option" where
  "scan_digits [] v = Some (v, [])"
| "scan_digits (b # bs) v =
     (if 9 < digit b then Some (v, b # bs)
      else if (2 ^ 64 - 1 - digit b) div 10 < v then None
      else scan_digits bs (v * 10 + digit b))"

text \<open>The cursor is the rest of the input from it on; \<open>None\<close> is the result false.\<close>

definition read_length :: "bytes \<Rightarrow> (nat \<times> bytes) option" where
  "read_length cursor =
     (if length cursor < 3 then None
      else
        let first = digit (cursor ! 0)
        in if 9 < first then None
           else if cursor ! 1 = 13 \<and> cursor ! 2 = 10 then Some (first, drop 3 cursor)
           else if length cursor < 4 then None
           else
             let second = digit (cursor ! 1)
             in if 9 < second then None
                else if cursor ! 2 = 13 \<and> cursor ! 3 = 10 then Some (first * 10 + second, drop 4 cursor)
                else (case scan_digits cursor 0 of
                        None \<Rightarrow> None
                      | Some (v, position) \<Rightarrow>
                          if length position < 2 \<or> position ! 0 \<noteq> 13 \<or> position ! 1 \<noteq> 10 then None
                          else Some (v, drop 2 position)))"

fun fast_strings :: "nat \<Rightarrow> bytes \<Rightarrow> bytes list \<Rightarrow> (bytes list \<times> bytes) option" where
  "fast_strings 0 cursor acc = Some (acc, cursor)"
| "fast_strings (Suc n) cursor acc =
     (if cursor = [] \<or> hd cursor \<noteq> 36 then None
      else case read_length (tl cursor) of
        None \<Rightarrow> None
      | Some (len, c) \<Rightarrow>
          if length c < 2 \<or> length c - 2 < len then None
          else if c ! len \<noteq> 13 \<or> c ! (len + 1) \<noteq> 10 then None
          else fast_strings n (drop (len + 2) c) (acc @ [take len c]))"

definition parse_command_into :: "bytes \<Rightarrow> command result" where
  "parse_command_into input =
     (if length input < 4 \<or> input ! 0 \<noteq> 42 then parse_command_slow input
      else case read_length (drop 1 input) of
        None \<Rightarrow> parse_command_slow input
      | Some (count, cursor) \<Rightarrow>
          if count = 0 then parse_command_slow input
          else (case fast_strings count cursor [] of
                  None \<Rightarrow> parse_command_slow input
                | Some (strings, rest) \<Rightarrow> Inr (make_command strings (length input - length rest))))"

definition parse_command :: "bytes \<Rightarrow> command result" where
  "parse_command input = parse_command_into input"

text \<open>The errors after which the server waits for more bytes (\<^verbatim>\<open>src/server.cpp\<close>).\<close>

definition is_incomplete_resp_error :: "error_code \<Rightarrow> bool" where
  "is_incomplete_resp_error code \<longleftrightarrow>
     code = missing_crlf \<or> code = missing_bulk_string_prefix \<or> code = incomplete_bulk_string_data"

text \<open>A request as a client writes it.\<close>

definition encode_bulk :: "bytes \<Rightarrow> bytes" where
  "encode_bulk s = str ''$'' @ decimal_nat (length s) @ CRLF @ s @ CRLF"

definition encode_request :: "bytes list \<Rightarrow> bytes" where
  "encode_request ss = str ''*'' @ decimal_nat (length ss) @ CRLF @ concat (map encode_bulk ss)"

definition lower :: "byte \<Rightarrow> byte" where
  "lower b = (if 65 \<le> unat b \<and> unat b \<le> 90 then b + 32 else b)"

text \<open>The commands by name: what the server documents, spelled in any mix of cases.\<close>

definition command_table :: "(bytes \<times> command_info) list" where
  "command_table =
     [(str ''ping'', \<lparr>cid = c_ping, is_write = False\<rparr>), (str ''info'', \<lparr>cid = c_info, is_write = False\<rparr>),
      (str ''get'', \<lparr>cid = c_get, is_write = False\<rparr>), (str ''set'', \<lparr>cid = c_set, is_write = True\<rparr>),
      (str ''incr'', \<lparr>cid = c_increment, is_write = True\<rparr>),
      (str ''lpush'', \<lparr>cid = c_list_push_left, is_write = True\<rparr>),
      (str ''rpush'', \<lparr>cid = c_list_push_right, is_write = True\<rparr>),
      (str ''lpop'', \<lparr>cid = c_list_pop_left, is_write = True\<rparr>),
      (str ''rpop'', \<lparr>cid = c_list_pop_right, is_write = True\<rparr>),
      (str ''llen'', \<lparr>cid = c_list_length, is_write = False\<rparr>),
      (str ''hset'', \<lparr>cid = c_hash_set, is_write = True\<rparr>), (str ''hget'', \<lparr>cid = c_hash_get, is_write = False\<rparr>),
      (str ''hdel'', \<lparr>cid = c_hash_del, is_write = True\<rparr>), (str ''hlen'', \<lparr>cid = c_hash_length, is_write = False\<rparr>),
      (str ''expire'', \<lparr>cid = c_expire, is_write = True\<rparr>), (str ''ttl'', \<lparr>cid = c_ttl, is_write = False\<rparr>),
      (str ''del'', \<lparr>cid = c_del, is_write = True\<rparr>)]"

definition command_named :: "bytes \<Rightarrow> command_info" where
  "command_named name =
     (case map_of command_table (map lower name) of None \<Rightarrow> \<lparr>cid = c_unknown, is_write = True\<rparr> | Some i \<Rightarrow> i)"

definition is_lower :: "byte \<Rightarrow> bool" where
  "is_lower l \<longleftrightarrow> 97 \<le> unat l \<and> unat l \<le> 122"

definition folded_tag :: "bytes \<Rightarrow> nat \<Rightarrow> u64" where
  "folded_tag xs n = foldl (\<lambda>tag i. tag OR fold_byte (xs ! i) i) 0 [0..<n]"

definition al_ok :: "argument_list \<Rightarrow> bool" where
  "al_ok a \<longleftrightarrow> length (al_inline a) = inline_capacity \<and> (inline_capacity < al_size a \<longrightarrow> length (al_overflow a) = al_size a)"

section \<open>Numbers\<close>

lemma digit_char: "k < 10 \<Longrightarrow> digit (of_nat (48 + k)) = k"
proof -
  assume "k < 10"
  then have "k \<in> {0, 1, 2, 3, 4, 5, 6, 7, 8, 9}" by auto
  then show ?thesis by (elim insertE emptyE) (simp_all add: digit_def)
qed

lemma digit_other: "digit 13 = 4294967261" "digit 45 = 4294967293" "9 < digit 13" "9 < digit 45" "9 < digit 10"
  by (simp_all add: digit_def)

lemma digits_value_snoc: "digits_value (ds @ [b]) = digits_value ds * 10 + digit b"
  by (simp add: digits_value_def)

lemma decimal_nat_digits:
  "decimal_nat n \<noteq> [] \<and> (\<forall>b \<in> set (decimal_nat n). digit b \<le> 9) \<and> digits_value (decimal_nat n) = n"
proof (induction n rule: decimal_nat.induct)
  case (1 n)
  show ?case
  proof (cases "n < 10")
    case True
    then show ?thesis
      by (simp add: decimal_nat.simps [of n] digit_char digits_value_def del: of_nat_add)
  next
    case False
    have "digit (of_nat (48 + n mod 10)) = n mod 10" by (rule digit_char) simp
    then show ?thesis using False 1
      by (simp add: decimal_nat.simps [of n] digits_value_snoc del: of_nat_add)
  qed
qed

lemma from_chars_decimal_nat: "n < 2 ^ 64 \<Longrightarrow> from_chars_u64 (decimal_nat n) = Some n"
  using decimal_nat_digits [of n] by (simp add: from_chars_u64_def)

lemma decimal_nat_no_sign: "hd (decimal_nat n) \<noteq> 45" "13 \<notin> set (decimal_nat n)"
proof -
  have "\<forall>b \<in> set (decimal_nat n). digit b \<le> 9" "decimal_nat n \<noteq> []" using decimal_nat_digits by blast+
  then show "hd (decimal_nat n) \<noteq> 45" "13 \<notin> set (decimal_nat n)"
    using digit_other by (metis hd_in_set linorder_not_less)+
qed

lemma from_chars_decimal: "from_chars_i64 (decimal (sint v)) = Some (v :: int64)"
proof -
  have r: "- (2 ^ 63) \<le> sint v" "sint v < 2 ^ 63"
    using sint_ge [of v] sint_lt [of v] by simp_all
  show ?thesis
  proof (cases "sint v < 0")
    case True
    then show ?thesis
      using r decimal_nat_digits [of "nat (- sint v)"] by (simp add: from_chars_i64_def decimal_def)
  next
    case False
    then show ?thesis
      using r decimal_nat_digits [of "nat (sint v)"] decimal_nat_no_sign(1) [of "nat (sint v)"]
      by (simp add: from_chars_i64_def decimal_def)
  qed
qed

lemma length_decimal_nat: "n < 10 ^ k \<Longrightarrow> 0 < k \<Longrightarrow> length (decimal_nat n) \<le> k"
proof (induction k arbitrary: n)
  case (Suc k)
  show ?case
  proof (cases "n < 10")
    case True
    then show ?thesis by (simp add: decimal_nat.simps [of n])
  next
    case False
    then have "k \<noteq> 0" using Suc.prems by (cases k) auto
    moreover have "n div 10 < 10 ^ k" using Suc.prems(1) by (simp add: less_mult_imp_div_less)
    ultimately show ?thesis using Suc.IH [of "n div 10"] False by (simp add: decimal_nat.simps [of n])
  qed
qed simp

section \<open>Lines\<close>

lemma find_crlf_line: "13 \<notin> set line \<Longrightarrow> find_crlf (line @ CRLF @ rest) = Some (length line)"
proof (induction line)
  case (Cons a line)
  then show ?case by (cases line) (auto simp: CRLF_def)
qed (simp add: CRLF_def)

lemma find_crlf_more:
  "find_crlf xs = Some n \<Longrightarrow> find_crlf (xs @ ys) = Some n \<and> n + 2 \<le> length xs \<and> take 2 (drop n xs) = CRLF"
proof (induction xs arbitrary: n rule: find_crlf.induct)
  case (1 a b rest)
  then show ?case by (auto simp: CRLF_def split: if_splits)
qed auto

lemma readline_line:
  assumes "drop pos input = line @ CRLF @ rest" "13 \<notin> set line"
  shows "readline input pos = Inr (line, pos + length line + 2)"
  using find_crlf_line [OF assms(2), of rest] assms(1) by (simp add: readline_def)

lemma readline_more:
  "readline input pos = Inr (line, pos1) \<Longrightarrow> readline (input @ ys) pos = Inr (line, pos1) \<and> pos1 \<le> length input \<and> pos + 2 \<le> pos1"
proof -
  assume "readline input pos = Inr (line, pos1)"
  then obtain n where n: "find_crlf (drop pos input) = Some n" "line = take n (drop pos input)" "pos1 = pos + n + 2"
    by (auto simp: readline_def split: option.splits)
  have l: "n + 2 \<le> length (drop pos input)" "find_crlf (drop pos input @ drop (pos - length input) ys) = Some n"
    using find_crlf_more [OF n(1)] by auto
  then show ?thesis using n by (auto simp: readline_def)
qed

section \<open>The fast path\<close>

lemma scan_digits_sound:
  assumes "scan_digits cur v = Some (n, pos)" "v < 2 ^ 64"
  shows "\<exists>ds. cur = ds @ pos \<and> (\<forall>b \<in> set ds. digit b \<le> 9) \<and> n = foldl (\<lambda>v b. v * 10 + digit b) v ds \<and> n < 2 ^ 64
       \<and> (cur \<noteq> [] \<and> digit (hd cur) \<le> 9 \<longrightarrow> ds \<noteq> [])"
  using assms
proof (induction cur v rule: scan_digits.induct)
  case (2 b bs v)
  show ?case
  proof (cases "9 < digit b")
    case True
    then show ?thesis using "2.prems" by auto
  next
    case False
    then have v: "\<not> (2 ^ 64 - 1 - digit b) div 10 < v" "scan_digits bs (v * 10 + digit b) = Some (n, pos)"
      using "2.prems"(1) by (simp_all split: if_splits)
    have "v * 10 \<le> 2 ^ 64 - 1 - digit b"
      using v(1) by (simp add: not_less less_eq_div_iff_mult_less_eq)
    then have "v * 10 + digit b < 2 ^ 64" using False by simp
    from "2.IH" [OF False v(1) v(2) this] obtain ds where
      "bs = ds @ pos" "\<forall>b \<in> set ds. digit b \<le> 9" "n = foldl (\<lambda>v b. v * 10 + digit b) (v * 10 + digit b) ds" "n < 2 ^ 64"
      by blast
    then show ?thesis using False by (intro exI [of _ "b # ds"]) auto
  qed
qed auto

lemma read_length_sound:
  assumes "read_length cur = Some (n, rest)"
  shows "\<exists>line. cur = line @ CRLF @ rest \<and> line \<noteq> [] \<and> (\<forall>b \<in> set line. digit b \<le> 9)
       \<and> digits_value line = n \<and> n < 2 ^ 64"
proof -
  have l3: "3 \<le> length cur" and d0: "digit (cur ! 0) \<le> 9" using assms by (auto simp: read_length_def Let_def split: if_splits)
  obtain a b c cs where cur: "cur = a # b # c # cs" using l3
    by (metis (no_types, opaque_lifting) Suc_le_length_iff numeral_3_eq_3)
  show ?thesis
  proof (cases "b = 13 \<and> c = 10")
    case True
    then have "n = digit a" "rest = cs" using assms cur d0 by (simp_all add: read_length_def Let_def)
    then show ?thesis using True cur d0 by (intro exI [of _ "[a]"]) (simp add: CRLF_def digits_value_def)
  next
    case f1: False
    then have l4: "cs \<noteq> []" and d1: "digit b \<le> 9" using assms cur by (auto simp: read_length_def Let_def split: if_splits)
    obtain d ds where cs: "cs = d # ds" using l4 by (cases cs) auto
    show ?thesis
    proof (cases "c = 13 \<and> d = 10")
      case True
      then have "n = digit a * 10 + digit b" "rest = ds" using assms cur cs d0 d1 f1 by (simp_all add: read_length_def Let_def)
      then show ?thesis using True cur cs d0 d1 by (intro exI [of _ "[a, b]"]) (simp add: CRLF_def digits_value_def)
    next
      case False
      obtain pos where s: "scan_digits cur 0 = Some (n, pos)" "2 \<le> length pos" "pos ! 0 = 13" "pos ! 1 = 10" "rest = drop 2 pos"
        using assms cur cs d0 d1 f1 False
        by (auto simp: read_length_def Let_def split: if_splits option.splits simp del: scan_digits.simps)
      obtain line where line: "cur = line @ pos" "\<forall>b \<in> set line. digit b \<le> 9" "n = digits_value line" "n < 2 ^ 64" "line \<noteq> []"
        using scan_digits_sound [OF s(1)] cur d0 by (auto simp: digits_value_def)
      have "pos = CRLF @ rest" using s by (metis (no_types, lifting) CRLF_def append_Cons append_Nil Cons_nth_drop_Suc Suc_1 Suc_le_lessD drop0 lessI less_le_trans numeral_2_eq_2 zero_less_Suc One_nat_def)
      then show ?thesis using line by blast
    qed
  qed
qed

lemma digits_no_cr: "\<forall>b \<in> set line. digit b \<le> 9 \<Longrightarrow> 13 \<notin> set line"
  using digit_other by (metis linorder_not_less)

lemma read_length_line:
  assumes "read_length (drop pos input) = Some (n, rest)" "pos \<le> length input"
  shows "\<exists>line. readline input pos = Inr (line, length input - length rest) \<and> parse_number line code = Inr n
       \<and> rest = drop (length input - length rest) input \<and> length rest \<le> length input"
proof -
  obtain line where l: "drop pos input = line @ CRLF @ rest" "line \<noteq> []" "\<forall>b \<in> set line. digit b \<le> 9"
    "digits_value line = n" "n < 2 ^ 64" using read_length_sound [OF assms(1)] by blast
  have len: "length input = pos + length line + 2 + length rest"
    using arg_cong [OF l(1), of length] assms(2) by (simp add: CRLF_def)
  have d: "drop (pos + length line + 2) input = rest"
  proof -
    have "drop (length line + 2) (drop pos input) = rest" unfolding l(1) by (simp add: CRLF_def)
    then show ?thesis by (simp add: ac_simps)
  qed
  have q: "length input - length rest = pos + length line + 2" using len by simp
  have "readline input pos = Inr (line, pos + length line + 2)" by (rule readline_line [OF l(1) digits_no_cr [OF l(3)]])
  moreover have "parse_number line code = Inr n" using l(2-5) by (simp add: parse_number_def from_chars_u64_def)
  ultimately show ?thesis unfolding q using d len by (intro exI [of _ line]) simp
qed

lemma take_two:
  assumes "i + 2 \<le> length xs"
  shows "take 2 (drop i xs) = [xs ! i, xs ! (i + 1)]"
proof -
  have "drop i xs = xs ! i # xs ! Suc i # drop (Suc (Suc i)) xs"
    using assms by (simp add: Cons_nth_drop_Suc)
  then show ?thesis by (simp add: numeral_2_eq_2)
qed

lemma fast_strings_sound:
  assumes "fast_strings n cur acc = Some (strs, rest)" "cur = drop pos input" "pos \<le> length input"
  shows "slow_strings input n pos acc = Inr (strs, length input - length rest) \<and> length rest \<le> length input"
  using assms
proof (induction n cur acc arbitrary: pos rule: fast_strings.induct)
  case (1 cursor acc)
  then show ?case by auto
next
  case (2 n cursor acc)
  have c: "cursor \<noteq> []" "hd cursor = 36" using "2.prems"(1) by (auto split: if_splits)
  then have pos: "pos < length input" "input ! pos = 36" "tl cursor = drop (pos + 1) input"
    using "2.prems"(2) by (simp_all add: hd_drop_conv_nth drop_Suc tl_drop)
  obtain len c1 where r: "read_length (tl cursor) = Some (len, c1)"
    using "2.prems"(1) c by (auto split: option.splits)
  then have g: "2 \<le> length c1" "len \<le> length c1 - 2" "c1 ! len = 13" "c1 ! (len + 1) = 10"
    and nx: "fast_strings n (drop (len + 2) c1) (acc @ [take len c1]) = Some (strs, rest)"
    using "2.prems"(1) c by (auto split: if_splits)
  define pos1 where "pos1 = length input - length c1"
  have "read_length (drop (pos + 1) input) = Some (len, c1)" "pos + 1 \<le> length input" using r pos by simp_all
  from read_length_line [OF this, of invalid_bulk_string_length, folded pos1_def]
  obtain line where l: "readline input (pos + 1) = Inr (line, pos1)" "parse_number line invalid_bulk_string_length = Inr len"
    "c1 = drop pos1 input" "length c1 \<le> length input" by blast
  have lc: "length input - pos1 = length c1" "pos1 \<le> length input" using l(4) by (simp_all add: pos1_def)
  have crlf: "take 2 (drop (pos1 + len) input) = CRLF"
  proof -
    have "take 2 (drop len c1) = [c1 ! len, c1 ! (len + 1)]"
      using take_two [of len c1] g(1,2) by simp
    moreover have "drop len c1 = drop (pos1 + len) input" unfolding l(3) by (simp add: ac_simps)
    ultimately show ?thesis using g(3,4) by (simp add: CRLF_def)
  qed
  have IH: "slow_strings input n (pos1 + len + 2) (acc @ [take len c1]) = Inr (strs, length input - length rest) \<and> length rest \<le> length input"
  proof (rule "2.IH" [OF _ r refl _ _ nx])
    show "drop (len + 2) c1 = drop (pos1 + len + 2) input" unfolding l(3) by (simp add: ac_simps)
    show "pos1 + len + 2 \<le> length input" using g lc by linarith
  qed (use c g in auto)
  have "\<not> (length input < pos1 \<or> length input - pos1 < 2 \<or> length input - pos1 - 2 < len)" using g lc by auto
  moreover have "\<not> length input - (pos1 + len) < 2" using g lc by linarith
  moreover have "take len (drop pos1 input) = take len c1" by (simp add: l(3) [symmetric])
  ultimately show ?case using pos(1,2) l(1,2) crlf IH by (simp add: Let_def)
qed

lemma parse_fast_slow: "parse_command_into input = parse_command_slow input"
proof (cases "length input < 4 \<or> input ! 0 \<noteq> 42")
  case False
  show ?thesis
  proof (cases "read_length (drop 1 input)")
    case (Some x)
    obtain count cur where x: "x = (count, cur)" by (cases x)
    show ?thesis
    proof (cases "count = 0 \<or> fast_strings count cur [] = None")
      case True
      then show ?thesis using Some x False by (auto simp: parse_command_into_def)
    next
      case run: False
      then obtain strs rest where f: "fast_strings count cur [] = Some (strs, rest)" by auto
      define pos where "pos = length input - length cur"
      obtain line where l: "readline input 1 = Inr (line, pos)" "parse_number line invalid_resp_array_length = Inr count"
        "cur = drop pos input" using read_length_line [of 1 input count cur invalid_resp_array_length] Some x False pos_def by fastforce
      have "slow_strings input count pos [] = Inr (strs, length input - length rest)"
        using fast_strings_sound [OF f l(3)] pos_def by simp
      then show ?thesis
        using False Some x run f l by (auto simp: parse_command_into_def parse_command_slow_def)
    qed
  qed (use False in \<open>simp add: parse_command_into_def\<close>)
qed (simp add: parse_command_into_def)

section \<open>The general parser\<close>

lemma slow_strings_step:
  assumes "pos < length input" "input ! pos = 36" "readline input (pos + 1) = Inr (line, pos1)"
    "parse_number line invalid_bulk_string_length = Inr len" "pos1 + len + 2 \<le> length input"
  shows "slow_strings input (Suc n) pos acc =
     (if take 2 (drop (pos1 + len) input) = CRLF
      then slow_strings input n (pos1 + len + 2) (acc @ [take len (drop pos1 input)])
      else Inl missing_bulk_string_terminator)"
proof -
  have "\<not> (length input < pos1 \<or> length input - pos1 < 2 \<or> length input - pos1 - 2 < len)"
    "\<not> length input - (pos1 + len) < 2" "\<not> length input \<le> pos" using assms(1,5) by linarith+
  then show ?thesis using assms(2-4) unfolding slow_strings.simps by (simp del: diff_diff_left add: Let_def)
qed

text \<open>The ways one string can be read: a complete length line with room for the data, or an error.\<close>

lemma slow_strings_split:
  obtains (step) line pos1 len where "pos < length input" "input ! pos = 36"
      "readline input (pos + 1) = Inr (line, pos1)" "parse_number line invalid_bulk_string_length = Inr len"
      "pos1 + len + 2 \<le> length input"
  | (prefix) "pos < length input" "input ! pos \<noteq> 36" "slow_strings input (Suc n) pos acc = Inl expected_bulk_string_prefix"
  | (number) line pos1 e where "pos < length input" "input ! pos = 36" "readline input (pos + 1) = Inr (line, pos1)"
      "parse_number line invalid_bulk_string_length = Inl e" "slow_strings input (Suc n) pos acc = Inl e"
  | (incomplete) e where "slow_strings input (Suc n) pos acc = Inl e" "is_incomplete_resp_error e"
proof (cases "pos < length input \<and> input ! pos = 36")
  case False
  then show ?thesis using prefix incomplete by (cases "pos < length input") (auto simp: is_incomplete_resp_error_def)
next
  case here: True
  show ?thesis
  proof (cases "readline input (pos + 1)")
    case (Inl e)
    then have "e = missing_crlf" by (auto simp: readline_def split: option.splits)
    then show ?thesis using incomplete Inl here by (simp add: is_incomplete_resp_error_def)
  next
    case l: (Inr x)
    obtain line pos1 where x: "x = (line, pos1)" by (cases x)
    show ?thesis
    proof (cases "parse_number line invalid_bulk_string_length")
      case (Inl e)
      then show ?thesis using number [of line pos1 e] l x here by simp
    next
      case (Inr len)
      show ?thesis
      proof (cases "pos1 + len + 2 \<le> length input")
        case True
        then show ?thesis using step here l x Inr by blast
      next
        case False
        then have "length input < pos1 \<or> length input - pos1 < 2 \<or> length input - pos1 - 2 < len" by linarith
        then have "slow_strings input (Suc n) pos acc = Inl incomplete_bulk_string_data"
          using here l x Inr unfolding slow_strings.simps by (simp del: diff_diff_left)
        then show ?thesis using incomplete by (simp add: is_incomplete_resp_error_def)
      qed
    qed
  qed
qed

lemma slow_strings_more:
  assumes "\<And>e. slow_strings input n pos acc = Inl e \<Longrightarrow> \<not> is_incomplete_resp_error e"
  shows "slow_strings (input @ ys) n pos acc = slow_strings input n pos acc"
  using assms
proof (induction n arbitrary: pos acc)
  case (Suc n)
  show ?case
  proof (cases rule: slow_strings_split [where pos = pos and input = input and n = n and acc = acc])
    case (step line pos1 len)
    have eqs: "take len (drop pos1 (input @ ys)) = take len (drop pos1 input)"
      "take 2 (drop (pos1 + len) (input @ ys)) = take 2 (drop (pos1 + len) input)" using step(5) by simp_all
    note s = slow_strings_step [OF step]
    have "slow_strings (input @ ys) (Suc n) pos acc =
       (if take 2 (drop (pos1 + len) (input @ ys)) = CRLF
        then slow_strings (input @ ys) n (pos1 + len + 2) (acc @ [take len (drop pos1 (input @ ys))])
        else Inl missing_bulk_string_terminator)"
      using step readline_more [OF step(3), of ys] by (intro slow_strings_step) (simp_all add: nth_append)
    then show ?thesis unfolding eqs s using Suc s by simp
  next
    case prefix
    then show ?thesis by (simp add: nth_append)
  next
    case (number line pos1 e)
    then show ?thesis using readline_more [OF number(3), of ys] by (simp add: nth_append)
  next
    case (incomplete e)
    then show ?thesis using Suc.prems by blast
  qed
qed simp

lemma parse_slow_more:
  assumes "input \<noteq> []" "\<And>e. parse_command_slow input = Inl e \<Longrightarrow> \<not> is_incomplete_resp_error e"
  shows "parse_command_slow (input @ ys) = parse_command_slow input"
proof (cases "input ! 0 = 42")
  case False
  then show ?thesis using assms(1) by (simp add: parse_command_slow_def nth_append)
next
  case star: True
  show ?thesis
  proof (cases "readline input 1")
    case (Inl e)
    then have "e = missing_crlf" by (auto simp: readline_def split: option.splits)
    then show ?thesis using assms star Inl by (simp add: parse_command_slow_def is_incomplete_resp_error_def)
  next
    case (Inr x)
    obtain line pos where x: "x = (line, pos)" by (cases x)
    note lm = readline_more [OF Inr [unfolded x], of ys]
    show ?thesis
    proof (cases "parse_number line invalid_resp_array_length")
      case (Inl e)
      then show ?thesis using assms(1) star Inr x lm by (simp add: parse_command_slow_def nth_append)
    next
      case n: (Inr argc)
      have "slow_strings (input @ ys) argc pos [] = slow_strings input argc pos []" if "argc \<noteq> 0"
        using assms star Inr x n that by (intro slow_strings_more) (auto simp: parse_command_slow_def)
      then show ?thesis using assms(1) star Inr x lm n by (simp add: parse_command_slow_def nth_append)
    qed
  qed
qed

lemma slow_strings_pos:
  assumes "slow_strings input n pos acc = Inr (strs, pos1)" "pos \<le> length input"
  shows "pos \<le> pos1 \<and> pos1 \<le> length input \<and> length strs = length acc + n"
  using assms
proof (induction n arbitrary: pos acc)
  case (Suc n)
  show ?case
  proof (cases rule: slow_strings_split [where pos = pos and input = input and n = n and acc = acc])
    case (step line p1 len)
    have "slow_strings input n (p1 + len + 2) (acc @ [take len (drop p1 input)]) = Inr (strs, pos1)"
      using slow_strings_step [OF step] Suc.prems(1) by (simp split: if_splits)
    from Suc.IH [OF this step(5)] show ?thesis using readline_more [OF step(3), of "[]"] by simp
  qed (use Suc.prems in auto)
qed simp

lemma slow_strings_encoded:
  assumes "\<forall>s \<in> set ss. length s < 2 ^ 64"
  shows "slow_strings (pre @ concat (map encode_bulk ss) @ rest) (length ss) (length pre) acc
       = Inr (acc @ ss, length pre + length (concat (map encode_bulk ss)))"
  using assms
proof (induction ss arbitrary: pre acc)
  case (Cons s ss)
  let ?tail = "concat (map encode_bulk ss) @ rest"
  let ?d = "decimal_nat (length s)"
  let ?input = "pre @ encode_bulk s @ ?tail"
  have l: "readline ?input (length pre + 1) = Inr (?d, length pre + 1 + length ?d + 2)"
    by (rule readline_line [where rest = "s @ CRLF @ ?tail"]) (simp_all add: encode_bulk_def str_def decimal_nat_no_sign)
  have n: "parse_number ?d invalid_bulk_string_length = Inr (length s)"
    using Cons.prems by (simp add: parse_number_def from_chars_decimal_nat)
  have eb: "length (encode_bulk s) = 1 + length ?d + 2 + length s + 2" by (simp add: encode_bulk_def CRLF_def)
  define p1 where "p1 = length pre + 1 + length ?d + 2"
  have d: "drop p1 ?input = s @ CRLF @ ?tail" by (simp add: p1_def encode_bulk_def CRLF_def)
  have "drop (p1 + length s) ?input = drop (length s) (drop p1 ?input)" by (simp only: drop_drop add.commute)
  then have v: "take (length s) (drop p1 ?input) = s" "take 2 (drop (p1 + length s) ?input) = CRLF"
    unfolding d by (simp_all add: CRLF_def)
  have IH: "slow_strings ((pre @ encode_bulk s) @ ?tail) (length ss) (length (pre @ encode_bulk s)) (acc @ [s])
      = Inr ((acc @ [s]) @ ss, length (pre @ encode_bulk s) + length (concat (map encode_bulk ss)))"
    using Cons.prems by (intro Cons.IH) simp
  have at: "length pre < length ?input" "?input ! length pre = 36" by (simp_all add: encode_bulk_def str_def)
  have room: "p1 + length s + 2 \<le> length ?input" using eb by (simp add: p1_def)
  have "slow_strings ?input (Suc (length ss)) (length pre) acc
      = slow_strings ?input (length ss) (p1 + length s + 2) (acc @ [s])"
    using slow_strings_step [OF at l [folded p1_def] n room] v by simp
  also have "p1 + length s + 2 = length (pre @ encode_bulk s)" using eb by (simp add: p1_def)
  finally show ?case using IH by simp
qed simp

lemma parse_encoded:
  assumes "ss \<noteq> []" "length ss < 2 ^ 64" "\<forall>s \<in> set ss. length s < 2 ^ 64"
  shows "parse_command_slow (encode_request ss @ rest) = Inr (make_command ss (length (encode_request ss)))"
proof -
  let ?d = "decimal_nat (length ss)"
  let ?input = "encode_request ss @ rest"
  have l: "readline ?input 1 = Inr (?d, 1 + length ?d + 2)"
    by (rule readline_line [where rest = "concat (map encode_bulk ss) @ rest"]) (simp_all add: encode_request_def str_def decimal_nat_no_sign)
  have n: "parse_number ?d invalid_resp_array_length = Inr (length ss)"
    using assms(2) by (simp add: parse_number_def from_chars_decimal_nat)
  have "slow_strings ((str ''*'' @ ?d @ CRLF) @ concat (map encode_bulk ss) @ rest) (length ss) (length (str ''*'' @ ?d @ CRLF)) []
      = Inr ([] @ ss, length (str ''*'' @ ?d @ CRLF) + length (concat (map encode_bulk ss)))"
    by (rule slow_strings_encoded [OF assms(3)])
  then have s: "slow_strings ?input (length ss) (1 + length ?d + 2) [] = Inr (ss, length (encode_request ss))"
    by (simp add: encode_request_def CRLF_def)
  have "?input \<noteq> []" "?input ! 0 = 42" by (simp_all add: encode_request_def str_def)
  then show ?thesis using l n s assms(1) by (simp add: parse_command_slow_def)
qed

section \<open>Command names\<close>

lemma bit_32: "bit (32 :: int) n \<longleftrightarrow> n = 5"
proof -
  have e: "(32 :: int) = push_bit 5 1" by simp
  show ?thesis unfolding e bit_push_bit_iff bit_1_iff by auto
qed

lemma or_0x20: "(b :: byte) OR 0x20 = (if bit b 5 then b else b + 32)"
proof (cases "bit b 5")
  case True
  have "b OR 0x20 = b OR push_bit 5 1" by simp
  also have "\<dots> = set_bit 5 b" by (simp add: set_bit_eq_or)
  also have "\<dots> = b" using True by (intro bit_eqI) (auto simp: bit_simps)
  finally show ?thesis using True by simp
next
  case False
  have "b + 32 = b + push_bit 5 1" by simp
  also have "\<dots> = b OR push_bit 5 1"
    using False by (intro disjunctive_add) (auto simp: bit_32)
  finally show ?thesis using False by simp
qed

lemma fold_lower:
  assumes "is_lower l"
  shows "(b OR 0x20 = l) = (lower b = l)"
proof -
  have odd5: "bit (c :: byte) 5 = odd (unat c div 32)" for c
  proof -
    have "bit c 5 = bit (unat c) 5" by (simp add: bit_unsigned_iff)
    then show ?thesis by (simp add: bit_iff_odd)
  qed
  have l: "bit l 5"
  proof -
    have "unat l div 32 = 3" using assms by (simp add: is_lower_def div_nat_eqI)
    then show ?thesis by (simp add: odd5)
  qed
  show ?thesis
  proof (cases "bit b 5")
    case True
    have "\<not> (65 \<le> unat b \<and> unat b \<le> 90)"
    proof
      assume "65 \<le> unat b \<and> unat b \<le> 90"
      then have "unat b div 32 = 2" by (simp add: div_nat_eqI)
      then show False using True by (simp add: odd5)
    qed
    then show ?thesis using True by (auto simp: or_0x20 lower_def)
  next
    case False
    have "b + 32 = l \<Longrightarrow> 65 \<le> unat b \<and> unat b \<le> 90"
    proof -
      assume "b + 32 = l"
      then have "unat b = unat (l - 32)" by auto
      also have "\<dots> = unat l - 32" using assms by (subst unat_sub) (simp_all add: is_lower_def word_le_nat_alt)
      finally show ?thesis using assms unfolding is_lower_def by linarith
    qed
    moreover have "b \<noteq> l" using False l by auto
    ultimately show ?thesis using False by (auto simp: or_0x20 lower_def)
  qed
qed

lemma fold_byte_bit: "k < 64 \<Longrightarrow> bit (fold_byte b i) k = (i * 8 \<le> k \<and> bit (b OR 0x20) (k - i * 8))"
  by (auto simp: fold_byte_def bit_simps bit_32 dest: bit_imp_le_length)

lemma fold_bytes_bit:
  assumes "k < 64"
  shows "bit (foldl (\<lambda>tag i. tag OR fold_byte (xs ! i) i) 0 [0..<n]) k
       = (k div 8 < n \<and> bit (xs ! (k div 8) OR 0x20) (k mod 8))"
proof (induction n)
  case (Suc n)
  have "(n * 8 \<le> k \<and> bit (xs ! n OR 0x20) (k - n * 8)) = (k div 8 = n \<and> bit (xs ! n OR 0x20) (k mod 8))"
  proof (cases "k div 8 = n")
    case True
    have "k - n * 8 = k mod 8" using True by (simp add: minus_div_mult_eq_mod [symmetric])
    then show ?thesis using True by auto
  next
    case False
    have "\<not> bit (xs ! n OR 0x20) (k - n * 8)" if "n * 8 \<le> k"
    proof -
      have "n < k div 8" using that False by (metis le_neq_implies_less less_eq_div_iff_mult_less_eq zero_less_numeral)
      then have "(n + 1) * 8 \<le> k" by (simp add: less_eq_div_iff_mult_less_eq [symmetric])
      then have "8 \<le> k - n * 8" by simp
      then show ?thesis using bit_imp_le_length [of "xs ! n OR 0x20" "k - n * 8"] by auto
    qed
    then show ?thesis using False by blast
  qed
  then show ?case using Suc assms by (auto simp: bit_or_iff fold_byte_bit less_Suc_eq)
qed simp

lemma tag_of_four:
  assumes "length name = 4"
  shows "tag_of name = folded_tag name 4 OR push_bit 56 (of_nat 4)"
proof -
  obtain a b c d where n: "name = [a, b, c, d]"
    using assms by (auto simp: length_Suc_conv numeral_eq_Suc)
  have k: "(0x20202020 :: u64) = 32 OR push_bit 8 32 OR push_bit 16 32 OR push_bit 24 32" by simp
  have u: "[0..<4] = [0, 1, 2, 3 :: nat]" by (simp add: upt_rec)
  have l: "le_decode (take 4 name) = (ucast a OR push_bit 8 (ucast b) OR push_bit 16 (ucast c) OR push_bit 24 (ucast d) :: u64)"
    by (simp add: n push_bit_or push_bit_push_bit)
  have r: "folded_tag name 4 = (ucast a OR 32) OR push_bit 8 (ucast b OR 32) OR push_bit 16 (ucast c OR 32) OR push_bit 24 (ucast d OR 32)"
    by (simp add: folded_tag_def u n fold_byte_def or.assoc)
  show ?thesis
    using assms unfolding tag_of_def r l k
    by (simp only: push_bit_or if_True if_False or.assoc or.left_commute or.commute of_nat_numeral numeral_eq_iff
        num.simps refl)
qed

lemma tag_of_folded:
  assumes "length name \<noteq> 3"
  shows "tag_of name = folded_tag name (min (length name) 8) OR push_bit 56 (of_nat (length name mod 256))"
proof (cases "length name = 4")
  case True
  then show ?thesis using tag_of_four [OF True] by simp
next
  case False
  then show ?thesis using assms by (simp add: tag_of_def folded_tag_def Let_def min_def)
qed

lemma len_8: "(j < LENGTH(8)) = (j < 8)"
  by simp

lemma tag_bit:
  assumes "k < 56"
  shows "bit (folded_tag xs n OR push_bit 56 m) k = (k div 8 < n \<and> bit (xs ! (k div 8) OR 0x20) (k mod 8))"
  using assms fold_bytes_bit [of k xs n] by (auto simp: folded_tag_def bit_or_iff bit_push_bit_iff)

lemma or_0x20_bit5: "bit ((b :: byte) OR 0x20) 5"
  by (simp add: bit_or_iff bit_32)

lemma lower_lit: "is_lower l \<Longrightarrow> lower l = l \<and> l OR 0x20 = l"
  using fold_lower [of l l] by (auto simp: is_lower_def lower_def)

lemma folded_tag_cong:
  assumes "\<And>i. i < n \<Longrightarrow> xs ! i OR 0x20 = ys ! i OR 0x20"
  shows "folded_tag xs n = folded_tag ys n"
proof (rule bit_word_eqI)
  fix k assume "k < LENGTH(64)"
  then show "bit (folded_tag xs n) k = bit (folded_tag ys n) k"
    using fold_bytes_bit [of k xs n] fold_bytes_bit [of k ys n] assms by (auto simp: folded_tag_def)
qed

lemma tag_eq:
  assumes n: "length name \<noteq> 3" and lit: "length lit \<le> 6" "\<forall>l \<in> set lit. is_lower l"
  shows "(tag_of name = tag_of_literal lit) = (map lower name = lit)"
proof
  note t = tag_of_folded [OF n]
  have u: "tag_of_literal lit = folded_tag lit (length lit) OR push_bit 56 (of_nat (length lit))"
    using lit(1) by (simp add: tag_of_literal_def folded_tag_def Let_def)
  have bt: "bit (tag_of name) k = (k div 8 < min (length name) 8 \<and> bit (name ! (k div 8) OR 0x20) (k mod 8))"
    if "k < 56" for k unfolding t by (rule tag_bit [OF that])
  have bu: "bit (tag_of_literal lit) k = (k div 8 < length lit \<and> bit (lit ! (k div 8) OR 0x20) (k mod 8))"
    if "k < 56" for k unfolding u by (rule tag_bit [OF that])
  {
    assume eq: "tag_of name = tag_of_literal lit"
    have b: "(i < length name \<and> bit (name ! i OR 0x20) j) = (i < length lit \<and> bit (lit ! i OR 0x20) j)"
      if "i < 7" "j < 8" for i j
    proof -
      have k: "i * 8 + j < 56" "(i * 8 + j) div 8 = i" "(i * 8 + j) mod 8 = j" "(i < min (length name) 8) = (i < length name)"
        using that by auto
      have "bit (tag_of name) (i * 8 + j) = bit (tag_of_literal lit) (i * 8 + j)" using eq by (rule arg_cong)
      then show ?thesis unfolding bt [OF k(1)] bu [OF k(1)] k .
    qed
    have len: "(i < length name) = (i < length lit)" if "i < 7" for i
      using b [OF that, of 5] or_0x20_bit5 by simp
    have "\<not> 6 < length name" using len [of 6] lit(1) by simp
    then have "\<not> length name < length lit" "\<not> length lit < length name"
      using len [of "length name"] len [of "length lit"] lit(1) by simp_all
    then have "length name = length lit" by linarith
    moreover have "lower (name ! i) = lit ! i" if i: "i < length lit" for i
    proof -
      have i7: "i < 7" using i lit(1) by simp
      have "name ! i OR 0x20 = lit ! i OR 0x20"
      proof (rule bit_word_eqI)
        fix j assume "j < LENGTH(8)"
        then show "bit (name ! i OR 0x20) j = bit (lit ! i OR 0x20) j"
          using b [OF i7, of j] i len [OF i7] by (metis len_8)
      qed
      also have "\<dots> = lit ! i" using lower_lit lit(2) i by simp
      finally show ?thesis using fold_lower lit(2) i by simp
    qed
    ultimately show "map lower name = lit" by (simp add: list_eq_iff_nth_eq)
  }
  {
    assume m: "map lower name = lit"
    then have len: "length name = length lit" by auto
    have "name ! i OR 0x20 = lit ! i OR 0x20" if "i < length lit" for i
    proof -
      have "lower (name ! i) = lit ! i" using nth_map [of i name lower] that len unfolding m by simp
      moreover have "is_lower (lit ! i)" using lit(2) that by simp
      ultimately show ?thesis using fold_lower lower_lit by metis
    qed
    then have "folded_tag name (length lit) = folded_tag lit (length lit)" by (rule folded_tag_cong)
    moreover have "min (length name) 8 = length lit" "length name mod 256 = length lit" using len lit(1) by simp_all
    ultimately show "tag_of name = tag_of_literal lit" by (simp only: t u)
  }
qed

lemma ucast_push_bit: "ucast (push_bit n (x :: u64)) = push_bit n (ucast x :: u32)"
  by (rule bit_word_eqI) (auto simp: bit_simps)

lemma ucast_byte: "ucast (ucast (b :: byte) :: u64) = (ucast b :: u32)"
  by (rule bit_word_eqI) (auto simp: bit_simps dest: bit_imp_le_length)

lemma fold3_eq:
  assumes n: "length name = 3" and lit: "length lit = 3" "\<forall>l \<in> set lit. is_lower l"
  shows "((ucast (name ! 0) OR 0x20) OR push_bit 8 (ucast (name ! 1) OR 0x20) OR push_bit 16 (ucast (name ! 2) OR 0x20) :: u32)
       = ucast (tag_of_literal lit) \<longleftrightarrow> map lower name = lit" (is "?l = _ \<longleftrightarrow> _")
proof
  have u: "[0..<3] = [0, 1, 2 :: nat]" by (simp add: upt_rec)
  have l: "?l = ucast (folded_tag name 3)"
    unfolding folded_tag_def u foldl.simps fold_byte_def unsigned_or_eq ucast_push_bit ucast_byte
    by (simp only: mult_0 push_bit_0_id id_apply or.assoc or.left_neutral mult_1 unsigned_0) simp
  have "ucast (push_bit 56 (x :: u64)) = (0 :: u32)" for x by (rule bit_word_eqI) (auto simp: bit_simps)
  then have r: "ucast (tag_of_literal lit) = (ucast (folded_tag lit 3) :: u32)"
    using lit(1) by (simp only: tag_of_literal_def folded_tag_def Let_def unsigned_or_eq) simp
  have bits: "bit (ucast (folded_tag xs 3) :: u32) (i * 8 + j) = bit (xs ! i OR 0x20) j" if "i < 3" "j < 8" for xs :: bytes and i j
  proof -
    have k: "i * 8 + j < 32" "(i * 8 + j) div 8 = i" "(i * 8 + j) mod 8 = j" using that by simp_all
    then show ?thesis using fold_bytes_bit [of "i * 8 + j" xs 3] that by (simp add: folded_tag_def bit_simps)
  qed
  {
    assume "?l = ucast (tag_of_literal lit)"
    then have e: "(ucast (folded_tag name 3) :: u32) = ucast (folded_tag lit 3)" using l r by simp
    have "lower (name ! i) = lit ! i" if i: "i < 3" for i
    proof -
      have "name ! i OR 0x20 = lit ! i OR 0x20"
      proof (rule bit_word_eqI)
        fix j assume "j < LENGTH(8)"
        then show "bit (name ! i OR 0x20) j = bit (lit ! i OR 0x20) j"
          using bits [OF i, of j name] bits [OF i, of j lit] e by (metis len_8)
      qed
      also have "\<dots> = lit ! i" using lower_lit lit i by simp
      finally show ?thesis using fold_lower lit i by simp
    qed
    then show "map lower name = lit" using n lit(1) by (simp add: list_eq_iff_nth_eq)
  }
  {
    assume m: "map lower name = lit"
    have "name ! i OR 0x20 = lit ! i OR 0x20" if "i < 3" for i
    proof -
      have "lower (name ! i) = lit ! i" using nth_map [of i name lower] that n unfolding m by simp
      moreover have "is_lower (lit ! i)" using lit that by simp
      ultimately show ?thesis using fold_lower lower_lit by metis
    qed
    then have "folded_tag name 3 = folded_tag lit 3" by (rule folded_tag_cong)
    then show "?l = ucast (tag_of_literal lit)" using l r by simp
  }
qed

lemma unat_of_char: "unat (of_char c :: byte) = of_char c"
proof -
  have "(of_char c :: byte) = of_nat (of_char c)" by (cases c) simp
  moreover have "(of_char c :: nat) < 256" using nat_of_char_less_256 by simp
  ultimately show ?thesis by (simp add: unat_of_nat)
qed

lemma str_lower: "\<forall>c \<in> set s. 97 \<le> (of_char c :: nat) \<and> (of_char c :: nat) \<le> 122 \<Longrightarrow> \<forall>l \<in> set (str s). is_lower l"
  by (auto simp: str_def is_lower_def unat_of_char)

lemma tag_eq_str:
  assumes "length name \<noteq> 3" "length s \<le> 6" "\<forall>c \<in> set s. 97 \<le> (of_char c :: nat) \<and> (of_char c :: nat) \<le> 122"
  shows "(tag_of name = tag_of_literal (str s)) = (map lower name = str s)"
  using assms tag_eq [OF _ _ str_lower] by simp

lemma fold3_eq_str:
  assumes "length name = 3" "length s = 3" "\<forall>c \<in> set s. 97 \<le> (of_char c :: nat) \<and> (of_char c :: nat) \<le> 122"
  shows "((ucast (name ! 0) OR 0x20) OR push_bit 8 (ucast (name ! 1) OR 0x20) OR push_bit 16 (ucast (name ! 2) OR 0x20) :: u32)
       = ucast (tag_of_literal (str s)) \<longleftrightarrow> map lower name = str s"
  using assms fold3_eq [OF _ _ str_lower] by simp

lemma map_of_if: "map_of ((k, v) # xs) x = (if x = k then Some v else map_of xs x)"
  by auto

lemma classify_long:
  assumes "length name \<noteq> 3"
  shows "classify_command name = command_named name"
proof -
  have t: "(tag_of name = tag_of_literal (str s)) = (map lower name = str s)"
    if "s \<in> {''ping'', ''info'', ''get'', ''set'', ''incr'', ''lpush'', ''rpush'', ''lpop'', ''rpop'', ''llen'',
      ''hset'', ''hget'', ''hdel'', ''hlen'', ''expire'', ''ttl'', ''del''}" for s
    using that by (intro tag_eq_str [OF assms]) auto
  show ?thesis
    unfolding classify_command_def command_named_def command_table_def Let_def if_not_P [OF assms] map_of_if list.map(1)
    by (simp only: t insert_iff simp_thms if_distrib [of "case_option _ _"] option.case map_of.simps)
qed

lemma classify_short:
  assumes "length name = 3"
  shows "classify_command name = command_named name"
proof -
  have t: "((ucast (name ! 0) OR 0x20) OR push_bit 8 (ucast (name ! 1) OR 0x20) OR push_bit 16 (ucast (name ! 2) OR 0x20) :: u32)
       = ucast (tag_of_literal (str s)) \<longleftrightarrow> map lower name = str s"
    if "s \<in> {''get'', ''set'', ''ttl'', ''del''}" for s
    using that by (intro fold3_eq_str [OF assms]) auto
  have l: "map lower name \<noteq> str s" if "length s \<noteq> 3" for s
    using assms that by (metis length_map length_str)
  have c: "classify_command name =
      (if map lower name = str ''get'' then \<lparr>cid = c_get, is_write = False\<rparr>
       else if map lower name = str ''set'' then \<lparr>cid = c_set, is_write = True\<rparr>
       else if map lower name = str ''del'' then \<lparr>cid = c_del, is_write = True\<rparr>
       else if map lower name = str ''ttl'' then \<lparr>cid = c_ttl, is_write = False\<rparr>
       else \<lparr>cid = c_unknown, is_write = True\<rparr>)"
    unfolding classify_command_def Let_def if_P [OF assms] by (simp only: t insert_iff simp_thms)
  have "map_of command_table (map lower name) =
      (if map lower name = str ''get'' then Some \<lparr>cid = c_get, is_write = False\<rparr>
       else if map lower name = str ''set'' then Some \<lparr>cid = c_set, is_write = True\<rparr>
       else if map lower name = str ''ttl'' then Some \<lparr>cid = c_ttl, is_write = False\<rparr>
       else if map lower name = str ''del'' then Some \<lparr>cid = c_del, is_write = True\<rparr>
       else None)"
    unfolding command_table_def map_of_if by (simp add: l)
  moreover have "str ''ttl'' \<noteq> str ''del''" by (simp add: str_def)
  ultimately show ?thesis unfolding c command_named_def by simp
qed

section \<open>The argument list as a sequence\<close>

text \<open>What a container of arguments promises its users: it holds what was pushed since it was cleared.\<close>

locale sequence =
  fixes clear :: "'s \<Rightarrow> 's" and push :: "'a \<Rightarrow> 's \<Rightarrow> 's" and items :: "'s \<Rightarrow> 'a list" and ok :: "'s \<Rightarrow> bool"
  assumes clear_ok: "ok s \<Longrightarrow> ok (clear s)"
    and clear_items: "ok s \<Longrightarrow> items (clear s) = []"
    and push_ok: "ok s \<Longrightarrow> ok (push v s)"
    and push_items: "ok s \<Longrightarrow> items (push v s) = items s @ [v]"
begin

lemma push_all: "ok s \<Longrightarrow> ok (fold push vs s) \<and> items (fold push vs s) = items s @ vs"
  by (induction vs arbitrary: s) (simp_all add: push_ok push_items)

lemma refill: "ok s \<Longrightarrow> items (fold push vs (clear s)) = vs"
  by (simp add: push_all clear_ok clear_items)

end

lemma al_push_ok: "al_ok a \<Longrightarrow> al_ok (al_push_back v a)"
  by (auto simp: al_ok_def al_push_back_def Let_def)

lemma al_push_items:
  assumes "al_ok a"
  shows "al_items (al_push_back v a) = al_items a @ [v]"
proof -
  consider "al_size a < inline_capacity" | "al_size a = inline_capacity" | "inline_capacity < al_size a" by linarith
  then show ?thesis
  proof cases
    case 1
    then show ?thesis using assms
      by (simp add: al_push_back_def al_items_def al_data_def al_ok_def take_Suc_conv_app_nth)
  next
    case 2
    then show ?thesis using assms by (simp add: al_push_back_def al_items_def al_data_def al_ok_def)
  next
    case 3
    then show ?thesis using assms by (simp add: al_push_back_def al_items_def al_data_def al_ok_def)
  qed
qed

interpretation argument_list: sequence al_clear al_push_back al_items al_ok
  by unfold_locales (simp_all add: al_push_ok al_push_items, simp_all add: al_ok_def al_clear_def al_items_def)

lemma al_new_ok: "al_ok al_new"
  by (simp add: al_ok_def al_new_def)

section \<open>The size of a reply\<close>

lemma require_reply_space_ok:
  "require_reply_space output n = Inr u \<longleftrightarrow> length output + n \<le> max_reply_bytes"
  by (auto simp: require_reply_space_def)

lemma append_guarded_eq:
  "append_guarded n text output =
     (if length output + n \<le> max_reply_bytes then Inr (output @ text) else Inl (Error request_too_large))"
  by (auto simp: append_guarded_def require_reply_space_def)

lemma append_guarded_bound:
  "append_guarded n text output = Inr output1 \<Longrightarrow> length text \<le> n \<Longrightarrow>
     length output1 \<le> max_reply_bytes \<and> output1 = output @ text"
  by (auto simp: append_guarded_eq split: if_splits)

lemma length_decimal:
  assumes "- (2 ^ 63) \<le> i" "i < 2 ^ 63"
  shows "length (decimal i) \<le> 20"
proof -
  have "nat i < 10 ^ 19" "nat (- i) < 10 ^ 19" using assms by simp_all
  then have "length (decimal_nat (nat i)) \<le> 19" "length (decimal_nat (nat (- i))) \<le> 19"
    by (auto intro: length_decimal_nat)
  then show ?thesis by (simp add: decimal_def)
qed

lemma append_integer_bound:
  assumes "append_integer (sint (v :: int64)) output = Inr output1"
  shows "length output1 \<le> max_reply_bytes"
proof -
  have "length (decimal (sint v)) \<le> 20"
    using sint_range_size [of v] by (intro length_decimal) (simp_all add: word_size)
  then show ?thesis using assms append_guarded_bound unfolding append_integer_def by (simp add: CRLF_def)
qed

lemma append_bulk_view_bound:
  assumes "append_bulk_view text output = Inr output1"
  shows "length output1 \<le> max_reply_bytes"
proof -
  have l: "length text < 10 ^ 7" using assms by (auto simp: append_bulk_view_def max_reply_bytes_def split: if_splits)
  have "length (decimal_nat (length text)) \<le> 7" by (rule length_decimal_nat [OF l]) simp
  then show ?thesis using assms append_guarded_bound
    by (fastforce simp: append_bulk_view_def Let_def CRLF_def str_def split: if_splits)
qed

lemma parse_consumed:
  assumes "parse_command_slow input = Inr c"
  shows "bytes_consumed c \<le> length input"
proof -
  obtain line pos n strs pos1 where r: "readline input 1 = Inr (line, pos)" "slow_strings input n pos [] = Inr (strs, pos1)"
    "c = make_command strs pos1"
    using assms unfolding parse_command_slow_def by (auto split: if_splits sum.splits)
  have "pos \<le> length input" using readline_more [OF r(1)] by simp
  then show ?thesis using slow_strings_pos [OF r(2)] r(3) by (simp add: make_command_def)
qed

lemma parse_command_eq: "parse_command input = parse_command_slow input"
  by (simp add: parse_command_def parse_fast_slow)

section \<open>Properties\<close>

text \<open>
  C13. The fast path of the request parser and the general parser agree on every input: the same
  command with the same number of consumed bytes, or the same error.
\<close>

theorem parse_paths_agree: "parse_command_into input = parse_command_slow input"
  by (rule parse_fast_slow)

text \<open>
  C14. A request written by a client is read back exactly, whatever bytes follow it in the buffer:
  the first string is the command name, the others are its arguments in order, and the bytes
  consumed are the bytes of the request.
\<close>

theorem request_roundtrip:
  assumes "ss \<noteq> []" "length ss < 2 ^ 64" "\<forall>s \<in> set ss. length s < 2 ^ 64"
  shows "parse_command (encode_request ss @ rest) =
    Inr \<lparr>cmd_name = hd ss, cmd_arguments = tl ss, bytes_consumed = length (encode_request ss)\<rparr>"
  using parse_encoded [OF assms] by (simp add: parse_command_eq make_command_def)

theorem request_roundtrip_witness:
  "parse_command (encode_request [str ''GET'', str ''k''] @ [42]) =
    Inr \<lparr>cmd_name = str ''GET'', cmd_arguments = [str ''k''], bytes_consumed = length (encode_request [str ''GET'', str ''k''])\<rparr>"
  using request_roundtrip [of "[str ''GET'', str ''k'']" "[42]"] by simp

text \<open>
  C30. A request that arrives in pieces is waited for: on every non-empty proper prefix of a
  request the parser reports one of the errors after which the server keeps the bytes and reads on,
  never a command and never an error that drops the connection.
\<close>

theorem partial_request_waits:
  assumes "ss \<noteq> []" "length ss < 2 ^ 64" "\<forall>s \<in> set ss. length s < 2 ^ 64"
    and "encode_request ss = part @ more_bytes" "part \<noteq> []" "more_bytes \<noteq> []"
  shows "\<exists>e. parse_command part = Inl e \<and> is_incomplete_resp_error e"
proof (rule ccontr)
  assume "\<not> ?thesis"
  then have "parse_command_slow (part @ more_bytes) = parse_command_slow part"
    using assms(5) by (intro parse_slow_more) (auto simp: parse_command_eq)
  then have "parse_command_slow part = Inr (make_command ss (length (encode_request ss)))"
    using parse_encoded [OF assms(1-3), of "[]"] assms(4) by simp
  from parse_consumed [OF this] show False using assms(4,6) by (simp add: make_command_def)
qed

theorem partial_request_waits_witness:
  "\<exists>e. parse_command (str ''*1'' @ CRLF @ str ''$4'') = Inl e \<and> is_incomplete_resp_error e"
  using partial_request_waits [of "[str ''PING'']" "str ''*1'' @ CRLF @ str ''$4''" "CRLF @ str ''PING'' @ CRLF"]
  by (simp add: encode_request_def encode_bulk_def decimal_nat.simps CRLF_def str_def)

text \<open>
  An answer of the parser is final: once it reports a command or an error other than the
  incomplete ones, no bytes that arrive later change it.
\<close>

lemma parse_final:
  assumes "input \<noteq> []" "\<And>e. parse_command input = Inl e \<Longrightarrow> \<not> is_incomplete_resp_error e"
  shows "parse_command (input @ later) = parse_command input"
  using assms parse_slow_more unfolding parse_command_eq by blast

lemma parse_final_witness:
  "parse_command (str ''GET'' @ str '' k'') = parse_command (str ''GET'')"
  using parse_final [of "str ''GET''" "str '' k''"]
  by (simp add: parse_command_eq parse_command_slow_def is_incomplete_resp_error_def str_def)

text \<open>
  C31. The classification by folded integer tags recognises a command exactly when the name is
  the command's name up to the case of its letters, and every other name is unknown; an unknown
  command counts as a write.
\<close>

theorem classify_by_name: "classify_command name = command_named name"
  using classify_long classify_short by blast

text \<open>
  A reused argument list holds exactly the arguments pushed since it was cleared, whatever it
  held before, on both sides of the limit of its inline storage.
\<close>

lemma argument_list_refill:
  "al_items (fold al_push_back new_args (al_clear (fold al_push_back old_args al_new))) = new_args"
  using argument_list.refill argument_list.push_all al_new_ok by blast

text \<open>A signed 64-bit integer written in decimal is read back as itself, at both ends of its range.\<close>

lemma integer_roundtrip: "from_chars_i64 (decimal (sint v)) = Some v"
  by (rule from_chars_decimal)

end
