(* ===== verification/Keyspace.thy ===== *)
theory Keyspace
  imports Lru Expiry NodeMeta Slab Wal Pack
begin

text \<open>
  The keyspace of the database (\<^verbatim>\<open>Database\<close> in \<^verbatim>\<open>src/database.hpp\<close> and \<^verbatim>\<open>src/database.cpp\<close>): nodes in
  slab blocks, the chained hash table with its rehashing, and the operations every command is
  built from: lookup, creation, linking, removal, replacement and growth of nodes, expiry and
  eviction. The recency list, the expiry schedule, the node header, the allocator and the log are
  the structures of the theories this one imports.
\<close>

section \<open>Definitions\<close>

subsection \<open>Nodes\<close>

text \<open>
  A node and the bytes of its block: the header words, the key, the exact size an oversized block
  stores behind the key, and the body, which has as many bytes as the block has room for. The
  \<^verbatim>\<open>ListBody\<close> struct at the start of a list body and the table that a promoted hash points to
  are fields of their own.
\<close>

record node =
  key_meta :: u32
  n_count :: u32
  key_bytes :: bytes
  exact_size :: u32
  body :: bytes
  list_head :: nat
  list_used :: nat
  hash_table :: "(bytes \<times> element) list"

definition node_key_length :: "node \<Rightarrow> nat" where
  "node_key_length n = unat (meta_key_length (key_meta n))"

definition node_type :: "node \<Rightarrow> node_kind" where
  "node_type n = meta_type (key_meta n)"

definition node_flags :: "node \<Rightarrow> byte" where
  "node_flags n = meta_flags (key_meta n)"

definition node_size_class :: "node \<Rightarrow> byte" where
  "node_size_class n = meta_size_class (key_meta n)"

definition set_type :: "node_kind \<Rightarrow> node \<Rightarrow> node" where
  "set_type t n = n\<lparr>key_meta := set_meta_type t (key_meta n)\<rparr>"

definition set_flags :: "byte \<Rightarrow> node \<Rightarrow> node" where
  "set_flags f n = n\<lparr>key_meta := set_meta_flags f (key_meta n)\<rparr>"

definition has_flag :: "byte \<Rightarrow> node \<Rightarrow> bool" where
  "has_flag f n \<longleftrightarrow> node_flags n AND f \<noteq> 0"

definition node_bytes :: nat where
  "node_bytes = 32"

definition node_block_size :: "node \<Rightarrow> nat" where
  "node_block_size n =
     (if node_size_class n = oversized_class then unat (exact_size n)
      else class_sizes ! unat (node_size_class n))"

definition payload_offset :: "node \<Rightarrow> nat" where
  "payload_offset n =
     node_bytes + unat (key_stride (meta_key_length (key_meta n)))
     + (if node_size_class n = oversized_class then 8 else 0)"

definition node_body_capacity :: "node \<Rightarrow> nat" where
  "node_body_capacity n = node_block_size n - payload_offset n"

definition string_value :: "node \<Rightarrow> bytes" where
  "string_value n = take (unat (n_count n)) (body n)"

definition integer_value :: "node \<Rightarrow> int64" where
  "integer_value n = le_decode (take 8 (body n))"

text \<open>Writing bytes into a buffer at an offset.\<close>

definition write_at :: "nat \<Rightarrow> bytes \<Rightarrow> bytes \<Rightarrow> bytes" where
  "write_at i bs buf = take i buf @ bs @ drop (i + length bs) buf"

definition set_integer_value :: "int64 \<Rightarrow> node \<Rightarrow> node" where
  "set_integer_value v n = n\<lparr>body := write_at 0 (store_u64 v) (body n)\<rparr>"

definition hash_count :: "node \<Rightarrow> nat" where
  "hash_count n = unat (hash_count_of (n_count n))"

definition set_hash_count :: "nat \<Rightarrow> node \<Rightarrow> node" where
  "set_hash_count k n = n\<lparr>n_count := set_hash_count_of (of_nat k) (n_count n)\<rparr>"

definition hash_used :: "node \<Rightarrow> nat" where
  "hash_used n = unat (hash_used_of (n_count n))"

definition set_hash_used :: "nat \<Rightarrow> node \<Rightarrow> node" where
  "set_hash_used k n = n\<lparr>n_count := set_hash_used_of (of_nat k) (n_count n)\<rparr>"

definition list_body_bytes :: nat where
  "list_body_bytes = 8"

definition list_run_capacity :: "node \<Rightarrow> nat" where
  "list_run_capacity n =
     (let b = node_body_capacity n in if list_body_bytes < b then b - list_body_bytes else 0)"

definition list_run :: "node \<Rightarrow> bytes" where
  "list_run n = drop list_body_bytes (body n)"

definition set_list_run :: "bytes \<Rightarrow> node \<Rightarrow> node" where
  "set_list_run r n = n\<lparr>body := take list_body_bytes (body n) @ r\<rparr>"

definition hash_packed_limit :: nat where
  "hash_packed_limit = 128"

definition hash_packed_byte_limit :: nat where
  "hash_packed_byte_limit = 4096"

definition initial_bucket_count :: nat where
  "initial_bucket_count = 16"

text \<open>FNV-1a over the key, folded to 32 bits.\<close>

definition hash_key :: "bytes \<Rightarrow> u32" where
  "hash_key key =
     (let h = foldl (\<lambda>h b. (h XOR ucast b) * 0x100000001B3) (0xCBF29CE484222325 :: u64) key
      in ucast (h XOR drop_bit 32 h))"

subsection \<open>The database and its environment\<close>

record db =
  d_pool :: pool
  d_nodes :: "addr \<Rightarrow> node option"
  d_buckets :: "addr list list"
  d_lru :: lru
  d_sched :: schedule
  key_total :: nat
  key_hint :: nat
  max_keys :: nat
  tracked_bytes :: nat
  ttl_key_count :: nat
  ttl_hint :: bool
  evictions :: u64
  expired_keys :: u64
  sequence_no :: u64
  d_wal :: "wal option"
  replaying :: bool

text \<open>
  What the code takes from outside: \<^verbatim>\<open>operator new\<close>; the allocations and deallocations the standard
  containers make in the memory resource, in amounts of their own choice and by the number of the
  call; the bytes a new block happens to hold; the order in which an \<^verbatim>\<open>unordered_map\<close> is iterated;
  the outcomes of the calls to the operating system; and the readings of the two clocks.
\<close>

record env =
  e_place :: placer
  e_std :: "nat \<Rightarrow> pool \<Rightarrow> (exn + unit) \<times> pool"
  e_free :: "nat \<Rightarrow> pool \<Rightarrow> pool"
  e_junk :: "nat \<Rightarrow> byte"
  e_iter :: "(bytes \<times> element) list \<Rightarrow> (bytes \<times> element) list"
  e_io :: io_env
  e_steady :: "nat \<Rightarrow> int"
  e_wall :: "nat \<Rightarrow> int"

definition db_init :: "nat \<Rightarrow> nat \<Rightarrow> db" where
  "db_init keys memory =
     \<lparr>d_pool = pool_init memory True, d_nodes = (\<lambda>_. None), d_buckets = replicate initial_bucket_count [],
      d_lru = lru_init, d_sched = schedule_init, key_total = 0, key_hint = 0,
      max_keys = (if keys = 0 then 1 else keys), tracked_bytes = 0, ttl_key_count = 0, ttl_hint = False,
      evictions = 0, expired_keys = 0, sequence_no = 0, d_wal = None, replaying = False\<rparr>"

text \<open>A container allocation: the memory resource changes, and the operation goes on or raises.\<close>

definition std_alloc :: "env \<Rightarrow> nat \<Rightarrow> db \<Rightarrow> (exn + unit) \<times> db" where
  "std_alloc e k d = (case e_std e k (d_pool d) of (r, p) \<Rightarrow> (r, d\<lparr>d_pool := p\<rparr>))"

definition std_free :: "env \<Rightarrow> nat \<Rightarrow> db \<Rightarrow> db" where
  "std_free e k d = d\<lparr>d_pool := e_free e k (d_pool d)\<rparr>"

text \<open>The node at an address; following a pointer to no node is undefined and excluded by the invariant.\<close>

definition node_at :: "db \<Rightarrow> addr \<Rightarrow> node" where
  "node_at d a = the (d_nodes d a)"

definition put_node :: "addr \<Rightarrow> node \<Rightarrow> db \<Rightarrow> db" where
  "put_node a n d = d\<lparr>d_nodes := (d_nodes d)(a \<mapsto> n)\<rparr>"

definition touch_node :: "addr \<Rightarrow> db \<Rightarrow> db" where
  "touch_node a d = d\<lparr>d_lru := touch a (d_lru d)\<rparr>"

definition bump_sequence :: "db \<Rightarrow> db" where
  "bump_sequence d = d\<lparr>sequence_no := sequence_no d + 1\<rparr>"

definition set_key_total :: "nat \<Rightarrow> db \<Rightarrow> db" where
  "set_key_total n d = d\<lparr>key_total := n, key_hint := n\<rparr>"

definition db_log :: "env \<Rightarrow> wal_op \<Rightarrow> bytes list \<Rightarrow> db \<Rightarrow> (exn + unit) \<times> db" where
  "db_log e opr args d =
     (case d_wal d of
        None \<Rightarrow> (Inr (), d)
      | Some w \<Rightarrow>
          if replaying d then (Inr (), d)
          else (case append (e_io e) (op_code opr) args w of (r, w') \<Rightarrow> (r, d\<lparr>d_wal := Some w'\<rparr>)))"

definition begin_wal_batch :: "db \<Rightarrow> db" where
  "begin_wal_batch d = d\<lparr>d_wal := map_option begin_batch (d_wal d)\<rparr>"

definition end_wal_batch :: "env \<Rightarrow> db \<Rightarrow> (exn + unit) \<times> db" where
  "end_wal_batch e d =
     (case d_wal d of
        None \<Rightarrow> (Inr (), d)
      | Some w \<Rightarrow> (case end_batch (e_io e) w of (r, w') \<Rightarrow> (r, d\<lparr>d_wal := Some w'\<rparr>)))"

definition maintenance_needed :: "db \<Rightarrow> bool" where
  "maintenance_needed d \<longleftrightarrow> ttl_hint d \<or> max_keys d < key_hint d"

definition over_capacity :: "db \<Rightarrow> bool" where
  "over_capacity d \<longleftrightarrow> max_keys d < key_hint d"

subsection \<open>The hash table\<close>

definition bucket_of :: "bytes \<Rightarrow> nat \<Rightarrow> nat" where
  "bucket_of key len = unat (hash_key key) AND (len - 1)"

definition key_matches :: "bytes \<Rightarrow> node \<Rightarrow> bool" where
  "key_matches key n \<longleftrightarrow>
     node_key_length n = length key \<and> (key = [] \<or> take (length key) (key_bytes n) = key)"

definition find_node :: "bytes \<Rightarrow> db \<Rightarrow> addr option" where
  "find_node key d =
     List.find (\<lambda>a. key_matches key (node_at d a)) (d_buckets d ! bucket_of key (length (d_buckets d)))"

text \<open>The key a node stores, read back from its block.\<close>

definition stored_key :: "node \<Rightarrow> bytes" where
  "stored_key n = take (node_key_length n) (key_bytes n)"

definition link :: "addr \<Rightarrow> db \<Rightarrow> db" where
  "link a d =
     (let i = bucket_of (stored_key (node_at d a)) (length (d_buckets d))
      in d\<lparr>d_buckets := (d_buckets d)[i := a # d_buckets d ! i]\<rparr>)"

definition unlink :: "addr \<Rightarrow> db \<Rightarrow> db" where
  "unlink a d =
     (let i = bucket_of (stored_key (node_at d a)) (length (d_buckets d))
      in d\<lparr>d_buckets := (d_buckets d)[i := remove1 a (d_buckets d ! i)]\<rparr>)"

fun rehash_chain :: "db \<Rightarrow> nat \<Rightarrow> addr list \<Rightarrow> addr list list \<Rightarrow> addr list list" where
  "rehash_chain d m [] fresh = fresh"
| "rehash_chain d m (a # rest) fresh =
     (let i = unat (hash_key (stored_key (node_at d a))) AND m
      in rehash_chain d m rest (fresh[i := a # fresh ! i]))"

definition rehash :: "env \<Rightarrow> nat \<Rightarrow> db \<Rightarrow> (exn + unit) \<times> db" where
  "rehash e n d =
     (case std_alloc e 0 d of
        (Inl x, d1) \<Rightarrow> (Inl x, d1)
      | (Inr _, d1) \<Rightarrow>
          let fresh = foldl (\<lambda>fresh chain. rehash_chain d1 (n - 1) chain fresh) (replicate n []) (d_buckets d1)
          in (Inr (), std_free e 0 (d1\<lparr>d_buckets := fresh\<rparr>)))"

definition maybe_rehash :: "env \<Rightarrow> db \<Rightarrow> (exn + unit) \<times> db" where
  "maybe_rehash e d =
     (if key_total d + 1 \<le> length (d_buckets d) then (Inr (), d)
      else if 2 ^ 31 \<le> length (d_buckets d) then (Inr (), d)
      else rehash e (length (d_buckets d) * 2) d)"

subsection \<open>Expiry\<close>

definition clear_expiry :: "env \<Rightarrow> addr \<Rightarrow> db \<Rightarrow> db" where
  "clear_expiry e a d =
     (case expiries (d_sched d) a of
        None \<Rightarrow> d
      | Some _ \<Rightarrow>
          let s = sched_clear a (d_sched d);
              d1 = std_free e 1 (d\<lparr>d_sched := s\<rparr>);
              n = node_at d1 a;
              d2 = put_node a (set_flags (node_flags n AND NOT flag_has_ttl) n) d1
          in d2\<lparr>ttl_key_count := length (expiry_heap s), ttl_hint := length (expiry_heap s) \<noteq> 0\<rparr>)"

definition schedule_expiry :: "env \<Rightarrow> addr \<Rightarrow> int \<Rightarrow> db \<Rightarrow> (exn + unit) \<times> db" where
  "schedule_expiry e a dl d =
     (case (if expiries (d_sched d) a = None then std_alloc e 1 d else (Inr (), d)) of
        (Inl x, d1) \<Rightarrow> (Inl x, d1)
      | (Inr _, d1) \<Rightarrow>
          let s = sched_add a dl (d_sched d1);
              n = node_at d1 a;
              d2 = put_node a (set_flags (node_flags n OR flag_has_ttl) n) (d1\<lparr>d_sched := s\<rparr>)
          in (Inr (), d2\<lparr>ttl_key_count := length (expiry_heap s), ttl_hint := True\<rparr>))"

subsection \<open>Creating and removing nodes\<close>

text \<open>The size of the block for a body, and its slab class.\<close>

definition node_layout :: "nat \<Rightarrow> nat \<Rightarrow> nat \<times> nat" where
  "node_layout key_room cap =
     (let requested = node_bytes + key_room + cap
      in if requested \<le> largest_class then (class_sizes ! class_index requested, class_index requested)
         else (requested + 8, unat oversized_class))"

definition fresh_body :: "env \<Rightarrow> node \<Rightarrow> node" where
  "fresh_body e n = n\<lparr>body := map (e_junk e) [0..<node_body_capacity n]\<rparr>"

definition create_node :: "env \<Rightarrow> bytes \<Rightarrow> node_kind \<Rightarrow> nat \<Rightarrow> db \<Rightarrow> (exn + addr) \<times> db" where
  "create_node e key type cap d =
     (case node_layout (unat (key_stride (of_nat (length key)))) cap of (block, cls) \<Rightarrow>
        if 2 ^ 32 - 1 < block then (Inl BadAlloc, d)
        else case slab_allocate (e_place e) block (d_pool d) of
          (Inl x, p) \<Rightarrow> (Inl x, d\<lparr>d_pool := p\<rparr>)
        | (Inr a, p) \<Rightarrow>
            let n = fresh_body e
                      \<lparr>key_meta = make_key_meta (length key) type 0 (of_nat cls), n_count = 0,
                       key_bytes = key, exact_size = of_nat block, body = [],
                       list_head = 0, list_used = 0, hash_table = []\<rparr>
            in (Inr a, put_node a n (d\<lparr>d_pool := p, d_lru := clear_links a (d_lru d),
                         tracked_bytes := tracked_bytes d + block\<rparr>)))"

definition destroy :: "env \<Rightarrow> addr \<Rightarrow> db \<Rightarrow> db" where
  "destroy e a d =
     (let n = node_at d a;
          d1 = (if node_type n = NHash \<and> has_flag flag_hash_promoted n then std_free e 2 d else d);
          block = node_block_size n
      in d1\<lparr>tracked_bytes := sub64 (tracked_bytes d1) block,
            d_pool := slab_deallocate a block (d_pool d1),
            d_nodes := (d_nodes d1)(a := None)\<rparr>)"

definition erase_node :: "env \<Rightarrow> addr \<Rightarrow> db \<Rightarrow> db" where
  "erase_node e a d =
     (let d1 = clear_expiry e a d;
          d2 = d1\<lparr>d_lru := unlink_lru a (d_lru d1)\<rparr>;
          d3 = unlink a d2;
          d4 = set_key_total (sub64 (key_total d3) 1) d3
      in bump_sequence (destroy e a d4))"

definition commit_node :: "env \<Rightarrow> addr option \<Rightarrow> addr \<Rightarrow> bool \<Rightarrow> db \<Rightarrow> db" where
  "commit_node e old fresh keep_ttl d =
     (let d1 = (case old of
                  Some a \<Rightarrow>
                    if keep_ttl \<and> has_flag flag_has_ttl (node_at d a) then
                      let n = node_at d fresh
                      in put_node fresh (set_flags (node_flags n OR flag_has_ttl) n)
                           (d\<lparr>d_sched := sched_rekey a fresh (d_sched d)\<rparr>)
                    else d
                | None \<Rightarrow> d);
          d2 = (case old of Some a \<Rightarrow> erase_node e a d1 | None \<Rightarrow> d1);
          d3 = touch_node fresh (link fresh d2)
      in bump_sequence (set_key_total (key_total d3 + 1) d3))"

definition clear_keyspace :: "env \<Rightarrow> db \<Rightarrow> db" where
  "clear_keyspace e d =
     (let d1 = fold (destroy e) (concat (d_buckets d)) d;
          d2 = d1\<lparr>d_buckets := replicate (length (d_buckets d1)) [],
                 d_lru := (d_lru d1)\<lparr>lru_head := None, lru_tail := None\<rparr>,
                 key_total := 0, ttl_key_count := 0, d_sched := schedule_init, key_hint := 0, ttl_hint := False\<rparr>
      in bump_sequence (std_free e 3 d2))"

definition insert_node :: "env \<Rightarrow> bytes \<Rightarrow> node_kind \<Rightarrow> nat \<Rightarrow> db \<Rightarrow> (exn + addr) \<times> db" where
  "insert_node e key type cap d =
     (case maybe_rehash e d of
        (Inl x, d1) \<Rightarrow> (Inl x, d1)
      | (Inr _, d1) \<Rightarrow>
          (let i = bucket_of key (length (d_buckets d1))
           in case create_node e key type cap d1 of
                (Inl x, d2) \<Rightarrow> (Inl x, d2)
              | (Inr a, d2) \<Rightarrow>
                  let d3 = touch_node a (d2\<lparr>d_buckets := (d_buckets d2)[i := a # d_buckets d2 ! i]\<rparr>)
                  in (Inr a, bump_sequence (set_key_total (key_total d3 + 1) d3))))"

text \<open>The block that replaces a node on growth: same header fields, links, key and first body bytes.\<close>

definition moved_node :: "env \<Rightarrow> node \<Rightarrow> nat \<Rightarrow> nat \<Rightarrow> node" where
  "moved_node e n block cls =
     (let m = n\<lparr>key_meta := make_key_meta (node_key_length n) (node_type n) (node_flags n) (of_nat cls),
                exact_size := of_nat block\<rparr>;
          copy = min (node_body_capacity n) (node_body_capacity m)
      in m\<lparr>body := take copy (body n) @ map (e_junk e) [copy..<node_body_capacity m]\<rparr>)"

definition grow_node :: "env \<Rightarrow> addr \<Rightarrow> nat \<Rightarrow> db \<Rightarrow> (exn + addr) \<times> db" where
  "grow_node e a cap d =
     (let n = node_at d a
      in case node_layout (unat (key_stride (of_nat (node_key_length n)))) cap of (block, cls) \<Rightarrow>
        if 2 ^ 32 - 1 < block then (Inl BadAlloc, d)
        else case slab_allocate (e_place e) block (d_pool d) of
          (Inl x, p) \<Rightarrow> (Inl x, d\<lparr>d_pool := p\<rparr>)
        | (Inr fresh, p) \<Rightarrow>
            let d1 = put_node fresh (moved_node e n block cls)
                       (d\<lparr>d_pool := p, d_lru := relink_lru a fresh (d_lru d)\<rparr>);
                d2 = (if has_flag flag_has_ttl n then d1\<lparr>d_sched := sched_rekey a fresh (d_sched d1)\<rparr> else d1);
                i = bucket_of (stored_key (node_at d2 fresh)) (length (d_buckets d2));
                d3 = d2\<lparr>d_buckets := (d_buckets d2)[i := map (\<lambda>x. if x = a then fresh else x) (d_buckets d2 ! i)]\<rparr>;
                d4 = d3\<lparr>tracked_bytes := sub64 (tracked_bytes d3) (node_block_size n) + block,
                        d_pool := slab_deallocate a (node_block_size n) (d_pool d3),
                        d_nodes := (d_nodes d3)(a := None)\<rparr>
            in (Inr fresh, bump_sequence d4))"

text \<open>Arithmetic on \<^verbatim>\<open>std::uint32_t\<close> wraps around.\<close>

definition w32 :: "nat \<Rightarrow> nat" where
  "w32 n = n mod 2 ^ 32"

definition sub32 :: "nat \<Rightarrow> nat \<Rightarrow> nat" where
  "sub32 a b = (if b \<le> a then a - b else a + 2 ^ 32 - b)"

definition grown_capacity :: "nat \<Rightarrow> nat \<Rightarrow> nat" where
  "grown_capacity required current =
     (let capacity = max required 32;
          capacity = (if current \<noteq> 0 \<and> capacity < w32 (current * 2) then w32 (current * 2) else capacity)
      in if capacity < required then required else capacity)"

subsection \<open>Lookup with expiry\<close>

definition expired_at :: "addr \<Rightarrow> int \<Rightarrow> db \<Rightarrow> bool" where
  "expired_at a now d \<longleftrightarrow>
     (case expiries (d_sched d) a of None \<Rightarrow> False | Some x \<Rightarrow> deadline x \<le> now)"

definition find_active :: "env \<Rightarrow> bytes \<Rightarrow> db \<Rightarrow> addr option \<times> db" where
  "find_active e key d =
     (case find_node key d of
        None \<Rightarrow> (None, d)
      | Some a \<Rightarrow>
          if has_flag flag_has_ttl (node_at d a) \<and> expired_at a (e_steady e 0) d \<and> \<not> replaying d
          then (None, d)
          else (Some a, touch_node a d))"

definition find_writable :: "env \<Rightarrow> bytes \<Rightarrow> db \<Rightarrow> (exn + addr option) \<times> db" where
  "find_writable e key d =
     (if max_key_length < length key then (Inl (Error request_too_large), d)
      else case find_node key d of
        None \<Rightarrow> (Inr None, d)
      | Some a \<Rightarrow>
          if \<not> replaying d \<and> has_flag flag_has_ttl (node_at d a) \<and> expired_at a (e_steady e 0) d then
            (case db_log e op_del [key] d of
               (Inl x, d1) \<Rightarrow> (Inl x, d1)
             | (Inr _, d1) \<Rightarrow>
                 let d2 = erase_node e a d1
                 in (Inr None, d2\<lparr>expired_keys := expired_keys d2 + 1\<rparr>))
          else (Inr (Some a), touch_node a d))"

subsection \<open>Eviction and expiry sweeps\<close>

fun evict_loop :: "env \<Rightarrow> nat \<Rightarrow> nat \<Rightarrow> nat \<Rightarrow> db \<Rightarrow> (exn + nat) \<times> db" where
  "evict_loop e target 0 evicted d = (Inr evicted, d)"
| "evict_loop e target (Suc limit) evicted d =
     (if key_total d \<le> target then (Inr evicted, d)
      else case lru_tail (d_lru d) of
        None \<Rightarrow> (Inr evicted, d)
      | Some a \<Rightarrow>
          (case db_log e op_del [stored_key (node_at d a)] d of
             (Inl x, d1) \<Rightarrow> (Inl x, d1)
           | (Inr _, d1) \<Rightarrow>
               let d2 = erase_node e a d1;
                   d3 = d2\<lparr>evictions := evictions d2 + 1\<rparr>
               in evict_loop e target limit (evicted + 1) d3))"

text \<open>The body of a maintenance operation between \<^verbatim>\<open>begin_wal_batch\<close> and \<^verbatim>\<open>end_wal_batch\<close>.\<close>

definition in_batch :: "env \<Rightarrow> (db \<Rightarrow> (exn + 'a) \<times> db) \<Rightarrow> db \<Rightarrow> (exn + 'a) \<times> db" where
  "in_batch e work d =
     (case work (begin_wal_batch d) of
        (Inl x, d1) \<Rightarrow>
          (case end_wal_batch e d1 of (Inl y, d2) \<Rightarrow> (Inl y, d2) | (Inr _, d2) \<Rightarrow> (Inl x, d2))
      | (Inr v, d1) \<Rightarrow>
          (case end_wal_batch e d1 of (Inl y, d2) \<Rightarrow> (Inl y, d2) | (Inr _, d2) \<Rightarrow> (Inr v, d2)))"

definition evict_to :: "env \<Rightarrow> nat \<Rightarrow> nat \<Rightarrow> db \<Rightarrow> (exn + nat) \<times> db" where
  "evict_to e target limit d = in_batch e (evict_loop e target limit 0) d"

fun expire_loop :: "env \<Rightarrow> int \<Rightarrow> nat \<Rightarrow> db \<Rightarrow> (exn + unit) \<times> db" where
  "expire_loop e now 0 d = (Inr (), d)"
| "expire_loop e now (Suc limit) d =
     (case sched_front (d_sched d) of
        None \<Rightarrow> (Inr (), d)
      | Some a \<Rightarrow>
          if now < deadline_of (d_sched d) a then (Inr (), d)
          else (case db_log e op_del [stored_key (node_at d a)] d of
                  (Inl x, d1) \<Rightarrow> (Inl x, d1)
                | (Inr _, d1) \<Rightarrow>
                    let d2 = erase_node e a d1;
                        d3 = d2\<lparr>expired_keys := expired_keys d2 + 1\<rparr>
                    in expire_loop e now limit d3))"

definition remove_expired_locked :: "env \<Rightarrow> nat \<Rightarrow> db \<Rightarrow> (exn + unit) \<times> db" where
  "remove_expired_locked e limit d = in_batch e (expire_loop e (e_steady e 0) limit) d"

definition remove_expired :: "env \<Rightarrow> nat \<Rightarrow> db \<Rightarrow> (exn + unit) \<times> db" where
  "remove_expired e limit d =
     (if \<not> ttl_hint d then (Inr (), d) else remove_expired_locked e limit d)"

section \<open>Abstract keyspace\<close>

datatype obj = OString bytes | OInteger int64 | OList "element list" | OHash "bytes \<Rightarrow> element option"

definition pair_bytes :: "bytes \<times> element \<Rightarrow> bytes" where
  "pair_bytes p = encode_body_text (fst p) @ encode_body (snd p)"

definition max_value_bytes :: nat where
  "max_value_bytes = 64 * 1024 * 1024"

definition max_list_bytes :: nat where
  "max_list_bytes = 4 * max_value_bytes"

text \<open>A list is a run of elements inside the body; a packed hash is a sequence of field and value bodies.\<close>

definition list_rep :: "node \<Rightarrow> element list \<Rightarrow> bool" where
  "list_rep n xs \<longleftrightarrow>
     (\<forall>x \<in> set xs. element_ok x) \<and> unat (n_count n) = length xs
     \<and> list_used n = length (concat (map encode_element xs)) \<and> list_used n \<le> max_value_bytes
     \<and> list_body_bytes + list_head n + list_used n \<le> length (body n)
     \<and> take (list_used n) (drop (list_head n) (list_run n)) = concat (map encode_element xs)
     \<and> length (body n) \<le> max_list_bytes"

definition packed_rep :: "node \<Rightarrow> (bytes \<times> element) list \<Rightarrow> bool" where
  "packed_rep n ps \<longleftrightarrow>
     distinct (map fst ps) \<and> (\<forall>p \<in> set ps. length (fst p) < 2 ^ 32 \<and> element_ok (snd p))
     \<and> hash_count n = length ps \<and> length ps \<le> hash_packed_limit
     \<and> hash_used n = length (concat (map pair_bytes ps)) \<and> hash_used n \<le> hash_packed_byte_limit
     \<and> hash_used n \<le> length (body n) \<and> take (hash_used n) (body n) = concat (map pair_bytes ps)"

definition promoted_rep :: "node \<Rightarrow> (bytes \<times> element) list \<Rightarrow> bool" where
  "promoted_rep n ps \<longleftrightarrow>
     distinct (map fst ps) \<and> (\<forall>p \<in> set ps. length (fst p) < 2 ^ 32 \<and> element_ok (snd p)) \<and> hash_table n = ps"

text \<open>The object the bytes of a node stand for.\<close>

fun node_rep :: "node \<Rightarrow> obj \<Rightarrow> bool" where
  "node_rep n (OString s) \<longleftrightarrow>
     node_type n = NString \<and> unat (n_count n) = length s \<and> length s \<le> length (body n) \<and> take (length s) (body n) = s"
| "node_rep n (OInteger v) \<longleftrightarrow> node_type n = NInteger \<and> 8 \<le> length (body n) \<and> integer_value n = v"
| "node_rep n (OList xs) \<longleftrightarrow> node_type n = NList \<and> list_rep n xs"
| "node_rep n (OHash m) \<longleftrightarrow>
     node_type n = NHash \<and>
     (\<exists>ps. map_of ps = m \<and> (if has_flag flag_hash_promoted n then promoted_rep n ps else packed_rep n ps))"

definition node_wf :: "node \<Rightarrow> bool" where
  "node_wf n \<longleftrightarrow>
     node_key_length n = length (key_bytes n) \<and> length (key_bytes n) \<le> max_key_length
     \<and> payload_offset n \<le> node_block_size n \<and> length (body n) = node_body_capacity n"

record keyspace =
  ks_map :: "bytes \<Rightarrow> (obj \<times> int option) option"
  ks_order :: "bytes list"

definition a_touch :: "bytes \<Rightarrow> keyspace \<Rightarrow> keyspace" where
  "a_touch key A = A\<lparr>ks_order := key # remove1 key (ks_order A)\<rparr>"

definition a_put :: "bytes \<Rightarrow> obj \<times> int option \<Rightarrow> keyspace \<Rightarrow> keyspace" where
  "a_put key v A = A\<lparr>ks_map := (ks_map A)(key \<mapsto> v)\<rparr>"

definition a_drop :: "bytes \<Rightarrow> keyspace \<Rightarrow> keyspace" where
  "a_drop key A = A\<lparr>ks_map := (ks_map A)(key := None), ks_order := remove1 key (ks_order A)\<rparr>"

text \<open>The bytes of the body an object needs.\<close>

fun obj_room :: "node \<Rightarrow> obj \<Rightarrow> nat" where
  "obj_room n (OString s) = length s"
| "obj_room n (OInteger v) = 8"
| "obj_room n (OList xs) = 8 + list_head n + list_used n"
| "obj_room n (OHash m) = (if has_flag flag_hash_promoted n then 0 else hash_used n)"

section \<open>Node layout\<close>

lemma node_bytes_val [simp]: "node_bytes = 32" by (simp add: node_bytes_def)

lemma list_body_bytes_val [simp]: "list_body_bytes = 8" by (simp add: list_body_bytes_def)

lemma oversized_val: "unat oversized_class = 63" by (simp add: oversized_class_def)

lemma class_not_oversized: "cls < 36 \<Longrightarrow> (of_nat cls :: byte) \<noteq> oversized_class"
proof
  assume c: "cls < 36" "(of_nat cls :: byte) = oversized_class"
  have "unat (of_nat cls :: byte) = cls" using c(1) by (simp add: unat_of_nat)
  then show False using c oversized_val by simp
qed

lemma class_size_bound: "cls < 36 \<Longrightarrow> class_sizes ! cls \<le> 4096"
proof -
  assume "cls < 36"
  moreover have "\<forall>c \<in> set class_sizes. c \<le> 4096" "length class_sizes = 36" by (simp_all add: class_sizes_def)
  ultimately show ?thesis by simp
qed

text \<open>A header with a class and size from \<open>node_layout\<close> describes a block with room for the body.\<close>

lemma node_layout_ok:
  assumes "node_layout (unat (key_stride (of_nat k))) cap = (block, cls)" "block < 2 ^ 32" "k \<le> max_key_length"
    and "key_meta n = make_key_meta k t f (of_nat cls)" "exact_size n = of_nat block" "unat f < 4"
  shows "node_block_size n = block" "payload_offset n \<le> block" "cap \<le> node_body_capacity n"
    "node_key_length n = k" "node_type n = t" "node_flags n = f" "node_body_capacity n \<le> max cap 4096"
proof -
  let ?r = "32 + unat (key_stride (of_nat k)) + cap"
  have cls: "cls < 64" using assms(1) class_index_correct [of ?r] oversized_val
    by (auto simp: node_layout_def Let_def split: if_splits)
  have u: "unat (of_nat cls :: byte) = cls" using cls by (simp add: unat_of_nat)
  show l: "node_key_length n = k" "node_type n = t" "node_flags n = f"
    using assms(3,4,6) by (simp_all add: node_key_length_def node_type_def node_flags_def meta_simps)
  have sc: "node_size_class n = of_nat cls"
    using assms(4,6) cls u by (simp add: node_size_class_def make_key_meta_class)
  have km: "meta_key_length (key_meta n) = of_nat k"
    unfolding l(1) [symmetric] by (simp add: node_key_length_def)
  have "node_block_size n = block \<and> payload_offset n \<le> block \<and> cap \<le> node_body_capacity n
      \<and> node_body_capacity n \<le> max cap 4096"
  proof (cases "?r \<le> 4096")
    case True
    then have b: "block = class_sizes ! class_index ?r" "cls = class_index ?r"
      using assms(1) by (auto simp: node_layout_def Let_def)
    have c: "cls < 36" "?r \<le> block" using class_index_correct [of ?r] True b by simp_all
    then have "node_block_size n = block" "payload_offset n = 32 + unat (key_stride (of_nat k))"
      using sc class_not_oversized u b by (simp_all add: node_block_size_def payload_offset_def km)
    moreover have "block \<le> 4096" using class_size_bound [OF c(1)] b by simp
    ultimately show ?thesis using c(2) by (auto simp: node_body_capacity_def)
  next
    case False
    then have b: "block = ?r + 8" "cls = 63" using assms(1) oversized_val by (auto simp: node_layout_def Let_def)
    then have "node_size_class n = oversized_class" using sc by (simp add: oversized_class_def)
    then have "node_block_size n = block" "payload_offset n = 32 + unat (key_stride (of_nat k)) + 8"
      using assms(2,5) by (simp_all add: node_block_size_def payload_offset_def km unat_of_nat)
    then show ?thesis using b(1) by (simp add: node_body_capacity_def)
  qed
  then show "node_block_size n = block" "payload_offset n \<le> block" "cap \<le> node_body_capacity n"
    "node_body_capacity n \<le> max cap 4096"
    by simp_all
qed

lemma capacity_cong:
  assumes "key_meta m = key_meta n" "exact_size m = exact_size n"
  shows "node_block_size m = node_block_size n" "payload_offset m = payload_offset n"
    "node_body_capacity m = node_body_capacity n"
  using assms by (simp_all add: node_block_size_def payload_offset_def node_body_capacity_def node_size_class_def)

lemma fresh_body_simps [simp]:
  "key_meta (fresh_body e n) = key_meta n" "exact_size (fresh_body e n) = exact_size n"
  "key_bytes (fresh_body e n) = key_bytes n" "n_count (fresh_body e n) = n_count n"
  "list_head (fresh_body e n) = list_head n" "list_used (fresh_body e n) = list_used n"
  "hash_table (fresh_body e n) = hash_table n"
  by (simp_all add: fresh_body_def)

lemma moved_node_simps [simp]:
  "key_bytes (moved_node e n block cls) = key_bytes n" "n_count (moved_node e n block cls) = n_count n"
  "list_head (moved_node e n block cls) = list_head n" "list_used (moved_node e n block cls) = list_used n"
  "hash_table (moved_node e n block cls) = hash_table n"
  "key_meta (moved_node e n block cls) = make_key_meta (node_key_length n) (node_type n) (node_flags n) (of_nat cls)"
  "exact_size (moved_node e n block cls) = of_nat block"
  by (simp_all add: moved_node_def Let_def)

lemma node_flags_bound: "unat (node_flags n) < 4"
proof -
  have "unat (drop_bit 24 (key_meta n) AND 0x03) < 4"
    by (simp only: mask_consts take_bit_eq_mask [symmetric] unsigned_take_bit_eq) (simp add: take_bit_eq_mod)
  then show ?thesis
    by (simp add: node_flags_def meta_flags_def unsigned_ucast_eq take_bit_nat_eq_self)
qed

lemma has_flag_set:
  "has_flag flag_has_ttl (set_flags (node_flags n OR flag_has_ttl) n)"
  "\<not> has_flag flag_has_ttl (set_flags (node_flags n AND NOT flag_has_ttl) n)"
  "has_flag flag_hash_promoted (set_flags (node_flags n OR flag_has_ttl) n) = has_flag flag_hash_promoted n"
  "has_flag flag_hash_promoted (set_flags (node_flags n AND NOT flag_has_ttl) n) = has_flag flag_hash_promoted n"
proof -
  have ttl: "has_flag flag_has_ttl m = bit (node_flags m) 1" for m
    using and_exp_eq_0_iff_not_bit [of "node_flags m" 1] by (simp add: has_flag_def flag_has_ttl_def)
  have pro: "has_flag flag_hash_promoted m = bit (node_flags m) 0" for m
    using and_exp_eq_0_iff_not_bit [of "node_flags m" 0] by (simp add: has_flag_def flag_hash_promoted_def)
  have fl: "node_flags (set_flags f n) = f AND mask 2" for f
    by (simp add: node_flags_def set_flags_def meta_simps mask_consts(6) [symmetric])
  have two: "flag_has_ttl = push_bit 1 1" by (simp add: flag_has_ttl_def)
  show "has_flag flag_has_ttl (set_flags (node_flags n OR flag_has_ttl) n)"
    "\<not> has_flag flag_has_ttl (set_flags (node_flags n AND NOT flag_has_ttl) n)"
    "has_flag flag_hash_promoted (set_flags (node_flags n OR flag_has_ttl) n) = has_flag flag_hash_promoted n"
    "has_flag flag_hash_promoted (set_flags (node_flags n AND NOT flag_has_ttl) n) = has_flag flag_hash_promoted n"
    unfolding ttl pro fl unfolding two by (simp_all add: bit_simps del: push_bit_Suc)
qed

lemma set_flags_simps [simp]:
  "key_bytes (set_flags f n) = key_bytes n" "body (set_flags f n) = body n" "n_count (set_flags f n) = n_count n"
  "exact_size (set_flags f n) = exact_size n" "list_head (set_flags f n) = list_head n"
  "list_used (set_flags f n) = list_used n" "hash_table (set_flags f n) = hash_table n"
  "node_type (set_flags f n) = node_type n" "node_key_length (set_flags f n) = node_key_length n"
  "node_block_size (set_flags f n) = node_block_size n" "payload_offset (set_flags f n) = payload_offset n"
  "node_body_capacity (set_flags f n) = node_body_capacity n" "list_run (set_flags f n) = list_run n"
  "hash_count (set_flags f n) = hash_count n" "hash_used (set_flags f n) = hash_used n"
  "integer_value (set_flags f n) = integer_value n"
  by (simp_all add: set_flags_def node_type_def node_key_length_def node_block_size_def payload_offset_def
      node_size_class_def node_body_capacity_def list_run_def hash_count_def hash_used_def integer_value_def meta_simps)

lemma set_flags_wf [simp]: "node_wf (set_flags f n) = node_wf n"
  by (simp add: node_wf_def)

lemma set_flags_reps [simp]:
  "list_rep (set_flags f n) xs = list_rep n xs" "packed_rep (set_flags f n) ps = packed_rep n ps"
  "promoted_rep (set_flags f n) ps = promoted_rep n ps"
  by (simp_all add: list_rep_def packed_rep_def promoted_rep_def)

lemma set_flags_rep [simp]:
  "node_rep (set_flags (node_flags n OR flag_has_ttl) n) o1 = node_rep n o1"
  "node_rep (set_flags (node_flags n AND NOT flag_has_ttl) n) o1 = node_rep n o1"
  by (cases o1; simp add: has_flag_set)+

lemma fresh_body_length: "length (body (fresh_body e n)) = node_body_capacity (fresh_body e n)"
proof -
  have "node_body_capacity (fresh_body e n) = node_body_capacity n" by (rule capacity_cong) simp_all
  then show ?thesis by (simp add: fresh_body_def)
qed

lemma create_wf:
  assumes "node_layout (unat (key_stride (of_nat (length key)))) cap = (block, cls)" "block < 2 ^ 32"
    "length key \<le> max_key_length"
    and n: "n = fresh_body e \<lparr>key_meta = make_key_meta (length key) t 0 (of_nat cls), n_count = 0,
          key_bytes = key, exact_size = of_nat block, body = [], list_head = 0, list_used = 0, hash_table = []\<rparr>"
  shows "node_wf n" "cap \<le> length (body n)" "node_block_size n = block" "key_bytes n = key" "node_type n = t"
    "node_flags n = 0" "n_count n = 0" "list_head n = 0" "list_used n = 0" "length (body n) \<le> max cap 4096"
proof -
  have m: "key_meta n = make_key_meta (length key) t 0 (of_nat cls)" "exact_size n = of_nat block"
    using n by simp_all
  note l = node_layout_ok [OF assms(1-3) m]
  have b: "length (body n) = node_body_capacity n"
    unfolding n by (rule fresh_body_length)
  show "node_wf n" "cap \<le> length (body n)" "node_block_size n = block" "key_bytes n = key" "node_type n = t"
    "node_flags n = 0" "n_count n = 0" "list_head n = 0" "list_used n = 0" "length (body n) \<le> max cap 4096"
    using l b n assms(3) by (simp_all add: node_wf_def)
qed

lemma moved_ok:
  assumes "node_layout (unat (key_stride (of_nat (node_key_length n)))) cap = (block, cls)" "block < 2 ^ 32" "node_wf n"
  shows "node_wf (moved_node e n block cls)" "cap \<le> length (body (moved_node e n block cls))"
    "node_block_size (moved_node e n block cls) = block" "node_type (moved_node e n block cls) = node_type n"
    "node_flags (moved_node e n block cls) = node_flags n" "length (body (moved_node e n block cls)) \<le> max cap 4096"
    "k \<le> cap \<Longrightarrow> k \<le> length (body n) \<Longrightarrow> take k (body (moved_node e n block cls)) = take k (body n)"
proof -
  have kl: "node_key_length n \<le> max_key_length" using assms(3) by (simp add: node_wf_def)
  define m where "m = moved_node e n block cls"
  have m: "key_meta m = make_key_meta (node_key_length n) (node_type n) (node_flags n) (of_nat cls)"
    "exact_size m = of_nat block" "key_bytes m = key_bytes n" by (simp_all add: m_def)
  note l = node_layout_ok [OF assms(1,2) kl m(1,2) node_flags_bound]
  let ?m0 = "n\<lparr>key_meta := make_key_meta (node_key_length n) (node_type n) (node_flags n) (of_nat cls), exact_size := of_nat block\<rparr>"
  define c where "c = min (node_body_capacity n) (node_body_capacity m)"
  have m0: "node_body_capacity ?m0 = node_body_capacity m"
    by (rule capacity_cong(3)) (simp_all add: m)
  have b: "body m = take c (body n) @ map (e_junk e) [c..<node_body_capacity m]"
    unfolding m0 [symmetric] c_def unfolding m_def moved_node_def Let_def by simp
  have wl: "length (body n) = node_body_capacity n" using assms(3) by (simp add: node_wf_def)
  have bl: "length (body m) = node_body_capacity m" unfolding b using wl by (simp add: c_def)
  have "node_wf m" "cap \<le> length (body m)" "length (body m) \<le> max cap 4096" using l bl assms(3) m(3) by (simp_all add: node_wf_def)
  moreover have "take k (body m) = take k (body n)" if "k \<le> cap" "k \<le> length (body n)"
  proof -
    have "k \<le> c" using that l(3) wl by (simp add: c_def)
    then show ?thesis unfolding b using that(2) by (simp add: min_def)
  qed
  ultimately show "node_wf (moved_node e n block cls)" "cap \<le> length (body (moved_node e n block cls))"
    "node_block_size (moved_node e n block cls) = block" "node_type (moved_node e n block cls) = node_type n"
    "node_flags (moved_node e n block cls) = node_flags n" "length (body (moved_node e n block cls)) \<le> max cap 4096"
    "k \<le> cap \<Longrightarrow> k \<le> length (body n) \<Longrightarrow> take k (body (moved_node e n block cls)) = take k (body n)"
    using l by (simp_all add: m_def)
qed

lemma slice_take: "take u (drop h (drop (8 :: nat) b)) = drop (8 + h) (take (8 + h + u) b)"
  by (simp add: take_drop add.commute add.left_commute)

lemma moved_list_rep:
  assumes lay: "node_layout (unat (key_stride (of_nat (node_key_length n)))) cap = (block, cls)" "block < 2 ^ 32" "node_wf n"
    and rep: "list_rep n xs" and room: "8 + list_head n + list_used n \<le> cap" and small: "cap \<le> max_list_bytes"
  shows "list_rep (moved_node e n block cls) xs"
proof -
  note mo = moved_ok [OF lay, where e = e]
  have r: "8 + list_head n + list_used n \<le> length (body n)" using rep by (simp add: list_rep_def)
  have "take (list_used n) (drop (list_head n) (list_run (moved_node e n block cls))) =
      take (list_used n) (drop (list_head n) (list_run n))"
    unfolding list_run_def list_body_bytes_val slice_take mo(7) [OF room r] ..
  moreover have "4096 \<le> max_list_bytes" by (simp add: max_list_bytes_def max_value_bytes_def)
  then have "length (body (moved_node e n block cls)) \<le> max_list_bytes" using mo(6) small by linarith
  ultimately show ?thesis using rep room mo(2) unfolding list_rep_def by auto
qed

lemma moved_packed_rep:
  assumes lay: "node_layout (unat (key_stride (of_nat (node_key_length n)))) cap = (block, cls)" "block < 2 ^ 32" "node_wf n"
    and rep: "packed_rep n ps" and room: "hash_used n \<le> cap"
  shows "packed_rep (moved_node e n block cls) ps"
proof -
  note mo = moved_ok [OF lay, where e = e]
  have h: "hash_count (moved_node e n block cls) = hash_count n" "hash_used (moved_node e n block cls) = hash_used n"
    by (simp_all add: hash_count_def hash_used_def)
  have "hash_used n \<le> length (body n)" using rep by (simp add: packed_rep_def)
  then have "take (hash_used n) (body (moved_node e n block cls)) = take (hash_used n) (body n)"
    "hash_used n \<le> length (body (moved_node e n block cls))" using mo(2,7) room by auto
  then show ?thesis using rep unfolding packed_rep_def h by auto
qed

lemma moved_rep:
  assumes lay: "node_layout (unat (key_stride (of_nat (node_key_length n)))) cap = (block, cls)" "block < 2 ^ 32" "node_wf n"
    and rep: "node_rep n o1" and room: "obj_room n o1 \<le> cap" and small: "cap \<le> max_list_bytes"
  shows "node_rep (moved_node e n block cls) o1"
proof -
  note mo = moved_ok [OF lay, where e = e]
  have fl: "has_flag f (moved_node e n block cls) = has_flag f n" for f by (simp add: has_flag_def mo(5))
  show ?thesis
  proof (cases o1)
    case (OString s)
    then show ?thesis using rep room mo by simp
  next
    case (OInteger v)
    then show ?thesis using rep room mo by (simp add: integer_value_def)
  next
    case (OList xs)
    then show ?thesis using rep room small moved_list_rep [OF lay, of xs e] mo(4) by simp
  next
    case (OHash m)
    then show ?thesis
      using rep room moved_packed_rep [OF lay] mo(4) by (auto simp: fl promoted_rep_def split: if_splits)
  qed
qed

end
