(* ===== verification/KeyspaceRep.thy ===== *)
theory KeyspaceRep
  imports Keyspace
begin

text \<open>
  What the keyspace means: the invariant that relates the table, the recency list, the expiry
  schedule and the slab blocks of \<^verbatim>\<open>Database\<close> to an abstract keyspace, which is a map from keys to objects and
  deadlines with an order of recency, and the refinement lemma of each operation of \<open>Keyspace\<close>.
\<close>

section \<open>The invariant\<close>

type_synonym nodes = "addr \<Rightarrow> node option"

definition nkey :: "nodes \<Rightarrow> addr \<Rightarrow> bytes" where
  "nkey N a = key_bytes (the (N a))"

definition linked :: "addr list list \<Rightarrow> addr set" where
  "linked B = set (concat B)"

text \<open>
  The table: a power of two of chains without repetition, every node in the chain of its key, the
  keys distinct, and every block either linked or pending.
\<close>

definition table_ok :: "addr list list \<Rightarrow> nodes \<Rightarrow> addr set \<Rightarrow> bool" where
  "table_ok B N P \<longleftrightarrow>
     (\<exists>k. length B = 2 ^ k)
     \<and> (\<forall>i < length B. distinct (B ! i) \<and> (\<forall>a \<in> set (B ! i). bucket_of (nkey N a) (length B) = i))
     \<and> dom N = linked B \<union> P \<and> linked B \<inter> P = {} \<and> finite P \<and> inj_on (nkey N) (linked B)"

text \<open>The recency list holds the linked nodes; a pending node has no links.\<close>

definition order_ok :: "lru \<Rightarrow> addr set \<Rightarrow> nodes \<Rightarrow> addr set \<Rightarrow> bytes list \<Rightarrow> bool" where
  "order_ok l L N P order \<longleftrightarrow>
     (\<exists>xs. dll l xs \<and> set xs = L \<and> order = map (nkey N) xs)
     \<and> (\<forall>a \<in> P. lru_previous l a = None \<and> lru_next l a = None)"

definition timers_ok :: "schedule \<Rightarrow> addr set \<Rightarrow> nodes \<Rightarrow> bool" where
  "timers_ok s L N \<longleftrightarrow>
     sched_inv s \<and> (\<forall>a. deadlines s a \<noteq> None \<longleftrightarrow> a \<in> L \<and> has_flag flag_has_ttl (the (N a)))"

definition live :: "nodes \<Rightarrow> addr \<Rightarrow> nat option" where
  "live N a = map_option node_block_size (N a)"

definition kv_ok :: "(bytes \<Rightarrow> (obj \<times> int option) option) \<Rightarrow> schedule \<Rightarrow> addr set \<Rightarrow> nodes \<Rightarrow> bool" where
  "kv_ok M s L N \<longleftrightarrow>
     dom M = nkey N ` L
     \<and> (\<forall>a \<in> L. \<exists>ob. M (nkey N a) = Some (ob, deadlines s a) \<and> node_rep (the (N a)) ob)"

definition counts_ok :: "db \<Rightarrow> bool" where
  "counts_ok d \<longleftrightarrow>
     key_total d = card (linked (d_buckets d)) \<and> key_hint d = key_total d
     \<and> ttl_key_count d = length (expiry_heap (d_sched d)) \<and> (ttl_hint d \<longleftrightarrow> expiry_heap (d_sched d) \<noteq> [])
     \<and> tracked_bytes d = (\<Sum>a \<in> dom (d_nodes d). node_block_size (the (d_nodes d a)))"

definition db_rep :: "addr set \<Rightarrow> db \<Rightarrow> keyspace \<Rightarrow> bool" where
  "db_rep P d A \<longleftrightarrow>
     table_ok (d_buckets d) (d_nodes d) P
     \<and> order_ok (d_lru d) (linked (d_buckets d)) (d_nodes d) P (ks_order A)
     \<and> timers_ok (d_sched d) (linked (d_buckets d)) (d_nodes d)
     \<and> pool_ok (d_pool d) (live (d_nodes d))
     \<and> (\<forall>a n. d_nodes d a = Some n \<longrightarrow> node_wf n)
     \<and> kv_ok (ks_map A) (d_sched d) (linked (d_buckets d)) (d_nodes d)
     \<and> counts_ok d"

text \<open>
  What the code relies on from its environment: blocks apart from the blocks in use, containers that
  use the memory resource only through its interface and raise nothing but \<^verbatim>\<open>bad_alloc\<close>, and an
  iteration that visits every entry of a table once.
\<close>

definition env_ok :: "env \<Rightarrow> bool" where
  "env_ok e \<longleftrightarrow>
     placer_ok (e_place e)
     \<and> (\<forall>k s lv. pool_ok s lv \<longrightarrow> pool_ok (snd (e_std e k s)) lv \<and> pool_ok (e_free e k s) lv)
     \<and> (\<forall>k s x. fst (e_std e k s) = Inl x \<longrightarrow> is_bad_alloc x)
     \<and> (\<forall>t. distinct t \<longrightarrow> distinct (e_iter e t) \<and> set (e_iter e t) = set t)"

abbreviation links :: "db \<Rightarrow> addr set" where
  "links d \<equiv> linked (d_buckets d)"

abbreviation keyat :: "db \<Rightarrow> addr \<Rightarrow> bytes" where
  "keyat d a \<equiv> nkey (d_nodes d) a"

text \<open>The invariant without its condition on the expiry flags, which fails between the steps of a replacement.\<close>

definition db_core :: "addr set \<Rightarrow> db \<Rightarrow> keyspace \<Rightarrow> bool" where
  "db_core P d A \<longleftrightarrow>
     table_ok (d_buckets d) (d_nodes d) P
     \<and> order_ok (d_lru d) (links d) (d_nodes d) P (ks_order A)
     \<and> pool_ok (d_pool d) (live (d_nodes d))
     \<and> (\<forall>a n. d_nodes d a = Some n \<longrightarrow> node_wf n)
     \<and> kv_ok (ks_map A) (d_sched d) (links d) (d_nodes d)
     \<and> counts_ok d"

text \<open>Removing a node that has no expiry entry.\<close>

definition detach :: "env \<Rightarrow> addr \<Rightarrow> db \<Rightarrow> db" where
  "detach e a d =
     (let d3 = unlink a (d\<lparr>d_lru := unlink_lru a (d_lru d)\<rparr>)
      in bump_sequence (destroy e a (set_key_total (sub64 (key_total d3) 1) d3)))"

definition attach :: "addr \<Rightarrow> db \<Rightarrow> db" where
  "attach a d = (let d3 = touch_node a (link a d) in bump_sequence (set_key_total (key_total d3 + 1) d3))"

definition is_expired :: "int \<Rightarrow> obj \<times> int option \<Rightarrow> bool" where
  "is_expired now v \<longleftrightarrow> (case snd v of None \<Rightarrow> False | Some t \<Rightarrow> t \<le> now)"

definition a_find :: "int \<Rightarrow> bool \<Rightarrow> bytes \<Rightarrow> keyspace \<Rightarrow> (obj \<times> int option) option \<times> keyspace" where
  "a_find now rp key A =
     (case ks_map A key of
        None \<Rightarrow> (None, A)
      | Some v \<Rightarrow> if \<not> rp \<and> is_expired now v then (None, a_drop key A) else (Some v, a_touch key A))"

fun a_evict :: "nat \<Rightarrow> keyspace \<Rightarrow> keyspace" where
  "a_evict 0 A = A"
| "a_evict (Suc k) A = a_evict k (a_drop (last (ks_order A)) A)"

text \<open>A sweep removes expired keys only, and stops early only when no expired key is left.\<close>

definition swept :: "int \<Rightarrow> nat \<Rightarrow> bytes list \<Rightarrow> keyspace \<Rightarrow> bool" where
  "swept now n ks A \<longleftrightarrow>
     length ks \<le> n \<and> distinct ks \<and> (\<forall>k \<in> set ks. \<exists>v. ks_map A k = Some v \<and> is_expired now v)"

definition none_expired :: "int \<Rightarrow> keyspace \<Rightarrow> bool" where
  "none_expired now A \<longleftrightarrow> (\<forall>k v. ks_map A k = Some v \<longrightarrow> \<not> is_expired now v)"

section \<open>The table\<close>

lemma bucket_less:
  assumes "length B = 2 ^ k"
  shows "bucket_of key (length B) < length B"
proof -
  have "bucket_of key (length B) = take_bit k (unat (hash_key key))"
    by (simp only: bucket_of_def assms mask_eq_exp_minus_1 [symmetric] take_bit_eq_mask)
  then show ?thesis by (simp add: assms take_bit_eq_mod)
qed

lemma linked_iff: "a \<in> linked B \<longleftrightarrow> (\<exists>i < length B. a \<in> set (B ! i))"
proof -
  have "a \<in> linked B \<longleftrightarrow> (\<exists>c \<in> set B. a \<in> set c)" by (simp add: linked_def)
  then show ?thesis by (metis in_set_conv_nth)
qed

lemma tableD:
  assumes "table_ok B N P"
  shows "\<exists>k. length B = 2 ^ k" "i < length B \<Longrightarrow> distinct (B ! i)"
    "i < length B \<Longrightarrow> a \<in> set (B ! i) \<Longrightarrow> bucket_of (nkey N a) (length B) = i"
    "dom N = linked B \<union> P" "linked B \<inter> P = {}" "finite P" "inj_on (nkey N) (linked B)"
  using assms unfolding table_ok_def by simp_all

lemma finite_linked [simp]: "finite (linked B)"
  by (simp add: linked_def)

lemma table_bucket:
  assumes "table_ok B N P"
  shows "bucket_of key (length B) < length B"
    "a \<in> linked B \<Longrightarrow> a \<in> set (B ! bucket_of (nkey N a) (length B))"
proof -
  show "bucket_of key (length B) < length B" using tableD(1) [OF assms] bucket_less by blast
  assume "a \<in> linked B"
  then obtain i where i: "i < length B" "a \<in> set (B ! i)" unfolding linked_iff by blast
  then show "a \<in> set (B ! bucket_of (nkey N a) (length B))" using tableD(3) [OF assms i] by simp
qed

lemma linked_upd:
  assumes "i < length B"
  shows "a \<in> linked (B[i := c]) \<longleftrightarrow> (\<exists>j < length B. j \<noteq> i \<and> a \<in> set (B ! j)) \<or> a \<in> set c"
  using assms unfolding linked_iff by (metis length_list_update nth_list_update)

lemma linked_other:
  assumes "table_ok B N P"
  shows "(\<exists>j < length B. j \<noteq> i \<and> a \<in> set (B ! j)) \<longleftrightarrow> a \<in> linked B \<and> bucket_of (nkey N a) (length B) \<noteq> i"
  using tableD(3) [OF assms] unfolding linked_iff by metis

lemma linked_at:
  assumes "table_ok B N P" "i < length B"
  shows "a \<in> set (B ! i) \<longleftrightarrow> a \<in> linked B \<and> bucket_of (nkey N a) (length B) = i"
  using tableD(3) [OF assms(1)] assms(2) unfolding linked_iff by metis

lemma linked_cons: "i < length B \<Longrightarrow> linked (B[i := a # B ! i]) = insert a (linked B)"
  using linked_upd [of i B _ "a # B ! i"] by (auto simp: linked_iff)

lemma linked_remove:
  assumes "table_ok B N P" "i = bucket_of (nkey N a) (length B)"
  shows "linked (B[i := remove1 a (B ! i)]) = linked B - {a}"
proof -
  have i: "i < length B" using table_bucket(1) [OF assms(1)] assms(2) by simp
  have "set (remove1 a (B ! i)) = set (B ! i) - {a}" using tableD(2) [OF assms(1) i] by simp
  then have "x \<in> linked (B[i := remove1 a (B ! i)]) \<longleftrightarrow> x \<in> linked B - {a}" for x
    unfolding linked_upd [OF i] linked_other [OF assms(1)] using linked_at [OF assms(1) i, of x] assms(2) by auto
  then show ?thesis by blast
qed

lemma table_link:
  assumes t: "table_ok B N P" "a \<in> P" "nkey N a \<notin> nkey N ` linked B" and i: "i = bucket_of (nkey N a) (length B)"
  shows "table_ok (B[i := a # B ! i]) N (P - {a})"
proof -
  have il: "i < length B" using table_bucket(1) [OF t(1)] i by simp
  have na: "a \<notin> linked B" using t by (auto simp: table_ok_def)
  note l = linked_cons [OF il, of a]
  have "distinct (B[i := a # B ! i] ! j) \<and> (\<forall>x \<in> set (B[i := a # B ! i] ! j). bucket_of (nkey N x) (length B) = j)"
    if "j < length B" for j
  proof (cases "j = i")
    case True
    moreover have "a \<notin> set (B ! i)" using na il by (auto simp: linked_iff)
    ultimately show ?thesis using t(1) il i by (simp add: table_ok_def)
  next
    case False
    then show ?thesis using t(1) that by (simp add: table_ok_def)
  qed
  moreover have "inj_on (nkey N) (insert a (linked B))"
    using t na by (auto simp: table_ok_def)
  ultimately show ?thesis using t na unfolding table_ok_def l by auto
qed

lemma table_unlink:
  assumes t: "table_ok B N P" "a \<in> linked B" and i: "i = bucket_of (nkey N a) (length B)"
  shows "table_ok (B[i := remove1 a (B ! i)]) N (insert a P)"
proof -
  have il: "i < length B" using table_bucket(1) [OF t(1)] i by simp
  note l = linked_remove [OF t(1) i]
  have "distinct (B[i := remove1 a (B ! i)] ! j) \<and> (\<forall>x \<in> set (B[i := remove1 a (B ! i)] ! j). bucket_of (nkey N x) (length B) = j)"
    if "j < length B" for j
    using t(1) that il by (auto simp: table_ok_def nth_list_update distinct_remove1 dest: notin_set_remove1 in_set_remove1)
  moreover have "inj_on (nkey N) (linked B - {a})" using t(1) by (auto simp: table_ok_def inj_on_diff)
  ultimately show ?thesis using t unfolding table_ok_def l by auto
qed

lemma nkey_upd: "nkey (N(a := v)) b = (if b = a then key_bytes (the v) else nkey N b)"
  by (simp add: nkey_def)

lemma table_nodes:
  assumes t: "table_ok B N P" and k: "\<And>a. a \<in> linked B \<Longrightarrow> nkey N' a = nkey N a"
    and d: "dom N' = linked B \<union> P'" "linked B \<inter> P' = {}" "finite P'"
  shows "table_ok B N' P'"
proof -
  have "bucket_of (nkey N' a) (length B) = i" if i: "i < length B" "a \<in> set (B ! i)" for i a
  proof -
    have "a \<in> linked B" using i unfolding linked_iff by blast
    then show ?thesis using k tableD(3) [OF t i] by simp
  qed
  moreover have "inj_on (nkey N') (linked B)" using t k by (simp add: table_ok_def cong: inj_on_cong)
  ultimately show ?thesis using t d by (auto simp: table_ok_def)
qed

lemma linked_replace:
  assumes t: "table_ok B N P" and i: "i = bucket_of (nkey N a) (length B)" and a: "a \<in> linked B"
  shows "linked (B[i := map (\<lambda>x. if x = a then f else x) (B ! i)]) = insert f (linked B - {a})"
proof -
  have il: "i < length B" using table_bucket(1) [OF t(1)] i by simp
  have ai: "a \<in> set (B ! i)" using table_bucket(2) [OF t a] i by simp
  then have "set (map (\<lambda>x. if x = a then f else x) (B ! i)) = insert f (set (B ! i) - {a})" by auto
  then have "x \<in> linked (B[i := map (\<lambda>x. if x = a then f else x) (B ! i)]) \<longleftrightarrow> x \<in> insert f (linked B - {a})" for x
    unfolding linked_upd [OF il] linked_other [OF t] using linked_at [OF t il, of x] i by auto
  then show ?thesis by blast
qed

lemma distinct_replace: "distinct xs \<Longrightarrow> f \<notin> set xs \<Longrightarrow> distinct (map (\<lambda>x. if x = a then f else x) xs)"
  by (induction xs) auto

lemma table_replace:
  assumes t: "table_ok B N P" "a \<in> linked B" "f \<in> P" "nkey N f = nkey N a" and i: "i = bucket_of (nkey N a) (length B)"
  shows "table_ok (B[i := map (\<lambda>x. if x = a then f else x) (B ! i)]) N (insert a (P - {f}))"
proof -
  have il: "i < length B" using table_bucket(1) [OF t(1)] i by simp
  note l = linked_replace [OF t(1) i t(2), of f]
  have nf: "f \<notin> linked B" using t by (auto simp: table_ok_def)
  have inj: "inj_on (nkey N) (linked B)" using t(1) by (simp add: table_ok_def)
  have chains: "distinct (B[i := map (\<lambda>x. if x = a then f else x) (B ! i)] ! j)
      \<and> (\<forall>x \<in> set (B[i := map (\<lambda>x. if x = a then f else x) (B ! i)] ! j). bucket_of (nkey N x) (length B) = j)"
    if j: "j < length B" for j
  proof (cases "j = i")
    case True
    have "f \<notin> set (B ! i)" using nf il by (auto simp: linked_iff)
    then have "distinct (map (\<lambda>x. if x = a then f else x) (B ! i))"
      by (rule distinct_replace [OF tableD(2) [OF t(1) il]])
    moreover have "bucket_of (nkey N x) (length B) = i" if "x \<in> set (map (\<lambda>x. if x = a then f else x) (B ! i))" for x
    proof -
      have "x = f \<or> x \<in> set (B ! i)" using that by auto
      then show ?thesis using tableD(3) [OF t(1) il] t(4) i by metis
    qed
    ultimately show ?thesis unfolding True using il by simp
  next
    case False
    then show ?thesis using t(1) j by (simp add: table_ok_def)
  qed
  have "nkey N f \<notin> nkey N ` (linked B - {a} - {f})"
  proof
    assume "nkey N f \<in> nkey N ` (linked B - {a} - {f})"
    then obtain b where b: "nkey N f = nkey N b" "b \<in> linked B - {a} - {f}" by (rule imageE)
    then have c: "nkey N b = nkey N a" "b \<in> linked B" "b \<noteq> a" using t(4) by simp_all
    show False using inj_onD [OF inj c(1,2) t(2)] c(3) by blast
  qed
  then have "inj_on (nkey N) (insert f (linked B - {a}))"
    unfolding inj_on_insert using inj_on_diff [OF inj] by blast
  moreover have "dom N = insert f (linked B - {a}) \<union> insert a (P - {f})" using tableD(4) [OF t(1)] t(2,3) by auto
  moreover have "insert f (linked B - {a}) \<inter> insert a (P - {f}) = {}"
    using tableD(5) [OF t(1)] t(2,3) by blast
  ultimately show ?thesis using chains tableD(1,6) [OF t(1)] unfolding table_ok_def l by simp
qed

section \<open>The components under changes of the node map\<close>

lemma map_remove1_inj: "inj_on f (insert a (set xs)) \<Longrightarrow> map f (remove1 a xs) = remove1 (f a) (map f xs)"
  by (induction xs) (auto simp: inj_on_def)

lemma dll_remove1:
  assumes "dll l xs" "a \<in> set xs"
  shows "\<exists>as bs. xs = as @ a # bs \<and> remove1 a xs = as @ bs"
proof -
  obtain as bs where "xs = as @ a # bs" using split_list [OF assms(2)] by blast
  moreover have "a \<notin> set as" using assms(1) calculation by (auto simp: dll_def)
  ultimately show ?thesis by (auto simp: remove1_append)
qed

lemma order_unlink:
  assumes o: "order_ok l L N P order" and a: "a \<in> L" and inj: "inj_on (nkey N) L" and P: "L \<inter> P = {}"
  shows "order_ok (unlink_lru a l) (L - {a}) N (insert a P) (remove1 (nkey N a) order)"
proof -
  obtain xs where x: "dll l xs" "set xs = L" "order = map (nkey N) xs" using o by (auto simp: order_ok_def)
  obtain as bs where s: "xs = as @ a # bs" "remove1 a xs = as @ bs" using dll_remove1 [OF x(1)] x(2) a by blast
  have "remove1 (nkey N a) order = map (nkey N) (as @ bs)"
    using map_remove1_inj [of "nkey N" a xs] inj a x s(2) by (simp add: insert_absorb)
  moreover have "dll (unlink_lru a l) (as @ bs)" using unlink_lru_dll x(1) s(1) by blast
  moreover have "set (as @ bs) = L - {a}" using x(1,2) s by (auto simp: dll_def)
  moreover have "lru_previous (unlink_lru a l) b = None \<and> lru_next (unlink_lru a l) b = None" if "b \<in> insert a P" for b
  proof (cases "b = a")
    case False
    then have "b \<notin> set (as @ a # bs)" using that P x(2) s(1) by auto
    then show ?thesis using unlink_lru_other [of l as a bs b] x(1) s(1) o that False by (auto simp: order_ok_def)
  qed (simp add: unlink_lru_unlinked)
  ultimately show ?thesis unfolding order_ok_def by metis
qed

lemma order_touch:
  assumes o: "order_ok l L N P order" and a: "a \<in> L" and inj: "inj_on (nkey N) L" and P: "L \<inter> P = {}"
  shows "order_ok (touch a l) L N P (nkey N a # remove1 (nkey N a) order)"
proof -
  obtain xs where x: "dll l xs" "set xs = L" "order = map (nkey N) xs" using o by (auto simp: order_ok_def)
  obtain as bs where s: "xs = as @ a # bs" "remove1 a xs = as @ bs" using dll_remove1 [OF x(1)] x(2) a by blast
  have "remove1 (nkey N a) order = map (nkey N) (as @ bs)"
    using map_remove1_inj [of "nkey N" a xs] inj a x s(2) by (simp add: insert_absorb)
  then have "nkey N a # remove1 (nkey N a) order = map (nkey N) (a # as @ bs)" by simp
  moreover have "dll (touch a l) (a # as @ bs)" using touch_linked x(1) s(1) by blast
  moreover have "set (a # as @ bs) = L" using x(2) s(1) by auto
  moreover have "lru_previous (touch a l) b = None \<and> lru_next (touch a l) b = None" if "b \<in> P" for b
  proof -
    have "b \<notin> set (as @ a # bs)" using that P x(2) s(1) by auto
    then show ?thesis using touch_other [of l as a bs b] x(1) s(1) o that by (auto simp: order_ok_def)
  qed
  ultimately show ?thesis unfolding order_ok_def by metis
qed

lemma touch_pending:
  assumes "dll l xs" "a \<notin> set xs" "lru_previous l a = None" "lru_next l a = None" "b \<notin> set xs" "b \<noteq> a"
  shows "lru_previous (touch a l) b = lru_previous l b" "lru_next (touch a l) b = lru_next l b"
  using dll_ends [OF assms(1,2)] dll_ends [OF assms(1,5)] assms(3,4,6)
  by (auto simp: touch_cases Let_def split: option.splits)

lemma order_push:
  assumes o: "order_ok l L N P order" and a: "a \<in> P" and P: "L \<inter> P = {}"
  shows "order_ok (touch a l) (insert a L) N (P - {a}) (nkey N a # order)"
proof -
  obtain xs where x: "dll l xs" "set xs = L" "order = map (nkey N) xs" using o by (auto simp: order_ok_def)
  have ax: "a \<notin> set xs" "lru_previous l a = None" "lru_next l a = None" using x(2) a P o by (auto simp: order_ok_def)
  have "dll (touch a l) (a # xs)" by (rule touch_fresh [OF x(1) ax])
  moreover have "lru_previous (touch a l) b = None \<and> lru_next (touch a l) b = None" if "b \<in> P - {a}" for b
    using touch_pending [OF x(1) ax, of b] that P x(2) o by (auto simp: order_ok_def)
  ultimately show ?thesis using x(2,3) unfolding order_ok_def by (metis list.simps(9) list.simps(15))
qed

lemma order_nodes:
  assumes "order_ok l L N P order" "\<And>a. a \<in> L \<Longrightarrow> nkey N' a = nkey N a" "P' \<subseteq> P"
  shows "order_ok l L N' P' order"
proof -
  obtain xs where x: "dll l xs" "set xs = L" "order = map (nkey N) xs" using assms(1) by (auto simp: order_ok_def)
  have "order = map (nkey N') xs" using assms(2) x(2,3) by simp
  then have "\<exists>xs. dll l xs \<and> set xs = L \<and> order = map (nkey N') xs" using x(1,2) by blast
  then show ?thesis using assms(1,3) unfolding order_ok_def by blast
qed

lemma order_new:
  assumes o: "order_ok l L N P order" and a: "a \<notin> L" "a \<notin> P" and k: "\<And>b. b \<in> L \<Longrightarrow> nkey N' b = nkey N b"
  shows "order_ok (clear_links a l) L N' (insert a P) order"
proof -
  obtain xs where x: "dll l xs" "set xs = L" "order = map (nkey N) xs" using o by (auto simp: order_ok_def)
  have "dll (clear_links a l) xs" using clear_links_dll x a by blast
  moreover have "map (nkey N) xs = map (nkey N') xs" using k x(2) by simp
  moreover have "lru_previous (clear_links a l) b = None \<and> lru_next (clear_links a l) b = None" if "b \<in> insert a P" for b
    using that o by (auto simp: clear_links_def order_ok_def)
  ultimately show ?thesis using x unfolding order_ok_def by metis
qed

lemma order_relink:
  assumes o: "order_ok l L N P order" and a: "a \<in> L" "f \<notin> L" "nkey N' f = nkey N a" and P: "L \<inter> P = {}" "f \<notin> P"
    and k: "\<And>b. b \<in> L - {a} \<Longrightarrow> nkey N' b = nkey N b"
  shows "order_ok (relink_lru a f l) (insert f (L - {a})) N' P order"
proof -
  obtain xs where x: "dll l xs" "set xs = L" "order = map (nkey N) xs" using o by (auto simp: order_ok_def)
  obtain as bs where s: "xs = as @ a # bs" "remove1 a xs = as @ bs" using dll_remove1 [OF x(1)] x(2) a by blast
  have "dll (relink_lru a f l) (as @ f # bs)" using relink_lru_dll x s a(2) by blast
  moreover have d: "distinct xs" using x(1) by (simp add: dll_def)
  then have "set (as @ f # bs) = insert f (L - {a})" using x(2) s by auto
  moreover have "order = map (nkey N') (as @ f # bs)"
  proof -
    have "b \<in> L - {a}" if "b \<in> set as \<union> set bs" for b using that d s(1) x(2) by auto
    then have "map (nkey N) as = map (nkey N') as" "map (nkey N) bs = map (nkey N') bs" using k by simp_all
    then show ?thesis using x(3) s(1) a(3) by simp
  qed
  moreover have "lru_previous (relink_lru a f l) b = None \<and> lru_next (relink_lru a f l) b = None" if "b \<in> P" for b
  proof -
    have nb: "b \<notin> set xs" "b \<noteq> f" using that P x(2) by auto
    have pn: "lru_previous l a = opt_last as" "lru_next l a = opt_hd bs" using dll_split x(1) s(1) by blast+
    have "opt_last as \<noteq> Some b" "opt_hd bs \<noteq> Some b" using opt_last_in [of as b] opt_hd_in [of bs b] nb s(1) by auto
    then show ?thesis using o that nb(2) pn
      by (auto simp: order_ok_def relink_lru_def Let_def split: option.splits)
  qed
  ultimately show ?thesis unfolding order_ok_def by metis
qed

lemma kv_drop:
  assumes kv: "kv_ok M s L N" and a: "a \<in> L" and inj: "inj_on (nkey N) L"
    and same: "\<And>b. b \<in> L - {a} \<Longrightarrow> N' b = N b \<and> deadlines s' b = deadlines s b"
  shows "kv_ok (M(nkey N a := None)) s' (L - {a}) N'"
proof -
  have k: "nkey N' b = nkey N b" if "b \<in> L - {a}" for b using same that by (simp add: nkey_def)
  have ne: "nkey N b \<noteq> nkey N a" if "b \<in> L - {a}" for b using inj a that by (auto dest: inj_onD)
  have "nkey N' ` (L - {a}) = nkey N ` (L - {a})" using k by auto
  also have "\<dots> = nkey N ` L - {nkey N a}" using ne a by auto
  finally have "dom (M(nkey N a := None)) = nkey N' ` (L - {a})" using kv by (auto simp: kv_ok_def)
  then show ?thesis using kv same k ne unfolding kv_ok_def by auto
qed

lemma kv_add:
  assumes kv: "kv_ok M s L N" and rep: "node_rep (the (N a)) ob" and new: "a \<notin> L" "nkey N a \<notin> nkey N ` L"
  shows "kv_ok (M(nkey N a \<mapsto> (ob, deadlines s a))) s (insert a L) N"
proof -
  have "\<exists>ob'. (M(nkey N a \<mapsto> (ob, deadlines s a))) (nkey N b) = Some (ob', deadlines s b) \<and> node_rep (the (N b)) ob'"
    if "b \<in> insert a L" for b
  proof (cases "b = a")
    case False
    then have "nkey N b \<noteq> nkey N a" using new that by (metis image_eqI insertE)
    then show ?thesis using kv that False by (auto simp: kv_ok_def)
  qed (use rep in simp)
  then show ?thesis using kv by (auto simp: kv_ok_def)
qed

lemma kv_same:
  assumes kv: "kv_ok M s L N" and same: "\<And>b. b \<in> L \<Longrightarrow> nkey N' b = nkey N b \<and> deadlines s' b = deadlines s b"
    and rep: "\<And>b ob. b \<in> L \<Longrightarrow> node_rep (the (N b)) ob \<Longrightarrow> node_rep (the (N' b)) ob"
  shows "kv_ok M s' L N'"
proof -
  have "nkey N' ` L = nkey N ` L" using same by auto
  then show ?thesis using kv same rep unfolding kv_ok_def by metis
qed

lemma kv_put:
  assumes kv: "kv_ok M s L N" and a: "a \<in> L" and inj: "inj_on (nkey N) L" and rep: "node_rep n ob" "key_bytes n = nkey N a"
    and same: "\<And>b. b \<in> L - {a} \<Longrightarrow> deadlines s' b = deadlines s b" and key: "key = nkey N a"
  shows "kv_ok (M(key \<mapsto> (ob, deadlines s' a))) s' L (N(a \<mapsto> n))"
proof -
  have k: "nkey (N(a \<mapsto> n)) b = nkey N b" for b using rep(2) by (simp add: nkey_upd)
  have "\<exists>ob'. (M(key \<mapsto> (ob, deadlines s' a))) (nkey N b) = Some (ob', deadlines s' b) \<and> node_rep (the ((N(a \<mapsto> n)) b)) ob'"
    if "b \<in> L" for b
  proof (cases "b = a")
    case False
    then have "nkey N b \<noteq> nkey N a" using inj a that by (auto dest: inj_onD)
    then show ?thesis using kv that False same [of b] by (auto simp: kv_ok_def key)
  qed (use rep in \<open>simp add: key\<close>)
  then show ?thesis using kv a unfolding kv_ok_def k by (auto simp: key)
qed

section \<open>Lookup, touch, creation and removal\<close>

lemma db_repD:
  assumes "db_rep P d A"
  shows "table_ok (d_buckets d) (d_nodes d) P" "order_ok (d_lru d) (links d) (d_nodes d) P (ks_order A)"
    "timers_ok (d_sched d) (links d) (d_nodes d)" "pool_ok (d_pool d) (live (d_nodes d))"
    "d_nodes d a = Some n \<Longrightarrow> node_wf n" "kv_ok (ks_map A) (d_sched d) (links d) (d_nodes d)" "counts_ok d"
  using assms by (auto simp: db_rep_def)

lemma db_rep_frame [simp]:
  "db_rep P (d\<lparr>d_wal := w\<rparr>) A = db_rep P d A" "db_rep P (d\<lparr>evictions := v\<rparr>) A = db_rep P d A"
  "db_rep P (d\<lparr>expired_keys := v\<rparr>) A = db_rep P d A" "db_rep P (d\<lparr>replaying := r\<rparr>) A = db_rep P d A"
  "db_rep P (bump_sequence d) A = db_rep P d A"
  by (simp_all add: db_rep_def counts_ok_def bump_sequence_def)

lemma db_log_rep: "db_rep P d A \<Longrightarrow> db_log e opr args d = (r, d') \<Longrightarrow> db_rep P d' A"
  by (auto simp: db_log_def split: option.splits if_splits prod.splits)

lemma db_log_fields:
  assumes "db_log e opr args d = (r, d')"
  shows "d_nodes d' = d_nodes d" "d_buckets d' = d_buckets d" "d_sched d' = d_sched d" "d_lru d' = d_lru d"
    "replaying d' = replaying d" "key_total d' = key_total d"
  using assms by (auto simp: db_log_def split: option.splits if_splits prod.splits)

lemma std_rep:
  assumes "db_rep P d A" "env_ok e"
  shows "std_alloc e k d = (r, d') \<Longrightarrow> db_rep P d' A \<and> (\<forall>x. r = Inl x \<longrightarrow> is_bad_alloc x)" "db_rep P (std_free e k d) A"
proof -
  have p: "pool_ok (snd (e_std e k (d_pool d))) (live (d_nodes d))" "pool_ok (e_free e k (d_pool d)) (live (d_nodes d))"
    using db_repD(4) [OF assms(1)] assms(2) by (simp_all add: env_ok_def)
  have x: "\<And>x. fst (e_std e k (d_pool d)) = Inl x \<Longrightarrow> is_bad_alloc x" using assms(2) by (simp add: env_ok_def)
  show "std_alloc e k d = (r, d') \<Longrightarrow> db_rep P d' A \<and> (\<forall>x. r = Inl x \<longrightarrow> is_bad_alloc x)"
    using p(1) x assms(1) by (auto simp: std_alloc_def db_rep_def counts_ok_def split: prod.splits)
  show "db_rep P (std_free e k d) A"
    using p(2) assms(1) by (auto simp: std_free_def db_rep_def counts_ok_def)
qed

lemma wf_key: "node_wf n \<Longrightarrow> stored_key n = key_bytes n" "node_wf n \<Longrightarrow> key_matches key n \<longleftrightarrow> key_bytes n = key"
  by (auto simp: stored_key_def key_matches_def node_wf_def)

lemma linked_node:
  assumes "db_rep P d A" "a \<in> links d"
  shows "d_nodes d a = Some (node_at d a)" "node_wf (node_at d a)" "key_bytes (node_at d a) = keyat d a"
    "stored_key (node_at d a) = keyat d a"
proof -
  have "a \<in> dom (d_nodes d)" using tableD(4) [OF db_repD(1) [OF assms(1)]] assms(2) by auto
  then show n: "d_nodes d a = Some (node_at d a)" by (auto simp: node_at_def)
  then show w: "node_wf (node_at d a)" using db_repD(5) [OF assms(1)] by blast
  show k: "key_bytes (node_at d a) = keyat d a" using n by (simp add: nkey_def node_at_def)
  show "stored_key (node_at d a) = keyat d a" using wf_key(1) [OF w] k by simp
qed

lemma linked_obj:
  assumes "db_rep P d A" "a \<in> links d"
  obtains ob where "ks_map A (keyat d a) = Some (ob, deadlines (d_sched d) a)" "node_rep (node_at d a) ob"
  using db_repD(6) [OF assms(1)] assms(2) by (auto simp: kv_ok_def node_at_def)

lemma linked_val:
  assumes "db_rep P d A" "a \<in> links d" "ks_map A (keyat d a) = Some (ob, t)"
  shows "node_rep (node_at d a) ob" "t = deadlines (d_sched d) a"
proof -
  obtain ob' where o': "ks_map A (keyat d a) = Some (ob', deadlines (d_sched d) a)" "node_rep (node_at d a) ob'"
    by (rule linked_obj [OF assms(1,2)])
  then have "ob' = ob" "t = deadlines (d_sched d) a" using assms(3) by simp_all
  then show "node_rep (node_at d a) ob" "t = deadlines (d_sched d) a" using o'(2) by simp_all
qed

lemma find_node_Some:
  assumes "db_rep P d A" "find_node key d = Some a"
  shows "a \<in> links d" "keyat d a = key"
proof -
  let ?i = "bucket_of key (length (d_buckets d))"
  have f: "a \<in> set (d_buckets d ! ?i)" "key_matches key (node_at d a)"
    using assms(2) by (auto simp: find_node_def find_Some_iff)
  show l: "a \<in> links d" using f(1) table_bucket(1) [OF db_repD(1) [OF assms(1)]] by (auto simp: linked_iff)
  show "keyat d a = key" using f(2) wf_key(2) linked_node [OF assms(1) l] by simp
qed

lemma find_node_None:
  assumes "db_rep P d A" "find_node key d = None"
  shows "ks_map A key = None"
proof (rule ccontr)
  assume "ks_map A key \<noteq> None"
  then have "key \<in> keyat d ` links d" using db_repD(6) [OF assms(1)] unfolding kv_ok_def by blast
  then obtain a where a: "a \<in> links d" "keyat d a = key" by blast
  then have "a \<in> set (d_buckets d ! bucket_of key (length (d_buckets d)))"
    using table_bucket(2) [OF db_repD(1) [OF assms(1)] a(1)] by simp
  moreover have "key_matches key (node_at d a)" using linked_node [OF assms(1) a(1)] wf_key(2) a(2) by simp
  ultimately show False using assms(2) by (auto simp: find_node_def find_None_iff)
qed

lemma table_disj: "db_rep P d A \<Longrightarrow> links d \<inter> P = {}" "db_rep P d A \<Longrightarrow> inj_on (nkey (d_nodes d)) (links d)"
  using tableD(5,7) [OF db_repD(1)] by blast+

lemma touch_rep:
  assumes "db_rep P d A" "a \<in> links d"
  shows "db_rep P (touch_node a d) (a_touch (keyat d a) A)"
proof -
  have "order_ok (touch a (d_lru d)) (links d) (d_nodes d) P (keyat d a # remove1 (keyat d a) (ks_order A))"
    by (rule order_touch [OF db_repD(2) [OF assms(1)] assms(2)]) (use table_disj [OF assms(1)] in auto)
  then show ?thesis using assms(1) by (simp add: db_rep_def touch_node_def a_touch_def counts_ok_def)
qed

lemma put_rep:
  assumes r: "db_rep P d A" and a: "a \<in> links d"
    and n: "node_wf n" "key_bytes n = keyat d a" "node_rep n ob" "node_block_size n = node_block_size (node_at d a)"
    "has_flag flag_has_ttl n = has_flag flag_has_ttl (node_at d a)"
  shows "db_rep P (put_node a n d) (a_put (keyat d a) (ob, deadlines (d_sched d) a) A)"
proof -
  let ?N = "(d_nodes d)(a \<mapsto> n)"
  have k: "nkey ?N b = keyat d b" for b using n(2) by (simp add: nkey_upd)
  note ln = linked_node [OF r a]
  have da: "a \<in> dom (d_nodes d)" using ln(1) by auto
  have "table_ok (d_buckets d) ?N P"
    using tableD [OF db_repD(1) [OF r]] da by (intro table_nodes [OF db_repD(1) [OF r]]) (auto simp: k)
  moreover have "order_ok (d_lru d) (links d) ?N P (ks_order A)"
    by (rule order_nodes [OF db_repD(2) [OF r]]) (simp_all add: k)
  moreover have "timers_ok (d_sched d) (links d) ?N"
    using db_repD(3) [OF r] n(5) by (auto simp: timers_ok_def node_at_def)
  moreover have "live ?N = live (d_nodes d)" using n(4) ln(1) by (auto simp: live_def)
  moreover have "kv_ok ((ks_map A)(keyat d a \<mapsto> (ob, deadlines (d_sched d) a))) (d_sched d) (links d) ?N"
    by (rule kv_put [OF db_repD(6) [OF r] a _ n(3,2)]) (use table_disj [OF r] in auto)
  moreover have "counts_ok (put_node a n d)"
  proof -
    have "(\<Sum>b \<in> dom ?N. node_block_size (the (?N b))) = (\<Sum>b \<in> dom (d_nodes d). node_block_size (the (d_nodes d b)))"
      using da n(4) by (intro sum.cong) (auto simp: node_at_def)
    then show ?thesis using db_repD(7) [OF r] by (simp add: counts_ok_def put_node_def)
  qed
  ultimately show ?thesis using r n(1) by (auto simp: db_rep_def put_node_def a_put_def split: if_splits)
qed

lemma finite_nodes: "db_rep P d A \<Longrightarrow> finite (dom (d_nodes d))"
  using tableD(4,6) [OF db_repD(1)] by simp

lemma live_upd: "live (N(a := v)) = (live N)(a := map_option node_block_size v)"
  by (auto simp: live_def)

lemma not_in_dom:
  assumes "db_rep P d A" "d_nodes d a = None"
  shows "a \<notin> links d" "a \<notin> P" "deadlines (d_sched d) a = None"
proof -
  have "a \<notin> dom (d_nodes d)" using assms(2) by auto
  then show "a \<notin> links d" "a \<notin> P" using tableD(4) [OF db_repD(1) [OF assms(1)]] by auto
  then show "deadlines (d_sched d) a = None" using db_repD(3) [OF assms(1)] by (auto simp: timers_ok_def)
qed

lemma create_rep:
  assumes r: "db_rep P d A" and e: "env_ok e" and k: "length key \<le> max_key_length"
    and run: "create_node e key t cap d = (Inr a, d')"
  obtains n where "db_rep (insert a P) d' A" "d_nodes d a = None" "d_nodes d' = (d_nodes d)(a \<mapsto> n)" "node_wf n"
    "cap \<le> length (body n)" "key_bytes n = key" "node_type n = t" "node_flags n = 0" "n_count n = 0"
    "list_head n = 0" "list_used n = 0" "d_buckets d' = d_buckets d" "d_sched d' = d_sched d" "d_wal d' = d_wal d"
    "replaying d' = replaying d" "length (body n) \<le> max cap 4096"
proof -
  obtain block cls where lay: "node_layout (unat (key_stride (of_nat (length key)))) cap = (block, cls)" by (rule prod.exhaust)
  have b: "block < 2 ^ 32" using run lay by (auto simp: create_node_def split: if_splits)
  obtain p where p: "slab_allocate (e_place e) block (d_pool d) = (Inr a, p)"
    using run lay by (auto simp: create_node_def Let_def split: if_splits prod.splits sum.splits)
  define n where "n = fresh_body e \<lparr>key_meta = make_key_meta (length key) t 0 (of_nat cls), n_count = 0,
      key_bytes = key, exact_size = of_nat block, body = [], list_head = 0, list_used = 0, hash_table = []\<rparr>"
  note w = create_wf [OF lay b k n_def]
  have d': "d' = put_node a n (d\<lparr>d_pool := p, d_lru := clear_links a (d_lru d), tracked_bytes := tracked_bytes d + block\<rparr>)"
    using run lay b p by (simp add: create_node_def n_def Let_def)
  have pl: "placer_ok (e_place e)" using e by (simp add: env_ok_def)
  have al: "live (d_nodes d) a = None" "pool_ok p ((live (d_nodes d))(a \<mapsto> block))"
    using slab.alloc_ok [OF pl db_repD(4) [OF r] p] by auto
  have na: "d_nodes d a = None" using al(1) by (simp add: live_def)
  note out = not_in_dom [OF r na]
  let ?N = "(d_nodes d)(a \<mapsto> n)"
  have kk: "nkey ?N c = keyat d c" if "c \<in> links d" for c using that out(1) by (auto simp: nkey_upd)
  have "table_ok (d_buckets d) ?N (insert a P)"
    using tableD [OF db_repD(1) [OF r]] out by (intro table_nodes [OF db_repD(1) [OF r] kk]) auto
  moreover have "order_ok (clear_links a (d_lru d)) (links d) ?N (insert a P) (ks_order A)"
    by (rule order_new [OF db_repD(2) [OF r] out(1,2)]) (rule kk)
  moreover have "timers_ok (d_sched d) (links d) ?N"
    using db_repD(3) [OF r] out(1) unfolding timers_ok_def by (metis fun_upd_other)
  moreover have "pool_ok p (live ?N)" using al(2) w(3) by (simp add: live_upd)
  moreover have "kv_ok (ks_map A) (d_sched d) (links d) ?N"
    using out(1) by (intro kv_same [OF db_repD(6) [OF r]]) (auto simp: kk)
  moreover have "(\<Sum>b \<in> dom ?N. node_block_size (the (?N b))) = block + (\<Sum>b \<in> dom (d_nodes d). node_block_size (the (d_nodes d b)))"
  proof -
    have "a \<notin> dom (d_nodes d)" using na by auto
    then have "(\<Sum>b \<in> dom (d_nodes d). node_block_size (the (?N b))) = (\<Sum>b \<in> dom (d_nodes d). node_block_size (the (d_nodes d b)))"
      by (intro sum.cong) auto
    then show ?thesis using finite_nodes [OF r] \<open>a \<notin> dom (d_nodes d)\<close> w(3) by simp
  qed
  ultimately have "db_rep (insert a P) d' A"
    using r w(1) unfolding d' by (auto simp: db_rep_def put_node_def counts_ok_def split: if_splits)
  then show ?thesis using that [of n] w na unfolding d' by (simp add: put_node_def)
qed

lemma create_fail:
  assumes r: "db_rep P d A" and e: "env_ok e" and run: "create_node e key t cap d = (Inl x, d')"
  shows "db_rep P d' A \<and> is_bad_alloc x"
proof -
  obtain block cls where lay: "node_layout (unat (key_stride (of_nat (length key)))) cap = (block, cls)" by (rule prod.exhaust)
  have pl: "placer_ok (e_place e)" using e by (simp add: env_ok_def)
  show ?thesis
  proof (cases "2 ^ 32 - 1 < block")
    case True
    then show ?thesis using run lay r by (auto simp: create_node_def is_bad_alloc_def)
  next
    case False
    obtain p where p: "slab_allocate (e_place e) block (d_pool d) = (Inl x, p)" "d' = d\<lparr>d_pool := p\<rparr>"
      using run lay False by (auto simp: create_node_def Let_def split: prod.splits sum.splits)
    then show ?thesis using slab.alloc_fail [OF pl db_repD(4) [OF r] p(1)] r by (simp add: db_rep_def counts_ok_def)
  qed
qed

lemma sum_remove:
  assumes "finite (dom N)" "N a = Some n"
  shows "sub64 (\<Sum>b \<in> dom N. node_block_size (the (N b))) (node_block_size n)
       = (\<Sum>b \<in> dom (N(a := None)). node_block_size (the ((N(a := None)) b)))"
proof -
  have a: "a \<in> dom N" using assms(2) by auto
  have "(\<Sum>b \<in> dom N. node_block_size (the (N b))) = node_block_size n + (\<Sum>b \<in> dom N - {a}. node_block_size (the (N b)))"
    using sum.remove [OF assms(1) a, of "\<lambda>b. node_block_size (the (N b))"] assms(2) by simp
  moreover have "(\<Sum>b \<in> dom (N(a := None)). node_block_size (the ((N(a := None)) b))) = (\<Sum>b \<in> dom N - {a}. node_block_size (the (N b)))"
    by (intro sum.cong) auto
  ultimately show ?thesis by (simp add: sub64_def)
qed

lemma destroy_pool:
  assumes "pool_ok (d_pool d) (live (d_nodes d))" "env_ok e" "d_nodes d a = Some (node_at d a)"
  shows "pool_ok (d_pool (destroy e a d)) (live ((d_nodes d)(a := None)))"
proof -
  let ?p = "if node_type (node_at d a) = NHash \<and> has_flag flag_hash_promoted (node_at d a) then e_free e 2 (d_pool d) else d_pool d"
  have "pool_ok ?p (live (d_nodes d))" using assms(1,2) by (simp add: env_ok_def)
  moreover have "live (d_nodes d) a = Some (node_block_size (node_at d a))"
    using assms(3) by (simp add: live_def)
  ultimately have "pool_ok (slab_deallocate a (node_block_size (node_at d a)) ?p) ((live (d_nodes d))(a := None))"
    by (rule slab.dealloc_ok)
  moreover have "d_pool (destroy e a d) = slab_deallocate a (node_block_size (node_at d a)) ?p"
    by (simp add: destroy_def Let_def std_free_def)
  ultimately show ?thesis by (simp add: live_upd)
qed

lemma destroy_fields [simp]:
  "d_nodes (destroy e a d) = (d_nodes d)(a := None)" "d_buckets (destroy e a d) = d_buckets d"
  "d_lru (destroy e a d) = d_lru d" "d_sched (destroy e a d) = d_sched d" "key_total (destroy e a d) = key_total d"
  "key_hint (destroy e a d) = key_hint d" "ttl_key_count (destroy e a d) = ttl_key_count d" "ttl_hint (destroy e a d) = ttl_hint d"
  "tracked_bytes (destroy e a d) = sub64 (tracked_bytes d) (node_block_size (node_at d a))"
  "d_wal (destroy e a d) = d_wal d" "replaying (destroy e a d) = replaying d"
  by (simp_all add: destroy_def Let_def std_free_def)

text \<open>A pending block is given back without a trace in the keyspace.\<close>

lemma destroy_pending:
  assumes r: "db_rep P d A" and e: "env_ok e" and a: "a \<in> P"
  shows "db_rep (P - {a}) (destroy e a d) A"
proof -
  have "a \<in> dom (d_nodes d)" using tableD(4) [OF db_repD(1) [OF r]] a by blast
  then have da: "d_nodes d a = Some (node_at d a)" by (auto simp: node_at_def)
  have al: "a \<notin> links d" using table_disj(1) [OF r] a by auto
  let ?N = "(d_nodes d)(a := None)"
  have kk: "nkey ?N c = keyat d c" if "c \<in> links d" for c using that al by (auto simp: nkey_upd)
  have "table_ok (d_buckets d) ?N (P - {a})"
    using tableD [OF db_repD(1) [OF r]] al by (intro table_nodes [OF db_repD(1) [OF r] kk]) auto
  moreover have "order_ok (d_lru d) (links d) ?N (P - {a}) (ks_order A)"
    by (rule order_nodes [OF db_repD(2) [OF r] kk]) auto
  moreover have "timers_ok (d_sched d) (links d) ?N"
    using db_repD(3) [OF r] al unfolding timers_ok_def by (metis fun_upd_other)
  moreover have "kv_ok (ks_map A) (d_sched d) (links d) ?N"
    using al by (intro kv_same [OF db_repD(6) [OF r]]) (auto simp: kk)
  moreover have "counts_ok (destroy e a d)"
    using db_repD(7) [OF r] sum_remove [OF finite_nodes [OF r] da] by (simp add: counts_ok_def)
  ultimately show ?thesis
    using r destroy_pool [OF db_repD(4) [OF r] e da] by (auto simp: db_rep_def split: if_splits)
qed

section \<open>Expiry entries, removal and replacement\<close>

lemma expiries_deadlines: "expiries s a = None \<longleftrightarrow> deadlines s a = None"
  by (simp add: deadlines_def)

lemma timersD:
  assumes "timers_ok s L N"
  shows "sched_inv s" "deadlines s a \<noteq> None \<Longrightarrow> a \<in> L" "a \<in> L \<Longrightarrow> deadlines s a = None \<longleftrightarrow> \<not> has_flag flag_has_ttl (the (N a))"
  using assms unfolding timers_ok_def by blast+

lemma clear_expiry_fields:
  "d_buckets (clear_expiry e a d) = d_buckets d" "d_lru (clear_expiry e a d) = d_lru d"
  "d_wal (clear_expiry e a d) = d_wal d" "replaying (clear_expiry e a d) = replaying d"
  "key_total (clear_expiry e a d) = key_total d" "key_hint (clear_expiry e a d) = key_hint d"
  "tracked_bytes (clear_expiry e a d) = tracked_bytes d"
  "d_sched (clear_expiry e a d) = sched_clear a (d_sched d)"
  "d_nodes (clear_expiry e a d) = (if deadlines (d_sched d) a = None then d_nodes d
     else (d_nodes d)(a \<mapsto> set_flags (node_flags (node_at d a) AND NOT flag_has_ttl) (node_at d a)))"
  "d_pool (clear_expiry e a d) = (if deadlines (d_sched d) a = None then d_pool d else e_free e 1 (d_pool d))"
  by (auto simp: clear_expiry_def Let_def std_free_def put_node_def node_at_def sched_clear_def deadlines_def split: option.splits)

lemma clear_expiry_counts:
  "deadlines (d_sched d) a \<noteq> None \<Longrightarrow>
     ttl_key_count (clear_expiry e a d) = length (expiry_heap (sched_clear a (d_sched d)))
     \<and> ttl_hint (clear_expiry e a d) = (expiry_heap (sched_clear a (d_sched d)) \<noteq> [])"
  by (auto simp: clear_expiry_def Let_def deadlines_def)

lemma clear_expiry_None: "deadlines (d_sched d) a = None \<Longrightarrow> clear_expiry e a d = d"
  by (simp add: clear_expiry_def expiries_deadlines [symmetric])

lemma sum_flags:
  assumes "N a = Some n"
  shows "(\<Sum>b \<in> dom (N(a \<mapsto> set_flags f n)). node_block_size (the ((N(a \<mapsto> set_flags f n)) b)))
       = (\<Sum>b \<in> dom N. node_block_size (the (N b)))"
  using assms by (intro sum.cong) auto

lemma flags_table:
  assumes r: "db_rep P d A" and a: "a \<in> links d"
  shows "table_ok (d_buckets d) ((d_nodes d)(a \<mapsto> set_flags f (node_at d a))) P"
    "order_ok (d_lru d) (links d) ((d_nodes d)(a \<mapsto> set_flags f (node_at d a))) P (ks_order A)"
    "live ((d_nodes d)(a \<mapsto> set_flags f (node_at d a))) = live (d_nodes d)"
proof -
  let ?N = "(d_nodes d)(a \<mapsto> set_flags f (node_at d a))"
  note ln = linked_node [OF r a]
  have k: "nkey ?N b = keyat d b" for b using ln(3) by (simp add: nkey_upd)
  have da: "a \<in> dom (d_nodes d)" using ln(1) by auto
  show "table_ok (d_buckets d) ?N P"
    using tableD [OF db_repD(1) [OF r]] da by (intro table_nodes [OF db_repD(1) [OF r]]) (auto simp: k)
  show "order_ok (d_lru d) (links d) ?N P (ks_order A)"
    by (rule order_nodes [OF db_repD(2) [OF r]]) (simp_all add: k)
  show "live ?N = live (d_nodes d)" using ln(1) by (auto simp: live_def)
qed

lemma clear_expiry_rep:
  assumes r: "db_rep P d A" and e: "env_ok e" and a: "a \<in> links d" and ob: "ks_map A (keyat d a) = Some (ob, t)"
  shows "db_rep P (clear_expiry e a d) (a_put (keyat d a) (ob, None) A)"
proof -
  have obr: "node_rep (node_at d a) ob" "t = deadlines (d_sched d) a"
    using linked_val [OF r a ob] by simp_all
  show ?thesis
  proof (cases "deadlines (d_sched d) a = None")
    case True
    then have "a_put (keyat d a) (ob, None) A = A" using ob obr(2) by (simp add: a_put_def fun_upd_idem)
    then show ?thesis using r clear_expiry_None [OF True] by simp
  next
    case False
    let ?n = "set_flags (node_flags (node_at d a) AND NOT flag_has_ttl) (node_at d a)"
    let ?N = "(d_nodes d)(a \<mapsto> ?n)" and ?s = "sched_clear a (d_sched d)"
    note f = clear_expiry_fields [of e a d] and c = clear_expiry_counts [OF False, of e] and ln = linked_node [OF r a]
    note t = db_repD(3) [OF r]
    have s: "sched_inv ?s" "deadlines ?s = (deadlines (d_sched d))(a := None)"
      using sched_clear_correct [OF timersD(1) [OF t]] by auto
    have "timers_ok ?s (links d) ?N"
      using t s by (auto simp: timers_ok_def has_flag_set)
    moreover have "kv_ok ((ks_map A)(keyat d a \<mapsto> (ob, deadlines ?s a))) ?s (links d) ?N"
      using obr(1) ln table_disj(2) [OF r] s(2) by (intro kv_put [OF db_repD(6) [OF r] a]) simp_all
    moreover have "pool_ok (e_free e 1 (d_pool d)) (live (d_nodes d))"
      using db_repD(4) [OF r] e by (simp add: env_ok_def)
    moreover have "counts_ok (clear_expiry e a d)"
      using db_repD(7) [OF r] c f False sum_flags [of "d_nodes d" a, OF ln(1)] by (simp add: counts_ok_def)
    ultimately show ?thesis
      using r False ln(2) flags_table [OF r a] s(2) unfolding db_rep_def a_put_def f by (auto split: if_splits)
  qed
qed

lemma schedule_expiry_rep:
  assumes r: "db_rep P d A" and e: "env_ok e" and a: "a \<in> links d" and ob: "ks_map A (keyat d a) = Some (ob, t)"
    and run: "schedule_expiry e a dl d = (res, d')"
  shows "(case res of Inl x \<Rightarrow> db_rep P d' A \<and> is_bad_alloc x | Inr _ \<Rightarrow> db_rep P d' (a_put (keyat d a) (ob, Some dl) A))
      \<and> d_buckets d' = d_buckets d \<and> d_wal d' = d_wal d \<and> replaying d' = replaying d \<and> keyat d' b = keyat d b"
proof -
  obtain r1 d1 where s1: "(if expiries (d_sched d) a = None then std_alloc e 1 d else (Inr (), d)) = (r1, d1)" by (rule prod.exhaust)
  have d1: "db_rep P d1 A \<and> (\<forall>x. r1 = Inl x \<longrightarrow> is_bad_alloc x)"
    using s1 std_rep(1) [OF r e] r by (auto split: if_splits)
  have same: "d_buckets d1 = d_buckets d" "d_nodes d1 = d_nodes d" "d_sched d1 = d_sched d" "d_wal d1 = d_wal d" "replaying d1 = replaying d"
    using s1 by (auto simp: std_alloc_def split: if_splits prod.splits)
  have a1: "a \<in> links d1" using a same by simp
  note ln = linked_node [OF conjunct1 [OF d1] a1]
  show ?thesis
  proof (cases r1)
    case (Inl x)
    then have "res = Inl x" "d' = d1" using run s1 by (auto simp: schedule_expiry_def)
    then show ?thesis
      using d1 Inl same by simp
  next
    case (Inr u)
    let ?n = "set_flags (node_flags (node_at d1 a) OR flag_has_ttl) (node_at d1 a)"
    let ?s = "sched_add a dl (d_sched d1)" and ?N = "(d_nodes d1)(a \<mapsto> ?n)"
    have d': "res = Inr ()" "d' = (put_node a ?n (d1\<lparr>d_sched := ?s\<rparr>))\<lparr>ttl_key_count := length (expiry_heap ?s), ttl_hint := True\<rparr>"
      using run s1 Inr by (auto simp: schedule_expiry_def Let_def node_at_def)
    have obr: "node_rep (node_at d1 a) ob" using linked_val(1) [OF r a ob] same by (simp add: node_at_def)
    note t = db_repD(3) [OF conjunct1 [OF d1]]
    have s: "sched_inv ?s" "deadlines ?s = (deadlines (d_sched d1))(a \<mapsto> dl)"
      using sched_add_correct [OF timersD(1) [OF t]] by auto
    have "a \<in> dom (deadlines ?s)" using s(2) by auto
    then have heap: "expiry_heap ?s \<noteq> []" using dom_deadlines s(1) by (fastforce simp: sched_inv_def)
    have "timers_ok ?s (links d1) ?N" using t s a1 by (auto simp: timers_ok_def has_flag_set)
    moreover have "kv_ok ((ks_map A)(keyat d1 a \<mapsto> (ob, deadlines ?s a))) ?s (links d1) ?N"
      using obr ln table_disj(2) [OF conjunct1 [OF d1]] s(2) by (intro kv_put [OF db_repD(6) [OF conjunct1 [OF d1]] a1]) simp_all
    moreover have "counts_ok d'"
      using db_repD(7) [OF conjunct1 [OF d1]] heap sum_flags [of "d_nodes d1" a, OF ln(1)] unfolding d'(2)
      by (simp add: counts_ok_def put_node_def)
    moreover have "keyat d1 a = keyat d a" by (simp add: same)
    ultimately have "db_rep P d' (a_put (keyat d a) (ob, Some dl) A)"
      using d1 ln(2) flags_table [OF conjunct1 [OF d1] a1] s(2) unfolding db_rep_def a_put_def d'(2)
      by (auto simp: put_node_def split: if_splits)
    moreover have "keyat d' b = keyat d b" using ln(3) same unfolding d'(2) by (simp add: put_node_def nkey_upd)
    ultimately show ?thesis
      using d' same by (simp add: put_node_def)
  qed
qed

lemma db_rep_core: "db_rep P d A \<longleftrightarrow> db_core P d A \<and> timers_ok (d_sched d) (links d) (d_nodes d)"
  by (auto simp: db_rep_def db_core_def)

lemma a_drop_put [simp]: "a_drop key (a_put key v A) = a_drop key A"
  by (simp add: a_drop_def a_put_def)

lemma erase_detach: "erase_node e a d = detach e a (clear_expiry e a d)"
  by (simp add: erase_node_def detach_def Let_def)

lemma detach_fields:
  "d_buckets (detach e a d) = (let i = bucket_of (stored_key (node_at d a)) (length (d_buckets d))
      in (d_buckets d)[i := remove1 a (d_buckets d ! i)])"
  "d_lru (detach e a d) = unlink_lru a (d_lru d)" "d_sched (detach e a d) = d_sched d"
  "d_nodes (detach e a d) = (d_nodes d)(a := None)" "d_wal (detach e a d) = d_wal d" "replaying (detach e a d) = replaying d"
  "key_total (detach e a d) = sub64 (key_total d) 1" "key_hint (detach e a d) = sub64 (key_total d) 1"
  "ttl_key_count (detach e a d) = ttl_key_count d" "ttl_hint (detach e a d) = ttl_hint d"
  "tracked_bytes (detach e a d) = sub64 (tracked_bytes d) (node_block_size (node_at d a))"
  by (simp_all add: detach_def Let_def unlink_def bump_sequence_def set_key_total_def node_at_def)

lemma detach_pool:
  assumes "pool_ok (d_pool d) (live (d_nodes d))" "env_ok e" "d_nodes d a = Some (node_at d a)"
  shows "pool_ok (d_pool (detach e a d)) (live ((d_nodes d)(a := None)))"
proof -
  let ?d = "set_key_total (sub64 (key_total d) 1) (unlink a (d\<lparr>d_lru := unlink_lru a (d_lru d)\<rparr>))"
  have f: "d_pool ?d = d_pool d" "d_nodes ?d = d_nodes d" by (simp_all add: set_key_total_def unlink_def Let_def)
  have "pool_ok (d_pool (destroy e a ?d)) (live ((d_nodes ?d)(a := None)))"
    by (rule destroy_pool) (use assms f in \<open>simp_all add: node_at_def\<close>)
  then show ?thesis using f by (simp add: detach_def Let_def bump_sequence_def unlink_def)
qed

lemma core_node:
  assumes "db_core P d A" "a \<in> links d"
  shows "d_nodes d a = Some (node_at d a)" "node_wf (node_at d a)" "stored_key (node_at d a) = keyat d a"
proof -
  have t: "table_ok (d_buckets d) (d_nodes d) P" using assms(1) by (simp add: db_core_def)
  have "a \<in> dom (d_nodes d)" using tableD(4) [OF t] assms(2) by auto
  then show n: "d_nodes d a = Some (node_at d a)" by (auto simp: node_at_def)
  then show w: "node_wf (node_at d a)" using assms(1) unfolding db_core_def by blast
  show "stored_key (node_at d a) = keyat d a" using wf_key(1) [OF w] by (simp add: nkey_def node_at_def)
qed

lemma detach_core:
  assumes c: "db_core P d A" and e: "env_ok e" and a: "a \<in> links d"
  shows "db_core P (detach e a d) (a_drop (keyat d a) A)" "links (detach e a d) = links d - {a}"
proof -
  let ?i = "bucket_of (keyat d a) (length (d_buckets d))"
  let ?B = "(d_buckets d)[?i := remove1 a (d_buckets d ! ?i)]" and ?N = "(d_nodes d)(a := None)"
  note n = core_node [OF c a]
  have t: "table_ok (d_buckets d) (d_nodes d) P" and o: "order_ok (d_lru d) (links d) (d_nodes d) P (ks_order A)"
    and p: "pool_ok (d_pool d) (live (d_nodes d))" and kv: "kv_ok (ks_map A) (d_sched d) (links d) (d_nodes d)"
    and cn: "counts_ok d" using c by (simp_all add: db_core_def)
  have b: "d_buckets (detach e a d) = ?B" using detach_fields(1) [of e a d] n(3) by (simp add: Let_def)
  have L: "linked ?B = links d - {a}" by (rule linked_remove [OF t]) simp
  then show LL: "links (detach e a d) = links d - {a}" unfolding b .
  have k: "nkey ?N c = keyat d c" if "c \<in> linked ?B" for c using that L by (auto simp: nkey_upd)
  have tu: "table_ok ?B (d_nodes d) (insert a P)" by (rule table_unlink [OF t a]) simp
  have na: "a \<notin> P" using tableD(5) [OF t] a by auto
  have "table_ok ?B ?N P"
    using tableD [OF t] L a na by (intro table_nodes [OF tu k]) auto
  moreover have "order_ok (unlink_lru a (d_lru d)) (linked ?B) (d_nodes d) (insert a P) (remove1 (keyat d a) (ks_order A))"
    unfolding L by (rule order_unlink [OF o a]) (use tableD [OF t] in auto)
  then have "order_ok (unlink_lru a (d_lru d)) (linked ?B) ?N P (remove1 (keyat d a) (ks_order A))"
    by (rule order_nodes) (use k in auto)
  moreover have "kv_ok ((ks_map A)(keyat d a := None)) (d_sched d) (linked ?B) ?N"
    unfolding L by (rule kv_drop [OF kv a]) (use tableD [OF t] in auto)
  moreover have "counts_ok (detach e a d)"
  proof -
    have cd: "card (links d - {a}) = card (links d) - 1" "0 < card (links d)" using a by (auto simp: card_gt_0_iff)
    then have "sub64 (key_total d) 1 = card (links d - {a})" using cn by (simp add: sub64_def counts_ok_def)
    moreover have "finite (dom (d_nodes d))" using tableD(4,6) [OF t] by simp
    then have "sub64 (tracked_bytes d) (node_block_size (node_at d a)) = (\<Sum>b \<in> dom ?N. node_block_size (the (?N b)))"
      using sum_remove [of "d_nodes d" a "node_at d a"] n(1) cn by (simp add: counts_ok_def)
    ultimately show ?thesis using cn unfolding counts_ok_def LL detach_fields(3-) by blast
  qed
  ultimately show "db_core P (detach e a d) (a_drop (keyat d a) A)"
    using c detach_pool [OF p e n(1)] unfolding db_core_def b detach_fields(2-) a_drop_def by (auto split: if_splits)
qed

lemma timers_detach:
  assumes t: "timers_ok s L N" and a: "deadlines s a = None"
  shows "timers_ok s (L - {a}) (N(a := None))"
proof -
  have "deadlines s b \<noteq> None \<longleftrightarrow> b \<in> L - {a} \<and> has_flag flag_has_ttl (the ((N(a := None)) b))" for b
    using t a unfolding timers_ok_def by (cases "b = a") auto
  then show ?thesis using t unfolding timers_ok_def by blast
qed

lemma erase_rep:
  assumes r: "db_rep P d A" and e: "env_ok e" and a: "a \<in> links d"
  shows "db_rep P (erase_node e a d) (a_drop (keyat d a) A)" "links (erase_node e a d) = links d - {a}"
    "d_nodes (erase_node e a d) = (d_nodes d)(a := None)" "d_wal (erase_node e a d) = d_wal d"
    "replaying (erase_node e a d) = replaying d"
proof -
  let ?d = "clear_expiry e a d"
  obtain ob where ob: "ks_map A (keyat d a) = Some (ob, deadlines (d_sched d) a)" by (rule linked_obj [OF r a])
  have r1: "db_rep P ?d (a_put (keyat d a) (ob, None) A)" by (rule clear_expiry_rep [OF r e a ob])
  have c1: "db_core P ?d (a_put (keyat d a) (ob, None) A)" and t1: "timers_ok (d_sched ?d) (links ?d) (d_nodes ?d)"
    using r1 by (simp_all add: db_rep_core)
  have a1: "a \<in> links ?d" using a by (simp add: clear_expiry_fields)
  have k1: "keyat ?d a = keyat d a" using linked_node(3) [OF r a] by (simp add: clear_expiry_fields nkey_upd)
  have dl: "deadlines (d_sched ?d) a = None"
    using sched_clear_correct [OF timersD(1) [OF db_repD(3) [OF r]], of a] by (simp add: clear_expiry_fields)
  note dc = detach_core [OF c1 e a1]
  show "links (erase_node e a d) = links d - {a}" using dc(2) by (simp add: erase_detach clear_expiry_fields)
  show "d_nodes (erase_node e a d) = (d_nodes d)(a := None)" "d_wal (erase_node e a d) = d_wal d"
    "replaying (erase_node e a d) = replaying d"
    by (simp_all add: erase_detach detach_fields clear_expiry_fields)
  have "timers_ok (d_sched (detach e a ?d)) (links (detach e a ?d)) (d_nodes (detach e a ?d))"
    using timers_detach [OF t1 dl] dc(2) by (simp add: detach_fields(3,4))
  then show "db_rep P (erase_node e a d) (a_drop (keyat d a) A)"
    using dc(1) k1 by (simp add: db_rep_core erase_detach)
qed

lemma attach_fields:
  "d_buckets (attach a d) = (let i = bucket_of (stored_key (node_at d a)) (length (d_buckets d))
      in (d_buckets d)[i := a # d_buckets d ! i])"
  "d_lru (attach a d) = touch a (d_lru d)" "d_sched (attach a d) = d_sched d"
  "d_nodes (attach a d) = d_nodes d" "d_wal (attach a d) = d_wal d" "replaying (attach a d) = replaying d"
  "key_total (attach a d) = key_total d + 1" "key_hint (attach a d) = key_total d + 1"
  "ttl_key_count (attach a d) = ttl_key_count d" "ttl_hint (attach a d) = ttl_hint d"
  "tracked_bytes (attach a d) = tracked_bytes d" "d_pool (attach a d) = d_pool d"
  by (simp_all add: attach_def Let_def link_def bump_sequence_def set_key_total_def touch_node_def)

lemma order_dom:
  assumes "db_core P d A"
  shows "set (ks_order A) = dom (ks_map A)" "dom (ks_map A) = keyat d ` links d"
  using assms by (auto simp: db_core_def order_ok_def kv_ok_def)

lemma pending_node:
  assumes "db_core P d A" "a \<in> P"
  shows "d_nodes d a = Some (node_at d a)" "node_wf (node_at d a)" "stored_key (node_at d a) = keyat d a" "a \<notin> links d"
proof -
  have t: "table_ok (d_buckets d) (d_nodes d) P" using assms(1) by (simp add: db_core_def)
  have "a \<in> dom (d_nodes d)" using tableD(4) [OF t] assms(2) by auto
  then show n: "d_nodes d a = Some (node_at d a)" by (auto simp: node_at_def)
  then show w: "node_wf (node_at d a)" using assms(1) unfolding db_core_def by blast
  show "stored_key (node_at d a) = keyat d a" using wf_key(1) [OF w] by (simp add: nkey_def node_at_def)
  show "a \<notin> links d" using tableD(5) [OF t] assms(2) by blast
qed

lemma attach_core:
  assumes c: "db_core P d A" and a: "a \<in> P" and new: "ks_map A (keyat d a) = None" and rep: "node_rep (node_at d a) ob"
  shows "db_core (P - {a}) (attach a d) (a_touch (keyat d a) (a_put (keyat d a) (ob, deadlines (d_sched d) a) A))"
    "links (attach a d) = insert a (links d)"
proof -
  let ?i = "bucket_of (keyat d a) (length (d_buckets d))"
  let ?B = "(d_buckets d)[?i := a # d_buckets d ! ?i]"
  note n = pending_node [OF c a] and od = order_dom [OF c]
  have t: "table_ok (d_buckets d) (d_nodes d) P" and o: "order_ok (d_lru d) (links d) (d_nodes d) P (ks_order A)"
    and kv: "kv_ok (ks_map A) (d_sched d) (links d) (d_nodes d)" and cn: "counts_ok d" using c by (simp_all add: db_core_def)
  have b: "d_buckets (attach a d) = ?B" using attach_fields(1) [of a d] n(3) by (simp add: Let_def)
  have i: "?i < length (d_buckets d)" by (rule table_bucket(1) [OF t])
  have L: "linked ?B = insert a (links d)" by (rule linked_cons [OF i])
  then show LL: "links (attach a d) = insert a (links d)" unfolding b .
  have nk: "keyat d a \<notin> keyat d ` links d" using new od(2) by auto
  have "table_ok ?B (d_nodes d) (P - {a})" by (rule table_link [OF t a nk]) simp
  moreover have "keyat d a \<notin> set (ks_order A)" using new od by auto
  then have "order_ok (touch a (d_lru d)) (linked ?B) (d_nodes d) (P - {a}) (keyat d a # remove1 (keyat d a) (ks_order A))"
    using order_push [OF o a tableD(5) [OF t]] unfolding L by (simp add: remove1_idem)
  moreover have "kv_ok ((ks_map A)(keyat d a \<mapsto> (ob, deadlines (d_sched d) a))) (d_sched d) (linked ?B) (d_nodes d)"
    unfolding L by (rule kv_add [OF kv _ n(4) nk]) (use rep in \<open>simp add: node_at_def\<close>)
  moreover have "counts_ok (attach a d)"
  proof -
    have "card (insert a (links d)) = key_total d + 1" using n(4) cn by (simp add: counts_ok_def)
    then show ?thesis using cn unfolding counts_ok_def LL attach_fields(3-) by simp
  qed
  ultimately show "db_core (P - {a}) (attach a d) (a_touch (keyat d a) (a_put (keyat d a) (ob, deadlines (d_sched d) a) A))"
    using c unfolding db_core_def b attach_fields(2-) a_touch_def a_put_def by simp
qed

lemma commit_attach:
  "commit_node e None f k d = attach f d"
  "\<not> (k \<and> has_flag flag_has_ttl (node_at d a)) \<Longrightarrow> commit_node e (Some a) f k d = attach f (erase_node e a d)"
  by (auto simp: commit_node_def attach_def Let_def)

lemma timers_attach:
  assumes "timers_ok s L N" "a \<notin> L" "\<not> has_flag flag_has_ttl (the (N a))"
  shows "timers_ok s (insert a L) N"
proof -
  have "deadlines s b \<noteq> None \<longleftrightarrow> b \<in> insert a L \<and> has_flag flag_has_ttl (the (N b))" for b
    using assms unfolding timers_ok_def by (cases "b = a") auto
  then show ?thesis using assms(1) unfolding timers_ok_def by blast
qed

lemma attach_rep:
  assumes r: "db_rep P d A" and a: "a \<in> P" and new: "ks_map A (keyat d a) = None" and rep: "node_rep (node_at d a) ob"
    and fl: "\<not> has_flag flag_has_ttl (node_at d a)"
  shows "db_rep (P - {a}) (attach a d) (a_touch (keyat d a) (a_put (keyat d a) (ob, None) A))"
proof -
  have c: "db_core P d A" and t: "timers_ok (d_sched d) (links d) (d_nodes d)" using r by (simp_all add: db_rep_core)
  have al: "a \<notin> links d" using pending_node(4) [OF c a] .
  then have "deadlines (d_sched d) a = None" using timersD(2) [OF t] by blast
  moreover have "timers_ok (d_sched d) (insert a (links d)) (d_nodes d)"
    by (rule timers_attach [OF t al]) (use fl in \<open>simp add: node_at_def\<close>)
  ultimately show ?thesis using attach_core [OF c a new rep] by (simp add: db_rep_core attach_fields)
qed

lemma a_touch_put_drop: "a_touch key (a_put key v (a_drop key A)) = a_touch key (a_put key v A)"
  if "distinct (ks_order A)"
  using that by (simp add: a_touch_def a_put_def a_drop_def distinct_remove1_removeAll remove1_idem)

lemma order_distinct:
  assumes "db_core P d A"
  shows "distinct (ks_order A)"
proof -
  obtain xs where x: "dll (d_lru d) xs" "set xs = links d" "ks_order A = map (nkey (d_nodes d)) xs"
    using assms by (auto simp: db_core_def order_ok_def)
  moreover have "inj_on (nkey (d_nodes d)) (links d)" using assms tableD(7) by (auto simp: db_core_def)
  ultimately show ?thesis by (simp add: distinct_map dll_def)
qed

lemma pending_no_deadline:
  assumes "db_rep P d A" "f \<in> P"
  shows "deadlines (d_sched d) f = None" "f \<notin> links d"
proof -
  have "db_core P d A" using assms(1) by (simp add: db_rep_core)
  then show "f \<notin> links d" using pending_node(4) assms(2) by blast
  then show "deadlines (d_sched d) f = None" using timersD(2) [OF db_repD(3) [OF assms(1)]] by blast
qed

text \<open>Replacing a node with its expiry entry moved to the new block.\<close>

lemma rekey_core:
  assumes r: "db_rep P d A" and a: "a \<in> links d" and f: "f \<in> P" "node_flags (node_at d f) = fl" "unat fl < 4"
    and ob: "ks_map A (keyat d a) = Some (ob0, Some t)"
    and d1: "d1 = put_node f (set_flags (fl OR flag_has_ttl) (node_at d f)) (d\<lparr>d_sched := sched_rekey a f (d_sched d)\<rparr>)"
  shows "db_core P d1 (a_put (keyat d a) (ob0, None) A)" "sched_inv (d_sched d1)"
    "deadlines (d_sched d1) = (deadlines (d_sched d))(a := None, f \<mapsto> t)"
proof -
  let ?n = "set_flags (fl OR flag_has_ttl) (node_at d f)"
  let ?N = "(d_nodes d)(f \<mapsto> ?n)" and ?s = "sched_rekey a f (d_sched d)"
  have c: "db_core P d A" using r by (simp add: db_rep_core)
  note pn = pending_node [OF c f(1)] and pd = pending_no_deadline [OF r f(1)] and T = db_repD(1) [OF r]
  have dl: "deadlines (d_sched d) a = Some t" and obr: "node_rep (node_at d a) ob0"
    using linked_val [OF r a ob] by simp_all
  have fa: "f \<noteq> a" using pd(2) a by auto
  have rk: "sched_inv ?s" "deadlines ?s = (deadlines (d_sched d))(a := None, f \<mapsto> t)"
    using sched_rekey_correct [OF timersD(1) [OF db_repD(3) [OF r]], of f a] pd(1) fa dl by (simp_all add: expiries_deadlines)
  show "sched_inv (d_sched d1)" "deadlines (d_sched d1) = (deadlines (d_sched d))(a := None, f \<mapsto> t)"
    using rk unfolding d1 by (simp_all add: put_node_def)
  have k: "nkey ?N b = keyat d b" if "b \<in> links d" for b using that pd(2) by (auto simp: nkey_upd)
  have df: "f \<in> dom (d_nodes d)" using pn(1) by auto
  have "table_ok (d_buckets d) ?N P"
    using tableD [OF T] df by (intro table_nodes [OF T k]) auto
  moreover have "order_ok (d_lru d) (links d) ?N P (ks_order A)" by (rule order_nodes [OF db_repD(2) [OF r] k]) auto
  moreover have "live ?N = live (d_nodes d)" using pn(1) by (auto simp: live_def)
  moreover have "kv_ok (ks_map A) (d_sched d) (links d) ?N"
    using pd(2) by (intro kv_same [OF db_repD(6) [OF r]]) (auto simp: k)
  then have "kv_ok ((ks_map A)(keyat d a \<mapsto> (ob0, deadlines ?s a))) ?s (links d) (?N(a \<mapsto> node_at d a))"
    by (rule kv_put [OF _ a]) (use obr linked_node(3) [OF r a] table_disj(2) [OF r] k a rk(2) pd(2) fa in \<open>auto cong: inj_on_cong\<close>)
  then have "kv_ok ((ks_map A)(keyat d a \<mapsto> (ob0, None))) ?s (links d) ?N"
    using rk(2) fa linked_node(1) [OF r a] by (simp add: fun_upd_idem)
  moreover have len: "length (expiry_heap ?s) = length (expiry_heap (d_sched d))"
    by (simp add: sched_rekey_def split: option.splits)
  then have "(expiry_heap ?s \<noteq> []) = (expiry_heap (d_sched d) \<noteq> [])" by (metis length_0_conv)
  then have "counts_ok d1"
    using db_repD(7) [OF r] sum_flags [of "d_nodes d" f, OF pn(1)] len unfolding d1 counts_ok_def put_node_def by simp
  ultimately show "db_core P d1 (a_put (keyat d a) (ob0, None) A)"
    using c pn(2) unfolding db_core_def d1 a_put_def put_node_def by (auto split: if_splits)
qed

lemma commit_rep:
  assumes r: "db_rep P d A" and e: "env_ok e" and f: "f \<in> P" "\<not> has_flag flag_has_ttl (node_at d f)" "node_rep (node_at d f) ob"
    and old: "case old of None \<Rightarrow> ks_map A (keyat d f) = None | Some a \<Rightarrow> a \<in> links d \<and> keyat d a = keyat d f"
    and t: "t = (if keep then (case ks_map A (keyat d f) of None \<Rightarrow> None | Some (_, t) \<Rightarrow> t) else None)"
  shows "db_rep (P - {f}) (commit_node e old f keep d) (a_touch (keyat d f) (a_put (keyat d f) (ob, t) A))"
proof (cases old)
  case None
  then show ?thesis using attach_rep [OF r f(1) _ f(3,2)] old t by (simp add: commit_attach)
next
  case (Some a)
  then have a: "a \<in> links d" "keyat d a = keyat d f" using old by auto
  have fa: "f \<noteq> a" using pending_no_deadline(2) [OF r f(1)] a(1) by auto
  have c: "db_core P d A" using r by (simp add: db_rep_core)
  note dist = order_distinct [OF c]
  obtain ob0 where ob0: "ks_map A (keyat d a) = Some (ob0, deadlines (d_sched d) a)" by (rule linked_obj [OF r a(1)])
  have na: "node_at d a = the (d_nodes d a)" by (simp add: node_at_def)
  show ?thesis
  proof (cases "keep \<and> has_flag flag_has_ttl (node_at d a)")
    case False
    have "t = None" using t False ob0 a timersD(3) [OF db_repD(3) [OF r] a(1)] by (auto simp: na)
    moreover note er = erase_rep [OF r e a(1)]
    have "keyat (erase_node e a d) f = keyat d f" "node_at (erase_node e a d) f = node_at d f"
      using er(3) fa by (simp_all add: nkey_upd node_at_def)
    moreover have "ks_map (a_drop (keyat d a) A) (keyat d f) = None" using a(2) by (simp add: a_drop_def)
    ultimately have "db_rep (P - {f}) (attach f (erase_node e a d))
        (a_touch (keyat d f) (a_put (keyat d f) (ob, t) (a_drop (keyat d f) A)))"
      using attach_rep [OF er(1) f(1), of ob] f(2,3) a(2) by simp
    then show ?thesis using commit_attach(2) [of keep d a e f] False Some a_touch_put_drop [OF dist] by simp
  next
    case True
    obtain t0 where t0: "deadlines (d_sched d) a = Some t0"
      using timersD(3) [OF db_repD(3) [OF r] a(1)] True by (auto simp: na)
    define d1 where "d1 = put_node f (set_flags (node_flags (node_at d f) OR flag_has_ttl) (node_at d f))
        (d\<lparr>d_sched := sched_rekey a f (d_sched d)\<rparr>)"
    have ks: "ks_map A (keyat d a) = Some (ob0, Some t0)" using ob0 t0 by simp
    note rk = rekey_core [OF r a(1) f(1) refl node_flags_bound ks d1_def]
    have f1: "d_nodes d1 f = Some (set_flags (node_flags (node_at d f) OR flag_has_ttl) (node_at d f))" "links d1 = links d"
      "d_nodes d1 b = d_nodes d b" if "b \<noteq> f" for b using that by (simp_all add: d1_def put_node_def)
    have dn: "deadlines (d_sched d1) a = None" using rk(3) fa by simp
    have er: "erase_node e a d1 = detach e a d1"
      using dn by (simp add: erase_detach clear_expiry_def expiries_deadlines [symmetric])
    have a1: "a \<in> links d1" using a(1) by (simp add: d1_def put_node_def)
    have ka: "keyat d1 a = keyat d a" using fa by (simp add: d1_def put_node_def nkey_upd)
    have kf: "keyat d1 f = keyat d f" using linked_node pending_node(1) [OF c f(1)] by (simp add: d1_def put_node_def nkey_upd node_at_def nkey_def)
    note dt = detach_core [OF rk(1) e a1]
    have nf: "node_at (detach e a d1) f = set_flags (node_flags (node_at d f) OR flag_has_ttl) (node_at d f)"
      "keyat (detach e a d1) f = keyat d f"
      using fa kf by (simp_all add: node_at_def detach_fields nkey_upd d1_def put_node_def)
    have new: "ks_map (a_drop (keyat d1 a) (a_put (keyat d a) (ob0, None) A)) (keyat (detach e a d1) f) = None"
      using nf(2) ka a(2) by (simp add: a_drop_def)
    have rep: "node_rep (node_at (detach e a d1) f) ob" using nf(1) f(3) by simp
    note at = attach_core [OF dt(1) f(1) new rep]
    have "deadlines (d_sched (detach e a d1)) f = Some t0" using rk(3) by (simp add: detach_fields)
    moreover have "t = Some t0" using t True ks a(2) by simp
    ultimately have core: "db_core (P - {f}) (attach f (detach e a d1)) (a_touch (keyat d f) (a_put (keyat d f) (ob, t) A))"
      using at(1) nf(2) ka a(2) a_touch_put_drop [OF dist] by simp
    have "timers_ok (d_sched d1) (insert f (links d - {a})) ((d_nodes d1)(a := None))"
    proof -
      have "deadlines (d_sched d1) b \<noteq> None \<longleftrightarrow> b \<in> insert f (links d - {a}) \<and> has_flag flag_has_ttl (the (((d_nodes d1)(a := None)) b))" for b
      proof (cases "b = f \<or> b = a")
        case True
        then show ?thesis using rk(3) fa by (auto simp: d1_def put_node_def has_flag_set)
      next
        case False
        then have "deadlines (d_sched d1) b = deadlines (d_sched d) b" "((d_nodes d1)(a := None)) b = d_nodes d b"
          using rk(3) by (simp_all add: d1_def put_node_def)
        then show ?thesis using db_repD(3) [OF r] False unfolding timers_ok_def by auto
      qed
      then show ?thesis using rk(2) unfolding timers_ok_def by blast
    qed
    then have "db_rep (P - {f}) (attach f (detach e a d1)) (a_touch (keyat d f) (a_put (keyat d f) (ob, t) A))"
      using core at(2) dt(2) by (simp add: db_rep_core attach_fields(3,4) detach_fields(3,4)) (simp add: d1_def put_node_def)
    moreover have "commit_node e (Some a) f keep d = attach f (erase_node e a d1)"
      using True by (simp add: commit_node_def attach_def Let_def d1_def)
    ultimately show ?thesis using Some er by simp
  qed
qed

section \<open>Growth and rehashing\<close>

lemma grow_timers:
  assumes t: "timers_ok s L N" and a: "a \<in> L" and f: "f \<notin> L" and fl: "has_flag flag_has_ttl m = has_flag flag_has_ttl (the (N a))"
    and s': "s' = (if has_flag flag_has_ttl (the (N a)) then sched_rekey a f s else s)"
  shows "timers_ok s' (insert f (L - {a})) (N(f \<mapsto> m, a := None))" "deadlines s' f = deadlines s a"
    "b \<in> L - {a} \<Longrightarrow> deadlines s' b = deadlines s b" "length (expiry_heap s') = length (expiry_heap s)"
proof -
  have fa: "f \<noteq> a" using a f by auto
  have nf: "deadlines s f = None" using timersD(2) [OF t] f by blast
  have fa2: "deadlines s a = None \<longleftrightarrow> \<not> has_flag flag_has_ttl (the (N a))" by (rule timersD(3) [OF t a])
  have rk: "sched_inv (sched_rekey a f s)"
    "deadlines (sched_rekey a f s) = (case deadlines s a of None \<Rightarrow> deadlines s | Some d \<Rightarrow> (deadlines s)(a := None, f \<mapsto> d))"
    using sched_rekey_correct [OF timersD(1) [OF t] _ fa] nf by (simp_all add: expiries_deadlines)
  have si: "sched_inv s'" using rk(1) timersD(1) [OF t] by (simp add: s')
  have dl: "deadlines s' = (deadlines s)(a := None, f := deadlines s a)"
    using rk(2) fa2 nf fa by (auto simp: s' fun_upd_idem)
  show "deadlines s' f = deadlines s a" "b \<in> L - {a} \<Longrightarrow> deadlines s' b = deadlines s b"
    using dl f by auto
  show "length (expiry_heap s') = length (expiry_heap s)" by (simp add: s' sched_rekey_def split: option.splits)
  have "deadlines s' b \<noteq> None \<longleftrightarrow> b \<in> insert f (L - {a}) \<and> has_flag flag_has_ttl (the ((N(f \<mapsto> m, a := None)) b))" for b
  proof -
    consider "b = f" | "b = a" | "b \<noteq> f" "b \<noteq> a" by blast
    then show ?thesis
    proof cases
      case 1
      then show ?thesis using dl fa2 fl fa by auto
    next
      case 2
      then show ?thesis using dl fa by auto
    next
      case 3
      then show ?thesis using dl t unfolding timers_ok_def by auto
    qed
  qed
  then show "timers_ok s' (insert f (L - {a})) (N(f \<mapsto> m, a := None))" using si unfolding timers_ok_def by blast
qed

lemma grow_kv:
  assumes kv: "kv_ok M s L N" and a: "a \<in> L" "M (nkey N a) = Some (ob, deadlines s a)" and inj: "inj_on (nkey N) L"
    and f: "f \<notin> L" and m: "key_bytes m = nkey N a" "node_rep m ob"
    and dl: "deadlines s' f = deadlines s a" "\<And>b. b \<in> L - {a} \<Longrightarrow> deadlines s' b = deadlines s b"
  shows "kv_ok M s' (insert f (L - {a})) (N(f \<mapsto> m, a := None))"
proof -
  let ?N = "N(f \<mapsto> m, a := None)"
  have fa: "f \<noteq> a" using a f by auto
  have k: "kv_ok (M(nkey N a := None)) s' (L - {a}) ?N"
    by (rule kv_drop [OF kv a(1) inj]) (use f dl(2) in auto)
  have nf: "nkey ?N f = nkey N a" using fa m(1) by (simp add: nkey_upd)
  have nb: "nkey ?N b = nkey N b" if "b \<in> L - {a}" for b using that f by (auto simp: nkey_upd)
  have "nkey N a \<notin> nkey ?N ` (L - {a})" using nb inj a(1) by (auto dest: inj_onD)
  then have "kv_ok ((M(nkey N a := None))(nkey ?N f \<mapsto> (ob, deadlines s' f))) s' (insert f (L - {a})) ?N"
    using m(2) f fa nf by (intro kv_add [OF k]) simp_all
  moreover have "(M(nkey N a := None))(nkey ?N f \<mapsto> (ob, deadlines s' f)) = M"
    using a(2) dl(1) nf by (simp add: fun_upd_idem)
  ultimately show ?thesis by simp
qed

lemma grow_table:
  assumes t: "table_ok B N P" and a: "a \<in> linked B" and f: "N f = None" and m: "key_bytes m = nkey N a"
    and i: "i = bucket_of (nkey N a) (length B)"
  shows "table_ok (B[i := map (\<lambda>x. if x = a then f else x) (B ! i)]) (N(f \<mapsto> m, a := None)) P"
    "linked (B[i := map (\<lambda>x. if x = a then f else x) (B ! i)]) = insert f (linked B - {a})"
proof -
  let ?B = "B[i := map (\<lambda>x. if x = a then f else x) (B ! i)]" and ?N = "N(f \<mapsto> m)"
  have "f \<notin> dom N" using f by auto
  then have nf: "f \<notin> linked B" "f \<notin> P" using tableD(4) [OF t] by auto
  have fa: "f \<noteq> a" using nf a by auto
  have ap: "a \<notin> P" using tableD(5) [OF t] a by blast
  have k: "nkey ?N b = nkey N b" if "b \<in> linked B" for b using that nf by (auto simp: nkey_upd)
  have t1: "table_ok B ?N (insert f P)"
    using tableD [OF t] nf by (intro table_nodes [OF t k]) auto
  have kf: "nkey ?N f = nkey ?N a" using m fa by (simp add: nkey_upd)
  have ia: "i = bucket_of (nkey ?N a) (length B)" using i k a by simp
  have t2: "table_ok ?B ?N (insert a (insert f P - {f}))" by (rule table_replace [OF t1 a _ kf ia]) simp
  show L: "linked ?B = insert f (linked B - {a})" by (rule linked_replace [OF t i a])
  have k2: "nkey (?N(a := None)) b = nkey ?N b" if "b \<in> linked ?B" for b using that fa unfolding L by (auto simp: nkey_upd)
  have "dom (?N(a := None)) = linked ?B \<union> P" using tableD(4) [OF t] nf fa ap unfolding L by auto
  moreover have "linked ?B \<inter> P = {}" using tableD(5) [OF t] nf unfolding L by blast
  ultimately show "table_ok ?B (N(f \<mapsto> m, a := None)) P" using table_nodes [OF t2 k2] tableD(6) [OF t] by simp
qed

lemma grow_rep:
  assumes r: "db_rep P d A" and e: "env_ok e" and a: "a \<in> links d" and ob: "ks_map A (keyat d a) = Some (ob, t)"
    and room: "obj_room (node_at d a) ob \<le> cap" "cap \<le> max_list_bytes" and run: "grow_node e a cap d = (Inr f, d')"
  obtains block cls where "node_layout (unat (key_stride (of_nat (node_key_length (node_at d a))))) cap = (block, cls)"
    "block < 2 ^ 32" "node_at d' f = moved_node e (node_at d a) block cls" "db_rep P d' A" "f \<in> links d'"
    "keyat d' f = keyat d a" "d_wal d' = d_wal d" "replaying d' = replaying d" "deadlines (d_sched d') f = deadlines (d_sched d) a"
proof -
  let ?n = "node_at d a"
  obtain block cls where lay: "node_layout (unat (key_stride (of_nat (node_key_length ?n)))) cap = (block, cls)" by (rule prod.exhaust)
  have b: "block < 2 ^ 32" using run lay by (auto simp: grow_node_def Let_def split: if_splits)
  obtain p where p: "slab_allocate (e_place e) block (d_pool d) = (Inr f, p)"
    using run lay by (auto simp: grow_node_def Let_def split: if_splits prod.splits sum.splits)
  note ln = linked_node [OF r a] and T = db_repD(1) [OF r]
  define m where "m = moved_node e ?n block cls"
  note mo = moved_ok [OF lay b ln(2), where e = e, folded m_def]
  have mk: "key_bytes m = keyat d a" using ln(3) by (simp add: m_def)
  have pl: "placer_ok (e_place e)" using e by (simp add: env_ok_def)
  have lv: "live (d_nodes d) a = Some (node_block_size ?n)" using ln(1) by (simp add: live_def)
  have al: "live (d_nodes d) f = None" using slab.alloc_ok [OF pl db_repD(4) [OF r] p] by simp
  have mv: "pool_ok (slab_deallocate a (node_block_size ?n) p) ((live (d_nodes d))(f \<mapsto> block, a := None))"
    by (rule slab.move_block(1) [OF pl db_repD(4) [OF r] lv p])
  have nf: "d_nodes d f = None" using al by (simp add: live_def)
  note out = not_in_dom [OF r nf]
  have fa: "f \<noteq> a" using out(1) a by auto
  let ?N = "(d_nodes d)(f \<mapsto> m, a := None)"
  let ?s = "if has_flag flag_has_ttl (the (d_nodes d a)) then sched_rekey a f (d_sched d) else d_sched d"
  let ?i = "bucket_of (keyat d a) (length (d_buckets d))"
  let ?B = "(d_buckets d)[?i := map (\<lambda>x. if x = a then f else x) (d_buckets d ! ?i)]"
  have sk: "stored_key m = keyat d a" using wf_key(1) [OF mo(1)] mk by simp
  have F: "d_pool d' = slab_deallocate a (node_block_size ?n) p" "d_nodes d' = ?N" "d_buckets d' = ?B"
      "d_lru d' = relink_lru a f (d_lru d)" "d_sched d' = ?s"
      "tracked_bytes d' = sub64 (tracked_bytes d) (node_block_size ?n) + block" "key_total d' = key_total d"
      "key_hint d' = key_hint d" "ttl_key_count d' = ttl_key_count d" "ttl_hint d' = ttl_hint d" "d_wal d' = d_wal d"
      "replaying d' = replaying d"
    using run lay b p sk unfolding m_def
    by (auto simp: grow_node_def Let_def put_node_def node_at_def bump_sequence_def split: if_splits)
  have flg: "has_flag flag_has_ttl m = has_flag flag_has_ttl (the (d_nodes d a))"
    using mo(5) by (simp add: has_flag_def node_at_def)
  note ti = grow_timers [OF db_repD(3) [OF r] a out(1) flg refl]
  note ta = grow_table [OF T a nf mk refl]
  have rep: "node_rep m ob" using moved_rep [OF lay b ln(2) linked_val(1) [OF r a ob] room] by (simp add: m_def)
  have "kv_ok (ks_map A) ?s (linked ?B) ?N" unfolding ta(2)
    by (rule grow_kv [OF db_repD(6) [OF r] a _ table_disj(2) [OF r] out(1) mk rep ti(2,3)])
      (use ob linked_val(2) [OF r a ob] in simp)
  moreover have "order_ok (relink_lru a f (d_lru d)) (linked ?B) ?N P (ks_order A)" unfolding ta(2)
    by (rule order_relink [OF db_repD(2) [OF r] a out(1)])
      (use mk fa table_disj(1) [OF r] out in \<open>auto simp: nkey_upd\<close>)
  moreover have "timers_ok ?s (linked ?B) ?N" unfolding ta(2) by (rule ti(1))
  moreover have "pool_ok (slab_deallocate a (node_block_size ?n) p) (live ?N)"
    using mv mo(3) by (simp add: live_upd)
  moreover have "counts_ok d'"
  proof -
    have "card (linked ?B) = card (links d)" unfolding ta(2) using a out(1) card_Suc_Diff1 [of "links d" a] by simp
    moreover have "sub64 (tracked_bytes d) (node_block_size ?n) + block = (\<Sum>b \<in> dom ?N. node_block_size (the (?N b)))"
    proof -
      let ?M = "(d_nodes d)(a := None)"
      have N: "?N = ?M(f \<mapsto> m)" using fa by auto
      have "f \<notin> dom ?M" using nf fa by auto
      moreover have "finite (dom ?M)" using finite_nodes [OF r] by simp
      moreover have "(\<Sum>b \<in> dom ?M. node_block_size (the ((?M(f \<mapsto> m)) b))) = (\<Sum>b \<in> dom ?M. node_block_size (the (?M b)))"
        using \<open>f \<notin> dom ?M\<close> by (intro sum.cong) auto
      ultimately have "(\<Sum>b \<in> dom ?N. node_block_size (the (?N b))) = block + (\<Sum>b \<in> dom ?M. node_block_size (the (?M b)))"
        unfolding N using mo(3) by simp
      then show ?thesis
        using sum_remove [of "d_nodes d" a ?n, OF finite_nodes [OF r] ln(1)] db_repD(7) [OF r] by (simp add: counts_ok_def)
    qed
    moreover have "(expiry_heap ?s \<noteq> []) = (expiry_heap (d_sched d) \<noteq> [])" using ti(4) by (metis length_0_conv)
    ultimately show ?thesis using db_repD(7) [OF r] ti(4) unfolding F counts_ok_def by simp
  qed
  ultimately have "db_rep P d' A"
    using ta(1) r mo(1) unfolding db_rep_def F by (auto split: if_splits)
  then show ?thesis using that [OF lay b] ta(2) ti(2) fa mk by (simp add: F node_at_def nkey_upd m_def)
qed

lemma grow_fail:
  assumes r: "db_rep P d A" and e: "env_ok e" and run: "grow_node e a cap d = (Inl x, d')"
  shows "db_rep P d' A \<and> is_bad_alloc x \<and> d_nodes d' = d_nodes d \<and> d_buckets d' = d_buckets d \<and> d_wal d' = d_wal d
    \<and> d_sched d' = d_sched d \<and> replaying d' = replaying d"
proof -
  obtain block cls where lay: "node_layout (unat (key_stride (of_nat (node_key_length (node_at d a))))) cap = (block, cls)" by (rule prod.exhaust)
  have pl: "placer_ok (e_place e)" using e by (simp add: env_ok_def)
  show ?thesis
  proof (cases "2 ^ 32 - 1 < block")
    case True
    then show ?thesis using run lay r by (auto simp: grow_node_def is_bad_alloc_def Let_def)
  next
    case False
    obtain p where p: "slab_allocate (e_place e) block (d_pool d) = (Inl x, p)" "d' = d\<lparr>d_pool := p\<rparr>"
      using run lay False by (auto simp: grow_node_def Let_def split: prod.splits sum.splits)
    then show ?thesis using slab.alloc_fail [OF pl db_repD(4) [OF r] p(1)] r by (simp add: db_rep_def counts_ok_def)
  qed
qed

lemma rehash_chain_nth:
  assumes "\<And>a. a \<in> set chain \<Longrightarrow> unat (hash_key (stored_key (node_at d a))) AND m < length fresh" "i < length fresh"
  shows "length (rehash_chain d m chain fresh) = length fresh
    \<and> rehash_chain d m chain fresh ! i =
        rev (filter (\<lambda>a. unat (hash_key (stored_key (node_at d a))) AND m = i) chain) @ fresh ! i"
  using assms
  by (induction d m chain fresh rule: rehash_chain.induct) (auto simp: Let_def nth_list_update)

lemma rehash_fold_nth:
  assumes "\<And>a. a \<in> set (concat B) \<Longrightarrow> unat (hash_key (stored_key (node_at d a))) AND m < length fresh" "i < length fresh"
  shows "length (foldl (\<lambda>fresh chain. rehash_chain d m chain fresh) fresh B) = length fresh
    \<and> foldl (\<lambda>fresh chain. rehash_chain d m chain fresh) fresh B ! i =
        rev (filter (\<lambda>a. unat (hash_key (stored_key (node_at d a))) AND m = i) (concat B)) @ fresh ! i"
  using assms
proof (induction B arbitrary: fresh)
  case (Cons c B)
  have c: "length (rehash_chain d m c fresh) = length fresh"
    "rehash_chain d m c fresh ! i = rev (filter (\<lambda>a. unat (hash_key (stored_key (node_at d a))) AND m = i) c) @ fresh ! i"
    using rehash_chain_nth [of c d m fresh i] Cons.prems by simp_all
  show ?case using Cons.IH [of "rehash_chain d m c fresh"] Cons.prems c by simp
qed simp

lemma distinct_concat_nth:
  assumes "\<And>i. i < length B \<Longrightarrow> distinct (B ! i)"
    and "\<And>i j. i < length B \<Longrightarrow> j < length B \<Longrightarrow> i \<noteq> j \<Longrightarrow> set (B ! i) \<inter> set (B ! j) = {}"
  shows "distinct (concat B)"
  using assms
proof (induction B)
  case (Cons c B)
  have "distinct (concat B)"
  proof (rule Cons.IH)
    show "distinct (B ! i)" if "i < length B" for i using Cons.prems(1) [of "Suc i"] that by simp
    show "set (B ! i) \<inter> set (B ! j) = {}" if "i < length B" "j < length B" "i \<noteq> j" for i j
      using Cons.prems(2) [of "Suc i" "Suc j"] that by simp
  qed
  moreover have "set c \<inter> set (concat B) = {}"
  proof -
    have "set c \<inter> set (B ! i) = {}" if "i < length B" for i using Cons.prems(2) [of 0 "Suc i"] that by simp
    then show ?thesis by (auto simp: in_set_conv_nth) (metis disjoint_iff nth_mem)
  qed
  ultimately show ?case using Cons.prems(1) [of 0] by simp
qed simp

lemma table_distinct: "table_ok B N P \<Longrightarrow> distinct (concat B)"
  by (rule distinct_concat_nth) (auto dest: tableD(2) tableD(3))

lemma rehash_table:
  assumes t: "table_ok B (d_nodes d) P" and n: "n = length B * 2" and sk: "\<And>a. a \<in> linked B \<Longrightarrow> stored_key (node_at d a) = keyat d a"
    and F: "F = foldl (\<lambda>fresh chain. rehash_chain d (n - 1) chain fresh) (replicate n []) B"
  shows "table_ok F (d_nodes d) P" "linked F = linked B"
proof -
  obtain k where "length B = 2 ^ k" using tableD(1) [OF t] by blast
  then have k: "n = 2 ^ Suc k" using n by simp
  have idx: "unat (hash_key x) AND (n - 1) = bucket_of x n" for x by (simp add: bucket_of_def)
  have lt: "bucket_of x n < n" for x using bucket_less [of "replicate n ([] :: addr list)" "Suc k" x] k by (simp del: power_Suc)
  have sb: "stored_key (node_at d a) = keyat d a" if "a \<in> set (concat B)" for a using sk that by (simp add: linked_def)
  have fold: "length F = n" "F ! i = rev (filter (\<lambda>a. bucket_of (stored_key (node_at d a)) n = i) (concat B))" if "i < n" for i
    using rehash_fold_nth [of B d "n - 1" "replicate n []" i] that lt unfolding F idx by simp_all
  have len: "length F = n" using fold(1) [of 0] k by simp
  have flt: "filter (\<lambda>a. bucket_of (stored_key (node_at d a)) n = i) (concat B) = filter (\<lambda>a. bucket_of (keyat d a) n = i) (concat B)" for i
    by (rule filter_cong) (use sb in simp_all)
  have mem: "a \<in> set (F ! i) \<longleftrightarrow> a \<in> linked B \<and> bucket_of (keyat d a) n = i" if "i < n" for a i
    unfolding fold(2) [OF that] flt by (simp add: linked_def)
  show L: "linked F = linked B"
    using mem lt len unfolding linked_iff [of _ F] set_eq_iff by auto
  have "distinct (F ! i)" if "i < n" for i
    unfolding fold(2) [OF that] flt using table_distinct [OF t] by simp
  moreover have "\<exists>k. length F = 2 ^ k" using len k by blast
  ultimately show "table_ok F (d_nodes d) P"
    using tableD(4-7) [OF t] mem unfolding table_ok_def L len by simp
qed

lemma rehash_rep:
  assumes r: "db_rep P d A" and e: "env_ok e" and n: "n = length (d_buckets d) * 2" and run: "rehash e n d = (res, d')"
  shows "db_rep P d' A \<and> (\<forall>x. res = Inl x \<longrightarrow> is_bad_alloc x) \<and> d_nodes d' = d_nodes d \<and> links d' = links d
    \<and> d_sched d' = d_sched d \<and> d_wal d' = d_wal d \<and> replaying d' = replaying d"
proof -
  obtain r1 d1 where s: "std_alloc e 0 d = (r1, d1)" by (rule prod.exhaust)
  note r1 = std_rep(1) [OF r e s]
  have same: "d_buckets d1 = d_buckets d" "d_nodes d1 = d_nodes d" "d_sched d1 = d_sched d" "d_wal d1 = d_wal d" "replaying d1 = replaying d"
    using s by (auto simp: std_alloc_def split: prod.splits)
  show ?thesis
  proof (cases r1)
    case (Inl x)
    then show ?thesis using run s r1 same by (auto simp: rehash_def)
  next
    case (Inr u)
    define F where "F = foldl (\<lambda>fresh chain. rehash_chain d1 (n - 1) chain fresh) (replicate n []) (d_buckets d1)"
    have d': "res = Inr ()" "d' = std_free e 0 (d1\<lparr>d_buckets := F\<rparr>)"
      using run s Inr by (auto simp: rehash_def Let_def F_def)
    have rr: "db_rep P d1 A" using r1 by simp
    note ta = rehash_table [OF db_repD(1) [OF rr] _ linked_node(4) [OF rr] F_def]
    have nn: "n = length (d_buckets d1) * 2" using n same by simp
    have "db_rep P (d1\<lparr>d_buckets := F\<rparr>) A"
      using rr ta(1) [OF nn] ta(2) [OF nn] by (simp add: db_rep_def counts_ok_def)
    then have "db_rep P d' A" unfolding d' by (rule std_rep(2) [OF _ e])
    then show ?thesis using d' ta(2) [OF nn] same by (simp add: std_free_def)
  qed
qed

lemma maybe_rehash_rep:
  assumes r: "db_rep P d A" and e: "env_ok e" and run: "maybe_rehash e d = (res, d')"
  shows "db_rep P d' A \<and> (\<forall>x. res = Inl x \<longrightarrow> is_bad_alloc x) \<and> d_nodes d' = d_nodes d \<and> links d' = links d
    \<and> d_sched d' = d_sched d \<and> d_wal d' = d_wal d \<and> replaying d' = replaying d"
  using run rehash_rep [OF r e refl] r unfolding maybe_rehash_def by (auto split: if_splits)

section \<open>Lookups with expiry\<close>

lemma expired_iff:
  assumes r: "db_rep P d A" and a: "a \<in> links d" and v: "ks_map A (keyat d a) = Some v"
  shows "has_flag flag_has_ttl (node_at d a) \<and> expired_at a now d \<longleftrightarrow> is_expired now v"
proof -
  obtain ob t where v': "v = (ob, t)" by (rule prod.exhaust)
  have t: "t = deadlines (d_sched d) a" using linked_val(2) [OF r a] v v' by simp
  have "deadlines (d_sched d) a = None \<longleftrightarrow> \<not> has_flag flag_has_ttl (node_at d a)"
    using timersD(3) [OF db_repD(3) [OF r] a] by (simp add: node_at_def)
  moreover have "expired_at a now d = (case deadlines (d_sched d) a of None \<Rightarrow> False | Some t \<Rightarrow> t \<le> now)"
    by (auto simp: expired_at_def deadlines_def split: option.splits)
  ultimately show ?thesis using t v' by (auto simp: is_expired_def split: option.splits)
qed

lemma touch_node_fields [simp]:
  "d_nodes (touch_node a d) = d_nodes d" "d_buckets (touch_node a d) = d_buckets d" "d_sched (touch_node a d) = d_sched d"
  "d_wal (touch_node a d) = d_wal d" "replaying (touch_node a d) = replaying d" "node_at (touch_node a d) b = node_at d b"
  "key_total (touch_node a d) = key_total d" "d_pool (touch_node a d) = d_pool d"
  by (simp_all add: touch_node_def node_at_def)

lemma find_active_rep:
  assumes r: "db_rep P d A" and run: "find_active e key d = (res, d')"
  shows "case res of
      None \<Rightarrow> d' = d \<and> fst (a_find (e_steady e 0) (replaying d) key A) = None
    | Some a \<Rightarrow> \<exists>v. a_find (e_steady e 0) (replaying d) key A = (Some v, a_touch key A) \<and> db_rep P d' (a_touch key A)
        \<and> a \<in> links d' \<and> keyat d' a = key \<and> ks_map A key = Some v \<and> node_rep (node_at d' a) (fst v)
        \<and> snd v = deadlines (d_sched d') a \<and> d' = touch_node a d"
proof (cases "find_node key d")
  case None
  then show ?thesis using run find_node_None [OF r None] by (auto simp: find_active_def a_find_def)
next
  case (Some a)
  note f = find_node_Some [OF r Some]
  obtain ob where ob: "ks_map A key = Some (ob, deadlines (d_sched d) a)" "node_rep (node_at d a) ob"
    using linked_obj [OF r f(1)] f(2) by auto
  have ex: "has_flag flag_has_ttl (node_at d a) \<and> expired_at a (e_steady e 0) d \<longleftrightarrow> is_expired (e_steady e 0) (ob, deadlines (d_sched d) a)"
    by (rule expired_iff [OF r f(1)]) (use ob f in simp)
  have t: "db_rep P (touch_node a d) (a_touch key A)" using touch_rep [OF r f(1)] f(2) by simp
  show ?thesis
  proof (cases "\<not> replaying d \<and> is_expired (e_steady e 0) (ob, deadlines (d_sched d) a)")
    case True
    then have "res = None" "d' = d" using run Some ex by (auto simp: find_active_def)
    then show ?thesis using True ob by (simp add: a_find_def)
  next
    case False
    then have "res = Some a" "d' = touch_node a d" using run Some ex by (auto simp: find_active_def split: if_splits)
    then show ?thesis using False ob t f by (auto simp: a_find_def)
  qed
qed

lemma db_log_error: "db_log e opr args d = (Inl x, d') \<Longrightarrow> \<not> is_bad_alloc x"
  by (auto simp: db_log_def append_def flush_locked_def write_failure_def is_bad_alloc_def Let_def
      split: option.splits if_splits prod.splits)

lemma find_writable_rep:
  assumes r: "db_rep P d A" and e: "env_ok e" and run: "find_writable e key d = (res, d')"
  shows "case res of
      Inl x \<Rightarrow> db_rep P d' A \<and> (\<not> is_bad_alloc x)
    | Inr None \<Rightarrow> fst (a_find (e_steady e 0) (replaying d) key A) = None \<and> db_rep P d' (snd (a_find (e_steady e 0) (replaying d) key A))
        \<and> length key \<le> max_key_length \<and> replaying d' = replaying d
    | Inr (Some a) \<Rightarrow> \<exists>v. a_find (e_steady e 0) (replaying d) key A = (Some v, a_touch key A) \<and> db_rep P d' (a_touch key A)
        \<and> a \<in> links d' \<and> keyat d' a = key \<and> ks_map A key = Some v \<and> node_rep (node_at d' a) (fst v)
        \<and> snd v = deadlines (d_sched d') a \<and> d' = touch_node a d \<and> length key \<le> max_key_length"
proof (cases "max_key_length < length key")
  case True
  then show ?thesis using run r by (auto simp: find_writable_def is_bad_alloc_def)
next
  case short: False
  show ?thesis
  proof (cases "find_node key d")
    case None
    then show ?thesis using run short r find_node_None [OF r None] by (auto simp: find_writable_def a_find_def)
  next
    case (Some a)
    note f = find_node_Some [OF r Some]
    obtain ob where ob: "ks_map A key = Some (ob, deadlines (d_sched d) a)" "node_rep (node_at d a) ob"
      using linked_obj [OF r f(1)] f(2) by auto
    have ex: "has_flag flag_has_ttl (node_at d a) \<and> expired_at a (e_steady e 0) d \<longleftrightarrow> is_expired (e_steady e 0) (ob, deadlines (d_sched d) a)"
      by (rule expired_iff [OF r f(1)]) (use ob f in simp)
    have t: "db_rep P (touch_node a d) (a_touch key A)" using touch_rep [OF r f(1)] f(2) by simp
    show ?thesis
    proof (cases "\<not> replaying d \<and> is_expired (e_steady e 0) (ob, deadlines (d_sched d) a)")
      case True
      obtain r1 d1 where l: "db_log e op_del [key] d = (r1, d1)" by (rule prod.exhaust)
      note r1 = db_log_rep [OF r l] and lf = db_log_fields [OF l]
      show ?thesis
      proof (cases r1)
        case (Inl x)
        then have "res = Inl x" "d' = d1" using run short Some True ex l by (auto simp: find_writable_def)
        then show ?thesis using r1 db_log_error l Inl by simp
      next
        case (Inr u)
        then have dd: "res = Inr None" "d' = (erase_node e a d1)\<lparr>expired_keys := expired_keys (erase_node e a d1) + 1\<rparr>"
          using run short Some True ex l by (auto simp: find_writable_def Let_def)
        have a1: "a \<in> links d1" "keyat d1 a = key" using f lf by simp_all
        have "db_rep P d' (a_drop key A)" using erase_rep(1) [OF r1 e a1(1)] a1(2) dd(2) by simp
        moreover have "replaying d' = replaying d" using erase_rep(5) [OF r1 e a1(1)] lf dd(2) by simp
        ultimately show ?thesis using dd(1) True ob short by (simp add: a_find_def)
      qed
    next
      case False
      then have "res = Inr (Some a)" "d' = touch_node a d" using run short Some ex by (auto simp: find_writable_def)
      then show ?thesis using False ob t f short by (auto simp: a_find_def)
    qed
  qed
qed

section \<open>Eviction and expiry sweeps\<close>

lemma batch_frame [simp]: "db_rep P (begin_wal_batch d) A = db_rep P d A"
  by (simp add: begin_wal_batch_def)

lemma end_batch_rep: "db_rep P d A \<Longrightarrow> end_wal_batch e d = (r, d') \<Longrightarrow> db_rep P d' A"
  by (auto simp: end_wal_batch_def split: option.splits prod.splits)

lemma order_length:
  assumes "db_rep P d A"
  shows "key_total d = length (ks_order A)"
proof -
  obtain xs where x: "dll (d_lru d) xs" "set xs = links d" "ks_order A = map (nkey (d_nodes d)) xs"
    using db_repD(2) [OF assms] by (auto simp: order_ok_def)
  have "card (links d) = length xs" using x(1,2) distinct_card [of xs] by (simp add: dll_def)
  then show ?thesis using db_repD(7) [OF assms] x(3) by (simp add: counts_ok_def)
qed

lemma tail_key:
  assumes "db_rep P d A"
  shows "lru_tail (d_lru d) = None \<longleftrightarrow> ks_order A = []"
    "lru_tail (d_lru d) = Some a \<Longrightarrow> a \<in> links d \<and> keyat d a = last (ks_order A)"
proof -
  obtain xs where x: "dll (d_lru d) xs" "set xs = links d" "ks_order A = map (nkey (d_nodes d)) xs"
    using db_repD(2) [OF assms] by (auto simp: order_ok_def)
  have t: "lru_tail (d_lru d) = opt_last xs" using x(1) by (simp add: dll_def)
  show "lru_tail (d_lru d) = None \<longleftrightarrow> ks_order A = []" using t x(3) by (auto simp: opt_last_def)
  assume "lru_tail (d_lru d) = Some a"
  then have "xs \<noteq> []" "a = last xs" using t by (auto simp: opt_last_def split: if_splits)
  then show "a \<in> links d \<and> keyat d a = last (ks_order A)" using x(2,3) last_in_set [of xs] by (simp add: last_map)
qed

lemma drop_last_order:
  assumes "distinct (ks_order A)" "ks_order A \<noteq> []"
  shows "ks_order (a_drop (last (ks_order A)) A) = butlast (ks_order A)"
proof -
  obtain ys y where "ks_order A = ys @ [y]" using assms(2) by (cases "ks_order A" rule: rev_cases) auto
  then show ?thesis using assms(1) by (simp add: a_drop_def remove1_append)
qed

text \<open>Evicting \<open>k\<close> keys keeps exactly the keys used most recently.\<close>

lemma a_evict_order:
  assumes "distinct (ks_order A)" "dom (ks_map A) \<subseteq> set (ks_order A)" "k \<le> length (ks_order A)"
  shows "ks_order (a_evict k A) = take (length (ks_order A) - k) (ks_order A)
    \<and> ks_map (a_evict k A) = ks_map A |` set (take (length (ks_order A) - k) (ks_order A))"
  using assms
proof (induction k arbitrary: A)
  case 0
  then show ?case by (auto simp: restrict_map_def fun_eq_iff domIff)
next
  case (Suc k)
  obtain ys x where ys: "ks_order A = ys @ [x]" using Suc.prems(3) by (cases "ks_order A" rule: rev_cases) auto
  have lx: "last (ks_order A) = x" using ys by simp
  have xy: "x \<notin> set ys" "distinct ys" using Suc.prems(1) ys by auto
  have o: "ks_order (a_drop x A) = ys" using ys xy by (simp add: a_drop_def remove1_append)
  have m: "ks_map (a_drop x A) = (ks_map A)(x := None)" by (simp add: a_drop_def)
  have sub: "dom (ks_map (a_drop x A)) \<subseteq> set (ks_order (a_drop x A))" using Suc.prems(2) unfolding m o ys by auto
  have "distinct (ks_order (a_drop x A))" "k \<le> length (ks_order (a_drop x A))" using xy(2) Suc.prems(3) ys unfolding o by simp_all
  then have ih: "ks_order (a_evict k (a_drop x A)) = take (length ys - k) ys"
    "ks_map (a_evict k (a_drop x A)) = (ks_map A)(x := None) |` set (take (length ys - k) ys)"
    using Suc.IH [of "a_drop x A", OF _ sub] unfolding o m by blast+
  have tk: "take (length (ks_order A) - Suc k) (ks_order A) = take (length ys - k) ys" unfolding ys by simp
  have "x \<notin> set (take (length ys - k) ys)" using xy(1) in_set_takeD by metis
  then have "(ks_map A)(x := None) |` set (take (length ys - k) ys) = ks_map A |` set (take (length ys - k) ys)"
    by (auto simp: restrict_map_def fun_eq_iff)
  then show ?case using ih tk by (simp add: lx)
qed

lemma evict_loop_rep:
  assumes "db_rep P d A" "env_ok e" "evict_loop e target n ev d = (res, d')"
  shows "\<exists>k \<le> n. k \<le> length (ks_order A) \<and> db_rep P d' (a_evict k A)
    \<and> (\<forall>v. res = Inr v \<longrightarrow> v = ev + k \<and> k = min n (length (ks_order A) - target))"
  using assms
proof (induction e target n ev d arbitrary: A rule: evict_loop.induct)
  case (1 e target ev d)
  then show ?case by auto
next
  case (2 e target n ev d)
  note r = "2.prems"(1)
  have len: "key_total d = length (ks_order A)" by (rule order_length [OF r])
  show ?case
  proof (cases "key_total d \<le> target \<or> lru_tail (d_lru d) = None")
    case True
    then have "res = Inr ev" "d' = d" using "2.prems"(3) by (auto split: option.splits)
    moreover have "length (ks_order A) - target = 0" using True tail_key(1) [OF r] len by auto
    ultimately show ?thesis using r by (intro exI [of _ 0]) auto
  next
    case False
    then obtain a where a: "lru_tail (d_lru d) = Some a" "target < key_total d" by auto
    note tk = tail_key(2) [OF r a(1)]
    let ?args = "[stored_key (node_at d a)]"
    have sk: "stored_key (node_at d a) = last (ks_order A)" using linked_node(4) [OF r] tk by simp
    obtain r1 d1 where l: "db_log e op_del ?args d = (r1, d1)" by (rule prod.exhaust)
    note r1 = db_log_rep [OF r l] and lf = db_log_fields [OF l]
    show ?thesis
    proof (cases r1)
      case (Inl x)
      then have "res = Inl x" "d' = d1" using "2.prems"(3) a l by auto
      then show ?thesis using r1 by (intro exI [of _ 0]) auto
    next
      case (Inr u)
      let ?d2 = "erase_node e a d1" and ?A = "a_drop (last (ks_order A)) A"
      let ?d3 = "?d2\<lparr>evictions := evictions ?d2 + 1\<rparr>"
      have a1: "a \<in> links d1" "keyat d1 a = last (ks_order A)" using tk lf by simp_all
      have r3: "db_rep P ?d3 ?A" using erase_rep(1) [OF r1 "2.prems"(2) a1(1)] a1(2) by simp
      have run: "evict_loop e target n (ev + 1) ?d3 = (res, d')" using "2.prems"(3) a l Inr by (simp add: Let_def)
      have ne: "ks_order A \<noteq> []" using a(2) len by auto
      have "db_core P d A" using r by (simp add: db_rep_core)
      then have di: "distinct (ks_order A)" by (rule order_distinct)
      have ol: "length (ks_order ?A) = length (ks_order A) - 1"
        unfolding drop_last_order [OF di ne] by simp
      obtain k where k: "k \<le> n" "k \<le> length (ks_order ?A)" "db_rep P d' (a_evict k ?A)"
        "\<forall>v. res = Inr v \<longrightarrow> v = ev + 1 + k \<and> k = min n (length (ks_order ?A) - target)"
        using "2.IH" [OF _ a(1) l [symmetric] Inr refl refl r3 "2.prems"(2) run] a(2) by auto
      have "min (Suc n) (length (ks_order A) - target) = Suc (min n (length (ks_order A) - 1 - target))"
        using a(2) len by simp
      then show ?thesis using k ol ne a(2) len by (intro exI [of _ "Suc k"]) auto
    qed
  qed
qed

lemma in_batch_rep:
  assumes "in_batch e work d = (res, d')" "db_rep P d A"
    and "\<And>r d1. work (begin_wal_batch d) = (r, d1) \<Longrightarrow> \<exists>A'. Q r A' \<and> db_rep P d1 A'"
  shows "\<exists>r A'. Q r A' \<and> db_rep P d' A' \<and> (\<forall>v. res = Inr v \<longrightarrow> r = Inr v)"
proof -
  obtain r d1 where w: "work (begin_wal_batch d) = (r, d1)" by (rule prod.exhaust)
  obtain A' where A': "Q r A'" "db_rep P d1 A'" using assms(3) [OF w] by blast
  obtain r2 d2 where en: "end_wal_batch e d1 = (r2, d2)" by (rule prod.exhaust)
  have "db_rep P d2 A'" by (rule end_batch_rep [OF A'(2) en])
  moreover have "d' = d2" "\<forall>v. res = Inr v \<longrightarrow> r = Inr v"
    using assms(1) w en by (auto simp: in_batch_def split: sum.splits)
  ultimately show ?thesis using A'(1) by blast
qed

lemma front_expired:
  assumes r: "db_rep P d A"
  shows "sched_front (d_sched d) = None \<Longrightarrow> none_expired now A"
    "sched_front (d_sched d) = Some a \<Longrightarrow> now < deadline_of (d_sched d) a \<Longrightarrow> none_expired now A"
    "sched_front (d_sched d) = Some a \<Longrightarrow> \<not> now < deadline_of (d_sched d) a \<Longrightarrow>
      a \<in> links d \<and> (\<exists>v. ks_map A (keyat d a) = Some v \<and> is_expired now v)"
proof -
  note t = db_repD(3) [OF r]
  have idx: "indexed (d_sched d)" using timersD(1) [OF t] by (simp add: sched_inv_def)
  have val: "\<exists>b \<in> links d. keyat d b = k \<and> snd v = deadlines (d_sched d) b" if "ks_map A k = Some v" for k v
  proof -
    have "k \<in> keyat d ` links d" using db_repD(6) [OF r] that unfolding kv_ok_def by blast
    then obtain b where b: "b \<in> links d" "keyat d b = k" by blast
    then show ?thesis using linked_val(2) [OF r b(1), of "fst v" "snd v"] that by auto
  qed
  show "none_expired now A" if "sched_front (d_sched d) = None"
  proof -
    have "deadlines (d_sched d) = Map.empty" using sched_front_None [OF idx] that by blast
    then show ?thesis using val unfolding none_expired_def is_expired_def by (fastforce split: option.splits)
  qed
  show "none_expired now A" if f: "sched_front (d_sched d) = Some a" "now < deadline_of (d_sched d) a"
  proof -
    obtain dm where dm: "deadlines (d_sched d) a = Some dm" "\<And>m t. deadlines (d_sched d) m = Some t \<Longrightarrow> dm \<le> t"
      using sched_front_min [OF timersD(1) [OF t] f(1)] by blast
    have "deadline_of (d_sched d) a = dm" using dm(1) by (auto simp: deadline_of_def deadlines_def)
    then have lt: "now < dm" using f(2) by simp
    have "\<not> is_expired now v" if m: "ks_map A k = Some v" for k v
    proof -
      obtain b where b: "snd v = deadlines (d_sched d) b" using val [OF m] by blast
      show ?thesis
      proof (cases "snd v")
        case (Some t)
        then show ?thesis using dm(2) [of b t] b lt by (simp add: is_expired_def)
      qed (simp add: is_expired_def)
    qed
    then show ?thesis by (simp add: none_expired_def)
  qed
  show "a \<in> links d \<and> (\<exists>v. ks_map A (keyat d a) = Some v \<and> is_expired now v)"
    if f: "sched_front (d_sched d) = Some a" "\<not> now < deadline_of (d_sched d) a"
  proof -
    obtain dm where dm: "deadlines (d_sched d) a = Some dm"
      using sched_front_min [OF timersD(1) [OF t] f(1)] by blast
    then have al: "a \<in> links d" using timersD(2) [OF t] by blast
    have "deadline_of (d_sched d) a = dm" using dm by (auto simp: deadline_of_def deadlines_def)
    then have "dm \<le> now" using f(2) by simp
    moreover obtain ob where "ks_map A (keyat d a) = Some (ob, deadlines (d_sched d) a)" by (rule linked_obj [OF r al])
    ultimately show ?thesis using al dm by (auto simp: is_expired_def)
  qed
qed

lemma drop_swept:
  assumes "swept now n ks (a_drop key A)" "ks_map A key = Some v" "is_expired now v"
  shows "swept now (Suc n) (key # ks) A"
proof -
  have o: "ks_map A k = ks_map (a_drop key A) k \<and> k \<noteq> key" if "k \<in> set ks" for k
    using assms(1) that unfolding swept_def a_drop_def by fastforce
  then show ?thesis using assms unfolding swept_def by (metis distinct.simps(2) length_Cons Suc_le_mono set_ConsD)
qed

lemma expire_loop_rep:
  assumes "db_rep P d A" "env_ok e" "expire_loop e now n d = (res, d')"
  shows "\<exists>ks. swept now n ks A \<and> db_rep P d' (fold a_drop ks A)
    \<and> (res = Inr () \<longrightarrow> length ks = n \<or> none_expired now (fold a_drop ks A))"
  using assms
proof (induction e now n d arbitrary: A rule: expire_loop.induct)
  case (1 e now d)
  then show ?case by (intro exI [of _ "[]"]) (simp add: swept_def)
next
  case (2 e now n d)
  note r = "2.prems"(1) and fe = front_expired [OF "2.prems"(1)]
  show ?case
  proof (cases "sched_front (d_sched d)")
    case None
    then show ?thesis using "2.prems" fe(1) by (intro exI [of _ "[]"]) (auto simp: swept_def)
  next
    case (Some a)
    show ?thesis
    proof (cases "now < deadline_of (d_sched d) a")
      case True
      then show ?thesis using "2.prems" Some fe(2) by (intro exI [of _ "[]"]) (auto simp: swept_def)
    next
      case False
      obtain v where a: "a \<in> links d" "ks_map A (keyat d a) = Some v" "is_expired now v"
        using fe(3) [OF Some False] by blast
      let ?args = "[stored_key (node_at d a)]"
      obtain r1 d1 where l: "db_log e op_del ?args d = (r1, d1)" by (rule prod.exhaust)
      note r1 = db_log_rep [OF r l] and lf = db_log_fields [OF l]
      show ?thesis
      proof (cases r1)
        case (Inl x)
        then have "res = Inl x" "d' = d1" using "2.prems"(3) Some False l by auto
        then show ?thesis using r1 by (intro exI [of _ "[]"]) (simp add: swept_def)
      next
        case (Inr u)
        let ?d2 = "erase_node e a d1" and ?A = "a_drop (keyat d a) A"
        let ?d3 = "?d2\<lparr>expired_keys := expired_keys ?d2 + 1\<rparr>"
        have a1: "a \<in> links d1" "keyat d1 a = keyat d a" using a lf by simp_all
        have r3: "db_rep P ?d3 ?A" using erase_rep(1) [OF r1 "2.prems"(2) a1(1)] a1(2) by simp
        have run: "expire_loop e now n ?d3 = (res, d')" using "2.prems"(3) Some False l Inr by (simp add: Let_def)
        obtain ks where k: "swept now n ks ?A" "db_rep P d' (fold a_drop ks ?A)"
          "res = Inr () \<longrightarrow> length ks = n \<or> none_expired now (fold a_drop ks ?A)"
          using "2.IH" [OF Some False l [symmetric] Inr refl refl r3 "2.prems"(2) run] by blast
        then show ?thesis using drop_swept [OF k(1) a(2,3)] by (intro exI [of _ "keyat d a # ks"]) auto
      qed
    qed
  qed
qed

lemma insert_rep:
  assumes r: "db_rep P d A" and e: "env_ok e" and k: "length key \<le> max_key_length" and new: "ks_map A key = None"
    and run: "insert_node e key t cap d = (Inr a, d')"
    and rep: "\<And>n. node_wf n \<Longrightarrow> cap \<le> length (body n) \<Longrightarrow> node_type n = t \<Longrightarrow> node_flags n = 0 \<Longrightarrow> n_count n = 0 \<Longrightarrow>
      list_head n = 0 \<Longrightarrow> list_used n = 0 \<Longrightarrow> \<exists>ob. node_rep n ob \<and> Q ob n"
  obtains ob where "db_rep P d' (a_touch key (a_put key (ob, None) A))" "a \<in> links d'" "keyat d' a = key" "Q ob (node_at d' a)"
    "cap \<le> length (body (node_at d' a))"
proof -
  obtain r1 d1 where m: "maybe_rehash e d = (r1, d1)" by (rule prod.exhaust)
  note mr = maybe_rehash_rep [OF r e m]
  have "\<exists>u. r1 = Inr u" using run m by (cases r1) (auto simp: insert_node_def)
  then obtain d2 where c: "create_node e key t cap d1 = (Inr a, d2)"
    using run m by (auto simp: insert_node_def Let_def split: prod.splits sum.splits)
  have r1: "db_rep P d1 A" using mr by simp
  obtain n where n: "db_rep (insert a P) d2 A" "d_nodes d1 a = None" "d_nodes d2 = (d_nodes d1)(a \<mapsto> n)" "node_wf n"
    "cap \<le> length (body n)" "key_bytes n = key" "node_type n = t" "node_flags n = 0" "n_count n = 0" "list_head n = 0"
    "list_used n = 0" "d_buckets d2 = d_buckets d1" by (rule create_rep [OF r1 e k c])
  have na: "node_at d2 a = n" "keyat d2 a = key" using n(3,6) by (simp_all add: node_at_def nkey_def)
  obtain ob where ob: "node_rep n ob" "Q ob n" using rep [OF n(4,5,7-11)] by blast
  have at: "attach a d2 = d'"
    using run m c \<open>\<exists>u. r1 = Inr u\<close> na n(12) wf_key(1) [OF n(4)] n(6)
    by (auto simp: insert_node_def Let_def attach_def link_def)
  have nf: "\<not> has_flag flag_has_ttl (node_at d2 a)" using na n(8) by (simp add: has_flag_def)
  have "db_rep (insert a P - {a}) d' (a_touch key (a_put key (ob, None) A))"
    using attach_rep [OF n(1), of a ob] na new ob nf at by simp
  moreover have "a \<notin> P" using not_in_dom(2) [OF r1 n(2)] .
  ultimately have "db_rep P d' (a_touch key (a_put key (ob, None) A))" by simp
  moreover have "a \<in> links d'" using attach_core(2) [of "insert a P" d2 A a ob] n(1) na new ob(1) at by (simp add: db_rep_core)
  moreover have "node_at d' a = n" "keyat d' a = key" using na at by (auto simp: node_at_def attach_fields nkey_def)
  ultimately show ?thesis using that ob(2) n(5) by simp
qed

end
