(* ===== verification/Database.thy ===== *)
theory Database
  imports KeyspaceRep Resp "HOL-Library.AList"
begin

text \<open>
  The commands of the database (\<^verbatim>\<open>src/database.cpp\<close>): strings, counters, lists, hashes, expiry,
  deletion, statistics, replay, compaction and the opening of the log, on top of the keyspace.
\<close>

section \<open>Definitions\<close>

subsection \<open>Strings and counters\<close>

datatype view = VString bytes | VInteger int64 | VList | VHash

definition value_limit :: nat where
  "value_limit = 64 * 1024 * 1024"

text \<open>
  A pending node is destroyed when the operation raises before committing it, as the
  \<^verbatim>\<open>unique_ptr\<close> that owns it does.
\<close>

definition log_pending :: "env \<Rightarrow> addr \<Rightarrow> wal_op \<Rightarrow> bytes list \<Rightarrow> db \<Rightarrow> (exn + unit) \<times> db" where
  "log_pending e a opr args d =
     (case db_log e opr args d of (Inl x, d1) \<Rightarrow> (Inl x, destroy e a d1) | (Inr u, d1) \<Rightarrow> (Inr u, d1))"

definition db_set :: "env \<Rightarrow> bytes \<Rightarrow> bytes \<Rightarrow> db \<Rightarrow> (exn + unit) \<times> db" where
  "db_set e key val d =
     (if value_limit < length val then (Inl (Error request_too_large), d)
      else case find_writable e key d of
        (Inl x, d1) \<Rightarrow> (Inl x, d1)
      | (Inr found, d1) \<Rightarrow>
          if (case found of
                None \<Rightarrow> True
              | Some a \<Rightarrow>
                  let n = node_at d1 a
                  in node_type n \<noteq> NString \<or> node_body_capacity n < length val
                     \<or> (largest_class < node_body_capacity n \<and> length val < node_body_capacity n div 4))
          then
            (case (if found = None then maybe_rehash e d1 else (Inr (), d1)) of
               (Inl x, d2) \<Rightarrow> (Inl x, d2)
             | (Inr _, d2) \<Rightarrow>
                 (case create_node e key NString (w32 (length val)) d2 of
                    (Inl x, d3) \<Rightarrow> (Inl x, d3)
                  | (Inr p, d3) \<Rightarrow>
                      let n = node_at d3 p;
                          d4 = put_node p (n\<lparr>body := write_at 0 val (body n), n_count := of_nat (length val)\<rparr>) d3
                      in (case log_pending e p op_set [key, val] d4 of
                            (Inl x, d5) \<Rightarrow> (Inl x, d5)
                          | (Inr _, d5) \<Rightarrow> (Inr (), commit_node e found p False d5))))
          else
            let a = the found
            in (case db_log e op_set [key, val] d1 of
                  (Inl x, d2) \<Rightarrow> (Inl x, d2)
                | (Inr _, d2) \<Rightarrow>
                    let n = node_at d2 a;
                        d3 = put_node a (n\<lparr>body := write_at 0 val (body n), n_count := of_nat (length val)\<rparr>) d2;
                        d4 = clear_expiry e a (touch_node a d3)
                    in (Inr (), bump_sequence d4)))"

definition value_view :: "env \<Rightarrow> bytes \<Rightarrow> db \<Rightarrow> view option \<times> db" where
  "value_view e key d =
     (case find_active e key d of
        (None, d1) \<Rightarrow> (None, d1)
      | (Some a, d1) \<Rightarrow>
          let n = node_at d1 a
          in (Some (case node_type n of
                 NString \<Rightarrow> VString (string_value n)
               | NInteger \<Rightarrow> VInteger (integer_value n)
               | NList \<Rightarrow> VList
               | NHash \<Rightarrow> VHash), d1))"

definition db_get :: "env \<Rightarrow> bytes \<Rightarrow> db \<Rightarrow> bytes option result \<times> db" where
  "db_get e key d =
     (case value_view e key d of
        (None, d1) \<Rightarrow> (Inr None, d1)
      | (Some v, d1) \<Rightarrow>
          ((case v of
              VInteger i \<Rightarrow> Inr (Some (decimal (sint i)))
            | VString s \<Rightarrow> Inr (Some s)
            | _ \<Rightarrow> Inl wrong_type), d1))"

definition int64_max :: int64 where
  "int64_max = 0x7FFFFFFFFFFFFFFF"

definition increment :: "env \<Rightarrow> bytes \<Rightarrow> db \<Rightarrow> (exn + int64 result) \<times> db" where
  "increment e key d =
     (case find_writable e key d of
        (Inl x, d1) \<Rightarrow> (Inl x, d1)
      | (Inr None, d1) \<Rightarrow>
          (case maybe_rehash e d1 of
             (Inl x, d2) \<Rightarrow> (Inl x, d2)
           | (Inr _, d2) \<Rightarrow>
               (case create_node e key NInteger 8 d2 of
                  (Inl x, d3) \<Rightarrow> (Inl x, d3)
                | (Inr p, d3) \<Rightarrow>
                    let d4 = put_node p (set_integer_value 1 (node_at d3 p)) d3
                    in (case log_pending e p op_increment [key] d4 of
                          (Inl x, d5) \<Rightarrow> (Inl x, d5)
                        | (Inr _, d5) \<Rightarrow> (Inr (Inr 1), commit_node e None p True d5))))
      | (Inr (Some a), d1) \<Rightarrow>
          (let n = node_at d1 a
           in if node_type n = NInteger then
                let current = integer_value n
                in if current = int64_max then (Inr (Inl value_not_integer), d1)
                   else (case db_log e op_increment [key] d1 of
                           (Inl x, d2) \<Rightarrow> (Inl x, d2)
                         | (Inr _, d2) \<Rightarrow>
                             (Inr (Inr (current + 1)),
                              bump_sequence (put_node a (set_integer_value (current + 1) (node_at d2 a)) d2)))
              else if node_type n \<noteq> NString then (Inr (Inl wrong_type), d1)
              else case from_chars_i64 (string_value n) of
                None \<Rightarrow> (Inr (Inl value_not_integer), d1)
              | Some current \<Rightarrow>
                  if current = int64_max then (Inr (Inl value_not_integer), d1)
                  else (case (if node_body_capacity n < 8 then grow_node e a 8 d1 else (Inr a, d1)) of
                          (Inl x, d2) \<Rightarrow> (Inl x, d2)
                        | (Inr b, d2) \<Rightarrow>
                            (case db_log e op_increment [key] d2 of
                               (Inl x, d3) \<Rightarrow> (Inl x, d3)
                             | (Inr _, d3) \<Rightarrow>
                                 let m = (set_type NInteger (node_at d3 b))\<lparr>n_count := 0\<rparr>
                                 in (Inr (Inr (current + 1)),
                                     bump_sequence (put_node b (set_integer_value (current + 1) m) d3))))))"

subsection \<open>Lists\<close>

text \<open>\<^verbatim>\<open>ElementInput\<close> and \<^verbatim>\<open>Value\<close> are elements: a text or an integer.\<close>

definition elem_size :: "element \<Rightarrow> bool \<Rightarrow> nat" where
  "elem_size v with_backlen =
     (case v of
        EInteger i \<Rightarrow> if with_backlen then encoded_size_int i else body_size_int i
      | EString s \<Rightarrow> if with_backlen then encoded_size_text s else body_size_text s)"

definition write_element :: "element \<Rightarrow> bool \<Rightarrow> bytes" where
  "write_element v with_backlen =
     (case v of
        EInteger i \<Rightarrow> if with_backlen then encode_int i else encode_body_int i
      | EString s \<Rightarrow> if with_backlen then encode_text s else encode_body_text s)"

text \<open>The type letter and the text of an element in a log record.\<close>

definition log_value :: "element \<Rightarrow> bytes list" where
  "log_value v = (case v of EInteger i \<Rightarrow> [str ''i'', decimal (sint i)] | EString s \<Rightarrow> [str ''s'', s])"

definition list_reserve :: "env \<Rightarrow> addr \<Rightarrow> nat \<Rightarrow> nat \<Rightarrow> db \<Rightarrow> (exn + addr) \<times> db" where
  "list_reserve e a extra_front extra_back d =
     (let n = node_at d a;
          capacity = list_run_capacity n;
          front_fits = (extra_front \<le> list_head n);
          back_fits = (w32 (list_head n + list_used n + extra_back) \<le> capacity)
      in if front_fits \<and> back_fits then (Inr a, d)
         else
           let required = w32 (list_used n + extra_front + extra_back);
               new_capacity = (if required \<le> capacity then capacity else grown_capacity required capacity);
               used = list_used n
           in case (if capacity < new_capacity then grow_node e a (w32 (list_body_bytes + new_capacity)) d else (Inr a, d)) of
                (Inl x, d1) \<Rightarrow> (Inl x, d1)
              | (Inr b, d1) \<Rightarrow>
                  let m = node_at d1 b;
                      lowest = extra_front;
                      highest = sub32 (sub32 new_capacity used) extra_back;
                      new_head = sub32 new_capacity used div 2;
                      new_head = (if new_head < lowest then lowest else new_head);
                      new_head = (if highest < new_head then highest else new_head);
                      m1 = (if new_head \<noteq> list_head m \<and> used \<noteq> 0
                            then set_list_run (write_at new_head (take used (drop (list_head m) (list_run m))) (list_run m)) m
                            else m)
                  in (Inr b, put_node b (m1\<lparr>list_head := new_head\<rparr>) d1))"

definition list_push :: "env \<Rightarrow> bytes \<Rightarrow> element \<Rightarrow> bool \<Rightarrow> db \<Rightarrow> (exn + int64 result) \<times> db" where
  "list_push e key v front d =
     (let encoded = w32 (elem_size v True)
      in case find_writable e key d of
           (Inl x, d1) \<Rightarrow> (Inl x, d1)
         | (Inr found, d1) \<Rightarrow>
             if (case found of None \<Rightarrow> False | Some a \<Rightarrow> node_type (node_at d1 a) \<noteq> NList) then (Inr (Inl wrong_type), d1)
             else if (case found of None \<Rightarrow> False | Some a \<Rightarrow> value_limit < list_used (node_at d1 a) + encoded)
             then (Inr (Inl request_too_large), d1)
             else if value_limit < elem_size v True then (Inr (Inl request_too_large), d1)
             else
               (case (case found of
                        Some a \<Rightarrow> (Inr a, d1)
                      | None \<Rightarrow>
                          (case maybe_rehash e d1 of
                             (Inl x, d2) \<Rightarrow> (Inl x, d2)
                           | (Inr _, d2) \<Rightarrow> create_node e key NList (w32 (list_body_bytes + encoded)) d2)) of
                  (Inl x, d2) \<Rightarrow> (Inl x, d2)
                | (Inr a, d2) \<Rightarrow>
                    let use_front = (front \<and> n_count (node_at d2 a) \<noteq> 0)
                    in (case list_reserve e a (if use_front then encoded else 0) (if use_front then 0 else encoded) d2 of
                          (Inl x, d3) \<Rightarrow> (Inl x, if found = None then destroy e a d3 else d3)
                        | (Inr b, d3) \<Rightarrow>
                            (case db_log e (if front then op_push_left else op_push_right) (key # log_value v) d3 of
                               (Inl x, d4) \<Rightarrow> (Inl x, if found = None then destroy e b d4 else d4)
                             | (Inr _, d4) \<Rightarrow>
                                 let d5 = (if found = None then commit_node e None b True d4 else d4);
                                     n = node_at d5 b;
                                     head = (if use_front then sub32 (list_head n) encoded else list_head n);
                                     pos = (if use_front then head else list_head n + list_used n);
                                     m = (set_list_run (write_at pos (write_element v True) (list_run n)) n)
                                           \<lparr>list_head := head, list_used := w32 (list_used n + encoded),
                                            n_count := n_count n + 1\<rparr>
                                 in (Inr (Inr (ucast (n_count m))), bump_sequence (touch_node b (put_node b m d5)))))))"

fun db_log_each :: "env \<Rightarrow> (wal_op \<times> bytes list) list \<Rightarrow> db \<Rightarrow> (exn + unit) \<times> db" where
  "db_log_each e [] d = (Inr (), d)"
| "db_log_each e ((opr, args) # rest) d =
     (case db_log e opr args d of (Inl x, d1) \<Rightarrow> (Inl x, d1) | (Inr _, d1) \<Rightarrow> db_log_each e rest d1)"

text \<open>\<^verbatim>\<open>reserve_record\<close> followed by the records of a multi-value command, with the pending node destroyed on failure.\<close>

definition db_reserve_record :: "nat \<Rightarrow> db \<Rightarrow> (exn + unit) \<times> db" where
  "db_reserve_record n d =
     (case d_wal d of
        None \<Rightarrow> (Inr (), d)
      | Some w \<Rightarrow>
          if replaying d then (Inr (), d)
          else (case reserve_record n w of (r, w1) \<Rightarrow> (r, d\<lparr>d_wal := Some w1\<rparr>)))"

definition log_batch :: "env \<Rightarrow> addr \<Rightarrow> nat \<Rightarrow> (wal_op \<times> bytes list) list \<Rightarrow> db \<Rightarrow> (exn + unit) \<times> db" where
  "log_batch e p n records d =
     (case db_reserve_record n d of
        (Inl x, d1) \<Rightarrow> (Inl x, destroy e p d1)
      | (Inr _, d1) \<Rightarrow>
          (case db_log_each e records d1 of
             (Inl x, d2) \<Rightarrow> (Inl x, destroy e p d2)
           | (Inr u, d2) \<Rightarrow> (Inr u, d2)))"

text \<open>The size loop of \<^verbatim>\<open>push_texts\<close>: the bytes of the new run, or \<^verbatim>\<open>request_too_large\<close>.\<close>

fun push_bytes :: "bytes list \<Rightarrow> nat \<Rightarrow> nat option" where
  "push_bytes [] room = Some room"
| "push_bytes (v # vs) room =
     (if value_limit < length v then None
      else
        let room1 = room + encoded_size_text v
        in if value_limit < room1 then None else push_bytes vs room1)"

definition largest_length :: "bytes list \<Rightarrow> nat" where
  "largest_length vs = foldl (\<lambda>m v. max m (length v)) 0 vs"

definition push_texts :: "env \<Rightarrow> bytes \<Rightarrow> bytes list \<Rightarrow> bool \<Rightarrow> db \<Rightarrow> (exn + int64 result) \<times> db" where
  "push_texts e key vals front d =
     (case find_writable e key d of
        (Inl x, d1) \<Rightarrow> (Inl x, d1)
      | (Inr old, d1) \<Rightarrow>
          if (case old of None \<Rightarrow> False | Some a \<Rightarrow> node_type (node_at d1 a) \<noteq> NList) then (Inr (Inl wrong_type), d1)
          else if vals = [] then
            (Inr (Inr (case old of None \<Rightarrow> 0 | Some a \<Rightarrow> ucast (n_count (node_at d1 a)))), d1)
          else
            (case push_bytes vals (case old of None \<Rightarrow> 0 | Some a \<Rightarrow> list_used (node_at d1 a)) of
               None \<Rightarrow> (Inr (Inl request_too_large), d1)
             | Some room \<Rightarrow>
                 (case (if old = None then maybe_rehash e d1 else (Inr (), d1)) of
                    (Inl x, d2) \<Rightarrow> (Inl x, d2)
                  | (Inr _, d2) \<Rightarrow>
                      (case create_node e key NList (w32 (list_body_bytes + room)) d2 of
                         (Inl x, d3) \<Rightarrow> (Inl x, d3)
                       | (Inr p, d3) \<Rightarrow>
                           let n = node_at d3 p;
                               old_run = (case old of
                                            None \<Rightarrow> []
                                          | Some a \<Rightarrow>
                                              let o1 = node_at d3 a in take (list_used o1) (drop (list_head o1) (list_run o1)));
                               old_count = (case old of None \<Rightarrow> 0 | Some a \<Rightarrow> n_count (node_at d3 a));
                               out = (if front then concat (map encode_text (rev vals)) @ old_run
                                      else old_run @ concat (map encode_text vals));
                               n1 = (set_list_run (write_at 0 out (list_run n)) n)
                                      \<lparr>list_head := 0, list_used := w32 room,
                                       n_count := old_count + of_nat (length vals)\<rparr>;
                               d4 = put_node p n1 d3
                           in (case log_batch e p (length key + largest_length vals + 64)
                                      (map (\<lambda>v. (if front then op_push_left else op_push_right, [key, str ''s'', v])) vals) d4 of
                                 (Inl x, d5) \<Rightarrow> (Inl x, d5)
                               | (Inr _, d5) \<Rightarrow>
                                   (Inr (Inr (ucast (n_count (node_at d5 p)))), commit_node e old p True d5))))))"

definition list_pop :: "env \<Rightarrow> bytes \<Rightarrow> bool \<Rightarrow> db \<Rightarrow> (exn + element option result) \<times> db" where
  "list_pop e key front d =
     (case find_writable e key d of
        (Inl x, d1) \<Rightarrow> (Inl x, d1)
      | (Inr None, d1) \<Rightarrow> (Inr (Inr None), d1)
      | (Inr (Some a), d1) \<Rightarrow>
          (let n = node_at d1 a
           in if node_type n \<noteq> NList then (Inr (Inl wrong_type), d1)
              else if n_count n = 0 then (Inr (Inr None), d1)
              else
                let run = list_run n;
                    fin = list_head n + list_used n;
                    payload = the (decode_backlen run fin);
                    full = payload + backlen_bytes payload;
                    element = (if front then drop (list_head n) run else drop (fin - full) run);
                    removed = w32 (if front then the (stride element) else full);
                    v = the (decode element)
                in (case db_log e (if front then op_pop_left else op_pop_right) [key] d1 of
                      (Inl x, d2) \<Rightarrow> (Inl x, d2)
                    | (Inr _, d2) \<Rightarrow>
                        let m = (node_at d2 a)\<lparr>list_head := (if front then w32 (list_head n + removed) else list_head n),
                                  list_used := sub32 (list_used n) removed, n_count := n_count n - 1\<rparr>;
                            d3 = bump_sequence (put_node a m d2)
                        in (Inr (Inr (Some v)),
                            if n_count m = 0 then erase_node e a d3
                            else if largest_class < list_run_capacity m \<and> list_used m < list_run_capacity m div 4 then
                              let used = list_used m;
                                  m1 = (if used \<noteq> 0
                                        then set_list_run (write_at 0 (take used (drop (list_head m) (list_run m))) (list_run m)) m
                                        else m)\<lparr>list_head := 0\<rparr>
                              in snd (grow_node e a (w32 (list_body_bytes + max used 32)) (put_node a m1 d3))
                            else d3))))"

definition list_length :: "env \<Rightarrow> bytes \<Rightarrow> db \<Rightarrow> int64 result \<times> db" where
  "list_length e key d =
     (case find_active e key d of
        (None, d1) \<Rightarrow> (Inr 0, d1)
      | (Some a, d1) \<Rightarrow>
          (if node_type (node_at d1 a) \<noteq> NList then Inl wrong_type else Inr (ucast (n_count (node_at d1 a))), d1))"

subsection \<open>Hashes\<close>

text \<open>The scan of \<^verbatim>\<open>hash_find\<close>: the offset of the value of a field and the size of the field before it.\<close>

fun hash_find_loop :: "bytes \<Rightarrow> nat \<Rightarrow> nat \<Rightarrow> bytes \<Rightarrow> (nat \<times> nat) option" where
  "hash_find_loop buf cursor 0 field = None"
| "hash_find_loop buf cursor (Suc k) field =
     (let decoded = the (decode (drop cursor buf));
          field_bytes = the (element_size (drop cursor buf));
          cursor1 = cursor + field_bytes;
          value_bytes = the (element_size (drop cursor1 buf))
      in if decoded = EString field then Some (cursor1, field_bytes)
         else hash_find_loop buf (cursor1 + value_bytes) k field)"

definition hash_find :: "node \<Rightarrow> bytes \<Rightarrow> (nat \<times> nat) option" where
  "hash_find n field = hash_find_loop (body n) 0 (hash_count n) field"

text \<open>Reading all pairs of a packed hash, as promotion, compaction and \<^verbatim>\<open>hash_set_texts\<close> do.\<close>

fun unpack_pairs :: "bytes \<Rightarrow> nat \<Rightarrow> nat \<Rightarrow> (bytes \<times> element) list" where
  "unpack_pairs buf cursor 0 = []"
| "unpack_pairs buf cursor (Suc k) =
     (let name = (case the (decode (drop cursor buf)) of EString t \<Rightarrow> t | EInteger _ \<Rightarrow> []);
          cursor1 = cursor + the (element_size (drop cursor buf));
          item = the (decode (drop cursor1 buf));
          cursor2 = cursor1 + the (element_size (drop cursor1 buf))
      in (name, item) # unpack_pairs buf cursor2 k)"

definition table_of_pairs :: "(bytes \<times> element) list \<Rightarrow> (bytes \<times> element) list" where
  "table_of_pairs ps = foldl (\<lambda>t p. if map_of t (fst p) = None then AList.update (fst p) (snd p) t else t) [] ps"

definition hash_record :: "bytes \<Rightarrow> bytes \<Rightarrow> element \<Rightarrow> bytes list" where
  "hash_record key field v = key # field # log_value v"

text \<open>A field of a promoted hash is assigned in its table.\<close>

definition promoted_assign :: "env \<Rightarrow> addr \<Rightarrow> bytes \<Rightarrow> bytes \<Rightarrow> element \<Rightarrow> db \<Rightarrow> (exn + int64 result) \<times> db" where
  "promoted_assign e a key field v d =
     (case std_alloc e 2 d of
        (Inl x, d1) \<Rightarrow> (Inl x, d1)
      | (Inr _, d1) \<Rightarrow>
          if map_of (hash_table (node_at d1 a)) field \<noteq> None then
            (case db_log e op_hash_set (hash_record key field v) d1 of
               (Inl x, d2) \<Rightarrow> (Inl x, std_free e 5 d2)
             | (Inr _, d2) \<Rightarrow>
                 let n = node_at d2 a;
                     d3 = put_node a (n\<lparr>hash_table := AList.update field v (hash_table n)\<rparr>) d2
                 in (Inr (Inr 0), bump_sequence (std_free e 6 d3)))
          else
            (case std_alloc e 3 d1 of
               (Inl x, d2) \<Rightarrow> (Inl x, std_free e 5 d2)
             | (Inr _, d2) \<Rightarrow>
                 (case db_log e op_hash_set (hash_record key field v) d2 of
                    (Inl x, d3) \<Rightarrow> (Inl x, std_free e 7 d3)
                  | (Inr _, d3) \<Rightarrow>
                      let n = node_at d3 a;
                          t = AList.update field v (hash_table n)
                      in (Inr (Inr 1), bump_sequence (put_node a (n\<lparr>hash_table := t, n_count := of_nat (length t)\<rparr>) d3)))))"

text \<open>A pending hash node is logged and takes the place of the old one.\<close>

definition commit_hash :: "env \<Rightarrow> addr option \<Rightarrow> addr \<Rightarrow> bytes list \<Rightarrow> int64 \<Rightarrow> db \<Rightarrow> (exn + int64 result) \<times> db" where
  "commit_hash e old p args res d =
     (case log_pending e p op_hash_set args d of
        (Inl x, d1) \<Rightarrow> (Inl x, d1)
      | (Inr _, d1) \<Rightarrow> (Inr (Inr res), commit_node e old p True d1))"

text \<open>A hash beyond the packed limits moves into a table.\<close>

definition promote_assign ::
  "env \<Rightarrow> addr option \<Rightarrow> bytes \<Rightarrow> bytes \<Rightarrow> element \<Rightarrow> nat \<Rightarrow> int64 \<Rightarrow> db \<Rightarrow> (exn + int64 result) \<times> db" where
  "promote_assign e old key field v cnt res d =
     (case std_alloc e 2 d of
        (Inl x, d1) \<Rightarrow> (Inl x, d1)
      | (Inr _, d1) \<Rightarrow>
          let pairs = (case old of
                         None \<Rightarrow> []
                       | Some a \<Rightarrow> unpack_pairs (body (node_at d1 a)) 0 (hash_count (node_at d1 a)));
              t = AList.update field v (table_of_pairs pairs)
          in (case create_node e key NHash 8 d1 of
                (Inl x, d2) \<Rightarrow> (Inl x, std_free e 4 d2)
              | (Inr p, d2) \<Rightarrow>
                  commit_hash e old p (hash_record key field v) res
                    (put_node p ((set_flags flag_hash_promoted (node_at d2 p))\<lparr>hash_table := t, n_count := of_nat cnt\<rparr>) d2)))"

text \<open>The bytes of a packed hash after an assignment.\<close>

definition assigned_bytes :: "bytes \<Rightarrow> nat \<Rightarrow> (nat \<times> nat) option \<Rightarrow> bytes \<Rightarrow> element \<Rightarrow> bytes" where
  "assigned_bytes buf used found field v =
     (case found of
        Some (element, _) \<Rightarrow>
          let old_bytes = the (element_size (drop element buf))
          in take element buf @ write_element v False @ take (used - element - old_bytes) (drop (element + old_bytes) buf)
      | None \<Rightarrow> take used buf @ encode_body_text field @ write_element v False)"

definition hash_assign :: "env \<Rightarrow> bytes \<Rightarrow> bytes \<Rightarrow> element \<Rightarrow> db \<Rightarrow> (exn + int64 result) \<times> db" where
  "hash_assign e key field v d =
     (case find_writable e key d of
        (Inl x, d1) \<Rightarrow> (Inl x, d1)
      | (Inr old, d1) \<Rightarrow>
          if (case old of None \<Rightarrow> False | Some a \<Rightarrow> node_type (node_at d1 a) \<noteq> NHash) then (Inr (Inl wrong_type), d1)
          else if value_limit < length field \<or> value_limit < elem_size v False then (Inr (Inl request_too_large), d1)
          else if (case old of None \<Rightarrow> False | Some a \<Rightarrow> has_flag flag_hash_promoted (node_at d1 a))
          then promoted_assign e (the old) key field v d1
          else
            let found = (case old of None \<Rightarrow> None | Some a \<Rightarrow> hash_find (node_at d1 a) field);
                field_bytes = w32 (body_size_text field);
                value_bytes = w32 (elem_size v False);
                buf = (case old of None \<Rightarrow> [] | Some a \<Rightarrow> body (node_at d1 a));
                old_bytes = (case found of None \<Rightarrow> 0 | Some (element, _) \<Rightarrow> the (element_size (drop element buf)));
                used = (case old of None \<Rightarrow> 0 | Some a \<Rightarrow> hash_used (node_at d1 a));
                needed = w32 (used - old_bytes + value_bytes + (if found = None then field_bytes else 0));
                cnt = (case old of None \<Rightarrow> 0 | Some a \<Rightarrow> hash_count (node_at d1 a)) + (if found = None then 1 else 0);
                res = (if found = None then 1 else 0)
            in case (if old = None then maybe_rehash e d1 else (Inr (), d1)) of
                 (Inl x, d2) \<Rightarrow> (Inl x, d2)
               | (Inr _, d2) \<Rightarrow>
                   if hash_packed_limit < cnt \<or> hash_packed_byte_limit < needed
                   then promote_assign e old key field v cnt res d2
                   else if (case old of None \<Rightarrow> True | Some a \<Rightarrow> node_body_capacity (node_at d2 a) < needed) then
                     (case create_node e key NHash
                             (grown_capacity needed (case old of None \<Rightarrow> 0 | Some a \<Rightarrow> node_body_capacity (node_at d2 a))) d2 of
                        (Inl x, d3) \<Rightarrow> (Inl x, d3)
                      | (Inr p, d3) \<Rightarrow>
                          let n = node_at d3 p;
                              n1 = n\<lparr>body := write_at 0 (assigned_bytes buf used found field v) (body n)\<rparr>
                          in commit_hash e old p (hash_record key field v) res
                               (put_node p (set_hash_used needed (set_hash_count cnt n1)) d3))
                   else
                     let a = the old
                     in (case db_log e op_hash_set (hash_record key field v) d2 of
                           (Inl x, d3) \<Rightarrow> (Inl x, d3)
                         | (Inr _, d3) \<Rightarrow>
                             let n = node_at d3 a;
                                 n1 = n\<lparr>body := write_at 0 (assigned_bytes buf used found field v) (body n)\<rparr>
                             in (Inr (Inr res), bump_sequence (put_node a (set_hash_used needed (set_hash_count cnt n1)) d3))))"

text \<open>The field loop of \<^verbatim>\<open>hash_set_texts\<close>: the table, how many fields are new, and the longest pair.\<close>

fun assign_fields ::
  "bytes list \<Rightarrow> (bytes \<times> element) list \<Rightarrow> nat \<Rightarrow> nat \<Rightarrow> ((bytes \<times> element) list \<times> nat \<times> nat) option" where
  "assign_fields (f # v # rest) t added longest =
     (if value_limit < length f \<or> value_limit < length v then None
      else assign_fields rest (AList.update f (EString v) t) (if map_of t f = None then added + 1 else added)
             (max longest (length f + length v)))"
| "assign_fields _ t added longest = Some (t, added, longest)"

definition pair_size :: "bytes \<times> element \<Rightarrow> nat" where
  "pair_size p = body_size_text (fst p) + elem_size (snd p) False"

fun field_records :: "bytes \<Rightarrow> bytes list \<Rightarrow> (wal_op \<times> bytes list) list" where
  "field_records key (f # v # rest) = (op_hash_set, [key, f, str ''s'', v]) # field_records key rest"
| "field_records key _ = []"

definition pack_pairs :: "(bytes \<times> element) list \<Rightarrow> bytes" where
  "pack_pairs ps = concat (map (\<lambda>p. encode_body_text (fst p) @ write_element (snd p) False) ps)"

text \<open>The table of the hash a command starts from.\<close>

definition hash_pairs :: "env \<Rightarrow> node \<Rightarrow> (bytes \<times> element) list" where
  "hash_pairs e n =
     (if has_flag flag_hash_promoted n then e_iter e (hash_table n) else unpack_pairs (body n) 0 (hash_count n))"

definition fill_hash :: "env \<Rightarrow> bool \<Rightarrow> nat \<Rightarrow> (bytes \<times> element) list \<Rightarrow> node \<Rightarrow> node" where
  "fill_hash e promoted room t n =
     (if promoted then (set_flags flag_hash_promoted n)\<lparr>hash_table := t, n_count := of_nat (length t)\<rparr>
      else set_hash_used (w32 room) (set_hash_count (length t)
             (n\<lparr>body := write_at 0 (pack_pairs (e_iter e t)) (body n)\<rparr>)))"

text \<open>
  The table is built beside the old hash; it becomes the promoted hash, or it is packed and freed
  when the command ends.
\<close>

definition hash_set_table ::
  "env \<Rightarrow> addr option \<Rightarrow> bytes \<Rightarrow> bytes list \<Rightarrow> (bytes \<times> element) list \<Rightarrow> nat \<Rightarrow> nat \<Rightarrow> db \<Rightarrow> (exn + int64 result) \<times> db"
where
  "hash_set_table e old key args t added longest d =
     (let room = sum_list (map pair_size t);
          promoted = (hash_packed_limit < length t \<or> hash_packed_byte_limit < room)
      in case (if old = None then maybe_rehash e d else (Inr (), d)) of
           (Inl x, d1) \<Rightarrow> (Inl x, std_free e 4 d1)
         | (Inr _, d1) \<Rightarrow>
             (case create_node e key NHash (if promoted then 8 else w32 room) d1 of
                (Inl x, d2) \<Rightarrow> (Inl x, std_free e 4 d2)
              | (Inr p, d2) \<Rightarrow>
                  (case log_batch e p (length key + longest + 64) (field_records key args)
                          (put_node p (fill_hash e promoted room t (node_at d2 p)) d2) of
                     (Inl x, d3) \<Rightarrow> (Inl x, if promoted then d3 else std_free e 4 d3)
                   | (Inr _, d3) \<Rightarrow>
                       let d4 = commit_node e old p True d3
                       in (Inr (Inr (of_nat added)), if promoted then d4 else std_free e 4 d4))))"

definition hash_set_texts :: "env \<Rightarrow> bytes \<Rightarrow> bytes list \<Rightarrow> db \<Rightarrow> (exn + int64 result) \<times> db" where
  "hash_set_texts e key args d =
     (if length args mod 2 \<noteq> 0 then (Inr (Inl wrong_argument_count), d)
      else case find_writable e key d of
        (Inl x, d1) \<Rightarrow> (Inl x, d1)
      | (Inr old, d1) \<Rightarrow>
          if (case old of None \<Rightarrow> False | Some a \<Rightarrow> node_type (node_at d1 a) \<noteq> NHash) then (Inr (Inl wrong_type), d1)
          else if args = [] then (Inr (Inr 0), d1)
          else
            (case std_alloc e 2 d1 of
               (Inl x, d2) \<Rightarrow> (Inl x, d2)
             | (Inr _, d2) \<Rightarrow>
                 (case assign_fields args
                         (table_of_pairs (case old of None \<Rightarrow> [] | Some a \<Rightarrow> hash_pairs e (node_at d2 a))) 0 0 of
                    None \<Rightarrow> (Inr (Inl request_too_large), std_free e 4 d2)
                  | Some (t, added, longest) \<Rightarrow> hash_set_table e old key args t added longest d2)))"

definition hash_field :: "env \<Rightarrow> bytes \<Rightarrow> bytes \<Rightarrow> db \<Rightarrow> element option result \<times> db" where
  "hash_field e key field d =
     (case find_active e key d of
        (None, d1) \<Rightarrow> (Inr None, d1)
      | (Some a, d1) \<Rightarrow>
          (let n = node_at d1 a
           in if node_type n \<noteq> NHash then Inl wrong_type
              else if has_flag flag_hash_promoted n then Inr (map_of (hash_table n) field)
              else (case hash_find n field of
                      None \<Rightarrow> Inr None
                    | Some (element, _) \<Rightarrow> Inr (Some (the (decode (drop element (body n)))))), d1))"

definition hash_get :: "env \<Rightarrow> bytes \<Rightarrow> bytes \<Rightarrow> db \<Rightarrow> element option result \<times> db" where
  "hash_get e key field d = hash_field e key field d"

definition hash_del :: "env \<Rightarrow> bytes \<Rightarrow> bytes \<Rightarrow> db \<Rightarrow> (exn + bool result) \<times> db" where
  "hash_del e key field d =
     (case find_writable e key d of
        (Inl x, d1) \<Rightarrow> (Inl x, d1)
      | (Inr None, d1) \<Rightarrow> (Inr (Inr False), d1)
      | (Inr (Some a), d1) \<Rightarrow>
          (let n = node_at d1 a
           in if node_type n \<noteq> NHash then (Inr (Inl wrong_type), d1)
              else if has_flag flag_hash_promoted n then
                (if map_of (hash_table n) field = None then (Inr (Inr False), d1)
                 else (case db_log e op_hash_del [key, field] d1 of
                         (Inl x, d2) \<Rightarrow> (Inl x, d2)
                       | (Inr _, d2) \<Rightarrow>
                           let t = AList.delete field (hash_table n);
                               d3 = std_free e 6 (put_node a ((node_at d2 a)\<lparr>hash_table := t, n_count := of_nat (length t)\<rparr>) d2);
                               d4 = bump_sequence d3
                           in (Inr (Inr True), if t = [] then erase_node e a d4 else d4)))
              else (case hash_find n field of
                      None \<Rightarrow> (Inr (Inr False), d1)
                    | Some (element, field_stride) \<Rightarrow>
                        (case db_log e op_hash_del [key, field] d1 of
                           (Inl x, d2) \<Rightarrow> (Inl x, d2)
                         | (Inr _, d2) \<Rightarrow>
                             let used = hash_used n;
                                 pair = field_stride + the (element_size (drop element (body n)));
                                 start = element - field_stride;
                                 rest = take (used - start - pair) (drop (start + pair) (body n));
                                 cnt = hash_count n;
                                 m = (node_at d2 a)\<lparr>body := write_at start rest (body n)\<rparr>;
                                 d3 = bump_sequence (put_node a (set_hash_count (cnt - 1) (set_hash_used (used - pair) m)) d2)
                             in (Inr (Inr True), if cnt = 1 then erase_node e a d3 else d3)))))"

definition hash_length :: "env \<Rightarrow> bytes \<Rightarrow> db \<Rightarrow> int64 result \<times> db" where
  "hash_length e key d =
     (case find_active e key d of
        (None, d1) \<Rightarrow> (Inr 0, d1)
      | (Some a, d1) \<Rightarrow>
          (let n = node_at d1 a
           in if node_type n \<noteq> NHash then Inl wrong_type
              else if has_flag flag_hash_promoted n then Inr (of_nat (length (hash_table n)))
              else Inr (of_nat (hash_count n)), d1))"

subsection \<open>Expiry, deletion, statistics\<close>

definition max_int :: int where
  "max_int = 2 ^ 63 - 1"

definition expire :: "env \<Rightarrow> bytes \<Rightarrow> int \<Rightarrow> db \<Rightarrow> (exn + bool) \<times> db" where
  "expire e key seconds d =
     (case find_writable e key d of
        (Inl x, d1) \<Rightarrow> (Inl x, d1)
      | (Inr None, d1) \<Rightarrow> (Inr False, d1)
      | (Inr (Some a), d1) \<Rightarrow>
          if seconds \<le> 0 then
            (case db_log e op_del [key] d1 of
               (Inl x, d2) \<Rightarrow> (Inl x, d2)
             | (Inr _, d2) \<Rightarrow> (Inr True, erase_node e a d2))
          else
            let now = e_steady e 1;
                max_seconds = (max_int - max now (e_wall e 0)) div 1000
            in if max_seconds < seconds then (Inl (Error value_not_integer), d1)
               else
                 let dl = now + seconds * 1000;
                     wall = e_wall e 1 + seconds * 1000;
                     previous = (case expiries (d_sched d1) a of None \<Rightarrow> - 1 | Some x \<Rightarrow> deadline x)
                 in case schedule_expiry e a dl d1 of
                      (Inl x, d2) \<Rightarrow> (Inl x, d2)
                    | (Inr _, d2) \<Rightarrow>
                        (case db_log e op_expire_at [key, decimal wall] d2 of
                           (Inl x, d3) \<Rightarrow>
                             if previous < 0 then (Inl x, clear_expiry e a d3)
                             else (case schedule_expiry e a previous d3 of (Inl y, d4) \<Rightarrow> (Inl y, d4) | (Inr _, d4) \<Rightarrow> (Inl x, d4))
                         | (Inr _, d3) \<Rightarrow> (Inr True, bump_sequence d3)))"

definition ttl :: "env \<Rightarrow> bytes \<Rightarrow> db \<Rightarrow> int \<times> db" where
  "ttl e key d =
     (case find_active e key d of
        (None, d1) \<Rightarrow> (- 2, d1)
      | (Some a, d1) \<Rightarrow>
          (case expiries (d_sched d1) a of
             None \<Rightarrow> (- 1, d1)
           | Some x \<Rightarrow>
               let remaining = deadline x - e_steady e 1
               in (if remaining \<le> 0 then - 2 else remaining div 1000, d1)))"

definition del :: "env \<Rightarrow> bytes \<Rightarrow> db \<Rightarrow> (exn + bool) \<times> db" where
  "del e key d =
     (case find_writable e key d of
        (Inl x, d1) \<Rightarrow> (Inl x, d1)
      | (Inr None, d1) \<Rightarrow> (Inr False, d1)
      | (Inr (Some a), d1) \<Rightarrow>
          (case db_log e op_del [key] d1 of
             (Inl x, d2) \<Rightarrow> (Inl x, d2)
           | (Inr _, d2) \<Rightarrow> (Inr True, erase_node e a d2)))"

record database_stats =
  st_key_count :: nat
  st_approximate_memory :: nat
  st_wal_bytes :: nat
  st_evictions :: u64
  st_expired_keys :: u64
  st_reserved_memory :: nat
  st_owned_memory :: nat
  st_max_memory :: nat

text \<open>What the statistics ask of the standard containers: object sizes and capacities.\<close>

record container_layout =
  cl_bucket_capacity :: "addr list list \<Rightarrow> nat"
  cl_table_bytes :: nat
  cl_table_buckets :: "(bytes \<times> element) list \<Rightarrow> nat"
  cl_entry_bytes :: nat
  cl_text_capacity :: "bytes \<Rightarrow> nat"
  cl_expiry_buckets :: "schedule \<Rightarrow> nat"
  cl_expiry_bytes :: nat
  cl_heap_capacity :: "addr list \<Rightarrow> nat"

definition entry_footprint :: "container_layout \<Rightarrow> bytes \<times> element \<Rightarrow> nat" where
  "entry_footprint cl p =
     cl_entry_bytes cl + 2 * 8 + cl_text_capacity cl (fst p) + 1
     + (case snd p of EString s \<Rightarrow> cl_text_capacity cl s + 1 | EInteger _ \<Rightarrow> 0)"

definition table_footprint :: "container_layout \<Rightarrow> node \<Rightarrow> nat" where
  "table_footprint cl n =
     (if node_type n = NHash \<and> has_flag flag_hash_promoted n
      then cl_table_bytes cl + cl_table_buckets cl (hash_table n) * 8 + sum_list (map (entry_footprint cl) (hash_table n))
      else 0)"

definition db_stats :: "container_layout \<Rightarrow> db \<Rightarrow> database_stats" where
  "db_stats cl d =
     (let all = map (node_at d) (concat (d_buckets d));
          s = d_sched d;
          active = tracked_bytes d + cl_bucket_capacity cl (d_buckets d) * 8 + sum_list (map (table_footprint cl) all)
            + cl_expiry_buckets cl s * 8 + length (expiry_heap s) * (cl_expiry_bytes cl + 3 * 8)
            + cl_heap_capacity cl (expiry_heap s) * 8;
          slab_live = sum_list (map (\<lambda>n. if node_size_class n \<noteq> oversized_class then node_block_size n else 0) all);
          res = reserved (d_pool d)
      in \<lparr>st_key_count = key_total d, st_approximate_memory = active,
          st_wal_bytes = (case d_wal d of None \<Rightarrow> 0 | Some w \<Rightarrow> w_total w), st_evictions = evictions d,
          st_expired_keys = expired_keys d, st_reserved_memory = active + res - min slab_live res,
          st_owned_memory = mem_used (d_pool d), st_max_memory = mem_limit (d_pool d)\<rparr>)"

subsection \<open>Replay\<close>

primrec expected_args :: "wal_op \<Rightarrow> nat" where
  "expected_args op_hash_set = 4"
| "expected_args op_push_left = 3"
| "expected_args op_push_right = 3"
| "expected_args op_set = 2"
| "expected_args op_integer_set = 2"
| "expected_args op_hash_del = 2"
| "expected_args op_expire_at = 2"
| "expected_args op_increment = 1"
| "expected_args op_pop_left = 1"
| "expected_args op_pop_right = 1"
| "expected_args op_del = 1"

definition wal_op_of :: "byte \<Rightarrow> wal_op option" where
  "wal_op_of c =
     find (\<lambda>opr. op_code opr = c)
       [op_set, op_increment, op_push_left, op_push_right, op_pop_left, op_pop_right,
        op_hash_set, op_hash_del, op_expire_at, op_del, op_integer_set]"

definition replay_value :: "bytes \<Rightarrow> bytes \<Rightarrow> element option" where
  "replay_value tag text =
     (if tag = str ''i'' then map_option EInteger (from_chars_i64 text)
      else if tag \<noteq> str ''s'' then None else Some (EString text))"

text \<open>A result without a value aborts the replay.\<close>

definition replayed :: "(exn + 'a result) \<times> db \<Rightarrow> (exn + unit) \<times> db" where
  "replayed r =
     (case r of
        (Inl x, d) \<Rightarrow> (Inl x, d)
      | (Inr (Inl _), d) \<Rightarrow> (Inl (Error disk_read_failed), d)
      | (Inr (Inr _), d) \<Rightarrow> (Inr (), d))"

definition replay_integer_set :: "env \<Rightarrow> bytes \<Rightarrow> int64 \<Rightarrow> db \<Rightarrow> (exn + unit) \<times> db" where
  "replay_integer_set e key v d =
     (let d1 = (case find_node key d of Some old \<Rightarrow> erase_node e old d | None \<Rightarrow> d)
      in case insert_node e key NInteger 8 d1 of
           (Inl x, d2) \<Rightarrow> (Inl x, d2)
         | (Inr a, d2) \<Rightarrow> (Inr (), put_node a (set_integer_value v (node_at d2 a)) d2))"

definition replay_expire_at :: "env \<Rightarrow> bytes \<Rightarrow> bytes \<Rightarrow> db \<Rightarrow> (exn + unit) \<times> db" where
  "replay_expire_at e key stamp d =
     (case find_node key d of
        None \<Rightarrow> (Inl (Error disk_read_failed), d)
      | Some a \<Rightarrow>
          (case from_chars_i64 stamp of
             None \<Rightarrow> (Inl (Error disk_read_failed), d)
           | Some wall \<Rightarrow>
               let current = e_wall e 0
               in if sint wall < 0 then (Inl (Error disk_read_failed), d)
                  else
                    let remaining = (if current < sint wall then sint wall - current else 0)
                    in schedule_expiry e a (e_steady e 0 + remaining) d))"

definition replay_op :: "env \<Rightarrow> wal_op \<Rightarrow> bytes list \<Rightarrow> db \<Rightarrow> (exn + unit) \<times> db" where
  "replay_op e opr a d =
     (case opr of
        op_set \<Rightarrow> db_set e (a ! 0) (a ! 1) d
      | op_integer_set \<Rightarrow>
          (case from_chars_i64 (a ! 1) of
             None \<Rightarrow> (Inl (Error disk_read_failed), d)
           | Some v \<Rightarrow> replay_integer_set e (a ! 0) v d)
      | op_increment \<Rightarrow> replayed (increment e (a ! 0) d)
      | op_push_left \<Rightarrow>
          (case replay_value (a ! 1) (a ! 2) of
             None \<Rightarrow> (Inl (Error disk_read_failed), d)
           | Some v \<Rightarrow> replayed (list_push e (a ! 0) v True d))
      | op_push_right \<Rightarrow>
          (case replay_value (a ! 1) (a ! 2) of
             None \<Rightarrow> (Inl (Error disk_read_failed), d)
           | Some v \<Rightarrow> replayed (list_push e (a ! 0) v False d))
      | op_pop_left \<Rightarrow> replayed (list_pop e (a ! 0) True d)
      | op_pop_right \<Rightarrow> replayed (list_pop e (a ! 0) False d)
      | op_hash_set \<Rightarrow>
          (case replay_value (a ! 2) (a ! 3) of
             None \<Rightarrow> (Inl (Error disk_read_failed), d)
           | Some v \<Rightarrow> replayed (hash_assign e (a ! 0) (a ! 1) v d))
      | op_hash_del \<Rightarrow> replayed (hash_del e (a ! 0) (a ! 1) d)
      | op_expire_at \<Rightarrow> replay_expire_at e (a ! 0) (a ! 1) d
      | op_del \<Rightarrow> (case del e (a ! 0) d of (Inl x, d1) \<Rightarrow> (Inl x, d1) | (Inr _, d1) \<Rightarrow> (Inr (), d1)))"

definition db_replay :: "env \<Rightarrow> byte \<Rightarrow> bytes list \<Rightarrow> db \<Rightarrow> (exn + unit) \<times> db" where
  "db_replay e opc a d =
     (case wal_op_of opc of
        None \<Rightarrow> (Inl (Error disk_read_failed), d)
      | Some opr \<Rightarrow>
          if length a \<noteq> expected_args opr \<or> a = [] \<or> max_key_length < length (a ! 0)
          then (Inl (Error disk_read_failed), d)
          else replay_op e opr a d)"

subsection \<open>Compaction and opening the log\<close>

definition no_expiry_limit :: nat where
  "no_expiry_limit = 2 ^ 64 - 1"

definition flush_wal :: "env \<Rightarrow> db \<Rightarrow> (exn + unit) \<times> db" where
  "flush_wal e d =
     (case d_wal d of
        None \<Rightarrow> (Inr (), d)
      | Some w \<Rightarrow> (case flush_locked (e_io e) w of (r, w1) \<Rightarrow> (r, d\<lparr>d_wal := Some w1\<rparr>)))"

fun list_items :: "bytes \<Rightarrow> nat \<Rightarrow> nat \<Rightarrow> element list" where
  "list_items run cursor 0 = []"
| "list_items run cursor (Suc k) =
     the (decode (drop cursor run)) # list_items run (cursor + the (stride (drop cursor run))) k"

definition node_records :: "env \<Rightarrow> node \<Rightarrow> log_record list" where
  "node_records e n =
     (let key = stored_key n
      in case node_type n of
           NString \<Rightarrow> [(op_code op_set, [key, string_value n])]
         | NInteger \<Rightarrow> [(op_code op_integer_set, [key, decimal (sint (integer_value n))])]
         | NList \<Rightarrow> map (\<lambda>v. (op_code op_push_right, key # log_value v))
                     (list_items (list_run n) (list_head n) (unat (n_count n)))
         | NHash \<Rightarrow> map (\<lambda>p. (op_code op_hash_set, hash_record key (fst p) (snd p))) (hash_pairs e n))"

definition write_expiry :: "env \<Rightarrow> int \<Rightarrow> int \<Rightarrow> db \<Rightarrow> addr \<Rightarrow> wal \<Rightarrow> (exn + unit) \<times> wal" where
  "write_expiry e steady wall d a w =
     (if has_flag flag_has_ttl (node_at d a) then
        let remaining = max 0 (deadline_of (d_sched d) a - steady)
        in if max_int - wall < remaining then (Inl (Error value_not_integer), w)
           else append (e_io e) (op_code op_expire_at) [stored_key (node_at d a), decimal (wall + remaining)] w
      else (Inr (), w))"

text \<open>The nodes from the least recently used on; the fuel is the number of keys.\<close>

fun write_nodes :: "env \<Rightarrow> int \<Rightarrow> int \<Rightarrow> db \<Rightarrow> nat \<Rightarrow> addr option \<Rightarrow> wal \<Rightarrow> (exn + unit) \<times> wal" where
  "write_nodes e steady wall d (Suc k) (Some a) w =
     (case append_all (e_io e) (node_records e (node_at d a)) w of
        (Inl x, w1) \<Rightarrow> (Inl x, w1)
      | (Inr _, w1) \<Rightarrow>
          (case write_expiry e steady wall d a w1 of
             (Inl x, w2) \<Rightarrow> (Inl x, w2)
           | (Inr _, w2) \<Rightarrow> write_nodes e steady wall d k (lru_previous (d_lru d) a) w2))"
| "write_nodes e steady wall d _ _ w = (Inr (), w)"

definition compact_wal :: "env \<Rightarrow> db \<Rightarrow> (exn + unit) \<times> db" where
  "compact_wal e d =
     (if d_wal d = None then (Inl (Error disk_write_failed), d)
      else case remove_expired_locked e no_expiry_limit d of
        (Inl x, d1) \<Rightarrow> (Inl x, d1)
      | (Inr _, d1) \<Rightarrow>
          (case compact (e_io e)
                  (write_nodes e (e_steady e 1) (e_wall e 0) d1 (key_total d1) (lru_tail (d_lru d1))) (the (d_wal d1)) of
             (r, w) \<Rightarrow> (r, d1\<lparr>d_wal := Some w\<rparr>)))"

text \<open>
  Every replayed record has an environment of its own, since clocks advance and memory changes
  between records; the second component of the replay state counts the records.
\<close>

definition replay_step :: "(nat \<Rightarrow> env) \<Rightarrow> (db \<times> nat) replay" where
  "replay_step es opc a s =
     (case db_replay (es (snd s)) opc a (fst s) of (r, d) \<Rightarrow> (r, d, snd s + 1))"

text \<open>\<^verbatim>\<open>wal_\<close> is assigned when the log could be opened, and keeps its value otherwise.\<close>

definition open_wal ::
  "env \<Rightarrow> (nat \<Rightarrow> env) \<Rightarrow> wal_sync \<Rightarrow> bytes option \<Rightarrow> db \<Rightarrow> (exn + unit) \<times> bytes option \<times> db"
where
  "open_wal e es sync path d =
     (if d_wal d \<noteq> None \<or> key_total d \<noteq> 0 then (Inl (Error disk_read_failed), path, d)
      else case wal_open (e_io e) 0 sync (replay_step es) path (d\<lparr>replaying := True\<rparr>, 0) of
        (Inl x, path1, d1, _) \<Rightarrow> (Inl x, path1, clear_keyspace e (d1\<lparr>d_wal := d_wal d, replaying := False\<rparr>))
      | (Inr w, path1, d1, _) \<Rightarrow>
          (case remove_expired_locked e no_expiry_limit (d1\<lparr>d_wal := Some w, replaying := False\<rparr>) of
             (r, d2) \<Rightarrow> (r, map_option w_file (d_wal d2), d2)))"

subsection \<open>The named forms of the list and hash commands\<close>

definition push_left :: "env \<Rightarrow> bytes \<Rightarrow> element \<Rightarrow> db \<Rightarrow> (exn + int64 result) \<times> db" where
  "push_left e key v d = list_push e key v True d"

definition push_right :: "env \<Rightarrow> bytes \<Rightarrow> element \<Rightarrow> db \<Rightarrow> (exn + int64 result) \<times> db" where
  "push_right e key v d = list_push e key v False d"

definition push_left_text :: "env \<Rightarrow> bytes \<Rightarrow> bytes \<Rightarrow> db \<Rightarrow> (exn + int64 result) \<times> db" where
  "push_left_text e key val d = list_push e key (EString val) True d"

definition push_right_text :: "env \<Rightarrow> bytes \<Rightarrow> bytes \<Rightarrow> db \<Rightarrow> (exn + int64 result) \<times> db" where
  "push_right_text e key val d = list_push e key (EString val) False d"

definition pop_left :: "env \<Rightarrow> bytes \<Rightarrow> db \<Rightarrow> (exn + element option result) \<times> db" where
  "pop_left e key d = list_pop e key True d"

definition pop_right :: "env \<Rightarrow> bytes \<Rightarrow> db \<Rightarrow> (exn + element option result) \<times> db" where
  "pop_right e key d = list_pop e key False d"

definition hash_set :: "env \<Rightarrow> bytes \<Rightarrow> bytes \<Rightarrow> element \<Rightarrow> db \<Rightarrow> (exn + int64 result) \<times> db" where
  "hash_set e key field v d = hash_assign e key field v d"

definition hash_set_text :: "env \<Rightarrow> bytes \<Rightarrow> bytes \<Rightarrow> bytes \<Rightarrow> db \<Rightarrow> (exn + int64 result) \<times> db" where
  "hash_set_text e key field val d = hash_assign e key field (EString val) d"

subsection \<open>The destructor\<close>

text \<open>Tables and oversized blocks go back one by one; the blocks of the slab classes go with their chunks.\<close>

definition release_node :: "env \<Rightarrow> addr \<Rightarrow> db \<Rightarrow> db" where
  "release_node e a d =
     (let n = node_at d a;
          d1 = (if node_type n = NHash \<and> has_flag flag_hash_promoted n then std_free e 2 d else d)
      in if node_size_class n = oversized_class
         then d1\<lparr>d_pool := slab_deallocate a (node_block_size n) (d_pool d1)\<rparr> else d1)"

definition release_nodes :: "env \<Rightarrow> db \<Rightarrow> db" where
  "release_nodes e d = fold (fold (release_node e)) (d_buckets d) d"

end
