(* ===== verification/DatabaseState.thy ===== *)
theory DatabaseState
  imports Database
begin

text \<open>
  The meaning of the log and the invariant of the database: the keyspace the nodes stand for, and
  a log whose replay gives the values of that keyspace. Strings and counters keep it.
\<close>

section \<open>Values and the log\<close>

text \<open>What a log can restore of a keyspace: the objects, and which keys have a deadline.\<close>

type_synonym vals = "bytes \<Rightarrow> (obj \<times> bool) option"

definition vals :: "keyspace \<Rightarrow> vals" where
  "vals A key = map_option (\<lambda>v. (fst v, snd v \<noteq> None)) (ks_map A key)"

definition obj_of :: "vals \<Rightarrow> bytes \<Rightarrow> obj option" where
  "obj_of V key = map_option fst (V key)"

definition has_ttl :: "vals \<Rightarrow> bytes \<Rightarrow> bool" where
  "has_ttl V key = (case V key of None \<Rightarrow> False | Some v \<Rightarrow> snd v)"

definition v_put :: "bytes \<Rightarrow> obj \<Rightarrow> vals \<Rightarrow> vals" where
  "v_put key ob V = V(key \<mapsto> (ob, has_ttl V key))"

text \<open>The effect of each command on the object it names: the error it reports, or the new object.\<close>

definition incr_obj :: "obj option \<Rightarrow> int64 result" where
  "incr_obj ob =
     (case ob of
        None \<Rightarrow> Inr 1
      | Some (OInteger i) \<Rightarrow> if i = int64_max then Inl value_not_integer else Inr (i + 1)
      | Some (OString s) \<Rightarrow>
          (case from_chars_i64 s of
             None \<Rightarrow> Inl value_not_integer
           | Some i \<Rightarrow> if i = int64_max then Inl value_not_integer else Inr (i + 1))
      | Some _ \<Rightarrow> Inl wrong_type)"

definition run_bytes :: "element list \<Rightarrow> nat" where
  "run_bytes xs = length (concat (map encode_element xs))"

definition list_of :: "obj option \<Rightarrow> element list result" where
  "list_of ob = (case ob of None \<Rightarrow> Inr [] | Some (OList xs) \<Rightarrow> Inr xs | Some _ \<Rightarrow> Inl wrong_type)"

definition push_obj :: "element \<Rightarrow> bool \<Rightarrow> obj option \<Rightarrow> element list result" where
  "push_obj v front ob =
     (case list_of ob of
        Inl c \<Rightarrow> Inl c
      | Inr xs \<Rightarrow>
          if value_limit < run_bytes xs + elem_size v True then Inl request_too_large
          else Inr (if front then v # xs else xs @ [v]))"

definition pop_obj :: "bool \<Rightarrow> obj option \<Rightarrow> (element \<times> element list) option result" where
  "pop_obj front ob =
     (case list_of ob of
        Inl c \<Rightarrow> Inl c
      | Inr xs \<Rightarrow>
          if xs = [] then Inr None
          else Inr (Some (if front then (hd xs, tl xs) else (last xs, butlast xs))))"

definition hash_of :: "obj option \<Rightarrow> (bytes \<Rightarrow> element option) result" where
  "hash_of ob = (case ob of None \<Rightarrow> Inr Map.empty | Some (OHash h) \<Rightarrow> Inr h | Some _ \<Rightarrow> Inl wrong_type)"

definition hset_obj :: "bytes \<Rightarrow> element \<Rightarrow> obj option \<Rightarrow> (bytes \<Rightarrow> element option) result" where
  "hset_obj field v ob =
     (case hash_of ob of
        Inl c \<Rightarrow> Inl c
      | Inr h \<Rightarrow>
          if value_limit < length field \<or> value_limit < elem_size v False then Inl request_too_large
          else Inr (h(field \<mapsto> v)))"

definition hdel_obj :: "bytes \<Rightarrow> obj option \<Rightarrow> (bytes \<Rightarrow> element option) option result" where
  "hdel_obj field ob =
     (case hash_of ob of
        Inl c \<Rightarrow> Inl c
      | Inr h \<Rightarrow> if h field = None then Inr None else Inr (Some (h(field := None))))"

text \<open>An empty list or hash is removed from the keyspace.\<close>

definition v_list :: "bytes \<Rightarrow> element list \<Rightarrow> vals \<Rightarrow> vals" where
  "v_list key xs V = (if xs = [] then V(key := None) else v_put key (OList xs) V)"

definition v_hash :: "bytes \<Rightarrow> (bytes \<Rightarrow> element option) \<Rightarrow> vals \<Rightarrow> vals" where
  "v_hash key h V = (if h = Map.empty then V(key := None) else v_put key (OHash h) V)"

text \<open>The meaning of a record: what replaying it makes of the values, or no result when replay refuses it.\<close>

definition v_push :: "bytes \<Rightarrow> bytes \<Rightarrow> bytes \<Rightarrow> bool \<Rightarrow> vals \<Rightarrow> vals option" where
  "v_push key tag text front V =
     (case replay_value tag text of
        None \<Rightarrow> None
      | Some v \<Rightarrow> (case push_obj v front (obj_of V key) of Inl _ \<Rightarrow> None | Inr xs \<Rightarrow> Some (v_put key (OList xs) V)))"

definition v_pop :: "bytes \<Rightarrow> bool \<Rightarrow> vals \<Rightarrow> vals option" where
  "v_pop key front V =
     (case pop_obj front (obj_of V key) of
        Inl _ \<Rightarrow> None
      | Inr None \<Rightarrow> Some V
      | Inr (Some (_, xs)) \<Rightarrow> Some (v_list key xs V))"

primrec v_op :: "wal_op \<Rightarrow> bytes list \<Rightarrow> vals \<Rightarrow> vals option" where
  "v_op op_set a V =
     (if length (a ! 1) \<le> value_limit then Some (V(a ! 0 \<mapsto> (OString (a ! 1), False))) else None)"
| "v_op op_integer_set a V = map_option (\<lambda>i. V(a ! 0 \<mapsto> (OInteger i, False))) (from_chars_i64 (a ! 1))"
| "v_op op_increment a V =
     (case incr_obj (obj_of V (a ! 0)) of Inl _ \<Rightarrow> None | Inr i \<Rightarrow> Some (v_put (a ! 0) (OInteger i) V))"
| "v_op op_push_left a V = v_push (a ! 0) (a ! 1) (a ! 2) True V"
| "v_op op_push_right a V = v_push (a ! 0) (a ! 1) (a ! 2) False V"
| "v_op op_pop_left a V = v_pop (a ! 0) True V"
| "v_op op_pop_right a V = v_pop (a ! 0) False V"
| "v_op op_hash_set a V =
     (case replay_value (a ! 2) (a ! 3) of
        None \<Rightarrow> None
      | Some v \<Rightarrow>
          (case hset_obj (a ! 1) v (obj_of V (a ! 0)) of
             Inl _ \<Rightarrow> None
           | Inr h \<Rightarrow> Some (v_put (a ! 0) (OHash h) V)))"
| "v_op op_hash_del a V =
     (case hdel_obj (a ! 1) (obj_of V (a ! 0)) of
        Inl _ \<Rightarrow> None
      | Inr None \<Rightarrow> Some V
      | Inr (Some h) \<Rightarrow> Some (v_hash (a ! 0) h V))"
| "v_op op_expire_at a V =
     (case (V (a ! 0), from_chars_i64 (a ! 1)) of
        (Some v, Some wall) \<Rightarrow> if sint wall < 0 then None else Some (V(a ! 0 \<mapsto> (fst v, True)))
      | _ \<Rightarrow> None)"
| "v_op op_del a V = Some (V(a ! 0 := None))"

definition v_apply :: "wal_op \<Rightarrow> bytes list \<Rightarrow> vals \<Rightarrow> vals option" where
  "v_apply opr a V =
     (if length a = expected_args opr \<and> length (a ! 0) \<le> max_key_length then v_op opr a V else None)"

definition v_record :: "log_record \<Rightarrow> vals \<Rightarrow> vals option" where
  "v_record r V = (case wal_op_of (fst r) of None \<Rightarrow> None | Some opr \<Rightarrow> v_apply opr (snd r) V)"

fun v_replay :: "log_record list \<Rightarrow> vals \<Rightarrow> vals option" where
  "v_replay [] V = Some V"
| "v_replay (r # rs) V = (case v_record r V of None \<Rightarrow> None | Some V1 \<Rightarrow> v_replay rs V1)"

text \<open>
  The log of a database holds records whose replay gives \<open>V\<close>; only a log that has failed may hold
  more records after them.
\<close>

definition log_ok :: "db \<Rightarrow> vals \<Rightarrow> bool" where
  "log_ok d V \<longleftrightarrow>
     (case d_wal d of
        None \<Rightarrow> True
      | Some w \<Rightarrow>
          \<exists>rs extra. log_inv w (rs @ extra) \<and> (\<not> w_failed w \<longrightarrow> extra = []) \<and> v_replay rs Map.empty = Some V)"

definition db_st :: "addr set \<Rightarrow> db \<Rightarrow> keyspace \<Rightarrow> vals \<Rightarrow> bool" where
  "db_st P d A V \<longleftrightarrow> db_rep P d A \<and> (replaying d \<or> log_ok d V)"

primrec obj_ok :: "obj \<Rightarrow> bool" where
  "obj_ok (OString s) \<longleftrightarrow> length s \<le> value_limit"
| "obj_ok (OInteger i) \<longleftrightarrow> True"
| "obj_ok (OList xs) \<longleftrightarrow> xs \<noteq> [] \<and> run_bytes xs \<le> value_limit"
| "obj_ok (OHash h) \<longleftrightarrow>
     h \<noteq> Map.empty \<and> (\<forall>f v. h f = Some v \<longrightarrow> length f \<le> value_limit \<and> elem_size v False \<le> value_limit)"

definition ks_ok :: "keyspace \<Rightarrow> bool" where
  "ks_ok A \<longleftrightarrow>
     (\<forall>key ob t. ks_map A key = Some (ob, t) \<longrightarrow>
        length key \<le> max_key_length \<and> obj_ok ob \<and> (case t of None \<Rightarrow> True | Some dl \<Rightarrow> 0 \<le> dl))"

definition db_inv :: "db \<Rightarrow> keyspace \<Rightarrow> bool" where
  "db_inv d A \<longleftrightarrow> db_st {} d A (vals A) \<and> ks_ok A"

definition a_seen :: "env \<Rightarrow> db \<Rightarrow> bytes \<Rightarrow> keyspace \<Rightarrow> keyspace" where
  "a_seen e d key A = snd (a_find (e_steady e 0) (replaying d) key A)"

definition fresh_node :: "bytes \<Rightarrow> node_kind \<Rightarrow> nat \<Rightarrow> node \<Rightarrow> bool" where
  "fresh_node key t cap n \<longleftrightarrow>
     node_wf n \<and> cap \<le> length (body n) \<and> key_bytes n = key \<and> node_type n = t \<and> node_flags n = 0 \<and> n_count n = 0
     \<and> list_head n = 0 \<and> list_used n = 0 \<and> length (body n) \<le> max cap 4096"

definition ttl_of :: "keyspace \<Rightarrow> bytes \<Rightarrow> int option" where
  "ttl_of A key = (case ks_map A key of None \<Rightarrow> None | Some v \<Rightarrow> snd v)"

definition a_store :: "bytes \<Rightarrow> obj \<Rightarrow> keyspace \<Rightarrow> keyspace" where
  "a_store key ob A = a_touch key (a_put key (ob, ttl_of A key) A)"

text \<open>A text written into a body large enough.\<close>

definition text_node :: "bytes \<Rightarrow> node \<Rightarrow> node" where
  "text_node val n = n\<lparr>body := write_at 0 val (body n), n_count := of_nat (length val)\<rparr>"

definition kept :: "env \<Rightarrow> db \<Rightarrow> bytes \<Rightarrow> keyspace \<Rightarrow> db \<Rightarrow> bool" where
  "kept e d key A d' \<longleftrightarrow> db_inv d' A \<or> db_inv d' (a_seen e d key A)"

text \<open>What a command with an error result promises: an exception or an error leaves the keyspace as the lookup left it.\<close>

definition outcome ::
  "env \<Rightarrow> db \<Rightarrow> bytes \<Rightarrow> keyspace \<Rightarrow> (exn + 'a result) \<Rightarrow> db \<Rightarrow> bool \<Rightarrow> (error_code \<Rightarrow> bool) \<Rightarrow> ('a \<Rightarrow> keyspace \<Rightarrow> bool) \<Rightarrow> bool"
where
  "outcome e d key A res d' fits err good \<longleftrightarrow>
     (case res of
        Inl x \<Rightarrow> kept e d key A d' \<and> (replaying d \<and> length key \<le> max_key_length \<and> fits \<longrightarrow> is_bad_alloc x)
      | Inr (Inl c) \<Rightarrow> db_inv d' (a_seen e d key A) \<and> err c \<and> replaying d' = replaying d \<and> length key \<le> max_key_length
      | Inr (Inr y) \<Rightarrow> (\<exists>B. db_inv d' B \<and> good y B) \<and> replaying d' = replaying d \<and> length key \<le> max_key_length)"

lemma vals_simps [simp]:
  "vals (a_touch key A) = vals A" "vals (a_drop key A) = (vals A)(key := None)"
  "vals (a_put key v A) = (vals A)(key \<mapsto> (fst v, snd v \<noteq> None))"
  by (auto simp: vals_def a_touch_def a_drop_def a_put_def)

lemma ks_map_simps [simp]:
  "ks_map (a_touch key A) = ks_map A" "ks_map (a_drop key A) = (ks_map A)(key := None)"
  "ks_map (a_put key v A) = (ks_map A)(key \<mapsto> v)"
  by (auto simp: a_touch_def a_drop_def a_put_def)

lemma ks_ok_simps [simp]:
  "ks_ok (a_touch key A) = ks_ok A" "ks_ok A \<Longrightarrow> ks_ok (a_drop key A)"
  "ks_ok A \<Longrightarrow> length key \<le> max_key_length \<Longrightarrow> obj_ok (fst v) \<Longrightarrow> (case snd v of None \<Rightarrow> True | Some dl \<Rightarrow> 0 \<le> dl)
     \<Longrightarrow> ks_ok (a_put key v A)"
  by (auto simp: ks_ok_def)

lemma wal_op_of_code [simp]: "wal_op_of (op_code opr) = Some opr"
  by (cases opr) (simp_all add: wal_op_of_def)

lemma v_record_code [simp]: "v_record (op_code opr, a) V = v_apply opr a V"
  by (simp add: v_record_def)

lemma v_replay_append:
  "v_replay (rs @ ss) V = (case v_replay rs V of None \<Rightarrow> None | Some V1 \<Rightarrow> v_replay ss V1)"
  by (induction rs arbitrary: V) (auto split: option.splits)

text \<open>Logging a record moves the log from the values before it to the values after it.\<close>

lemma log_step:
  assumes st: "replaying d \<or> log_ok d V" and run: "db_log e opr a d = (res, d')"
  shows "case res of
      Inl x \<Rightarrow> replaying d' \<or> log_ok d' V
    | Inr _ \<Rightarrow> v_apply opr a V = Some V' \<longrightarrow> replaying d' \<or> log_ok d' V'"
proof (cases "d_wal d = None \<or> replaying d")
  case True
  then have "d' = d" using run by (auto simp: db_log_def split: option.splits)
  then show ?thesis using True st by (auto simp: log_ok_def split: sum.splits)
next
  case False
  then obtain w w' where w: "d_wal d = Some w" "\<not> replaying d"
    and ap: "append (e_io e) (op_code opr) a w = (res, w')" and d': "d' = d\<lparr>d_wal := Some w'\<rparr>"
    using run by (auto simp: db_log_def split: option.splits prod.splits)
  obtain rs extra where l: "log_inv w (rs @ extra)" "\<not> w_failed w \<longrightarrow> extra = []" "v_replay rs Map.empty = Some V"
    using st w by (auto simp: log_ok_def)
  note ai = append_inv [OF l(1) ap] and ac = append_cases [OF ap]
  show ?thesis
  proof (cases res)
    case (Inl x)
    have "log_inv w' (rs @ extra) \<and> (\<not> w_failed w' \<longrightarrow> extra = []) \<or> log_inv w' (rs @ extra @ [(op_code opr, a)]) \<and> w_failed w'"
      using ai ac l(1,2) Inl by auto
    then show ?thesis using Inl d' l(3) by (auto simp: log_ok_def)
  next
    case (Inr u)
    then have e: "extra = []" and i: "log_inv w' (rs @ [(op_code opr, a)])" using ai ac l(2) by auto
    have "log_ok d' V'" if "v_apply opr a V = Some V'"
    proof -
      have "v_replay (rs @ [(op_code opr, a)]) Map.empty = Some V'" using l(3) that by (simp add: v_replay_append)
      then have "\<exists>rs extra. log_inv w' (rs @ extra) \<and> (\<not> w_failed w' \<longrightarrow> extra = []) \<and> v_replay rs Map.empty = Some V'"
        using i by (intro exI [of _ "rs @ [(op_code opr, a)]"] exI [of _ "[]"]) simp
      then show ?thesis using d' by (simp add: log_ok_def)
    qed
    then show ?thesis using Inr by simp
  qed
qed

lemma log_ok_cong: "d_wal d' = d_wal d \<Longrightarrow> log_ok d' V = log_ok d V"
  by (simp add: log_ok_def)

lemma db_st_frame:
  assumes "db_st P d A V" "db_rep P' d' A'" "d_wal d' = d_wal d" "replaying d' = replaying d"
  shows "db_st P' d' A' V"
  using assms log_ok_cong [OF assms(3), of V] by (simp add: db_st_def)

lemma db_st_simps [simp]:
  "db_st P (bump_sequence d) A V = db_st P d A V" "db_st P (d\<lparr>expired_keys := n\<rparr>) A V = db_st P d A V"
  "db_st P (d\<lparr>evictions := n\<rparr>) A V = db_st P d A V"
  by (simp_all add: db_st_def log_ok_def) (simp add: bump_sequence_def)

lemma erase_wal [simp]: "d_wal (erase_node e a d) = d_wal d" "replaying (erase_node e a d) = replaying d"
  by (simp_all add: erase_node_def Let_def bump_sequence_def unlink_def set_key_total_def clear_expiry_fields)

lemma commit_wal [simp]: "d_wal (commit_node e old f k d) = d_wal d" "replaying (commit_node e old f k d) = replaying d"
  by (simp_all add: commit_node_def Let_def bump_sequence_def link_def set_key_total_def put_node_def split: option.splits)

lemma std_wal [simp]:
  "d_wal (std_free e k d) = d_wal d" "replaying (std_free e k d) = replaying d"
  "std_alloc e k d = (r, d') \<Longrightarrow> d_wal d' = d_wal d" "std_alloc e k d = (r, d') \<Longrightarrow> replaying d' = replaying d"
  by (auto simp: std_free_def std_alloc_def split: prod.splits)

lemma put_node_simps [simp]:
  "d_wal (put_node a n d) = d_wal d" "replaying (put_node a n d) = replaying d" "d_buckets (put_node a n d) = d_buckets d"
  "d_sched (put_node a n d) = d_sched d" "d_nodes (put_node a n d) = (d_nodes d)(a \<mapsto> n)"
  "node_at (put_node a n d) a = n" "b \<noteq> a \<Longrightarrow> node_at (put_node a n d) b = node_at d b"
  by (simp_all add: put_node_def node_at_def)

lemma a_seen_alt:
  "a_seen e d key A =
     (case ks_map A key of
        None \<Rightarrow> A
      | Some v \<Rightarrow> if \<not> replaying d \<and> is_expired (e_steady e 0) v then a_drop key A else a_touch key A)"
  by (simp add: a_seen_def a_find_def split: option.splits)

lemma v_apply_del: "length key \<le> max_key_length \<Longrightarrow> v_apply op_del [key] V = Some (V(key := None))"
  by (simp add: v_apply_def)

lemma find_writable_st:
  assumes inv: "db_inv d A" and e: "env_ok e" and run: "find_writable e key d = (res, d')"
  shows "case res of
      Inl x \<Rightarrow> db_inv d' A \<and> \<not> is_bad_alloc x \<and> (replaying d \<longrightarrow> max_key_length < length key)
    | Inr None \<Rightarrow> db_inv d' (a_seen e d key A) \<and> ks_map (a_seen e d key A) key = None
        \<and> length key \<le> max_key_length \<and> replaying d' = replaying d
    | Inr (Some a) \<Rightarrow> \<exists>ob. db_inv d' (a_seen e d key A) \<and> length key \<le> max_key_length \<and> replaying d' = replaying d
        \<and> ks_map (a_seen e d key A) key = Some (ob, deadlines (d_sched d') a) \<and> a_seen e d key A = a_touch key A
        \<and> a \<in> links d' \<and> keyat d' a = key \<and> node_rep (node_at d' a) ob"
proof -
  have r: "db_rep {} d A" and l: "replaying d \<or> log_ok d (vals A)" and k: "ks_ok A"
    using inv by (auto simp: db_inv_def db_st_def)
  note fr = find_writable_rep [OF r e run]
  show ?thesis
  proof (cases res)
    case (Inl x)
    then have "replaying d' \<or> log_ok d' (vals A)"
      using run l log_step [OF l, of e op_del "[key]" "Inl x" d']
      by (auto simp: find_writable_def Let_def split: if_splits option.splits prod.splits sum.splits)
    moreover have "replaying d \<longrightarrow> max_key_length < length key"
      using run Inl by (auto simp: find_writable_def Let_def split: if_splits option.splits prod.splits sum.splits)
    ultimately show ?thesis using fr Inl k by (auto simp: db_inv_def db_st_def)
  next
    case (Inr oa)
    show ?thesis
    proof (cases oa)
      case None
      let ?S = "a_seen e d key A"
      have s: "db_rep {} d' ?S" "length key \<le> max_key_length" "replaying d' = replaying d"
        "fst (a_find (e_steady e 0) (replaying d) key A) = None"
        using fr Inr None by (simp_all add: a_seen_def)
      have n: "ks_map ?S key = None" using s(4) by (auto simp: a_seen_alt a_find_def split: option.splits if_splits)
      have v: "vals ?S = (vals A)(key := None)"
        using s(4) by (auto simp: a_seen_alt a_find_def vals_def split: option.splits if_splits)
      have "ks_ok ?S" using k by (simp add: a_seen_alt split: option.splits)
      moreover have "replaying d' \<or> log_ok d' (vals ?S)"
      proof (cases "find_node key d")
        case nn: None
        then have "d' = d" using run Inr None by (auto simp: find_writable_def split: if_splits)
        moreover have "vals A = vals ?S" using find_node_None [OF r nn] v by (auto simp: vals_def)
        ultimately show ?thesis using l by simp
      next
        case (Some a)
        then obtain d1 where d1: "db_log e op_del [key] d = (Inr (), d1)" "d_wal d' = d_wal d1" "replaying d' = replaying d1"
          using run Inr None by (auto simp: find_writable_def Let_def split: if_splits prod.splits sum.splits)
        then have "replaying d1 \<or> log_ok d1 (vals ?S)"
          using log_step [OF l d1(1), of "vals ?S"] v_apply_del [OF s(2)] v by simp
        then show ?thesis using d1(3) log_ok_cong [OF d1(2)] by simp
      qed
      ultimately show ?thesis using s n Inr None by (simp add: db_inv_def db_st_def)
    next
      case (Some a)
      then obtain v where v: "a_find (e_steady e 0) (replaying d) key A = (Some v, a_touch key A)"
        "db_rep {} d' (a_touch key A)" "a \<in> links d'" "keyat d' a = key" "ks_map A key = Some v"
        "node_rep (node_at d' a) (fst v)" "snd v = deadlines (d_sched d') a" "d' = touch_node a d" "length key \<le> max_key_length"
        using fr unfolding Inr Some sum.case option.case by (elim exE conjE) (rule that)
      have s: "a_seen e d key A = a_touch key A" using v(1) by (simp add: a_seen_def)
      have "log_ok d' V = log_ok d V" for V using v(8) by (intro log_ok_cong) simp
      then have "db_inv d' (a_touch key A)" using v(2,8) l k by (auto simp: db_inv_def db_st_def)
      moreover have "ks_map (a_seen e d key A) key = Some (fst v, deadlines (d_sched d') a)"
        using v(5,7) s by (simp add: prod_eq_iff)
      moreover have "replaying d' = replaying d" using v(8) by simp
      ultimately have "\<exists>ob. db_inv d' (a_seen e d key A) \<and> length key \<le> max_key_length \<and> replaying d' = replaying d
        \<and> ks_map (a_seen e d key A) key = Some (ob, deadlines (d_sched d') a) \<and> a_seen e d key A = a_touch key A
        \<and> a \<in> links d' \<and> keyat d' a = key \<and> node_rep (node_at d' a) ob"
        using v(3,4,6,9) s by (intro exI [of _ "fst v"]) (simp del: touch_node_fields)
      then show ?thesis using Inr Some by simp
    qed
  qed
qed

section \<open>Pending nodes\<close>

lemma pending_put:
  assumes r: "db_rep P d A" and p: "p \<in> P" and n: "node_wf n" "node_block_size n = node_block_size (node_at d p)"
  shows "db_rep P (put_node p n d) A"
proof -
  note D = db_repD [OF r]
  have pl: "p \<notin> links d" "d_nodes d p = Some (node_at d p)"
    using p table_disj(1) [OF r] D(1) by (auto simp: table_ok_def node_at_def)
  have k: "\<And>a. a \<in> links d \<Longrightarrow> nkey ((d_nodes d)(p \<mapsto> n)) a = keyat d a"
    using pl(1) by (auto simp: nkey_def)
  have lk: "\<And>a i. i < length (d_buckets d) \<Longrightarrow> a \<in> set (d_buckets d ! i) \<Longrightarrow> a \<in> links d"
    by (auto simp: linked_def)
  have dm: "dom ((d_nodes d)(p \<mapsto> n)) = dom (d_nodes d)" using pl(2) by auto
  have t: "table_ok (d_buckets d) ((d_nodes d)(p \<mapsto> n)) P"
    using D(1) k lk dm unfolding table_ok_def by (auto cong: inj_on_cong)
  have o: "order_ok (d_lru d) (links d) ((d_nodes d)(p \<mapsto> n)) P (ks_order A)"
    using D(2) k unfolding order_ok_def by (metis (no_types, lifting) map_cong)
  have s: "timers_ok (d_sched d) (links d) ((d_nodes d)(p \<mapsto> n))"
    using D(3) pl(1) unfolding timers_ok_def by auto
  have lv: "live ((d_nodes d)(p \<mapsto> n)) = live (d_nodes d)"
    using n(2) pl(2) by (auto simp: live_def fun_eq_iff)
  have im: "nkey ((d_nodes d)(p \<mapsto> n)) ` links d = nkey (d_nodes d) ` links d" using k by (intro image_cong) auto
  have kv: "kv_ok (ks_map A) (d_sched d) (links d) ((d_nodes d)(p \<mapsto> n))"
    using D(6) k pl(1) im unfolding kv_ok_def by auto
  have "(\<Sum>a \<in> dom (d_nodes d). node_block_size (the (((d_nodes d)(p \<mapsto> n)) a)))
      = (\<Sum>a \<in> dom (d_nodes d). node_block_size (the (d_nodes d a)))"
    using n(2) by (intro sum.cong) (auto simp: node_at_def)
  then have "counts_ok (put_node p n d)" using D(7) dm by (simp add: counts_ok_def put_node_def del: fun_upd_apply dom_fun_upd)
  moreover have "(\<forall>a m. ((d_nodes d)(p \<mapsto> n)) a = Some m \<longrightarrow> node_wf m)" using D(5) n(1) by auto
  ultimately show ?thesis
    using t o s lv kv D(4) by (simp add: db_rep_def put_node_def del: fun_upd_apply)
qed

lemma rehash_st:
  assumes "db_st P d A V" "env_ok e" "maybe_rehash e d = (res, d')"
  shows "db_st P d' A V \<and> (\<forall>x. res = Inl x \<longrightarrow> is_bad_alloc x) \<and> d_nodes d' = d_nodes d \<and> links d' = links d
    \<and> d_sched d' = d_sched d \<and> replaying d' = replaying d"
  using maybe_rehash_rep [OF _ assms(2,3), of P A] db_st_frame [OF assms(1), of P d' A] assms(1) by (simp add: db_st_def)

text \<open>A table that grows only when the command adds a key.\<close>

lemma rehash_if_st:
  assumes "db_st P d A V" "env_ok e" "(if c then maybe_rehash e d else (Inr (), d)) = (res, d')"
  shows "db_st P d' A V \<and> (\<forall>x. res = Inl x \<longrightarrow> is_bad_alloc x) \<and> d_nodes d' = d_nodes d \<and> links d' = links d
    \<and> d_sched d' = d_sched d \<and> replaying d' = replaying d"
  using assms rehash_st [OF assms(1,2)] by (cases c) auto

lemma create_st:
  assumes st: "db_st {} d A V" and e: "env_ok e" and k: "length key \<le> max_key_length"
    and run: "create_node e key t cap d = (res, d')"
  shows "case res of
      Inl x \<Rightarrow> db_st {} d' A V \<and> is_bad_alloc x
    | Inr p \<Rightarrow> db_st {p} d' A V \<and> fresh_node key t cap (node_at d' p) \<and> links d' = links d \<and> p \<notin> links d
        \<and> (\<forall>a \<in> links d. node_at d' a = node_at d a) \<and> d_sched d' = d_sched d \<and> replaying d' = replaying d
        \<and> key_bytes (node_at d' p) = key"
proof -
  have r: "db_rep {} d A" using st by (simp add: db_st_def)
  have fr: "d_wal d' = d_wal d \<and> replaying d' = replaying d"
    using run by (auto simp: create_node_def Let_def put_node_def split: prod.splits sum.splits if_splits)
  show ?thesis
  proof (cases res)
    case (Inl x)
    then show ?thesis using create_fail [OF r e] run db_st_frame [OF st, of "{}" d' A] fr by simp
  next
    case (Inr p)
    with run have run': "create_node e key t cap d = (Inr p, d')" by simp
    show ?thesis
    proof (rule create_rep [OF r e k run'])
      fix n
      assume n: "db_rep {p} d' A" "d_nodes d p = None" "d_nodes d' = (d_nodes d)(p \<mapsto> n)" "node_wf n" "cap \<le> length (body n)"
        "key_bytes n = key" "node_type n = t" "node_flags n = 0" "n_count n = 0" "list_head n = 0" "list_used n = 0"
        "d_buckets d' = d_buckets d" "d_sched d' = d_sched d" "d_wal d' = d_wal d" "replaying d' = replaying d"
        "length (body n) \<le> max cap 4096"
      have p: "p \<notin> links d" using not_in_dom(1) [OF r n(2)] .
      have "\<forall>a \<in> links d. node_at d' a = node_at d a" using p n(3) by (auto simp: node_at_def)
      moreover have "node_at d' p = n" using n(3) by (simp add: node_at_def)
      ultimately show ?thesis using Inr n p db_st_frame [OF st n(1)] by (simp add: fresh_node_def)
    qed
  qed
qed

lemma fill_st:
  assumes "db_st {p} d A V" "node_wf n" "node_block_size n = node_block_size (node_at d p)"
  shows "db_st {p} (put_node p n d) A V"
  using pending_put [of "{p}" d A p n] assms db_st_frame [OF assms(1), of "{p}" "put_node p n d" A] by (simp add: db_st_def)

lemma destroy_st:
  assumes "db_st {p} d A V" "env_ok e"
  shows "db_st {} (destroy e p d) A V"
  using destroy_pending [of "{p}" d A e p] assms db_st_frame [OF assms(1), of "{}" "destroy e p d" A] by (simp add: db_st_def)

lemma db_log_st:
  assumes st: "db_st P d A V" and run: "db_log e opr a d = (res, d')"
  shows "case res of
      Inl x \<Rightarrow> db_st P d' A V \<and> \<not> is_bad_alloc x \<and> \<not> replaying d
    | Inr _ \<Rightarrow> (v_apply opr a V = Some V' \<longrightarrow> db_st P d' A V') \<and> d_nodes d' = d_nodes d \<and> d_buckets d' = d_buckets d
        \<and> d_sched d' = d_sched d \<and> replaying d' = replaying d"
proof (cases res)
  case (Inl x)
  have "\<not> replaying d" using run Inl by (auto simp: db_log_def split: option.splits)
  then show ?thesis
    using Inl run db_log_rep [of P d A e opr a res d'] log_step [of d V e opr a res d'] db_log_error [of e opr a d x d'] st
    by (simp add: db_st_def)
next
  case (Inr u)
  then show ?thesis
    using run db_log_rep [of P d A e opr a res d'] log_step [of d V e opr a res d' V'] db_log_fields [OF run] st
    by (simp add: db_st_def)
qed

lemma log_pending_st:
  assumes st: "db_st {p} d A V" and e: "env_ok e" and run: "log_pending e p opr a d = (res, d')"
  shows "case res of
      Inl x \<Rightarrow> db_st {} d' A V \<and> \<not> is_bad_alloc x \<and> \<not> replaying d
    | Inr _ \<Rightarrow> (v_apply opr a V = Some V' \<longrightarrow> db_st {p} d' A V') \<and> d_nodes d' = d_nodes d \<and> d_buckets d' = d_buckets d
        \<and> d_sched d' = d_sched d \<and> replaying d' = replaying d"
proof (cases "db_log e opr a d")
  case (Pair r d1)
  then show ?thesis
    using db_log_st [OF st Pair, of V'] run destroy_st [OF _ e, of p d1 A V]
    by (cases r) (auto simp: log_pending_def)
qed

lemma vals_store: "vals (a_store key ob A) = v_put key ob (vals A)"
  by (auto simp: a_store_def v_put_def has_ttl_def ttl_of_def vals_def fun_eq_iff split: option.splits)

lemma ks_ok_store: "ks_ok A \<Longrightarrow> length key \<le> max_key_length \<Longrightarrow> obj_ok ob \<Longrightarrow> ks_ok (a_store key ob A)"
  by (auto simp: a_store_def ttl_of_def ks_ok_def split: option.splits)

lemma obj_of_vals: "obj_of (vals A) key = map_option fst (ks_map A key)"
  by (simp add: obj_of_def vals_def option.map_comp comp_def)

lemma commit_st:
  assumes st: "db_st {p} d A V" and e: "env_ok e" and p: "\<not> has_flag flag_has_ttl (node_at d p)" "node_rep (node_at d p) ob"
    and key: "key_bytes (node_at d p) = key"
    and old: "case old of None \<Rightarrow> ks_map A key = None | Some a \<Rightarrow> a \<in> links d \<and> keyat d a = key"
  shows "db_st {} (commit_node e old p keep d) (a_touch key (a_put key (ob, if keep then ttl_of A key else None) A)) V"
proof -
  have k: "keyat d p = key" using key by (simp add: nkey_def node_at_def)
  have r: "db_rep {p} d A" using st by (simp add: db_st_def)
  have t: "(if keep then ttl_of A key else None)
      = (if keep then (case ks_map A (keyat d p) of None \<Rightarrow> None | Some (_, t) \<Rightarrow> t) else None)"
    by (simp add: ttl_of_def k split: option.splits prod.splits)
  have o: "case old of None \<Rightarrow> ks_map A (keyat d p) = None | Some a \<Rightarrow> a \<in> links d \<and> keyat d a = keyat d p"
    using old k by (cases old) simp_all
  have "db_rep ({p} - {p}) (commit_node e old p keep d) (a_touch key (a_put key (ob, if keep then ttl_of A key else None) A))"
    using commit_rep [OF r e singletonI p o t] unfolding k .
  then show ?thesis by (intro db_st_frame [OF st]) simp_all
qed

section \<open>Writing node bodies\<close>

lemma node_cong:
  assumes "key_meta m = key_meta n" "exact_size m = exact_size n" "key_bytes m = key_bytes n" "length (body m) = length (body n)"
  shows "node_wf m = node_wf n" "node_block_size m = node_block_size n" "has_flag f m = has_flag f n"
    "node_type m = node_type n" "node_body_capacity m = node_body_capacity n" "node_flags m = node_flags n"
    "payload_offset m = payload_offset n"
  using capacity_cong [OF assms(1,2)] assms
  by (simp_all add: node_wf_def node_key_length_def has_flag_def node_flags_def node_type_def)

lemma length_write_at [simp]: "i + length bs \<le> length buf \<Longrightarrow> length (write_at i bs buf) = length buf"
  by (simp add: write_at_def)

lemma take_write_at: "i + length bs \<le> length buf \<Longrightarrow> take (length bs) (drop i (write_at i bs buf)) = bs"
  by (simp add: write_at_def)

lemma take_write_at_0: "length bs \<le> length buf \<Longrightarrow> take (length bs) (write_at 0 bs buf) = bs"
  by (simp add: write_at_def)

lemma value_limit_32 [simp]: "n \<le> value_limit \<Longrightarrow> unat (of_nat n :: u32) = n" "n \<le> value_limit \<Longrightarrow> w32 n = n"
  by (simp_all add: value_limit_def w32_def unsigned_of_nat take_bit_nat_eq_self)

lemma text_node:
  assumes "node_wf n" "node_type n = NString" "length val \<le> length (body n)" "length val \<le> value_limit"
  shows "node_wf (text_node val n)" "node_block_size (text_node val n) = node_block_size n"
    "has_flag f (text_node val n) = has_flag f n" "key_bytes (text_node val n) = key_bytes n"
    "node_rep (text_node val n) (OString val)"
proof -
  have b: "length (body (text_node val n)) = length (body n)" using assms(3) by (simp add: text_node_def)
  have c: "key_meta (text_node val n) = key_meta n" "exact_size (text_node val n) = exact_size n"
    "key_bytes (text_node val n) = key_bytes n" by (simp_all add: text_node_def)
  note nc = node_cong [OF c b]
  show "node_wf (text_node val n)" "node_block_size (text_node val n) = node_block_size n"
    "has_flag f (text_node val n) = has_flag f n" "key_bytes (text_node val n) = key_bytes n"
    using nc c assms by simp_all
  show "node_rep (text_node val n) (OString val)"
    using nc(4) assms b take_write_at_0 [of val "body n"] by (simp add: text_node_def)
qed

lemma fresh_flag: "fresh_node key t cap n \<Longrightarrow> \<not> has_flag f n"
  by (simp add: fresh_node_def has_flag_def)

lemma db_inv_st: "db_inv d A \<longleftrightarrow> db_st {} d A (vals A) \<and> ks_ok A"
  by (simp add: db_inv_def)

lemma wf_capacity: "node_wf n \<Longrightarrow> node_body_capacity n = length (body n)"
  by (simp add: node_wf_def)

lemma db_inv_rep: "db_inv d A \<Longrightarrow> db_rep {} d A" "db_inv d A \<Longrightarrow> db_st {} d A (vals A)" "db_inv d A \<Longrightarrow> ks_ok A"
  by (simp_all add: db_inv_def db_st_def)

section \<open>Strings\<close>

lemma v_apply_set:
  "length key \<le> max_key_length \<Longrightarrow> length val \<le> value_limit \<Longrightarrow>
     v_apply op_set [key, val] (vals A) = Some (vals (a_touch key (a_put key (OString val, None) A)))"
  by (simp add: v_apply_def)

text \<open>A pending node that was filled and logged takes its place in the keyspace.\<close>

lemma commit_inv:
  assumes inv: "db_inv d S" and e: "env_ok e" and k: "length key \<le> max_key_length"
    and old: "case old of None \<Rightarrow> ks_map S key = None | Some a \<Rightarrow> a \<in> links d \<and> keyat d a = key"
    and cr: "create_node e key t cap d = (Inr p, d3)"
    and n: "key_bytes n = key" "\<not> has_flag flag_has_ttl n" "node_rep n ob"
    and B: "B = a_touch key (a_put key (ob, if keep then ttl_of S key else None) S)" "ks_ok B"
    and s5: "db_st {p} d5 S (vals B)" "d_nodes d5 = (d_nodes d3)(p \<mapsto> n)" "d_buckets d5 = d_buckets d3"
  shows "db_inv (commit_node e old p keep d5) B"
proof -
  have c: "links d3 = links d" "p \<notin> links d" "\<forall>a \<in> links d. node_at d3 a = node_at d a"
    using create_st [OF db_inv_rep(2) [OF inv] e k cr] by simp_all
  have p5: "node_at d5 p = n" using s5(2) by (simp add: node_at_def)
  have o5: "case old of None \<Rightarrow> ks_map S key = None | Some a \<Rightarrow> a \<in> links d5 \<and> keyat d5 a = key"
    using old c s5(2,3) by (cases old) (auto simp: nkey_def node_at_def)
  show ?thesis using commit_st [OF s5(1) e, of ob key old keep] p5 n o5 B by (simp add: db_inv_def)
qed

lemma pending_commit:
  assumes inv: "db_inv d S" and e: "env_ok e" and k: "length key \<le> max_key_length"
    and old: "case old of None \<Rightarrow> ks_map S key = None | Some a \<Rightarrow> a \<in> links d \<and> keyat d a = key"
    and cr: "create_node e key t cap d = (Inr p, d3)"
    and n: "node_wf n" "node_block_size n = node_block_size (node_at d3 p)"
    "key_bytes n = key" "\<not> has_flag flag_has_ttl n" "node_rep n ob"
    and B: "B = a_touch key (a_put key (ob, if keep then ttl_of S key else None) S)" "ks_ok B"
    and ap: "v_apply opr args (vals S) = Some (vals B)"
    and lg: "log_pending e p opr args (put_node p n d3) = (res, d5)"
  shows "case res of
      Inl x \<Rightarrow> db_inv d5 S \<and> \<not> replaying d
    | Inr _ \<Rightarrow> db_inv (commit_node e old p keep d5) B \<and> replaying d5 = replaying d"
proof -
  have c: "db_st {p} d3 S (vals S)" "replaying d3 = replaying d"
    using create_st [OF db_inv_rep(2) [OF inv] e k cr] by simp_all
  note l = log_pending_st [OF fill_st [OF c(1) n(1,2)] e lg, of "vals B"]
  show ?thesis
  proof (cases res)
    case (Inl x)
    then show ?thesis using l inv c(2) by (simp add: db_inv_def)
  next
    case (Inr u)
    then have s5: "db_st {p} d5 S (vals B)" "d_nodes d5 = (d_nodes d3)(p \<mapsto> n)" "d_buckets d5 = d_buckets d3" "replaying d5 = replaying d3"
      using l ap by simp_all
    show ?thesis using commit_inv [OF inv e k old cr n(3-5) B s5(1-3)] Inr s5(4) c(2) by simp
  qed
qed

text \<open>The branch of \<^verbatim>\<open>set\<close> that builds a new node.\<close>

lemma set_pending:
  assumes inv: "db_inv d S" and e: "env_ok e" and k: "length key \<le> max_key_length" and v: "length val \<le> value_limit"
    and old: "case old of None \<Rightarrow> ks_map S key = None | Some a \<Rightarrow> a \<in> links d \<and> keyat d a = key"
    and cr: "create_node e key NString (w32 (length val)) d = (Inr p, d3)"
    and lg: "log_pending e p op_set [key, val] (put_node p (text_node val (node_at d3 p)) d3) = (res, d5)"
  shows "case res of
      Inl x \<Rightarrow> db_inv d5 S \<and> \<not> replaying d
    | Inr _ \<Rightarrow> db_inv (commit_node e old p False d5) (a_touch key (a_put key (OString val, None) S)) \<and> replaying d5 = replaying d"
proof -
  have c: "fresh_node key NString (length val) (node_at d3 p)"
    using create_st [OF db_inv_rep(2) [OF inv] e k cr] v by simp
  then have t: "node_wf (node_at d3 p)" "node_type (node_at d3 p) = NString" "length val \<le> length (body (node_at d3 p))"
    "key_bytes (node_at d3 p) = key"
    by (simp_all add: fresh_node_def)
  note tn = text_node [OF t(1-3) v]
  show ?thesis
    using pending_commit [OF inv e k old cr tn(1,2), of "OString val" _ False, OF _ _ tn(5) refl _ _ lg]
      tn(3,4) t(4) fresh_flag [OF c] v_apply_set [OF k v] db_inv_rep(3) [OF inv] k v
    by (cases res) simp_all
qed

text \<open>The branch of \<^verbatim>\<open>set\<close> that overwrites the node.\<close>

lemma set_in_place:
  assumes inv: "db_inv d S" and e: "env_ok e" and k: "length key \<le> max_key_length" and v: "length val \<le> value_limit"
    and a: "a \<in> links d" "keyat d a = key" "ks_map S key = Some (ob, deadlines (d_sched d) a)"
    and n: "node_type (node_at d a) = NString" "length val \<le> node_body_capacity (node_at d a)"
    and lg: "db_log e op_set [key, val] d = (Inr u, d2)"
  shows "db_inv (bump_sequence (clear_expiry e a (touch_node a (put_node a (text_node val (node_at d2 a)) d2))))
      (a_touch key (a_put key (OString val, None) S))"
proof -
  let ?V = "vals (a_touch key (a_put key (OString val, None) S))"
  have s2: "db_st {} d2 S ?V" "d_nodes d2 = d_nodes d" "d_buckets d2 = d_buckets d" "d_sched d2 = d_sched d"
    using db_log_st [OF db_inv_rep(2) [OF inv] lg, of ?V] v_apply_set [OF k v] by simp_all
  have r2: "db_rep {} d2 S" using s2(1) by (simp add: db_st_def)
  have n2: "node_at d2 a = node_at d a" "a \<in> links d2" "keyat d2 a = key" using a s2 by (simp_all add: node_at_def)
  have wf: "node_wf (node_at d a)" "key_bytes (node_at d a) = key" using linked_node [OF db_inv_rep(1) [OF inv] a(1)] a(2) by simp_all
  note tn = text_node [OF wf(1) n(1) n(2) [unfolded wf_capacity [OF wf(1)]] v]
  let ?d3 = "put_node a (text_node val (node_at d2 a)) d2" and ?A3 = "a_put key (OString val, deadlines (d_sched d) a) S"
  have r3: "db_rep {} ?d3 ?A3"
    using put_rep [OF r2 n2(2), of "text_node val (node_at d2 a)" "OString val"] tn wf n2 s2(4) by simp
  have k3: "keyat ?d3 a = key" "a \<in> links ?d3" using n2 wf tn by (simp_all add: nkey_def)
  have r4: "db_rep {} (touch_node a ?d3) (a_touch key ?A3)" using touch_rep [OF r3 k3(2)] k3(1) by simp
  have "db_rep {} (clear_expiry e a (touch_node a ?d3)) (a_put key (OString val, None) (a_touch key ?A3))"
    using clear_expiry_rep [OF r4 e, of a "OString val" "deadlines (d_sched d) a"] k3 by simp
  moreover have "a_put key (OString val, None) (a_touch key ?A3) = a_touch key (a_put key (OString val, None) S)"
    by (simp add: a_put_def a_touch_def)
  moreover have "ks_ok (a_touch key (a_put key (OString val, None) S))" using db_inv_rep(3) [OF inv] k v by simp
  moreover have "d_wal (clear_expiry e a (touch_node a ?d3)) = d_wal d2" "replaying (clear_expiry e a (touch_node a ?d3)) = replaying d2"
    by (simp_all add: clear_expiry_fields)
  ultimately show ?thesis using db_st_frame [OF s2(1)] by (simp add: db_inv_def)
qed

lemma found_case:
  assumes inv: "db_inv d A" and e: "env_ok e" and run: "find_writable e key d = (Inr found, d1)"
  shows "db_inv d1 (a_seen e d key A)" "length key \<le> max_key_length" "replaying d1 = replaying d"
    "case found of None \<Rightarrow> ks_map (a_seen e d key A) key = None | Some a \<Rightarrow> a \<in> links d1 \<and> keyat d1 a = key"
    "found = Some a \<Longrightarrow> \<exists>ob. ks_map (a_seen e d key A) key = Some (ob, deadlines (d_sched d1) a) \<and> node_rep (node_at d1 a) ob"
    "found = Some a \<Longrightarrow> node_wf (node_at d1 a)" "found = Some a \<Longrightarrow> key_bytes (node_at d1 a) = key"
proof -
  note f = find_writable_st [OF inv e run]
  show i: "db_inv d1 (a_seen e d key A)" "length key \<le> max_key_length" "replaying d1 = replaying d"
    and c: "case found of None \<Rightarrow> ks_map (a_seen e d key A) key = None | Some a \<Rightarrow> a \<in> links d1 \<and> keyat d1 a = key"
    using f by (auto split: option.splits)
  show "\<exists>ob. ks_map (a_seen e d key A) key = Some (ob, deadlines (d_sched d1) a) \<and> node_rep (node_at d1 a) ob" if "found = Some a"
    using f that by auto
  assume "found = Some a"
  then show "node_wf (node_at d1 a)" "key_bytes (node_at d1 a) = key"
    using linked_node [OF db_inv_rep(1) [OF i(1)], of a] c by auto
qed

text \<open>A failed lookup leaves the keyspace as it was.\<close>

lemma find_failed:
  assumes "db_inv d A" "env_ok e" "find_writable e key d = (Inl x, d1)"
  shows "kept e d key A d1" "replaying d \<Longrightarrow> max_key_length < length key"
  using find_writable_st [OF assms] by (auto simp: kept_def)

lemma kept_seen: "db_inv d' (a_seen e d key A) \<Longrightarrow> kept e d key A d'"
  by (simp add: kept_def)

lemma db_inv_frame:
  assumes "db_inv d S" "db_st {} d' S (vals S)"
  shows "db_inv d' S"
  using assms by (simp add: db_inv_def)

lemma rehash_if_inv:
  assumes "db_inv d S" "env_ok e" "(if c then maybe_rehash e d else (Inr (), d)) = (res, d')"
  shows "db_inv d' S" "res = Inl x \<Longrightarrow> is_bad_alloc x" "d_nodes d' = d_nodes d" "links d' = links d" "d_sched d' = d_sched d"
    "replaying d' = replaying d" "node_at d' a = node_at d a"
  using rehash_if_st [OF db_inv_rep(2) [OF assms(1)] assms(2,3)] db_inv_frame [OF assms(1)] by (simp_all add: node_at_def)

lemma set_spec:
  assumes inv: "db_inv d A" and e: "env_ok e" and run: "db_set e key val d = (res, d')"
  shows "case res of
      Inl x \<Rightarrow> kept e d key A d' \<and> (replaying d \<and> length key \<le> max_key_length \<and> length val \<le> value_limit \<longrightarrow> is_bad_alloc x)
    | Inr _ \<Rightarrow> db_inv d' (a_touch key (a_put key (OString val, None) (a_seen e d key A)))
        \<and> replaying d' = replaying d \<and> length key \<le> max_key_length \<and> length val \<le> value_limit"
proof (cases "value_limit < length val")
  case True
  then show ?thesis using run inv by (auto simp: db_set_def kept_def)
next
  case False
  then have v: "length val \<le> value_limit" by simp
  obtain r d1 where f: "find_writable e key d = (r, d1)" by fastforce
  show ?thesis
  proof (cases r)
    case (Inl x)
    then show ?thesis using run f False find_failed [OF inv e, of key x d1] by (auto simp: db_set_def)
  next
    case (Inr found)
    note fc = found_case [OF inv e f [unfolded Inr]]
    let ?S = "a_seen e d key A"
    define fresh where "fresh \<longleftrightarrow> (case found of None \<Rightarrow> True | Some a \<Rightarrow> let n = node_at d1 a
        in node_type n \<noteq> NString \<or> node_body_capacity n < length val
           \<or> (largest_class < node_body_capacity n \<and> length val < node_body_capacity n div 4))"
    show ?thesis
    proof (cases fresh)
      case True
      obtain r2 d2 where rh: "(if found = None then maybe_rehash e d1 else (Inr (), d1)) = (r2, d2)" by fastforce
      note h = rehash_if_inv [OF fc(1) e rh]
      have o2: "case found of None \<Rightarrow> ks_map ?S key = None | Some a \<Rightarrow> a \<in> links d2 \<and> keyat d2 a = key"
        using fc(4) h(3,4) by (cases found) simp_all
      show ?thesis
      proof (cases r2)
        case (Inl x)
        then show ?thesis using run f Inr False True rh h(1,2)
          by (auto simp: db_set_def fresh_def [symmetric] kept_def)
      next
        case u2: (Inr u)
        obtain r3 d3 where cr: "create_node e key NString (w32 (length val)) d2 = (r3, d3)" by fastforce
        note c = create_st [OF db_inv_rep(2) [OF h(1)] e fc(2) cr]
        show ?thesis
        proof (cases r3)
          case (Inl x)
          then show ?thesis using run f Inr False True rh u2 cr c db_inv_frame [OF h(1)]
            by (auto simp: db_set_def fresh_def [symmetric] kept_def)
        next
          case p3: (Inr p)
          obtain r5 d5 where lg: "log_pending e p op_set [key, val] (put_node p (text_node val (node_at d3 p)) d3) = (r5, d5)"
            by fastforce
          note s = set_pending [OF h(1) e fc(2) v o2 cr [unfolded p3] lg]
          show ?thesis
            using run f Inr False True rh u2 cr p3 lg s fc(2,3) h(6) v
            by (cases r5) (auto simp: db_set_def fresh_def [symmetric] text_node_def kept_def)
        qed
      qed
    next
      case np: False
      then obtain a where a: "found = Some a" "node_type (node_at d1 a) = NString" "length val \<le> node_body_capacity (node_at d1 a)"
        by (auto simp: fresh_def Let_def split: option.splits)
      obtain ob where ob: "ks_map ?S key = Some (ob, deadlines (d_sched d1) a)" using fc(5) [OF a(1)] by blast
      have al: "a \<in> links d1" "keyat d1 a = key" using fc(4) a(1) by simp_all
      obtain r2 d2 where lg: "db_log e op_set [key, val] d1 = (r2, d2)" by fastforce
      let ?d3 = "put_node a (text_node val (node_at d2 a)) d2"
      have "db_set e key val d = (case r2 of Inl x \<Rightarrow> (Inl x, d2)
          | Inr _ \<Rightarrow> (Inr (), bump_sequence (clear_expiry e (the found) (touch_node (the found) (put_node (the found) (text_node val (node_at d2 (the found))) d2)))))"
        using f Inr False np lg by (cases r2) (simp_all add: db_set_def fresh_def [symmetric] Let_def text_node_def)
      then have run2: "(res, d') = (case r2 of Inl x \<Rightarrow> (Inl x, d2) | Inr _ \<Rightarrow> (Inr (), bump_sequence (clear_expiry e a (touch_node a ?d3))))"
        using run a(1) by (cases r2) simp_all
      show ?thesis
      proof (cases r2)
        case (Inl x)
        then have "db_inv d2 ?S \<and> \<not> replaying d1" using db_log_st [OF db_inv_rep(2) [OF fc(1)] lg] db_inv_frame [OF fc(1)] by simp
        then show ?thesis using run2 Inl fc(3) by (simp add: kept_def)
      next
        case u2: (Inr u)
        note s = set_in_place [OF fc(1) e fc(2) v al ob a(2,3) lg [unfolded u2]]
        have "replaying d2 = replaying d1" using db_log_fields [OF lg] by simp
        then show ?thesis using run2 u2 fc(2,3) s v by (simp add: clear_expiry_fields bump_sequence_def)
      qed
    qed
  qed
qed

section \<open>Counters\<close>

lemma touch_put_touch: "a_touch key (a_put key v (a_touch key A)) = a_put key v (a_touch key A)"
  by (simp add: a_touch_def a_put_def)

lemma log_in_place:
  assumes inv: "db_inv d S" and lg: "db_log e opr args d = (res, d2)"
    and a: "a \<in> links d" "keyat d a = key" "ks_map S key = Some (ob, deadlines (d_sched d) a)" "S = a_touch key A0"
    and n: "node_wf n" "key_bytes n = key" "node_block_size n = node_block_size (node_at d a)"
    "has_flag flag_has_ttl n = has_flag flag_has_ttl (node_at d a)" "node_rep n ob'"
    and ap: "v_apply opr args (vals S) = Some (vals (a_store key ob' S))" and ok: "obj_ok ob'"
  shows "case res of
      Inl x \<Rightarrow> db_inv d2 S \<and> \<not> replaying d
    | Inr _ \<Rightarrow> db_inv (put_node a n d2) (a_store key ob' S) \<and> replaying d2 = replaying d \<and> node_at d2 b = node_at d b"
proof -
  note l = db_log_st [OF db_inv_rep(2) [OF inv] lg, of "vals (a_store key ob' S)"]
  show ?thesis
  proof (cases res)
    case (Inl x)
    then show ?thesis using l inv by (simp add: db_inv_def)
  next
    case (Inr u)
    let ?B = "a_store key ob' S"
    have s: "db_st {} d2 S (vals ?B)" "d_nodes d2 = d_nodes d" "d_buckets d2 = d_buckets d" "d_sched d2 = d_sched d"
      "replaying d2 = replaying d"
      using l ap Inr by simp_all
    have n2: "node_at d2 b = node_at d b" "keyat d2 a = key" "a \<in> links d2" for b using s a by (simp_all add: node_at_def)
    have B: "a_put key (ob', deadlines (d_sched d2) a) S = ?B"
      using a(3,4) s(4) by (simp add: a_store_def ttl_of_def touch_put_touch)
    have "db_rep {} (put_node a n d2) ?B"
      using put_rep [of "{}" d2 S a n ob'] s(1) n n2 B by (simp add: db_st_def)
    then have "db_st {} (put_node a n d2) ?B (vals ?B)" by (intro db_st_frame [OF s(1)]) simp_all
    moreover have "length key \<le> max_key_length" using db_inv_rep(3) [OF inv] a(3) by (auto simp: ks_ok_def)
    then have "ks_ok ?B" using ks_ok_store [OF db_inv_rep(3) [OF inv]] ok by simp
    ultimately show ?thesis using Inr s(5) n2(1) by (simp add: db_inv_def)
  qed
qed

lemma set_integer_value:
  assumes "node_wf n" "8 \<le> length (body n)"
  shows "node_wf (set_integer_value v n)" "node_block_size (set_integer_value v n) = node_block_size n"
    "has_flag f (set_integer_value v n) = has_flag f n" "key_bytes (set_integer_value v n) = key_bytes n"
    "node_type (set_integer_value v n) = node_type n" "integer_value (set_integer_value v n) = v"
    "length (body (set_integer_value v n)) = length (body n)"
proof -
  have l: "length (store_u64 v) = 8" by (simp add: store_u64_def)
  have b: "length (body (set_integer_value v n)) = length (body n)" using assms(2) l by (simp add: set_integer_value_def)
  have c: "key_meta (set_integer_value v n) = key_meta n" "exact_size (set_integer_value v n) = exact_size n"
    "key_bytes (set_integer_value v n) = key_bytes n" by (simp_all add: set_integer_value_def)
  note nc = node_cong [OF c b]
  show "node_wf (set_integer_value v n)" "node_block_size (set_integer_value v n) = node_block_size n"
    "has_flag f (set_integer_value v n) = has_flag f n" "key_bytes (set_integer_value v n) = key_bytes n"
    "node_type (set_integer_value v n) = node_type n" "length (body (set_integer_value v n)) = length (body n)"
    using nc c b assms(1) by simp_all
  show "integer_value (set_integer_value v n) = v"
    using take_write_at_0 [of "store_u64 v" "body n"] assms(2) l by (simp add: integer_value_def set_integer_value_def store_u64_def le_decode_encode)
qed

lemma integer_node:
  assumes "node_wf n" "8 \<le> length (body n)" "m = set_integer_value v ((set_type NInteger n)\<lparr>n_count := 0\<rparr>)"
  shows "node_wf m" "node_block_size m = node_block_size n" "has_flag f m = has_flag f n" "key_bytes m = key_bytes n"
    "node_rep m (OInteger v)"
proof -
  let ?t = "(set_type NInteger n)\<lparr>n_count := 0\<rparr>"
  have b: "node_block_size ?t = node_block_size n" "payload_offset ?t = payload_offset n"
    by (simp_all add: node_block_size_def payload_offset_def node_size_class_def set_type_def meta_simps)
  have t: "node_wf ?t" "8 \<le> length (body ?t)" "node_type ?t = NInteger" "has_flag f ?t = has_flag f n" "key_bytes ?t = key_bytes n"
    using assms(1,2) b
    by (simp_all add: node_wf_def node_body_capacity_def node_key_length_def node_type_def has_flag_def node_flags_def)
      (simp_all add: set_type_def meta_simps)
  note si = set_integer_value [OF t(1,2), where v = v]
  show "node_wf m" "node_block_size m = node_block_size n" "has_flag f m = has_flag f n" "key_bytes m = key_bytes n"
    "node_rep m (OInteger v)"
    using si t b(1) assms(2,3) by simp_all
qed

lemma v_apply_increment:
  "length key \<le> max_key_length \<Longrightarrow> incr_obj (obj_of (vals S) key) = Inr i \<Longrightarrow>
     v_apply op_increment [key] (vals S) = Some (vals (a_store key (OInteger i) S))"
  by (simp add: v_apply_def vals_store)

lemma increment_new:
  assumes inv: "db_inv d S" and e: "env_ok e" and k: "length key \<le> max_key_length" and new: "ks_map S key = None"
    and cr: "create_node e key NInteger 8 d = (Inr p, d3)"
    and lg: "log_pending e p op_increment [key] (put_node p (set_integer_value 1 (node_at d3 p)) d3) = (res, d5)"
  shows "case res of
      Inl x \<Rightarrow> db_inv d5 S \<and> \<not> replaying d
    | Inr _ \<Rightarrow> db_inv (commit_node e None p True d5) (a_store key (OInteger 1) S) \<and> replaying d5 = replaying d"
proof -
  have c: "fresh_node key NInteger 8 (node_at d3 p)" using create_st [OF db_inv_rep(2) [OF inv] e k cr] by simp
  then have t: "node_wf (node_at d3 p)" "8 \<le> length (body (node_at d3 p))" "node_type (node_at d3 p) = NInteger"
    "key_bytes (node_at d3 p) = key"
    by (simp_all add: fresh_node_def)
  note si = set_integer_value [OF t(1,2), where v = 1]
  have r: "node_rep (set_integer_value 1 (node_at d3 p)) (OInteger 1)" using si t by simp
  have i: "incr_obj (obj_of (vals S) key) = Inr 1" using new by (simp add: obj_of_vals incr_obj_def)
  have fl: "\<not> has_flag flag_has_ttl (set_integer_value 1 (node_at d3 p))" using fresh_flag [OF c] si(3) by simp
  have kb: "key_bytes (set_integer_value 1 (node_at d3 p)) = key" using si(4) t(4) by simp
  have o: "case None of None \<Rightarrow> ks_map S key = None | Some a \<Rightarrow> a \<in> links d \<and> keyat d a = key" using new by simp
  have B: "a_store key (OInteger 1) S = a_touch key (a_put key (OInteger 1, if True then ttl_of S key else None) S)"
    by (simp add: a_store_def)
  show ?thesis
    by (rule pending_commit [OF inv e k o cr si(1,2) kb fl r B ks_ok_store [OF db_inv_rep(3) [OF inv] k] v_apply_increment [OF k i] lg]) simp
qed

text \<open>A counter kept as text becomes an integer node, in a larger block if need be.\<close>

lemma increment_grow:
  assumes inv: "db_inv d S" and e: "env_ok e" and a: "a \<in> links d" "keyat d a = key"
    "ks_map S key = Some (OString s, deadlines (d_sched d) a)" "node_rep (node_at d a) (OString s)"
    and g: "(if node_body_capacity (node_at d a) < 8 then grow_node e a 8 d else (Inr a, d)) = (res, d2)"
  shows "case res of
      Inl x \<Rightarrow> db_inv d2 S \<and> is_bad_alloc x
    | Inr b \<Rightarrow> db_inv d2 S \<and> b \<in> links d2 \<and> keyat d2 b = key \<and> ks_map S key = Some (OString s, deadlines (d_sched d2) b)
        \<and> node_wf (node_at d2 b) \<and> 8 \<le> length (body (node_at d2 b)) \<and> key_bytes (node_at d2 b) = key \<and> replaying d2 = replaying d"
proof -
  have r: "db_rep {} d S" by (rule db_inv_rep(1) [OF inv])
  have wf: "node_wf (node_at d a)" "key_bytes (node_at d a) = key" using linked_node [OF r a(1)] a(2) by simp_all
  show ?thesis
  proof (cases "node_body_capacity (node_at d a) < 8")
    case False
    then have "8 \<le> length (body (node_at d a))" "res = Inr a" "d2 = d" using g wf_capacity [OF wf(1)] by simp_all
    then show ?thesis using inv a wf by simp
  next
    case True
    then have g: "grow_node e a 8 d = (res, d2)" using g by simp
    show ?thesis
    proof (cases res)
      case (Inl x)
      from grow_fail [OF r e g [unfolded Inl]] have gf: "db_rep {} d2 S" "is_bad_alloc x" "d_wal d2 = d_wal d" "replaying d2 = replaying d"
        by simp_all
      then show ?thesis using Inl db_st_frame [OF db_inv_rep(2) [OF inv]] inv by (simp add: db_inv_def)
    next
      case (Inr b)
      have room: "obj_room (node_at d a) (OString s) \<le> 8" "8 \<le> max_list_bytes"
        using a(4) True wf_capacity [OF wf(1)] by (simp_all add: max_list_bytes_def max_value_bytes_def)
      show ?thesis
      proof (rule grow_rep [OF r e a(1) a(3) [folded a(2)] room g [unfolded Inr]])
        fix block cls
        assume l: "node_layout (unat (key_stride (of_nat (node_key_length (node_at d a))))) 8 = (block, cls)" "block < 2 ^ 32"
          and m: "node_at d2 b = moved_node e (node_at d a) block cls"
          and q: "db_rep {} d2 S" "b \<in> links d2" "keyat d2 b = keyat d a" "d_wal d2 = d_wal d" "replaying d2 = replaying d"
          "deadlines (d_sched d2) b = deadlines (d_sched d) a"
        have "db_inv d2 S" using q db_st_frame [OF db_inv_rep(2) [OF inv]] inv by (simp add: db_inv_def)
        moreover have "node_wf (node_at d2 b)" "8 \<le> length (body (node_at d2 b))" "key_bytes (node_at d2 b) = key"
          using moved_ok(1,2) [OF l wf(1), of e] m wf(2) by simp_all
        ultimately show ?thesis using Inr q a by simp
      qed
    qed
  qed
qed

lemma outcome_simps [simp]:
  "outcome e d key A (Inl x) d' fits err good \<longleftrightarrow>
     kept e d key A d' \<and> (replaying d \<and> length key \<le> max_key_length \<and> fits \<longrightarrow> is_bad_alloc x)"
  "outcome e d key A (Inr (Inl c)) d' fits err good \<longleftrightarrow>
     db_inv d' (a_seen e d key A) \<and> err c \<and> replaying d' = replaying d \<and> length key \<le> max_key_length"
  "outcome e d key A (Inr (Inr y)) d' fits err good \<longleftrightarrow>
     (\<exists>B. db_inv d' B \<and> good y B) \<and> replaying d' = replaying d \<and> length key \<le> max_key_length"
  by (simp_all add: outcome_def)

lemma bump_simps [simp]:
  "db_inv (bump_sequence d) A = db_inv d A" "replaying (bump_sequence d) = replaying d" "d_wal (bump_sequence d) = d_wal d"
  "node_at (bump_sequence d) a = node_at d a"
  by (simp_all add: db_inv_def) (simp_all add: bump_sequence_def node_at_def)

lemma seen_touched:
  assumes "db_inv d A" "env_ok e" "find_writable e key d = (Inr (Some a), d1)"
  shows "a_seen e d key A = a_touch key A"
  using find_writable_st [OF assms] by auto

lemma incr_obj_node:
  assumes "node_rep n ob"
  shows "incr_obj (Some ob) =
     (if node_type n = NInteger then if integer_value n = int64_max then Inl value_not_integer else Inr (integer_value n + 1)
      else if node_type n \<noteq> NString then Inl wrong_type
      else case from_chars_i64 (string_value n) of
        None \<Rightarrow> Inl value_not_integer
      | Some i \<Rightarrow> if i = int64_max then Inl value_not_integer else Inr (i + 1))"
  using assms by (cases ob) (auto simp: incr_obj_def string_value_def)

lemma increment_found:
  assumes inv: "db_inv d S" and e: "env_ok e" and S: "S = a_touch key A0"
    and a: "a \<in> links d" "keyat d a = key" "ks_map S key = Some (ob, deadlines (d_sched d) a)" "node_rep (node_at d a) ob"
    and i: "incr_obj (Some ob) = Inr i"
    and n: "node_wf n" "key_bytes n = key" "node_block_size n = node_block_size (node_at d a)"
      "has_flag flag_has_ttl n = has_flag flag_has_ttl (node_at d a)" "node_rep n (OInteger i)"
    and lg: "db_log e op_increment [key] d = (res, d2)"
  shows "case res of
      Inl x \<Rightarrow> db_inv d2 S \<and> \<not> replaying d
    | Inr _ \<Rightarrow> db_inv (put_node a n d2) (a_store key (OInteger i) S) \<and> replaying d2 = replaying d \<and> node_at d2 b = node_at d b"
proof -
  have k: "length key \<le> max_key_length" using db_inv_rep(3) [OF inv] a(3) by (auto simp: ks_ok_def)
  have "incr_obj (obj_of (vals S) key) = Inr i" using i a(3) by (simp add: obj_of_vals)
  from v_apply_increment [OF k this] show ?thesis by (intro log_in_place [OF inv lg a(1-3) S n]) simp_all
qed

lemma increment_spec:
  assumes inv: "db_inv d A" and e: "env_ok e" and run: "increment e key d = (res, d')"
  defines "S \<equiv> a_seen e d key A"
  shows "outcome e d key A res d' True (\<lambda>c. incr_obj (obj_of (vals S) key) = Inl c)
     (\<lambda>i B. incr_obj (obj_of (vals S) key) = Inr i \<and> B = a_store key (OInteger i) S)"
proof -
  obtain r d1 where f: "find_writable e key d = (r, d1)" by fastforce
  consider x where "r = Inl x" | "r = Inr None" | a where "r = Inr (Some a)" by (metis option.exhaust sum.exhaust)
  then show ?thesis
  proof cases
    case 1
    then show ?thesis using run f find_failed [OF inv e, of key x d1] by (auto simp: increment_def)
  next
    case 2
    note fc = found_case [OF inv e f [unfolded 2]]
    have new: "ks_map S key = None" and i: "db_inv d1 S" using fc(1,4) by (simp_all add: S_def)
    have i0: "incr_obj (obj_of (vals S) key) = Inr 1" using new by (simp add: obj_of_vals incr_obj_def)
    obtain r2 d2 where rh: "maybe_rehash e d1 = (r2, d2)" by fastforce
    note h = rehash_if_inv [OF i e, of True, simplified, OF rh]
    obtain r3 d3 where cr: "create_node e key NInteger 8 d2 = (r3, d3)" by fastforce
    note c = create_st [OF db_inv_rep(2) [OF h(1)] e fc(2) cr]
    show ?thesis
    proof (cases r2)
      case (Inl x)
      then show ?thesis using run f 2 rh h(1,2) by (auto simp: increment_def kept_def S_def)
    next
      case u2: (Inr u)
      show ?thesis
      proof (cases r3)
        case (Inl x)
        then show ?thesis using run f 2 rh u2 cr c db_inv_frame [OF h(1)] by (auto simp: increment_def kept_def S_def)
      next
        case p: (Inr p)
        obtain r5 d5 where lg: "log_pending e p op_increment [key] (put_node p (set_integer_value 1 (node_at d3 p)) d3) = (r5, d5)"
          by fastforce
        note s = increment_new [OF h(1) e fc(2) new cr [unfolded p] lg]
        show ?thesis
          using run f 2 rh u2 cr p lg s fc(2,3) h(6) i0
          by (cases r5) (auto simp: increment_def kept_def S_def)
      qed
    qed
  next
    case 3
    note fc = found_case [OF inv e f [unfolded 3]]
    have i: "db_inv d1 S" and al: "a \<in> links d1" "keyat d1 a = key" using fc(1,4) by (simp_all add: S_def)
    obtain ob where ob: "ks_map S key = Some (ob, deadlines (d_sched d1) a)" "node_rep (node_at d1 a) ob"
      using fc(5) [of a] by (auto simp: S_def)
    have S: "S = a_touch key A" using seen_touched [OF inv e f [unfolded 3]] by (simp add: S_def)
    let ?n = "node_at d1 a"
    note io = incr_obj_node [OF ob(2)]
    have io': "incr_obj (obj_of (vals S) key) = incr_obj (Some ob)" using ob(1) by (simp add: obj_of_vals)
    have wf: "node_wf ?n" "key_bytes ?n = key" using fc(6,7) by simp_all
    show ?thesis
    proof (cases "incr_obj (Some ob)")
      case (Inl c)
      then have "increment e key d = (Inr (Inl c), d1)"
        using io f 3 by (auto simp: increment_def Let_def split: if_splits option.splits)
      then show ?thesis using run i fc(2,3) io' Inl by (auto simp: S_def)
    next
      case v: (Inr v)
      show ?thesis
      proof (cases "node_type ?n = NInteger")
        case True
        then have iv: "integer_value ?n \<noteq> int64_max" "v = integer_value ?n + 1" using io v by (auto split: if_splits)
        have b8: "8 \<le> length (body ?n)" using ob(2) True by (cases ob) auto
        note si = set_integer_value [OF wf(1) b8, where v = v]
        obtain r2 d2 where lg: "db_log e op_increment [key] d1 = (r2, d2)" by fastforce
        have rn: "node_rep (set_integer_value v ?n) (OInteger v)" using si True b8 by simp
        note s = increment_found [OF i e S al ob v si(1) trans [OF si(4) wf(2)] si(2,3) rn lg, of a]
        show ?thesis using run f 3 True iv lg s fc(2,3) io' v
          by (cases r2) (auto simp: increment_def Let_def kept_def S_def)
      next
        case False
        then have st: "node_type ?n = NString" and fr: "from_chars_i64 (string_value ?n) = Some (v - 1)" "v - 1 \<noteq> int64_max"
          using io v by (auto split: if_splits option.splits)
        obtain s where os: "ob = OString s" using ob(2) st by (cases ob) auto
        obtain r2 d2 where g: "(if node_body_capacity ?n < 8 then grow_node e a 8 d1 else (Inr a, d1)) = (r2, d2)" by fastforce
        note ig = increment_grow [OF i e al ob [unfolded os] g]
        show ?thesis
        proof (cases r2)
          case (Inl x)
          then show ?thesis using run f 3 st fr g ig by (auto simp: increment_def Let_def kept_def S_def)
        next
          case b: (Inr b)
          then have q: "db_inv d2 S" "b \<in> links d2" "keyat d2 b = key" "ks_map S key = Some (OString s, deadlines (d_sched d2) b)"
            "node_wf (node_at d2 b)" "8 \<le> length (body (node_at d2 b))" "key_bytes (node_at d2 b) = key" "replaying d2 = replaying d1"
            using ig by simp_all
          obtain r3 d3 where lg: "db_log e op_increment [key] d2 = (r3, d3)" by fastforce
          let ?m = "set_integer_value v ((set_type NInteger (node_at d2 b))\<lparr>n_count := 0\<rparr>)"
          note inn = integer_node [OF q(5,6), of ?m v, OF refl]
          have "node_rep (node_at d2 b) (OString s)" using linked_val(1) [OF db_inv_rep(1) [OF q(1)] q(2)] q(3,4) by simp
          note s = increment_found [OF q(1) e S q(2-4) this v [unfolded os] inn(1) trans [OF inn(4) q(7)] inn(2,3,5) lg, of b]
          show ?thesis using run f 3 st fr g b lg s q(8) fc(2,3) io' v
            by (cases r3) (auto simp: increment_def Let_def kept_def S_def)
        qed
      qed
    qed
  qed
qed

end
