(* ===== verification/DatabaseLists.thy ===== *)
theory DatabaseLists
  imports DatabaseState
begin

text \<open>
  The list commands keep the invariant of the database and do what the abstract lists do.
\<close>

text \<open>A node whose run and list fields change within the same block.\<close>

definition list_node :: "bytes \<Rightarrow> nat \<Rightarrow> nat \<Rightarrow> u32 \<Rightarrow> node \<Rightarrow> node" where
  "list_node run head used cnt n = (set_list_run run n)\<lparr>list_head := head, list_used := used, n_count := cnt\<rparr>"

definition list_at :: "db \<Rightarrow> keyspace \<Rightarrow> addr \<Rightarrow> bytes \<Rightarrow> element list \<Rightarrow> bool" where
  "list_at d S a key xs \<longleftrightarrow>
     db_inv d S \<and> a \<in> links d \<and> keyat d a = key \<and> ks_map S key = Some (OList xs, deadlines (d_sched d) a)
     \<and> node_rep (node_at d a) (OList xs) \<and> node_wf (node_at d a) \<and> key_bytes (node_at d a) = key"

text \<open>The new place of the run, between the room asked for in front and behind.\<close>

definition clamp_head :: "nat \<Rightarrow> nat \<Rightarrow> nat \<Rightarrow> nat" where
  "clamp_head lowest highest h =
     (let h1 = (if h < lowest then lowest else h) in if highest < h1 then highest else h1)"

definition reserve_ok :: "db \<Rightarrow> keyspace \<Rightarrow> addr \<Rightarrow> bytes \<Rightarrow> element list \<Rightarrow> nat \<Rightarrow> nat \<Rightarrow> bool" where
  "reserve_ok d S a key xs ef eb \<longleftrightarrow>
     list_at d S a key xs \<and> ef \<le> list_head (node_at d a)
     \<and> list_head (node_at d a) + run_bytes xs + eb \<le> length (list_run (node_at d a))"

definition place_run :: "nat \<Rightarrow> nat \<Rightarrow> nat \<Rightarrow> nat \<Rightarrow> addr \<Rightarrow> db \<Rightarrow> db" where
  "place_run ef eb nc used b d =
     (let m = node_at d b;
          h = clamp_head ef (sub32 (sub32 nc used) eb) (sub32 nc used div 2);
          m1 = (if h \<noteq> list_head m \<and> used \<noteq> 0
                then set_list_run (write_at h (take used (drop (list_head m) (list_run m))) (list_run m)) m
                else m)
      in put_node b (m1\<lparr>list_head := h\<rparr>) d)"

definition pushed :: "element \<Rightarrow> bool \<Rightarrow> element list \<Rightarrow> element list" where
  "pushed v front xs = (if front then v # xs else xs @ [v])"

definition push_node :: "element \<Rightarrow> bool \<Rightarrow> nat \<Rightarrow> node \<Rightarrow> node" where
  "push_node v use_front encoded n =
     (let head = (if use_front then sub32 (list_head n) encoded else list_head n);
          pos = (if use_front then head else list_head n + list_used n)
      in (set_list_run (write_at pos (write_element v True) (list_run n)) n)
           \<lparr>list_head := head, list_used := w32 (list_used n + encoded), n_count := n_count n + 1\<rparr>)"

definition push_tail :: "env \<Rightarrow> bytes \<Rightarrow> element \<Rightarrow> bool \<Rightarrow> addr option \<Rightarrow> addr \<Rightarrow> db \<Rightarrow> (exn + int64 result) \<times> db" where
  "push_tail e key v front found a d2 =
     (let encoded = w32 (elem_size v True);
          use_front = (front \<and> n_count (node_at d2 a) \<noteq> 0)
      in (case list_reserve e a (if use_front then encoded else 0) (if use_front then 0 else encoded) d2 of
            (Inl x, d3) \<Rightarrow> (Inl x, if found = None then destroy e a d3 else d3)
          | (Inr b, d3) \<Rightarrow>
              (case db_log e (if front then op_push_left else op_push_right) (key # log_value v) d3 of
                 (Inl x, d4) \<Rightarrow> (Inl x, if found = None then destroy e b d4 else d4)
               | (Inr _, d4) \<Rightarrow>
                   let d5 = (if found = None then commit_node e None b True d4 else d4);
                       m = push_node v use_front encoded (node_at d5 b)
                   in (Inr (Inr (ucast (n_count m))), bump_sequence (touch_node b (put_node b m d5))))))"

text \<open>The two ends of a run, as \<^verbatim>\<open>list_pop\<close> reads them.\<close>

definition pop_value :: "bool \<Rightarrow> node \<Rightarrow> element \<times> nat" where
  "pop_value front n =
     (let run = list_run n;
          fin = list_head n + list_used n;
          payload = the (decode_backlen run fin);
          full = payload + backlen_bytes payload;
          element = (if front then drop (list_head n) run else drop (fin - full) run)
      in (the (decode element), w32 (if front then the (stride element) else full)))"

definition popped :: "bool \<Rightarrow> element list \<Rightarrow> element list" where
  "popped front xs = (if front then tl xs else butlast xs)"

definition pop_node :: "bool \<Rightarrow> nat \<Rightarrow> node \<Rightarrow> node" where
  "pop_node front removed n =
     n\<lparr>list_head := (if front then w32 (list_head n + removed) else list_head n),
       list_used := sub32 (list_used n) removed, n_count := n_count n - 1\<rparr>"

text \<open>A list in a block much too large moves to a smaller one; a failure to do so is ignored.\<close>

definition shrink_list :: "env \<Rightarrow> addr \<Rightarrow> node \<Rightarrow> db \<Rightarrow> db" where
  "shrink_list e a m d =
     (let used = list_used m;
          m1 = (if used \<noteq> 0
                then set_list_run (write_at 0 (take used (drop (list_head m) (list_run m))) (list_run m)) m
                else m)\<lparr>list_head := 0\<rparr>
      in snd (grow_node e a (w32 (list_body_bytes + max used 32)) (put_node a m1 d)))"

definition coded :: "(wal_op \<times> bytes list) list \<Rightarrow> log_record list" where
  "coded rs = map (\<lambda>r. (op_code (fst r), snd r)) rs"

text \<open>A log that has moved from \<open>V0\<close> to \<open>V\<close> by the records of the command under way.\<close>

definition log_mid :: "db \<Rightarrow> vals \<Rightarrow> vals \<Rightarrow> bool" where
  "log_mid d V0 V \<longleftrightarrow>
     (case d_wal d of
        None \<Rightarrow> True
      | Some w \<Rightarrow>
          \<exists>rs mid extra. log_inv w (rs @ mid @ extra) \<and> (\<not> w_failed w \<longrightarrow> extra = [])
            \<and> v_replay rs Map.empty = Some V0 \<and> v_replay mid V0 = Some V)"

definition pushed_all :: "bytes list \<Rightarrow> bool \<Rightarrow> element list \<Rightarrow> element list" where
  "pushed_all vs front xs = (if front then rev (map EString vs) @ xs else xs @ map EString vs)"

definition texts_obj :: "bytes list \<Rightarrow> bool \<Rightarrow> obj option \<Rightarrow> element list result" where
  "texts_obj vs front ob =
     (case list_of ob of
        Inl c \<Rightarrow> Inl c
      | Inr xs \<Rightarrow>
          if value_limit < run_bytes (pushed_all vs front xs) then Inl request_too_large else Inr (pushed_all vs front xs))"

text \<open>The new node that holds the whole run.\<close>

definition texts_node :: "bytes list \<Rightarrow> bool \<Rightarrow> bytes \<Rightarrow> u32 \<Rightarrow> nat \<Rightarrow> node \<Rightarrow> node" where
  "texts_node vs front old_run old_count room n =
     (let out = (if front then concat (map encode_text (rev vs)) @ old_run else old_run @ concat (map encode_text vs))
      in (set_list_run (write_at 0 out (list_run n)) n)
           \<lparr>list_head := 0, list_used := w32 room, n_count := old_count + of_nat (length vs)\<rparr>)"

definition texts_tail ::
  "env \<Rightarrow> addr option \<Rightarrow> bytes \<Rightarrow> bytes list \<Rightarrow> bool \<Rightarrow> nat \<Rightarrow> db \<Rightarrow> (exn + int64 result) \<times> db" where
  "texts_tail e old key vs front room d2 =
     (case create_node e key NList (w32 (list_body_bytes + room)) d2 of
        (Inl x, d3) \<Rightarrow> (Inl x, d3)
      | (Inr p, d3) \<Rightarrow>
          let old_run = (case old of
                           None \<Rightarrow> []
                         | Some a \<Rightarrow> take (list_used (node_at d3 a)) (drop (list_head (node_at d3 a)) (list_run (node_at d3 a))));
              old_count = (case old of None \<Rightarrow> 0 | Some a \<Rightarrow> n_count (node_at d3 a));
              d4 = put_node p (texts_node vs front old_run old_count room (node_at d3 p)) d3
          in (case log_batch e p (length key + largest_length vs + 64)
                     (map (\<lambda>v. (if front then op_push_left else op_push_right, [key, str ''s'', v])) vs) d4 of
                (Inl x, d5) \<Rightarrow> (Inl x, d5)
              | (Inr _, d5) \<Rightarrow> (Inr (Inr (ucast (n_count (node_at d5 p)))), commit_node e old p True d5)))"

section \<open>Lists\<close>

lemma element_bytes [simp]:
  "write_element v True = encode_element v" "write_element v False = encode_body v"
  by (cases v; simp add: write_element_def)+

lemma element_sizes: "elem_size v True = length (encode_element v)" "elem_size v False = length (encode_body v)"
proof -
  show "elem_size v True = length (encode_element v)"
    by (cases v) (use length_encode_element in \<open>simp_all add: elem_size_def\<close>)
  show "elem_size v False = length (encode_body v)"
    by (cases v) (simp_all add: elem_size_def length_encode_body)
qed

lemma encode_body_min: "0 < length (encode_body v)"
  by (cases v) (auto simp: length_encode_body body_size_text_def body_size_int_def max_string_header_def)

lemma element_min: "0 < length (encode_element v)"
  using encode_body_min by (simp add: encode_element_body)

lemma element_ok_size:
  "length (encode_body v) \<le> value_limit \<Longrightarrow> element_ok v" "length (encode_element v) \<le> value_limit \<Longrightarrow> element_ok v"
proof -
  show b: "element_ok v" if "length (encode_body v) \<le> value_limit"
    using that by (cases v) (auto simp: length_encode_body body_size_text_def max_string_header_def value_limit_def split: if_splits)
  show "element_ok v" if "length (encode_element v) \<le> value_limit"
    using that b by (simp add: encode_element_body)
qed

lemma length_run: "length xs \<le> length (concat (map encode_element xs))"
proof (induction xs)
  case (Cons v xs)
  then show ?case using element_min [of v] by (simp del: length_greater_0_conv)
qed simp

lemma value_limit_eq: "value_limit = max_value_bytes"
  by (simp add: value_limit_def max_value_bytes_def)

lemma list_capacity: "node_wf n \<Longrightarrow> list_run_capacity n = length (list_run n)"
  by (simp add: list_run_capacity_def list_run_def wf_capacity Let_def)

lemma list_node:
  assumes "node_wf n" "8 \<le> length (body n)" "length run = length (list_run n)"
  shows "node_wf (list_node run h u c n)" "node_block_size (list_node run h u c n) = node_block_size n"
    "has_flag f (list_node run h u c n) = has_flag f n" "key_bytes (list_node run h u c n) = key_bytes n"
    "node_type (list_node run h u c n) = node_type n" "list_run (list_node run h u c n) = run"
    "length (body (list_node run h u c n)) = length (body n)"
proof -
  let ?m = "list_node run h u c n"
  have b: "length (body ?m) = length (body n)" using assms(2,3) by (simp add: list_node_def set_list_run_def list_run_def)
  have c: "key_meta ?m = key_meta n" "exact_size ?m = exact_size n" "key_bytes ?m = key_bytes n"
    by (simp_all add: list_node_def set_list_run_def)
  show "node_wf ?m" "node_block_size ?m = node_block_size n" "has_flag f ?m = has_flag f n" "key_bytes ?m = key_bytes n"
    "node_type ?m = node_type n" "length (body ?m) = length (body n)"
    using node_cong [OF c b] assms(1) c(3) b by simp_all
  show "list_run ?m = run" using assms(2) by (simp add: list_node_def set_list_run_def list_run_def)
qed

lemma list_node_rep:
  assumes "node_wf n" "node_type n = NList" "8 \<le> length (body n)" "length run = length (list_run n)" "length (body n) \<le> max_list_bytes"
    and "\<forall>x \<in> set xs. element_ok x" "unat c = length xs" "u = run_bytes xs" "u \<le> value_limit" "h + u \<le> length run"
    and "take u (drop h run) = concat (map encode_element xs)"
  shows "node_rep (list_node run h u c n) (OList xs)"
proof -
  have "list_rep (list_node run h u c n) xs"
    unfolding list_rep_def list_node(6,7) [OF assms(1,3,4)]
    using assms by (simp add: list_node_def run_bytes_def value_limit_eq list_run_def)
  then show ?thesis using list_node(5) [OF assms(1,3,4)] assms(2) by simp
qed

lemma list_repD:
  assumes "node_rep n (OList xs)"
  shows "node_type n = NList" "\<forall>x \<in> set xs. element_ok x" "unat (n_count n) = length xs" "list_used n = run_bytes xs"
    "run_bytes xs \<le> value_limit" "list_head n + run_bytes xs \<le> length (list_run n)" "8 \<le> length (body n)"
    "take (run_bytes xs) (drop (list_head n) (list_run n)) = concat (map encode_element xs)" "length (body n) \<le> max_list_bytes"
    "length (list_run n) = length (body n) - 8"
  using assms by (auto simp: list_rep_def run_bytes_def value_limit_eq list_run_def)

lemma list_atI:
  assumes "db_inv d S" "a \<in> links d" "keyat d a = key" "ks_map S key = Some (OList xs, deadlines (d_sched d) a)"
  shows "list_at d S a key xs"
  using assms linked_val(1) [OF db_inv_rep(1) [OF assms(1)] assms(2)] linked_node [OF db_inv_rep(1) [OF assms(1)] assms(2)]
  by (simp add: list_at_def)

text \<open>Rewriting the run of a list in place without changing its elements.\<close>

lemma list_same:
  assumes l: "list_at d S a key xs" and n: "n = list_node run h (list_used (node_at d a)) (n_count (node_at d a)) (node_at d a)"
    and run: "length run = length (list_run (node_at d a))" "h + run_bytes xs \<le> length run"
      "take (run_bytes xs) (drop h run) = concat (map encode_element xs)"
  shows "list_at (put_node a n d) S a key xs"
proof -
  let ?o = "node_at d a"
  have i: "db_inv d S" "a \<in> links d" "keyat d a = key" "ks_map S key = Some (OList xs, deadlines (d_sched d) a)"
    "node_wf ?o" "key_bytes ?o = key" "node_rep ?o (OList xs)" using l by (simp_all add: list_at_def)
  note lr = list_repD [OF i(7)]
  note ln = list_node [OF i(5) lr(7) run(1), where h = h and u = "list_used ?o" and c = "n_count ?o", folded n]
  have nr: "node_rep n (OList xs)"
    unfolding n using lr run by (intro list_node_rep [OF i(5) lr(1,7) run(1) lr(9,2)]) simp_all
  have B: "a_put key (OList xs, deadlines (d_sched d) a) S = S" using i(4) by (simp add: a_put_def map_upd_triv)
  have "db_rep {} (put_node a n d) S"
    using put_rep [OF db_inv_rep(1) [OF i(1)] i(2), of n "OList xs"] ln(1-4) nr i(3,6) B by simp
  then have "db_inv (put_node a n d) S" using db_st_frame [OF db_inv_rep(2) [OF i(1)]] db_inv_rep(3) [OF i(1)] by (simp add: db_inv_def)
  then show ?thesis using i ln(4) by (intro list_atI) (simp_all add: nkey_def)
qed

lemma sub32_simp [simp]: "b \<le> a \<Longrightarrow> sub32 a b = a - b"
  by (simp add: sub32_def)

lemma w32_small: "n < 2 ^ 32 \<Longrightarrow> w32 n = n"
  by (simp add: w32_def)

lemma grown_capacity_bounds:
  assumes "required \<le> value_limit" "current < required"
  shows "required \<le> grown_capacity required current" "grown_capacity required current \<le> 2 * value_limit"
  using assms w32_small [of "current * 2"] by (auto simp: grown_capacity_def value_limit_def Let_def)

lemma clamp_head: "lowest \<le> highest \<Longrightarrow> lowest \<le> clamp_head lowest highest h \<and> clamp_head lowest highest h \<le> highest"
  by (simp add: clamp_head_def Let_def)

lemma list_reserve_alt:
  "list_reserve e a ef eb d =
     (let n = node_at d a; capacity = list_run_capacity n; used = list_used n
      in if ef \<le> list_head n \<and> w32 (list_head n + used + eb) \<le> capacity then (Inr a, d)
         else
           let required = w32 (used + ef + eb);
               nc = (if required \<le> capacity then capacity else grown_capacity required capacity)
           in case (if capacity < nc then grow_node e a (w32 (8 + nc)) d else (Inr a, d)) of
                (Inl x, d1) \<Rightarrow> (Inl x, d1)
              | (Inr b, d1) \<Rightarrow> (Inr b, place_run ef eb nc used b d1))"
  unfolding list_reserve_def place_run_def clamp_head_def Let_def list_body_bytes_val ..

text \<open>Moving the run within a block that has room.\<close>

lemma move_run:
  assumes l: "list_at d S a key xs" and cap: "cap \<le> length (list_run (node_at d a))" "run_bytes xs + ef + eb \<le> cap"
  shows "reserve_ok (place_run ef eb cap (run_bytes xs) a d) S a key xs ef eb"
    "n_count (node_at (place_run ef eb cap (run_bytes xs) a d) a) = n_count (node_at d a)"
proof -
  define h where h: "h = clamp_head ef (cap - run_bytes xs - eb) ((cap - run_bytes xs) div 2)"
  define m1 where m1: "m1 = (if h \<noteq> list_head (node_at d a) \<and> run_bytes xs \<noteq> 0
        then set_list_run (write_at h (take (run_bytes xs) (drop (list_head (node_at d a)) (list_run (node_at d a)))) (list_run (node_at d a))) (node_at d a)
        else node_at d a)"
  have pr: "place_run ef eb cap (run_bytes xs) a d = put_node a (m1\<lparr>list_head := h\<rparr>) d"
  proof -
    have "sub32 (sub32 cap (run_bytes xs)) eb = cap - run_bytes xs - eb" "sub32 cap (run_bytes xs) = cap - run_bytes xs"
      using cap(2) by simp_all
    then show ?thesis unfolding place_run_def Let_def h m1 by simp
  qed
  let ?o = "node_at d a" and ?u = "run_bytes xs"
  have rep: "node_rep ?o (OList xs)" using l by (simp add: list_at_def)
  note lr = list_repD [OF rep]
  have "ef \<le> cap - ?u - eb" using cap(2) by linarith
  from clamp_head [OF this, of "(cap - ?u) div 2", folded h] have "ef \<le> h" "h \<le> cap - ?u - eb" by simp_all
  then have hb: "ef \<le> h" "h + ?u + eb \<le> cap" using cap(2) by linarith+
  let ?e = "concat (map encode_element xs)"
  have el: "length ?e = ?u" by (simp add: run_bytes_def)
  define run where "run = (if h \<noteq> list_head ?o \<and> ?u \<noteq> 0 then write_at h ?e (list_run ?o) else list_run ?o)"
  have e: "m1\<lparr>list_head := h\<rparr> = list_node run h (list_used ?o) (n_count ?o) ?o"
    unfolding m1 lr(8) run_def list_node_def by (simp add: set_list_run_def list_run_def)
  have "length run = length (list_run ?o)" using hb cap(1) el by (simp add: run_def)
  moreover have "take ?u (drop h run) = ?e"
  proof (cases "h \<noteq> list_head ?o \<and> ?u \<noteq> 0")
    case True
    then show ?thesis using take_write_at [of h ?e "list_run ?o"] hb cap(1) el by (simp add: run_def)
  next
    case False
    then show ?thesis using lr(8) el by (auto simp: run_def)
  qed
  moreover have "h + ?u \<le> length run" using calculation(1) hb cap(1) by linarith
  ultimately have "list_at (put_node a (m1\<lparr>list_head := h\<rparr>) d) S a key xs" unfolding e by (intro list_same [OF l refl])
  moreover have "length (list_run (m1\<lparr>list_head := h\<rparr>)) = length (list_run ?o)"
    unfolding e using list_node(6) [of ?o run] lr(7) \<open>length run = length (list_run ?o)\<close> l by (simp add: list_at_def)
  ultimately show "reserve_ok (place_run ef eb cap (run_bytes xs) a d) S a key xs ef eb"
    using hb cap(1) by (simp add: reserve_ok_def pr)
  show "n_count (node_at (place_run ef eb cap (run_bytes xs) a d) a) = n_count (node_at d a)"
    unfolding pr m1 by (simp add: set_list_run_def)
qed

lemma grow_list:
  assumes l: "list_at d S a key xs" and e: "env_ok e" and g: "grow_node e a (8 + cap) d = (res, d2)"
    and cap: "list_head (node_at d a) + run_bytes xs \<le> cap" "8 + cap \<le> max_list_bytes"
  shows "case res of
      Inl x \<Rightarrow> db_inv d2 S \<and> is_bad_alloc x \<and> d_nodes d2 = d_nodes d \<and> d_buckets d2 = d_buckets d \<and> d_sched d2 = d_sched d
        \<and> replaying d2 = replaying d
    | Inr b \<Rightarrow> list_at d2 S b key xs \<and> cap \<le> length (list_run (node_at d2 b)) \<and> replaying d2 = replaying d
        \<and> list_head (node_at d2 b) = list_head (node_at d a) \<and> n_count (node_at d2 b) = n_count (node_at d a)"
proof -
  have i: "db_inv d S" "a \<in> links d" "keyat d a = key" "ks_map S key = Some (OList xs, deadlines (d_sched d) a)"
    "node_wf (node_at d a)" "node_rep (node_at d a) (OList xs)" using l by (simp_all add: list_at_def)
  note r = db_inv_rep(1) [OF i(1)]
  show ?thesis
  proof (cases res)
    case (Inl x)
    from grow_fail [OF r e g [unfolded Inl]] show ?thesis
      using Inl db_st_frame [OF db_inv_rep(2) [OF i(1)], of "{}" d2 S] db_inv_rep(3) [OF i(1)] by (simp add: db_inv_def)
  next
    case (Inr b)
    have room: "obj_room (node_at d a) (OList xs) \<le> 8 + cap" "8 + cap \<le> max_list_bytes"
      using list_repD(4) [OF i(6)] cap by simp_all
    show ?thesis
    proof (rule grow_rep [OF r e i(2) i(4) [folded i(3)] room g [unfolded Inr]])
      fix block cls
      assume lay: "node_layout (unat (key_stride (of_nat (node_key_length (node_at d a))))) (8 + cap) = (block, cls)" "block < 2 ^ 32"
        and m: "node_at d2 b = moved_node e (node_at d a) block cls"
        and q: "db_rep {} d2 S" "b \<in> links d2" "keyat d2 b = keyat d a" "d_wal d2 = d_wal d" "replaying d2 = replaying d"
        "deadlines (d_sched d2) b = deadlines (d_sched d) a"
      have "db_inv d2 S" using q db_st_frame [OF db_inv_rep(2) [OF i(1)]] db_inv_rep(3) [OF i(1)] by (simp add: db_inv_def)
      then have "list_at d2 S b key xs" using q i by (intro list_atI) simp_all
      moreover have "8 + cap \<le> length (body (node_at d2 b))" unfolding m by (rule moved_ok(2) [OF lay i(5)])
      then have "cap \<le> length (list_run (node_at d2 b))" by (simp add: list_run_def)
      ultimately show ?thesis using Inr q(5) m by simp
    qed
  qed
qed

lemma list_reserve_st:
  assumes l: "list_at d S a key xs" and e: "env_ok e" and run: "list_reserve e a ef eb d = (res, d2)"
    and lim: "run_bytes xs + ef + eb \<le> value_limit"
  shows "case res of
      Inl x \<Rightarrow> db_inv d2 S \<and> is_bad_alloc x
    | Inr b \<Rightarrow> reserve_ok d2 S b key xs ef eb \<and> replaying d2 = replaying d \<and> n_count (node_at d2 b) = n_count (node_at d a)"
proof -
  let ?n = "node_at d a" and ?u = "run_bytes xs"
  have wf: "node_wf ?n" and rep: "node_rep ?n (OList xs)" using l by (simp_all add: list_at_def)
  note lr = list_repD [OF rep] and cap = list_capacity [OF wf]
  define c where "c = length (list_run ?n)"
  have lim32: "value_limit = 67108864" "max_list_bytes = 268435456" by (simp_all add: value_limit_def max_list_bytes_def max_value_bytes_def)
  have cb: "8 + c \<le> max_list_bytes" using lr(7,9,10) by (simp add: c_def)
  have w: "w32 (list_head ?n + ?u + eb) = list_head ?n + ?u + eb" "w32 (?u + ef + eb) = ?u + ef + eb"
    using lr(6) cb lim by (simp_all add: w32_small c_def lim32)
  define nc where "nc = (if ?u + ef + eb \<le> c then c else grown_capacity (?u + ef + eb) c)"
  have nc: "?u + ef + eb \<le> nc" "c \<le> nc" "8 + nc \<le> max_list_bytes" "list_head ?n + ?u \<le> nc"
    using grown_capacity_bounds [OF lim, of c] cb lr(6) by (auto simp: nc_def lim32 c_def)
  then have w2: "w32 (8 + nc) = 8 + nc" by (simp add: w32_small lim32)
  obtain r1 d1 where g: "(if c < nc then grow_node e a (8 + nc) d else (Inr a, d)) = (r1, d1)" by fastforce
  have eq: "list_reserve e a ef eb d =
      (if ef \<le> list_head ?n \<and> list_head ?n + ?u + eb \<le> c then (Inr a, d)
       else case (r1, d1) of (Inl x, d1) \<Rightarrow> (Inl x, d1) | (Inr b, d1) \<Rightarrow> (Inr b, place_run ef eb nc ?u b d1))"
    unfolding list_reserve_alt Let_def cap lr(4) c_def [symmetric] w nc_def [symmetric] w2 g ..
  show ?thesis
  proof (cases "ef \<le> list_head ?n \<and> list_head ?n + ?u + eb \<le> c")
    case True
    then have "res = Inr a" "d2 = d" using run eq by simp_all
    then show ?thesis using True l by (simp add: reserve_ok_def c_def)
  next
    case nofit: False
    have gl: "case r1 of
        Inl x \<Rightarrow> db_inv d1 S \<and> is_bad_alloc x
      | Inr b \<Rightarrow> list_at d1 S b key xs \<and> nc \<le> length (list_run (node_at d1 b)) \<and> replaying d1 = replaying d
          \<and> n_count (node_at d1 b) = n_count ?n"
    proof (cases "c < nc")
      case True
      then have "grow_node e a (8 + nc) d = (r1, d1)" using g by simp
      from grow_list [OF l e this nc(4,3)] show ?thesis by (cases r1) simp_all
    next
      case False
      then have "r1 = Inr a" "d1 = d" "nc = c" using g nc(2) by auto
      then show ?thesis using l by (simp add: c_def)
    qed
    show ?thesis
    proof (cases r1)
      case (Inl x)
      then show ?thesis using eq run gl nofit by auto
    next
      case (Inr b)
      then have b: "list_at d1 S b key xs" "nc \<le> length (list_run (node_at d1 b))" "replaying d1 = replaying d"
        "n_count (node_at d1 b) = n_count ?n" using gl by simp_all
      have "res = Inr b" "d2 = place_run ef eb nc ?u b d1" using run eq nofit Inr by auto
      then show ?thesis using move_run [OF b(1,2) nc(1)] b(3,4) by (simp add: place_run_def Let_def)
    qed
  qed
qed

lemma run_bytes_pushed: "run_bytes (pushed v front xs) = run_bytes xs + length (encode_element v)"
  by (simp add: run_bytes_def pushed_def)

lemma take_write_after:
  assumes "h + u + length bs \<le> length buf"
  shows "take (u + length bs) (drop h (write_at (h + u) bs buf)) = take u (drop h buf) @ bs"
  using assms by (auto simp: write_at_def take_drop add.commute)

lemma take_write_before:
  assumes "length bs \<le> h" "h + u \<le> length buf"
  shows "take (length bs + u) (drop (h - length bs) (write_at (h - length bs) bs buf)) = bs @ take u (drop h buf)"
  using assms by (simp add: write_at_def)

text \<open>Both ends of a run with room take one more element.\<close>

lemma push_node:
  assumes wf: "node_wf n" and rep: "node_rep n (OList xs)" and v: "run_bytes xs + length (encode_element v) \<le> value_limit"
    and ef: "use_front \<Longrightarrow> length (encode_element v) \<le> list_head n"
    and eb: "\<not> use_front \<Longrightarrow> list_head n + run_bytes xs + length (encode_element v) \<le> length (list_run n)"
    and m: "m = push_node v use_front (length (encode_element v)) n"
  shows "node_wf m" "node_block_size m = node_block_size n" "has_flag f m = has_flag f n" "key_bytes m = key_bytes n"
    "node_rep m (OList (pushed v use_front xs))" "n_count m = n_count n + 1"
proof -
  let ?e = "encode_element v"
  note lr = list_repD [OF rep]
  define h where "h = (if use_front then list_head n - length ?e else list_head n)"
  define pos where "pos = (if use_front then h else list_head n + run_bytes xs)"
  define run where "run = write_at pos ?e (list_run n)"
  have u: "w32 (list_used n + length ?e) = run_bytes xs + length ?e" using v lr(4) by simp
  have "sub32 (list_head n) (length ?e) = list_head n - length ?e" if use_front using ef that by simp
  then have ml: "m = list_node run h (run_bytes xs + length ?e) (n_count n + 1) n"
    unfolding m push_node_def Let_def u element_bytes by (simp add: list_node_def run_def pos_def h_def lr(4))
  have pb: "pos + length ?e \<le> length (list_run n)" using ef eb lr(6) by (auto simp: pos_def h_def)
  then have rl: "length run = length (list_run n)" by (simp add: run_def)
  note ln = list_node [OF wf lr(7) rl, where h = h and u = "run_bytes xs + length ?e" and c = "n_count n + 1", folded ml]
  show "node_wf m" "node_block_size m = node_block_size n" "has_flag f m = has_flag f n" "key_bytes m = key_bytes n"
    using ln by simp_all
  show "n_count m = n_count n + 1" by (simp add: ml list_node_def)
  have ok: "element_ok v" using element_ok_size(2) [of v] v by simp
  have "length xs \<le> run_bytes xs" by (simp add: run_bytes_def length_run)
  then have cnt: "unat (n_count n + 1) = length xs + 1"
  proof -
    have "n_count n + 1 = of_nat (length xs + 1)" using lr(3) [symmetric] by simp
    moreover have "length xs + 1 \<le> value_limit" using v element_min [of v] \<open>length xs \<le> run_bytes xs\<close> by linarith
    ultimately show ?thesis using value_limit_32(1) by metis
  qed
  have tk: "take (run_bytes xs + length ?e) (drop h run) = concat (map encode_element (pushed v use_front xs))"
  proof (cases use_front)
    case True
    then show ?thesis
      using take_write_before [OF ef, of "run_bytes xs" "list_run n"] lr(6,8)
      by (simp add: pushed_def run_def pos_def h_def add.commute)
  next
    case False
    then show ?thesis
      using take_write_after [OF eb] lr(8) by (simp add: pushed_def run_def pos_def h_def)
  qed
  show "node_rep m (OList (pushed v use_front xs))"
    unfolding ml
    using lr(2) ok cnt v tk rl ef eb lr(6)
    by (intro list_node_rep [OF wf lr(1,7) rl lr(9)]) (auto simp: pushed_def run_bytes_def h_def)
qed

lemma replay_log_value [simp]:
  "log_value v = [tag, text] \<Longrightarrow> replay_value tag text = Some v" "length (log_value v) = 2"
  by (cases v; auto simp: log_value_def replay_value_def from_chars_decimal str_def)+

lemma v_apply_push:
  assumes "length key \<le> max_key_length" "push_obj v front (obj_of (vals S) key) = Inr ys"
  shows "v_apply (if front then op_push_left else op_push_right) (key # log_value v) (vals S) = Some (vals (a_store key (OList ys) S))"
proof -
  obtain tag body where l: "log_value v = [tag, body]" by (cases v) (auto simp: log_value_def)
  then show ?thesis
    using assms by (cases front) (simp_all add: v_apply_def v_push_def replay_log_value(1) [OF l] vals_store)
qed

lemma touch_inv:
  assumes "db_inv d B" "a \<in> links d"
  shows "db_inv (touch_node a d) (a_touch (keyat d a) B)"
  using touch_rep [OF db_inv_rep(1) [OF assms(1)] assms(2)] db_st_frame [OF db_inv_rep(2) [OF assms(1)]] db_inv_rep(3) [OF assms(1)]
  by (simp add: db_inv_def)

lemma touch_store: "a_touch key (a_store key ob S) = a_store key ob S"
  by (simp add: a_store_def a_touch_def a_put_def)

lemma list_push_alt:
  "list_push e key v front d =
     (case find_writable e key d of
        (Inl x, d1) \<Rightarrow> (Inl x, d1)
      | (Inr found, d1) \<Rightarrow>
          if (case found of None \<Rightarrow> False | Some a \<Rightarrow> node_type (node_at d1 a) \<noteq> NList) then (Inr (Inl wrong_type), d1)
          else if (case found of None \<Rightarrow> False | Some a \<Rightarrow> value_limit < list_used (node_at d1 a) + w32 (elem_size v True))
          then (Inr (Inl request_too_large), d1)
          else if value_limit < elem_size v True then (Inr (Inl request_too_large), d1)
          else
            (case (case found of
                     Some a \<Rightarrow> (Inr a, d1)
                   | None \<Rightarrow>
                       (case maybe_rehash e d1 of
                          (Inl x, d2) \<Rightarrow> (Inl x, d2)
                        | (Inr _, d2) \<Rightarrow> create_node e key NList (w32 (list_body_bytes + w32 (elem_size v True))) d2)) of
               (Inl x, d2) \<Rightarrow> (Inl x, d2)
             | (Inr a, d2) \<Rightarrow> push_tail e key v front found a d2))"
  unfolding list_push_def push_tail_def push_node_def Let_def ..

lemma pushed_front: "n_count n \<noteq> 0 \<longleftrightarrow> xs \<noteq> []" if "node_rep n (OList xs)"
proof -
  have "n_count n = 0 \<longleftrightarrow> unat (n_count n) = 0" by (simp add: unat_eq_0)
  then show ?thesis using list_repD(3) [OF that] by simp
qed

lemma push_found:
  assumes l: "list_at d S a key xs" and e: "env_ok e" and S: "S = a_touch key A0"
    and p: "push_obj v front (Some (OList xs)) = Inr ys" and run: "push_tail e key v front (Some a) a d = (res, d')"
  shows "case res of
      Inl x \<Rightarrow> db_inv d' S \<and> (replaying d \<longrightarrow> is_bad_alloc x)
    | Inr r \<Rightarrow> r = Inr (of_nat (length ys)) \<and> db_inv d' (a_store key (OList ys) S) \<and> replaying d' = replaying d"
proof -
  let ?n = "node_at d a" and ?E = "length (encode_element v)"
  have i: "db_inv d S" "a \<in> links d" "keyat d a = key" "ks_map S key = Some (OList xs, deadlines (d_sched d) a)"
    and rep: "node_rep ?n (OList xs)" using l by (simp_all add: list_at_def)
  have k: "length key \<le> max_key_length" using db_inv_rep(3) [OF i(1)] i(4) by (auto simp: ks_ok_def)
  have lim: "run_bytes xs + ?E \<le> value_limit" and ys: "ys = pushed v front xs"
    using p by (auto simp: push_obj_def list_of_def element_sizes pushed_def split: if_splits)
  have en: "w32 (elem_size v True) = ?E" using lim by (simp add: element_sizes)
  define uf where "uf \<longleftrightarrow> front \<and> n_count ?n \<noteq> 0"
  have yu: "ys = pushed v uf xs" using ys pushed_front [OF rep] by (auto simp: uf_def pushed_def)
  obtain r3 d3 where rs: "list_reserve e a (if uf then ?E else 0) (if uf then 0 else ?E) d = (r3, d3)" by fastforce
  note lrs = list_reserve_st [OF l e rs]
  show ?thesis
  proof (cases r3)
    case (Inl x)
    then show ?thesis using run rs lrs lim by (auto simp: push_tail_def Let_def en uf_def [symmetric])
  next
    case (Inr b)
    then have ro: "reserve_ok d3 S b key xs (if uf then ?E else 0) (if uf then 0 else ?E)" and rp: "replaying d3 = replaying d"
      using lrs lim by (simp_all split: if_splits)
    have l3: "list_at d3 S b key xs" using ro by (simp add: reserve_ok_def)
    then have j: "db_inv d3 S" "b \<in> links d3" "keyat d3 b = key" "ks_map S key = Some (OList xs, deadlines (d_sched d3) b)"
      "node_wf (node_at d3 b)" "node_rep (node_at d3 b) (OList xs)" "key_bytes (node_at d3 b) = key" by (simp_all add: list_at_def)
    define m where "m = push_node v uf ?E (node_at d3 b)"
    note pn = push_node [OF j(5,6) lim _ _ m_def]
    have room: "uf \<Longrightarrow> ?E \<le> list_head (node_at d3 b)" "\<not> uf \<Longrightarrow> list_head (node_at d3 b) + run_bytes xs + ?E \<le> length (list_run (node_at d3 b))"
      using ro by (auto simp: reserve_ok_def)
    note pn = pn [OF room, folded yu]
    have kb: "key_bytes m = key" using pn(4) j(7) by simp
    obtain r4 d4 where lg: "db_log e (if front then op_push_left else op_push_right) (key # log_value v) d3 = (r4, d4)" by fastforce
    have "push_obj v front (obj_of (vals S) key) = Inr ys" using p i(4) by (simp add: obj_of_vals)
    note ap = v_apply_push [OF k this]
    have "ys \<noteq> []" by (simp add: ys pushed_def)
    then have ok: "obj_ok (OList ys)" using lim by (simp add: ys run_bytes_pushed)
    note li = log_in_place [OF j(1) lg j(2-4) S pn(1) kb pn(2,3,5) ap ok, of b]
    show ?thesis
    proof (cases r4)
      case (Inl x)
      then show ?thesis using run rs Inr lg li rp by (auto simp: push_tail_def Let_def en uf_def [symmetric])
    next
      case r4: (Inr u)
      have n4: "node_at d4 b = node_at d3 b" "b \<in> links d4" "db_inv (put_node b m d4) (a_store key (OList ys) S)" "replaying d4 = replaying d3"
        using li r4 db_log_fields(2) [OF lg] j(2) by simp_all
      have "db_inv (touch_node b (put_node b m d4)) (a_touch (keyat (put_node b m d4) b) (a_store key (OList ys) S))"
        by (rule touch_inv [OF n4(3)]) (simp add: n4(2))
      moreover have "keyat (put_node b m d4) b = key" using kb by (simp add: nkey_def)
      ultimately have t: "db_inv (touch_node b (put_node b m d4)) (a_store key (OList ys) S)" by (simp add: touch_store)
      have "ucast (n_count m) = (of_nat (length ys) :: int64)"
        using list_repD(3) [OF pn(5)] by (metis of_nat_unat)
      then show ?thesis
        using run rs Inr lg r4 t rp n4 by (auto simp: push_tail_def Let_def en uf_def [symmetric] m_def)
    qed
  qed
qed

lemma push_new:
  assumes inv: "db_inv d S" and e: "env_ok e" and k: "length key \<le> max_key_length" and new: "ks_map S key = None"
    and p: "push_obj v front None = Inr ys"
    and cr: "create_node e key NList (8 + length (encode_element v)) d = (Inr a, d2)"
    and run: "push_tail e key v front None a d2 = (res, d')"
  shows "case res of
      Inl x \<Rightarrow> db_inv d' S \<and> (replaying d \<longrightarrow> is_bad_alloc x)
    | Inr r \<Rightarrow> r = Inr (of_nat (length ys)) \<and> db_inv d' (a_store key (OList ys) S) \<and> replaying d' = replaying d"
proof -
  let ?E = "length (encode_element v)" and ?n = "node_at d2 a"
  have lim: "?E \<le> value_limit" and ys: "ys = [v]"
    using p by (auto simp: push_obj_def list_of_def element_sizes run_bytes_def split: if_splits)
  have en: "w32 (elem_size v True) = ?E" using lim by (simp add: element_sizes)
  have c: "db_st {a} d2 S (vals S)" "fresh_node key NList (8 + ?E) ?n" "replaying d2 = replaying d"
    using create_st [OF db_inv_rep(2) [OF inv] e k cr] by simp_all
  then have f: "node_wf ?n" "node_type ?n = NList" "8 + ?E \<le> length (body ?n)" "key_bytes ?n = key" "n_count ?n = 0"
    "list_head ?n = 0" "list_used ?n = 0" "length (body ?n) \<le> max (8 + ?E) 4096" "\<not> has_flag flag_has_ttl ?n"
    by (simp_all add: fresh_node_def has_flag_def)
  have rep: "node_rep ?n (OList [])"
    using f lim by (simp add: list_rep_def value_limit_def max_list_bytes_def max_value_bytes_def max_def split: if_splits)
  have rs: "list_reserve e a 0 ?E d2 = (Inr a, d2)"
  proof -
    have "w32 (0 + 0 + ?E) \<le> list_run_capacity ?n" using list_capacity [OF f(1)] f(3) lim by (simp add: list_run_def)
    then show ?thesis unfolding list_reserve_alt Let_def f(6,7) by simp
  qed
  obtain r4 d4 where lg: "db_log e (if front then op_push_left else op_push_right) (key # log_value v) d2 = (r4, d4)" by fastforce
  let ?B = "a_store key (OList ys) S"
  have "push_obj v front (obj_of (vals S) key) = Inr ys" using p new by (simp add: obj_of_vals)
  note ls = db_log_st [OF c(1) lg, of "vals ?B"] and ap = v_apply_push [OF k this]
  show ?thesis
  proof (cases r4)
    case (Inl x)
    then have "db_st {} (destroy e a d4) S (vals S)" "\<not> replaying d" using ls destroy_st [OF _ e] c(3) by simp_all
    then show ?thesis using run rs lg Inl f(5) inv by (auto simp: push_tail_def Let_def en db_inv_def)
  next
    case (Inr u)
    then have s4: "db_st {a} d4 S (vals ?B)" "d_nodes d4 = d_nodes d2" "d_buckets d4 = d_buckets d2" "replaying d4 = replaying d2"
      using ls ap by simp_all
    have n4: "node_at d4 a = ?n" using s4(2) by (simp add: node_at_def)
    define d5 where "d5 = commit_node e None a True d4"
    let ?C = "a_touch key (a_put key (OList [], None) S)"
    have s5: "db_st {} d5 ?C (vals ?B)"
      using commit_st [OF s4(1) e, of "OList []" key None True] n4 f(4,9) rep new by (simp add: d5_def ttl_of_def)
    have r5: "db_rep {} d5 ?C" using s5 by (simp add: db_st_def)
    have b5: "a \<in> links d5" "d_nodes d5 = d_nodes d4" "replaying d5 = replaying d4"
    proof -
      have "db_core {a} d4 S" using s4(1) by (simp add: db_st_def db_rep_core)
      moreover have "keyat d4 a = key" using n4 f(4) by (simp add: nkey_def node_at_def)
      ultimately have "links (attach a d4) = insert a (links d4)"
        using new rep n4 by (intro attach_core(2) [of "{a}" _ S _ "OList []"]) simp_all
      then show "a \<in> links d5" by (simp add: d5_def commit_attach)
      show "d_nodes d5 = d_nodes d4" "replaying d5 = replaying d4" by (simp_all add: d5_def commit_attach attach_fields)
    qed
    have n5: "node_at d5 a = ?n" "keyat d5 a = key" using b5(2) n4 f(4) by (simp_all add: node_at_def nkey_def)
    define m where "m = push_node v False ?E ?n"
    have room: "list_head ?n + run_bytes [] + ?E \<le> length (list_run ?n)" using f by (simp add: run_bytes_def list_run_def)
    have pn: "node_wf m" "node_block_size m = node_block_size ?n" "has_flag f m = has_flag f ?n" "key_bytes m = key_bytes ?n"
      "node_rep m (OList ys)" for f
      using push_node [OF f(1) rep _ _ _ m_def] room lim by (simp_all add: run_bytes_def ys pushed_def)
    have dl: "deadlines (d_sched d5) a = None" using linked_val(2) [OF r5 b5(1), of "OList []" None] n5 by simp
    have "db_rep {} (put_node a m d5) (a_put key (OList ys, None) ?C)"
      using put_rep [OF r5 b5(1), of m "OList ys"] pn f(4) n5 dl by simp
    moreover have "a_put key (OList ys, None) ?C = ?B" using new by (simp add: a_store_def ttl_of_def a_put_def a_touch_def)
    ultimately have "db_st {} (put_node a m d5) ?B (vals ?B)" by (intro db_st_frame [OF s5]) simp_all
    moreover have "ks_ok ?B" using ks_ok_store [OF db_inv_rep(3) [OF inv] k] lim by (simp add: ys run_bytes_def)
    ultimately have i: "db_inv (put_node a m d5) ?B" by (simp add: db_inv_def)
    have "db_inv (touch_node a (put_node a m d5)) (a_touch (keyat (put_node a m d5) a) ?B)"
      using touch_inv [OF i] b5(1) by simp
    moreover have "keyat (put_node a m d5) a = key" using pn(4) f(4) by (simp add: nkey_def)
    ultimately have t: "db_inv (touch_node a (put_node a m d5)) ?B" by (simp add: touch_store)
    have "ucast (n_count m) = (of_nat (length ys) :: int64)" using f(5) by (simp add: m_def push_node_def Let_def ys)
    then show ?thesis using run rs lg Inr t b5(3) s4(4) c(3) f(5) n5(1)
      by (auto simp: push_tail_def Let_def en m_def d5_def [symmetric])
  qed
qed

lemma list_of_node:
  assumes "node_rep n ob"
  shows "list_of (Some ob) = (if node_type n = NList then Inr (case ob of OList xs \<Rightarrow> xs) else Inl wrong_type)"
  using assms by (cases ob) (simp_all add: list_of_def)

lemma list_push_spec:
  assumes inv: "db_inv d A" and e: "env_ok e" and run: "list_push e key v front d = (res, d')"
  defines "S \<equiv> a_seen e d key A"
  shows "outcome e d key A res d' True (\<lambda>c. push_obj v front (obj_of (vals S) key) = Inl c)
     (\<lambda>n B. \<exists>ys. push_obj v front (obj_of (vals S) key) = Inr ys \<and> n = of_nat (length ys) \<and> B = a_store key (OList ys) S)"
proof -
  let ?E = "elem_size v True"
  obtain r d1 where f: "find_writable e key d = (r, d1)" by fastforce
  consider x where "r = Inl x" | "r = Inr None" | a where "r = Inr (Some a)" by (metis option.exhaust sum.exhaust)
  then show ?thesis
  proof cases
    case 1
    then show ?thesis using run f find_failed [OF inv e, of key x d1] by (auto simp: list_push_alt)
  next
    case 2
    note fc = found_case [OF inv e f [unfolded 2]]
    have new: "ks_map S key = None" and i: "db_inv d1 S" using fc(1,4) by (simp_all add: S_def)
    have po: "push_obj v front (obj_of (vals S) key) = push_obj v front None" using new by (simp add: obj_of_vals)
    have p0: "push_obj v front None = (if value_limit < ?E then Inl request_too_large else Inr [v])"
      by (simp add: push_obj_def list_of_def run_bytes_def)
    show ?thesis
    proof (cases "value_limit < ?E")
      case True
      then show ?thesis using run f 2 i fc(2,3) po p0 by (auto simp: list_push_alt S_def)
    next
      case False
      then have lim: "?E \<le> value_limit" by simp
      have w: "w32 (8 + ?E) = 8 + length (encode_element v)"
        using lim w32_small [of "8 + ?E"] by (simp add: value_limit_def element_sizes)
      obtain r2 d2 where rh: "maybe_rehash e d1 = (r2, d2)" by fastforce
      note h = rehash_if_inv [OF i e, of True, simplified, OF rh]
      obtain r3 d3 where cr: "create_node e key NList (8 + length (encode_element v)) d2 = (r3, d3)" by fastforce
      note c = create_st [OF db_inv_rep(2) [OF h(1)] e fc(2) cr]
      show ?thesis
      proof (cases r2)
        case (Inl x)
        then show ?thesis using run f 2 rh h(1,2) False by (auto simp: list_push_alt kept_def S_def)
      next
        case u2: (Inr u)
        show ?thesis
        proof (cases r3)
          case (Inl x)
          then show ?thesis using run f 2 rh u2 cr c db_inv_frame [OF h(1)] False by (auto simp: list_push_alt kept_def S_def w)
        next
          case p: (Inr p)
          obtain r5 d5 where t: "push_tail e key v front None p d3 = (r5, d5)" by fastforce
          have "list_push e key v front d = (r5, d5)" using f 2 rh u2 cr p t False by (simp add: list_push_alt w)
          then have rd: "res = r5" "d' = d5" using run by simp_all
          note pn = push_new [OF h(1) e fc(2) new _ cr [unfolded p] t, of "[v]"]
          show ?thesis using pn p0 False po fc(2,3) h(6) unfolding rd by (cases r5) (auto simp: S_def kept_def)
        qed
      qed
    qed
  next
    case 3
    note fc = found_case [OF inv e f [unfolded 3]]
    have i: "db_inv d1 S" and al: "a \<in> links d1" "keyat d1 a = key" using fc(1,4) by (simp_all add: S_def)
    obtain ob where ob: "ks_map S key = Some (ob, deadlines (d_sched d1) a)" "node_rep (node_at d1 a) ob"
      using fc(5) [of a] by (auto simp: S_def)
    have S: "S = a_touch key A" using seen_touched [OF inv e f [unfolded 3]] by (simp add: S_def)
    have po: "push_obj v front (obj_of (vals S) key) = push_obj v front (Some ob)" using ob by (simp add: obj_of_vals)
    show ?thesis
    proof (cases "node_type (node_at d1 a) = NList")
      case False
      then have "push_obj v front (Some ob) = Inl wrong_type" using list_of_node [OF ob(2)] by (simp add: push_obj_def)
      then show ?thesis using run f 3 False i fc(2,3) po by (auto simp: list_push_alt S_def)
    next
      case True
      then obtain xs where xs: "ob = OList xs" using ob(2) by (cases ob) auto
      have l: "list_at d1 S a key xs" using list_atI [OF i al] ob xs by simp
      note lr = list_repD [OF ob(2) [unfolded xs]]
      have p0: "push_obj v front (Some ob) = (if value_limit < run_bytes xs + ?E then Inl request_too_large
          else Inr (pushed v front xs))"
        by (simp add: push_obj_def list_of_def xs pushed_def)
      show ?thesis
      proof (cases "value_limit < run_bytes xs + ?E")
        case big: True
        have "value_limit < run_bytes xs + w32 ?E \<or> value_limit < ?E"
        proof (cases "value_limit < ?E")
          case False
          then show ?thesis using big by simp
        qed simp
        then have "list_push e key v front d = (Inr (Inl request_too_large), d1)"
          using f 3 True lr(4) by (auto simp: list_push_alt)
        then show ?thesis using run i fc(2,3) po p0 big by (auto simp: S_def)
      next
        case False
        obtain r5 d5 where t: "push_tail e key v front (Some a) a d1 = (r5, d5)" by fastforce
        have "\<not> value_limit < run_bytes xs + w32 ?E" "\<not> value_limit < ?E" using False by simp_all
        then have "list_push e key v front d = (r5, d5)" using f 3 True lr(4) t by (simp add: list_push_alt)
        then have rd: "res = r5" "d' = d5" using run by simp_all
        note pf = push_found [OF l e S _ t, of "pushed v front xs"]
        show ?thesis using pf p0 xs False po fc(2,3) unfolding rd by (cases r5) (auto simp: S_def kept_def)
      qed
    qed
  qed
qed

lemma erase_st:
  assumes "db_st {} d S V" "env_ok e" "a \<in> links d" "keyat d a = key"
  shows "db_st {} (erase_node e a d) (a_drop key S) V"
  using erase_rep(1) [of "{}" d S e a] assms db_st_frame [OF assms(1), of "{}" "erase_node e a d" "a_drop key S"]
  by (simp add: db_st_def)

lemma decode_backlen_prefix:
  assumes "cursor \<le> length buf" "decode_backlen buf cursor = Some n"
  shows "decode_backlen (buf @ rest) cursor = Some n"
  using assms decode_backlen_loop_append [OF assms(1)] by (simp add: decode_backlen_def)

lemma run_split:
  assumes "take u (drop h run) = bs"
  shows "drop h run = bs @ drop (h + u) run" "run = take h run @ bs @ drop (h + u) run"
proof -
  show d: "drop h run = bs @ drop (h + u) run"
    using append_take_drop_id [of u "drop h run"] assms by (simp add: add.commute)
  show "run = take h run @ bs @ drop (h + u) run" unfolding d [symmetric] by simp
qed

lemma element_le_run: "x \<in> set xs \<Longrightarrow> length (encode_element x) \<le> run_bytes xs"
  by (induction xs) (auto simp: run_bytes_def)

lemma concat_last: "xs \<noteq> [] \<Longrightarrow> concat (map f xs) = concat (map f (butlast xs)) @ f (last xs)"
  by (induction xs) auto

lemma pop_value:
  assumes rep: "node_rep n (OList xs)" and ne: "xs \<noteq> []"
  shows "pop_value front n = (if front then hd xs else last xs, length (encode_element (if front then hd xs else last xs)))"
proof -
  note lr = list_repD [OF rep]
  let ?v = "if front then hd xs else last xs" and ?cs = "concat (map encode_element xs)"
  have vx: "?v \<in> set xs" using ne by simp
  then have ok: "element_ok ?v" using lr(2) by blast
  have w: "w32 (length (encode_element ?v)) = length (encode_element ?v)"
    using element_le_run [OF vx] lr(5) by (intro value_limit_32(2)) linarith
  note split = run_split [OF lr(8)]
  show ?thesis
  proof (cases front)
    case True
    have "?cs = encode_element (hd xs) @ concat (map encode_element (tl xs))" using ne by (cases xs) simp_all
    then have d: "drop (list_head n) (list_run n) = encode_element (hd xs) @ concat (map encode_element (tl xs)) @ drop (list_head n + run_bytes xs) (list_run n)"
      using split(1) by simp
    have ok': "element_ok (hd xs)" using ok True by simp
    then show ?thesis using w True by (simp add: pop_value_def Let_def d decode_encode_element stride_encode)
  next
    case False
    let ?pre = "take (list_head n) (list_run n) @ concat (map encode_element (butlast xs))" and ?e = "encode_element (last xs)"
    let ?rest = "drop (list_head n + run_bytes xs) (list_run n)"
    have cs: "?cs = concat (map encode_element (butlast xs)) @ ?e"
      by (rule concat_last [OF ne])
    then have r: "list_run n = (?pre @ ?e) @ ?rest" using split(2) by simp
    have fin: "list_head n + list_used n = length ?pre + length ?e" using lr(4,6) cs by (simp add: run_bytes_def)
    have ok': "element_ok (last xs)" using ok False by simp
    have "decode_backlen ((?pre @ ?e) @ ?rest) (length ?pre + length ?e) = Some (length (encode_body (last xs)))"
      by (rule decode_backlen_prefix [OF _ decode_backlen_element [OF ok']]) simp
    then have db: "decode_backlen (list_run n) (list_head n + list_used n) = Some (length (encode_body (last xs)))"
      unfolding fin using r by simp
    have full: "length (encode_body (last xs)) + backlen_bytes (length (encode_body (last xs))) = length ?e"
      by (simp add: encode_element_body length_encode_backlen)
    have "drop (length ?pre + length ?e - length ?e) ((?pre @ ?e) @ ?rest) = ?e @ ?rest" by simp
    then have dr: "drop (list_head n + list_used n - length ?e) (list_run n) = ?e @ ?rest" unfolding fin r [symmetric] .
    show ?thesis
      using w False ok' unfolding pop_value_def Let_def db option.sel full dr by (simp add: decode_encode_element)
  qed
qed

lemma run_bytes_popped:
  assumes "xs \<noteq> []"
  shows "run_bytes xs = run_bytes (popped front xs) + length (encode_element (if front then hd xs else last xs))"
  using assms concat_last [OF assms, of encode_element] by (cases xs) (auto simp: run_bytes_def popped_def)

lemma pop_node:
  assumes wf: "node_wf n" and rep: "node_rep n (OList xs)" and ne: "xs \<noteq> []"
    and m: "m = pop_node front (length (encode_element (if front then hd xs else last xs))) n"
  shows "node_wf m" "node_block_size m = node_block_size n" "has_flag f m = has_flag f n" "key_bytes m = key_bytes n"
    "node_rep m (OList (popped front xs))"
proof -
  let ?E = "length (encode_element (if front then hd xs else last xs))" and ?ys = "popped front xs"
  note lr = list_repD [OF rep]
  have b: "length (body m) = length (body n)" and c: "key_meta m = key_meta n" "exact_size m = exact_size n" "key_bytes m = key_bytes n"
    by (simp_all add: m pop_node_def)
  note nc = node_cong [OF c b]
  show "node_wf m" "node_block_size m = node_block_size n" "has_flag f m = has_flag f n" "key_bytes m = key_bytes n"
    using nc c wf by simp_all
  note rb = run_bytes_popped [OF ne, of front]
  have lim: "max_list_bytes = 268435456" by (simp add: max_list_bytes_def max_value_bytes_def)
  have hd: "list_head m = (if front then list_head n + ?E else list_head n)"
  proof -
    have "list_head n + ?E < 2 ^ 32" using lr(6,9,10) rb by (simp only: lim) simp
    from w32_small [OF this] show ?thesis unfolding m pop_node_def by (cases front) simp_all
  qed
  have us: "list_used m = run_bytes ?ys" using rb lr(4) by (simp add: m pop_node_def)
  have rm: "list_run m = list_run n" by (simp add: m pop_node_def list_run_def)
  have ln: "length ?ys = length xs - 1" by (simp add: popped_def)
  have ct: "unat (n_count m) = length ?ys"
  proof -
    have "n_count n \<noteq> 0" using pushed_front [OF rep] ne by simp
    then show ?thesis using unat_minus_one [of "n_count n"] lr(3) ln by (simp add: m pop_node_def)
  qed
  have tk: "take (run_bytes ?ys) (drop (list_head m) (list_run n)) = concat (map encode_element ?ys)"
  proof (cases front)
    case True
    have "drop (list_head n + ?E) (list_run n) = drop ?E (drop (list_head n) (list_run n))" by (simp add: add.commute)
    also have "\<dots> = concat (map encode_element ?ys) @ drop (list_head n + run_bytes xs) (list_run n)"
      using run_split(1) [OF lr(8)] ne True by (cases xs) (simp_all add: popped_def)
    finally show ?thesis using hd True by (simp add: run_bytes_def)
  next
    case False
    then show ?thesis using run_split(1) [OF lr(8)] concat_last [OF ne, of encode_element] hd by (simp add: run_bytes_def popped_def)
  qed
  have el: "\<forall>x \<in> set ?ys. element_ok x" using lr(2) ne by (auto simp: popped_def dest: list.set_sel(2) in_set_butlastD)
  have "list_rep m ?ys"
    using el ct us tk lr(5-7,9,10) rb hd
    by (auto simp: list_rep_def rm value_limit_eq run_bytes_def b)
  then show "node_rep m (OList (popped front xs))" using nc(4) lr(1) by simp
qed

lemma shrink_list:
  assumes l: "list_at d S a key xs" and e: "env_ok e"
  shows "db_inv (shrink_list e a (node_at d a) d) S" "replaying (shrink_list e a (node_at d a) d) = replaying d"
proof -
  let ?n = "node_at d a" and ?u = "run_bytes xs" and ?cs = "concat (map encode_element xs)"
  have rep: "node_rep ?n (OList xs)" and wf: "node_wf ?n" using l by (simp_all add: list_at_def)
  note lr = list_repD [OF rep]
  define run where "run = (if ?u \<noteq> 0 then write_at 0 ?cs (list_run ?n) else list_run ?n)"
  define m1 where "m1 = (if ?u \<noteq> 0 then set_list_run (write_at 0 (take ?u (drop (list_head ?n) (list_run ?n))) (list_run ?n)) ?n else ?n)\<lparr>list_head := 0\<rparr>"
  have m1: "m1 = list_node run 0 (list_used ?n) (n_count ?n) ?n"
    unfolding m1_def lr(8) run_def list_node_def by (simp add: set_list_run_def list_run_def)
  have el: "length ?cs = ?u" by (simp add: run_bytes_def)
  have rl: "length run = length (list_run ?n)" using lr(6) el by (simp add: run_def)
  have tk: "take ?u (drop 0 run) = ?cs"
  proof (cases "?u = 0")
    case True
    then have "?cs = []" using el by (metis length_0_conv)
    then show ?thesis using True by simp
  next
    case False
    then show ?thesis using take_write_at_0 [of ?cs "list_run ?n"] el lr(6) by (simp add: run_def)
  qed
  have l1: "list_at (put_node a m1 d) S a key xs" using list_same [OF l m1] rl tk lr(6) by simp
  have h1: "list_head m1 = 0" by (simp add: m1_def)
  define cap where "cap = max ?u 32"
  have lim: "max_list_bytes = 268435456" "value_limit = 67108864"
    by (simp_all add: max_list_bytes_def max_value_bytes_def value_limit_def)
  have w: "w32 (list_body_bytes + max (list_used ?n) 32) = 8 + cap"
    using lr(4,5) w32_small [of "8 + cap"] lim by (simp add: cap_def)
  obtain r d2 where g: "grow_node e a (8 + cap) (put_node a m1 d) = (r, d2)" by fastforce
  have eq: "shrink_list e a ?n d = d2"
    using g w unfolding shrink_list_def Let_def lr(4) m1_def by simp
  have "list_head (node_at (put_node a m1 d) a) + ?u \<le> cap" "8 + cap \<le> max_list_bytes" using h1 lr(5) lim by (simp_all add: cap_def)
  from grow_list [OF l1 e g this] have "db_inv d2 S \<and> replaying d2 = replaying d"
    by (cases r) (simp_all add: list_at_def)
  then show "db_inv (shrink_list e a ?n d) S" "replaying (shrink_list e a ?n d) = replaying d" using eq by simp_all
qed

lemma list_pop_alt:
  "list_pop e key front d =
     (case find_writable e key d of
        (Inl x, d1) \<Rightarrow> (Inl x, d1)
      | (Inr None, d1) \<Rightarrow> (Inr (Inr None), d1)
      | (Inr (Some a), d1) \<Rightarrow>
          (let n = node_at d1 a
           in if node_type n \<noteq> NList then (Inr (Inl wrong_type), d1)
              else if n_count n = 0 then (Inr (Inr None), d1)
              else
                (case db_log e (if front then op_pop_left else op_pop_right) [key] d1 of
                   (Inl x, d2) \<Rightarrow> (Inl x, d2)
                 | (Inr _, d2) \<Rightarrow>
                     let m = (node_at d2 a)\<lparr>list_head := (if front then w32 (list_head n + snd (pop_value front n)) else list_head n),
                               list_used := sub32 (list_used n) (snd (pop_value front n)), n_count := n_count n - 1\<rparr>;
                         d3 = bump_sequence (put_node a m d2)
                     in (Inr (Inr (Some (fst (pop_value front n)))),
                         if n_count m = 0 then erase_node e a d3
                         else if largest_class < list_run_capacity m \<and> list_used m < list_run_capacity m div 4 then shrink_list e a m d3
                         else d3))))"
  unfolding list_pop_def pop_value_def shrink_list_def Let_def fst_conv snd_conv ..

lemma v_apply_pop:
  assumes "length key \<le> max_key_length" "pop_obj front (obj_of (vals S) key) = Inr (Some (v, ys))"
  shows "v_apply (if front then op_pop_left else op_pop_right) [key] (vals S)
     = Some (vals (if ys = [] then a_drop key S else a_store key (OList ys) S))"
  using assms by (cases front) (simp_all add: v_apply_def v_pop_def v_list_def vals_store)

lemma drop_put: "a_drop key (a_put key v A) = a_drop key A"
  by (simp add: a_drop_def a_put_def)

lemma pop_tail:
  assumes l: "list_at d S a key xs" and e: "env_ok e" and S: "S = a_touch key A0" and ne: "xs \<noteq> []"
    and lg: "db_log e (if front then op_pop_left else op_pop_right) [key] d = (Inr u, d2)"
    and m: "m = pop_node front (length (encode_element (if front then hd xs else last xs))) (node_at d a)"
    and d3: "d3 = bump_sequence (put_node a m d2)"
    and d': "d' = (if n_count m = 0 then erase_node e a d3
       else if largest_class < list_run_capacity m \<and> list_used m < list_run_capacity m div 4 then shrink_list e a m d3 else d3)"
  shows "db_inv d' (if popped front xs = [] then a_drop key S else a_store key (OList (popped front xs)) S)" "replaying d' = replaying d"
proof -
  let ?ys = "popped front xs" and ?n = "node_at d a"
  let ?B = "if ?ys = [] then a_drop key S else a_store key (OList ?ys) S"
  have i: "db_inv d S" "a \<in> links d" "keyat d a = key" "ks_map S key = Some (OList xs, deadlines (d_sched d) a)"
    "node_wf ?n" "node_rep ?n (OList xs)" "key_bytes ?n = key" using l by (simp_all add: list_at_def)
  have k: "length key \<le> max_key_length" using db_inv_rep(3) [OF i(1)] i(4) by (auto simp: ks_ok_def)
  have po: "pop_obj front (obj_of (vals S) key) = Inr (Some (if front then hd xs else last xs, ?ys))"
    using i(4) ne by (simp add: obj_of_vals pop_obj_def list_of_def popped_def)
  have s2: "db_st {} d2 S (vals ?B)" "d_nodes d2 = d_nodes d" "d_buckets d2 = d_buckets d" "d_sched d2 = d_sched d" "replaying d2 = replaying d"
    using db_log_st [OF db_inv_rep(2) [OF i(1)] lg, of "vals ?B"] v_apply_pop [OF k po] by simp_all
  have n2: "node_at d2 a = ?n" "a \<in> links d2" "keyat d2 a = key" using i s2 by (simp_all add: node_at_def)
  note pn = pop_node [OF i(5,6) ne m]
  let ?A3 = "a_put key (OList ?ys, deadlines (d_sched d) a) S"
  have r3: "db_rep {} (put_node a m d2) ?A3"
    using put_rep [of "{}" d2 S a m "OList ?ys"] s2(1,4) n2 pn i(7) by (simp add: db_st_def)
  then have s3: "db_st {} d3 ?A3 (vals ?B)" unfolding d3 db_st_simps by (intro db_st_frame [OF s2(1)]) simp_all
  have k3: "a \<in> links d3" "keyat d3 a = key" "node_at d3 a = m" "d_sched d3 = d_sched d2"
    using n2 pn(4) i(7) by (simp_all add: d3 nkey_def bump_sequence_def node_at_def)
  have z: "n_count m = 0 \<longleftrightarrow> ?ys = []" using pushed_front [OF pn(5)] by simp
  have "db_inv d' ?B \<and> replaying d' = replaying d"
  proof (cases "?ys = []")
    case True
    have "db_st {} (erase_node e a d3) (a_drop key ?A3) (vals ?B)" by (rule erase_st [OF s3 e k3(1,2)])
    moreover have "ks_ok (a_drop key S)" using db_inv_rep(3) [OF i(1)] by simp
    ultimately show ?thesis using True z s2(5) by (simp add: d' d3 drop_put db_inv_def)
  next
    case False
    have B: "?A3 = ?B" using False i(4) S by (simp add: a_store_def ttl_of_def touch_put_touch)
    have "run_bytes ?ys \<le> value_limit" using run_bytes_popped [OF ne, of front] list_repD(5) [OF i(6)] by linarith
    then have "ks_ok ?B" using False ks_ok_store [OF db_inv_rep(3) [OF i(1)] k] by simp
    then have i3: "db_inv d3 ?B" using s3 B by (simp add: db_inv_def)
    have "ks_map ?B key = Some (OList ?ys, deadlines (d_sched d3) a)" unfolding B [symmetric] using k3(4) s2(4) by simp
    then have "list_at d3 ?B a key ?ys" by (rule list_atI [OF i3 k3(1,2)])
    from shrink_list [OF this e] have "db_inv (shrink_list e a m d3) ?B" "replaying (shrink_list e a m d3) = replaying d3"
      using k3(3) by simp_all
    then show ?thesis using False z i3 s2(5) by (simp add: d' d3)
  qed
  then show "db_inv d' ?B" "replaying d' = replaying d" by simp_all
qed

lemma list_pop_spec:
  assumes inv: "db_inv d A" and e: "env_ok e" and run: "list_pop e key front d = (res, d')"
  defines "S \<equiv> a_seen e d key A"
  shows "outcome e d key A res d' True (\<lambda>c. pop_obj front (obj_of (vals S) key) = Inl c)
     (\<lambda>r B. case pop_obj front (obj_of (vals S) key) of
        Inr None \<Rightarrow> r = None \<and> B = S
      | Inr (Some (v, ys)) \<Rightarrow> r = Some v \<and> B = (if ys = [] then a_drop key S else a_store key (OList ys) S)
      | Inl _ \<Rightarrow> False)"
proof -
  obtain r d1 where f: "find_writable e key d = (r, d1)" by fastforce
  consider x where "r = Inl x" | "r = Inr None" | a where "r = Inr (Some a)" by (metis option.exhaust sum.exhaust)
  then show ?thesis
  proof cases
    case 1
    then show ?thesis using run f find_failed [OF inv e, of key x d1] by (auto simp: list_pop_alt)
  next
    case 2
    note fc = found_case [OF inv e f [unfolded 2]]
    have "pop_obj front (obj_of (vals S) key) = Inr None" using fc(4) by (simp add: S_def obj_of_vals pop_obj_def list_of_def)
    then show ?thesis using run f 2 fc(1-3) by (auto simp: list_pop_alt S_def)
  next
    case 3
    note fc = found_case [OF inv e f [unfolded 3]]
    have i: "db_inv d1 S" and al: "a \<in> links d1" "keyat d1 a = key" using fc(1,4) by (simp_all add: S_def)
    obtain ob where ob: "ks_map S key = Some (ob, deadlines (d_sched d1) a)" "node_rep (node_at d1 a) ob"
      using fc(5) [of a] by (auto simp: S_def)
    have S: "S = a_touch key A" using seen_touched [OF inv e f [unfolded 3]] by (simp add: S_def)
    have po: "pop_obj front (obj_of (vals S) key) = pop_obj front (Some ob)" using ob by (simp add: obj_of_vals)
    show ?thesis
    proof (cases "node_type (node_at d1 a) = NList")
      case False
      then have "pop_obj front (Some ob) = Inl wrong_type" using list_of_node [OF ob(2)] by (simp add: pop_obj_def)
      then show ?thesis using run f 3 False i fc(2,3) po by (auto simp: list_pop_alt S_def)
    next
      case True
      then obtain xs where xs: "ob = OList xs" using ob(2) by (cases ob) auto
      have l: "list_at d1 S a key xs" using list_atI [OF i al] ob xs by simp
      note rep = ob(2) [unfolded xs]
      show ?thesis
      proof (cases "xs = []")
        case e0: True
        then have "pop_obj front (Some ob) = Inr None" by (simp add: xs pop_obj_def list_of_def)
        then show ?thesis using run f 3 True pushed_front [OF rep] e0 i fc(2,3) po by (auto simp: list_pop_alt S_def)
      next
        case ne: False
        let ?v = "if front then hd xs else last xs"
        have pv: "pop_value front (node_at d1 a) = (?v, length (encode_element ?v))" by (rule pop_value [OF rep ne])
        obtain r2 d2 where lg: "db_log e (if front then op_pop_left else op_pop_right) [key] d1 = (r2, d2)" by fastforce
        show ?thesis
        proof (cases r2)
          case (Inl x)
          then have "db_inv d2 S \<and> \<not> replaying d1" using db_log_st [OF db_inv_rep(2) [OF i] lg] db_inv_frame [OF i] by simp
          then show ?thesis using run f 3 True pushed_front [OF rep] ne lg Inl fc(3) by (auto simp: list_pop_alt S_def kept_def)
        next
          case u: (Inr u)
          define m where "m = pop_node front (length (encode_element ?v)) (node_at d1 a)"
          have n2: "node_at d2 a = node_at d1 a" using db_log_fields(1) [OF lg] by (simp add: node_at_def)
          note pt = pop_tail [OF l e S ne lg [unfolded u] m_def refl refl]
          have "list_pop e key front d = (Inr (Inr (Some ?v)), if n_count m = 0 then erase_node e a (bump_sequence (put_node a m d2))
              else if largest_class < list_run_capacity m \<and> list_used m < list_run_capacity m div 4
              then shrink_list e a m (bump_sequence (put_node a m d2)) else bump_sequence (put_node a m d2))"
            using True pushed_front [OF rep] ne
            unfolding list_pop_alt f 3 prod.case sum.case option.case Let_def pv fst_conv snd_conv lg u n2 m_def pop_node_def by simp
          then have rd: "res = Inr (Inr (Some ?v))" "d' = (if n_count m = 0 then erase_node e a (bump_sequence (put_node a m d2))
              else if largest_class < list_run_capacity m \<and> list_used m < list_run_capacity m div 4
              then shrink_list e a m (bump_sequence (put_node a m d2)) else bump_sequence (put_node a m d2))"
            using run by simp_all
          have "pop_obj front (Some ob) = Inr (Some (?v, popped front xs))" using ne by (simp add: xs pop_obj_def list_of_def popped_def)
          then show ?thesis unfolding rd(1) using pt [folded rd(2)] po fc(2,3) by (auto simp: S_def)
        qed
      qed
    qed
  qed
qed

section \<open>Several records at once\<close>

lemma log_okI:
  "d_wal d = Some w \<Longrightarrow> log_inv w (rs @ extra) \<Longrightarrow> \<not> w_failed w \<longrightarrow> extra = [] \<Longrightarrow> v_replay rs Map.empty = Some V \<Longrightarrow> log_ok d V"
  unfolding log_ok_def option.case by simp blast

lemma log_midI:
  "d_wal d = Some w \<Longrightarrow> log_inv w (rs @ mid @ extra) \<Longrightarrow> \<not> w_failed w \<longrightarrow> extra = [] \<Longrightarrow> v_replay rs Map.empty = Some V0
     \<Longrightarrow> v_replay mid V0 = Some V \<Longrightarrow> log_mid d V0 V"
  unfolding log_mid_def option.case by simp blast

lemma log_mid_refl:
  assumes "log_ok d V"
  shows "log_mid d V V"
proof (cases "d_wal d")
  case (Some w)
  then obtain rs extra where "log_inv w (rs @ [] @ extra)" "\<not> w_failed w \<longrightarrow> extra = []" "v_replay rs Map.empty = Some V"
    using assms by (auto simp: log_ok_def)
  then show ?thesis by (rule log_midI [OF Some]) simp
qed (simp add: log_mid_def)

lemma log_mid_ok:
  assumes "log_mid d V0 V"
  shows "log_ok d V"
proof (cases "d_wal d")
  case (Some w)
  then obtain rs mid extra where m: "log_inv w ((rs @ mid) @ extra)" "\<not> w_failed w \<longrightarrow> extra = []"
    "v_replay rs Map.empty = Some V0" "v_replay mid V0 = Some V"
    using assms by (auto simp: log_mid_def)
  show ?thesis by (rule log_okI [OF Some m(1,2)]) (simp add: v_replay_append m(3,4))
qed (simp add: log_ok_def)

lemma log_mid_step:
  assumes st: "replaying d \<or> log_mid d V0 V" and run: "db_log e opr a d = (res, d')"
    and ok: "record_ok (op_code opr, a)" and ap: "v_apply opr a V = Some V'"
  shows "case res of
      Inl x \<Rightarrow> log_ok d' V0 \<and> \<not> replaying d \<and> \<not> is_bad_alloc x
    | Inr _ \<Rightarrow> replaying d' \<or> log_mid d' V0 V'"
proof (cases "d_wal d = None \<or> replaying d")
  case True
  then have "d' = d" "res = Inr ()" using run by (auto simp: db_log_def split: option.splits)
  then show ?thesis using True st by (auto simp: log_mid_def)
next
  case False
  then obtain w w' where w: "d_wal d = Some w" "\<not> replaying d"
    and app: "append (e_io e) (op_code opr) a w = (res, w')" and d': "d' = d\<lparr>d_wal := Some w'\<rparr>"
    using run by (auto simp: db_log_def split: option.splits prod.splits)
  obtain rs mid extra where l: "log_inv w (rs @ mid @ extra)" "\<not> w_failed w \<longrightarrow> extra = []" "v_replay rs Map.empty = Some V0"
    "v_replay mid V0 = Some V"
    using st w by (auto simp: log_mid_def)
  note ai = append_inv [OF l(1) app] and ac = append_cases [OF app]
  show ?thesis
  proof (cases res)
    case (Inl x)
    have f: "w_failed w'" using ac ok Inl by auto
    then have "\<exists>ex. log_inv w' (rs @ ex)" using ai Inl by auto
    then show ?thesis using Inl d' l(3) w f db_log_error [of e opr a d x d'] run by (auto simp: log_ok_def)
  next
    case (Inr u)
    then have "extra = []" and i: "log_inv w' (rs @ (mid @ [(op_code opr, a)]) @ [])" using ai ac l(2) by auto
    moreover have "v_replay (mid @ [(op_code opr, a)]) V0 = Some V'" using l(4) ap by (simp add: v_replay_append)
    ultimately have "log_mid d' V0 V'" using l(3) d' by (intro log_midI [OF _ i]) simp_all
    then show ?thesis using Inr by simp
  qed
qed

lemma db_log_each_st:
  assumes "db_rep P d A" "replaying d \<or> log_mid d V0 V" "\<forall>r \<in> set rs. record_ok (op_code (fst r), snd r)"
    and "v_replay (coded rs) V = Some V'" "db_log_each e rs d = (res, d')"
  shows "db_rep P d' A \<and> d_nodes d' = d_nodes d \<and> d_buckets d' = d_buckets d \<and> d_sched d' = d_sched d \<and> replaying d' = replaying d
     \<and> (case res of Inl x \<Rightarrow> log_ok d' V0 \<and> \<not> replaying d \<and> \<not> is_bad_alloc x | Inr _ \<Rightarrow> replaying d' \<or> log_mid d' V0 V')"
  using assms
proof (induction rs arbitrary: d V)
  case Nil
  then show ?case by (auto simp: coded_def)
next
  case (Cons r rs)
  obtain opr a where r: "r = (opr, a)" by fastforce
  obtain V1 where v1: "v_apply opr a V = Some V1" "v_replay (coded rs) V1 = Some V'"
    using Cons.prems(4) by (auto simp: coded_def r split: option.splits)
  obtain r1 d1 where lg: "db_log e opr a d = (r1, d1)" by fastforce
  note s = log_mid_step [OF Cons.prems(2) lg _ v1(1)] and lf = db_log_fields [OF lg] and lr = db_log_rep [OF Cons.prems(1) lg]
  have ok: "record_ok (op_code opr, a)" using Cons.prems(3) r by simp
  show ?case
  proof (cases r1)
    case (Inl x)
    then show ?thesis using Cons.prems(5) s [OF ok] lf lr lg r by auto
  next
    case (Inr u)
    have "db_log_each e rs d1 = (res, d')" using Cons.prems(5) lg Inr r by simp
    then show ?thesis using Cons.IH [OF lr _ _ v1(2)] s [OF ok] Inr Cons.prems(3) lf by (cases res) auto
  qed
qed

lemma log_batch_st:
  assumes st: "db_st {p} d A V" and e: "env_ok e" and ap: "v_replay (coded rs) V = Some V'"
    and sz: "\<forall>r \<in> set rs. length (encode_payload (op_code (fst r)) (snd r)) + 8 \<le> n \<and> length (snd r) \<le> 255"
    and run: "log_batch e p n rs d = (res, d')"
  shows "case res of
      Inl x \<Rightarrow> db_st {} d' A V \<and> \<not> replaying d
    | Inr _ \<Rightarrow> db_st {p} d' A V' \<and> d_nodes d' = d_nodes d \<and> d_buckets d' = d_buckets d \<and> d_sched d' = d_sched d
        \<and> replaying d' = replaying d"
proof -
  have r: "db_rep {p} d A" and l: "replaying d \<or> log_mid d V V" using st log_mid_refl by (auto simp: db_st_def)
  obtain r1 d1 where rv: "db_reserve_record n d = (r1, d1)" by fastforce
  have d1: "d1 = d"
    using rv by (cases "d_wal d") (auto simp: db_reserve_record_def reserve_record_def split: option.splits if_splits)
  show ?thesis
  proof (cases r1)
    case (Inl x)
    then have "\<not> replaying d" using rv by (auto simp: db_reserve_record_def split: option.splits)
    then show ?thesis using run rv Inl d1 destroy_st [OF st e] by (auto simp: log_batch_def)
  next
    case (Inr u)
    obtain r2 d2 where le: "db_log_each e rs d = (r2, d2)" by fastforce
    have cases: "d_wal d = None \<or> replaying d \<or> n \<le> max_record + 8"
      using rv Inr by (auto simp: db_reserve_record_def reserve_record_def split: option.splits if_splits)
    have rn: "(case r2 of Inl x \<Rightarrow> (Inl x, destroy e p d2) | Inr u \<Rightarrow> (Inr u, d2)) = (res, d')"
      using run rv Inr d1 le by (simp add: log_batch_def)
    show ?thesis
    proof (cases "n \<le> max_record + 8")
      case True
      have ok: "\<forall>r \<in> set rs. record_ok (op_code (fst r), snd r)" using sz True by (auto simp: record_ok_def)
      note s = db_log_each_st [OF r l ok ap le]
      show ?thesis
      proof (cases r2)
        case (Inl x)
        then have "db_st {p} d2 A V" using s by (simp add: db_st_def)
        then show ?thesis using rn Inl s destroy_st [OF _ e] by auto
      next
        case (Inr u)
        then show ?thesis using rn s log_mid_ok by (auto simp: db_st_def)
      qed
    next
      case False
      then have q: "d_wal d = None \<or> replaying d" using cases by simp
      have "db_log_each e rs d = (Inr (), d)" if "d_wal d = None \<or> replaying d" for rs
        using that by (induction rs) (auto simp: db_log_def split: option.splits)
      then have "r2 = Inr ()" "d2 = d" using le q by auto
      then show ?thesis using rn st q by (auto simp: db_st_def log_ok_def)
    qed
  qed
qed

lemma run_bytes_append [simp]: "run_bytes (xs @ ys) = run_bytes xs + run_bytes ys" "run_bytes [] = 0"
  "run_bytes (x # xs) = length (encode_element x) + run_bytes xs"
  by (simp_all add: run_bytes_def)

lemma run_bytes_rev [simp]: "run_bytes (rev xs) = run_bytes xs"
  by (induction xs) auto

lemma run_bytes_texts: "run_bytes (map EString vs) = sum_list (map encoded_size_text vs)"
proof (induction vs)
  case (Cons v vs)
  then show ?case using length_encode_element(1) [of v] by simp
qed simp

lemma run_bytes_pushed_all: "run_bytes (pushed_all vs front xs) = run_bytes xs + sum_list (map encoded_size_text vs)"
  by (simp add: pushed_all_def run_bytes_texts)

lemma encoded_size_ge: "length v \<le> encoded_size_text v"
  using length_encode_element(1) [of v] length_encode_body(1) [of v] encode_element_body [of "EString v"]
  by (simp add: body_size_text_def)

lemma push_bytes_eq:
  assumes "room \<le> value_limit"
  shows "push_bytes vs room =
     (if value_limit < room + sum_list (map encoded_size_text vs) then None else Some (room + sum_list (map encoded_size_text vs)))"
  using assms
proof (induction vs arbitrary: room)
  case (Cons v vs)
  show ?case
  proof (cases "value_limit < length v \<or> value_limit < room + encoded_size_text v")
    case True
    then show ?thesis using encoded_size_ge [of v] by (auto simp: Let_def)
  next
    case False
    then show ?thesis using Cons.IH [of "room + encoded_size_text v"] by (simp add: Let_def add.assoc)
  qed
qed simp

text \<open>Logging the values one by one has the effect of pushing all of them.\<close>

lemma v_replay_push:
  assumes "length key \<le> max_key_length" "list_of (obj_of V key) = Inr xs" "run_bytes xs + sum_list (map encoded_size_text vs) \<le> value_limit"
    "vs \<noteq> []"
  shows "v_replay (coded (map (\<lambda>v. (if front then op_push_left else op_push_right, [key, str ''s'', v])) vs)) V
     = Some (v_put key (OList (pushed_all vs front xs)) V)"
  using assms(2-)
proof (induction vs arbitrary: V xs)
  case (Cons v vs)
  have sz: "elem_size (EString v) True = encoded_size_text v" by (simp add: elem_size_def)
  have rv: "replay_value (str ''s'') v = Some (EString v)" by (simp add: replay_value_def str_def)
  let ?ys = "pushed (EString v) front xs"
  have "push_obj (EString v) front (obj_of V key) = Inr ?ys"
    using Cons.prems(1,2) sz by (simp add: push_obj_def pushed_def)
  then have s: "v_apply (if front then op_push_left else op_push_right) [key, str ''s'', v] V = Some (v_put key (OList ?ys) V)"
    using assms(1) rv by (cases front) (simp_all add: v_apply_def v_push_def)
  have o: "list_of (obj_of (v_put key (OList ?ys) V) key) = Inr ?ys" by (simp add: obj_of_def v_put_def list_of_def)
  have rb: "run_bytes ?ys = run_bytes xs + encoded_size_text v"
    using run_bytes_pushed [of "EString v" front xs] length_encode_element(1) [of v] by simp
  have pa: "pushed_all (v # vs) front xs = pushed_all vs front ?ys" by (simp add: pushed_all_def pushed_def)
  have vp: "v_put key ob (v_put key ob' V) = v_put key ob V" for ob ob' by (simp add: v_put_def has_ttl_def)
  show ?case
  proof (cases "vs = []")
    case True
    then show ?thesis using s pa by (simp add: coded_def pushed_all_def)
  next
    case False
    then show ?thesis using s Cons.IH [OF o] Cons.prems(2) rb pa vp by (simp add: coded_def)
  qed
qed simp

lemma largest_length_le: "v \<in> set vs \<Longrightarrow> length v \<le> largest_length vs"
proof -
  have "m \<le> foldl (\<lambda>m v. max m (length v)) m vs \<and> (\<forall>v \<in> set vs. length v \<le> foldl (\<lambda>m v. max m (length v)) m vs)" for m
  proof (induction vs arbitrary: m)
    case (Cons v vs)
    let ?F = "foldl (\<lambda>m v. max m (length v)) (max m (length v)) vs"
    have "max m (length v) \<le> ?F" "\<forall>v \<in> set vs. length v \<le> ?F" using Cons by blast+
    then show ?case by (simp only: foldl.simps max.bounded_iff list.set) blast
  qed simp
  then show "v \<in> set vs \<Longrightarrow> ?thesis" by (simp add: largest_length_def)
qed

lemma texts_node:
  assumes fr: "fresh_node key NList (8 + room) n" and room: "room = run_bytes (pushed_all vs front xs)" "room \<le> value_limit"
    and old: "old_run = concat (map encode_element xs)" "unat old_count = length xs" "\<forall>x \<in> set xs. element_ok x"
    and m: "m = texts_node vs front old_run old_count room n"
  shows "node_wf m" "node_block_size m = node_block_size n" "has_flag f m = has_flag f n" "key_bytes m = key"
    "node_rep m (OList (pushed_all vs front xs))" "n_count m = of_nat (length (pushed_all vs front xs))"
proof -
  let ?ys = "pushed_all vs front xs"
  have f: "node_wf n" "node_type n = NList" "8 + room \<le> length (body n)" "key_bytes n = key" "length (body n) \<le> max (8 + room) 4096"
    using fr by (simp_all add: fresh_node_def)
  define run where "run = write_at 0 (concat (map encode_element ?ys)) (list_run n)"
  have mp: "map encode_text us = map encode_element (map EString us)" for us by simp
  have out: "(if front then concat (map encode_text (rev vs)) @ old_run else old_run @ concat (map encode_text vs)) = concat (map encode_element ?ys)"
    unfolding mp old(1) by (simp add: pushed_all_def rev_map)
  have oc: "old_count = of_nat (length xs)" by (simp add: old(2) [symmetric])
  have ly: "length ?ys = length xs + length vs" by (simp add: pushed_all_def)
  have cnt: "old_count + of_nat (length vs) = of_nat (length ?ys)" by (simp add: oc ly)
  have w: "w32 room = room" using room(2) by simp
  have ml: "m = list_node run 0 room (of_nat (length ?ys)) n"
    unfolding m texts_node_def Let_def out cnt w list_node_def run_def ..
  have el: "length (concat (map encode_element ?ys)) = room" using room(1) by (simp add: run_bytes_def)
  have lr: "length (list_run n) = length (body n) - 8" by (simp add: list_run_def)
  have rl: "length run = length (list_run n)" using el f(3) lr by (simp add: run_def)
  have b8: "8 \<le> length (body n)" using f(3) by simp
  note ln = list_node [OF f(1) b8 rl, where h = 0 and u = room and c = "of_nat (length ?ys)", folded ml]
  show "node_wf m" "node_block_size m = node_block_size n" "has_flag f m = has_flag f n" "key_bytes m = key"
    using ln f(4) by simp_all
  show "n_count m = of_nat (length ?ys)" by (simp add: ml list_node_def)
  have ok: "\<forall>x \<in> set ?ys. element_ok x"
  proof
    fix x assume x: "x \<in> set ?ys"
    have "length (encode_element x) \<le> value_limit" using element_le_run [OF x] room by linarith
    then show "element_ok x" by (rule element_ok_size(2))
  qed
  have big: "length (body n) \<le> max_list_bytes" using f(5) room(2) by (auto simp: max_list_bytes_def max_value_bytes_def value_limit_def)
  have "length ?ys \<le> value_limit" using length_run [of ?ys] el room(2) by linarith
  then have cu: "unat (of_nat (length ?ys) :: u32) = length ?ys" by simp
  have tk: "take room (drop 0 run) = concat (map encode_element ?ys)"
    using take_write_at_0 [of "concat (map encode_element ?ys)" "list_run n"] el f(3) lr by (simp add: run_def)
  show "node_rep m (OList ?ys)"
    unfolding ml using f(3) lr rl by (intro list_node_rep [OF f(1,2) b8 rl big ok cu room _ tk]) simp
qed

text \<open>The pending pattern for a command that logs several records.\<close>

lemma pending_batch:
  assumes inv: "db_inv d S" and e: "env_ok e" and k: "length key \<le> max_key_length"
    and old: "case old of None \<Rightarrow> ks_map S key = None | Some a \<Rightarrow> a \<in> links d \<and> keyat d a = key"
    and cr: "create_node e key t cap d = (Inr p, d3)"
    and n: "node_wf n" "node_block_size n = node_block_size (node_at d3 p)"
    "key_bytes n = key" "\<not> has_flag flag_has_ttl n" "node_rep n ob" and ok: "obj_ok ob"
    and ap: "v_replay (coded rs) (vals S) = Some (vals (a_store key ob S))"
    and sz: "\<forall>r \<in> set rs. length (encode_payload (op_code (fst r)) (snd r)) + 8 \<le> m \<and> length (snd r) \<le> 255"
    and lg: "log_batch e p m rs (put_node p n d3) = (res, d5)"
  shows "case res of
      Inl x \<Rightarrow> db_inv d5 S \<and> \<not> replaying d
    | Inr _ \<Rightarrow> db_inv (commit_node e old p True d5) (a_store key ob S) \<and> replaying d5 = replaying d \<and> node_at d5 p = n"
proof -
  have c: "db_st {p} d3 S (vals S)" "replaying d3 = replaying d"
    using create_st [OF db_inv_rep(2) [OF inv] e k cr] by simp_all
  note l = log_batch_st [OF fill_st [OF c(1) n(1,2)] e ap sz lg]
  have ks: "ks_ok (a_store key ob S)" by (rule ks_ok_store [OF db_inv_rep(3) [OF inv] k ok])
  have B: "a_store key ob S = a_touch key (a_put key (ob, if True then ttl_of S key else None) S)" by (simp add: a_store_def)
  show ?thesis
  proof (cases res)
    case (Inl x)
    then show ?thesis using l inv c(2) by (simp add: db_inv_def)
  next
    case (Inr u)
    then have s5: "db_st {p} d5 S (vals (a_store key ob S))" "d_nodes d5 = (d_nodes d3)(p \<mapsto> n)" "d_buckets d5 = d_buckets d3"
      "replaying d5 = replaying d3"
      using l by simp_all
    have "node_at d5 p = n" using s5(2) by (simp add: node_at_def)
    then show ?thesis using commit_inv [OF inv e k old cr n(3-5) B ks s5(1-3)] Inr s5(4) c(2) by simp
  qed
qed

lemma texts_records_size:
  assumes "r \<in> set (map (\<lambda>v. (opr, [key, str ''s'', v])) vs)"
  shows "length (encode_payload (op_code (fst r)) (snd r)) + 8 \<le> length key + largest_length vs + 64 \<and> length (snd r) \<le> 255"
  using assms largest_length_le [of _ vs] by (fastforce simp: payload_shape str_def)

lemma push_texts_alt:
  "push_texts e key vs front d =
     (case find_writable e key d of
        (Inl x, d1) \<Rightarrow> (Inl x, d1)
      | (Inr old, d1) \<Rightarrow>
          if (case old of None \<Rightarrow> False | Some a \<Rightarrow> node_type (node_at d1 a) \<noteq> NList) then (Inr (Inl wrong_type), d1)
          else if vs = [] then
            (Inr (Inr (case old of None \<Rightarrow> 0 | Some a \<Rightarrow> ucast (n_count (node_at d1 a)))), d1)
          else
            (case push_bytes vs (case old of None \<Rightarrow> 0 | Some a \<Rightarrow> list_used (node_at d1 a)) of
               None \<Rightarrow> (Inr (Inl request_too_large), d1)
             | Some room \<Rightarrow>
                 (case (if old = None then maybe_rehash e d1 else (Inr (), d1)) of
                    (Inl x, d2) \<Rightarrow> (Inl x, d2)
                  | (Inr _, d2) \<Rightarrow> texts_tail e old key vs front room d2)))"
  unfolding push_texts_def texts_tail_def texts_node_def Let_def ..

lemma texts_tail:
  assumes inv: "db_inv d S" and e: "env_ok e" and k: "length key \<le> max_key_length" and vs: "vs \<noteq> []"
    and old: "case old of None \<Rightarrow> ks_map S key = None
       | Some a \<Rightarrow> a \<in> links d \<and> keyat d a = key \<and> ks_map S key = Some (OList xs, deadlines (d_sched d) a)"
    and xs: "old = None \<Longrightarrow> xs = []" and to: "texts_obj vs front (obj_of (vals S) key) = Inr ys"
    and lo: "list_of (obj_of (vals S) key) = Inr xs"
    and run: "texts_tail e old key vs front (run_bytes ys) d = (res, d')"
  shows "case res of
      Inl x \<Rightarrow> db_inv d' S \<and> (replaying d \<longrightarrow> is_bad_alloc x)
    | Inr r \<Rightarrow> r = Inr (of_nat (length ys)) \<and> db_inv d' (a_store key (OList ys) S) \<and> replaying d' = replaying d"
proof -
  have ys: "ys = pushed_all vs front xs" "run_bytes ys \<le> value_limit"
    using to lo by (auto simp: texts_obj_def split: if_splits)
  have w: "w32 (list_body_bytes + run_bytes ys) = 8 + run_bytes ys"
    using ys(2) w32_small [of "8 + run_bytes ys"] by (simp add: value_limit_def)
  obtain r3 d3 where cr: "create_node e key NList (8 + run_bytes ys) d = (r3, d3)" by fastforce
  note c = create_st [OF db_inv_rep(2) [OF inv] e k cr]
  show ?thesis
  proof (cases r3)
    case (Inl x)
    then show ?thesis using run cr c w db_inv_frame [OF inv] by (auto simp: texts_tail_def)
  next
    case p: (Inr p)
    define old_run where "old_run = (case old of None \<Rightarrow> []
        | Some a \<Rightarrow> take (list_used (node_at d3 a)) (drop (list_head (node_at d3 a)) (list_run (node_at d3 a))))"
    define old_count where "old_count = (case old of None \<Rightarrow> 0 | Some a \<Rightarrow> n_count (node_at d3 a))"
    have o: "old_run = concat (map encode_element xs) \<and> unat old_count = length xs \<and> (\<forall>x \<in> set xs. element_ok x)"
    proof (cases old)
      case None
      then show ?thesis using xs by (simp add: old_run_def old_count_def)
    next
      case (Some a)
      then have "node_rep (node_at d a) (OList xs)" using old linked_val(1) [OF db_inv_rep(1) [OF inv], of a] by simp
      moreover have "node_at d3 a = node_at d a" using c p old Some by simp
      ultimately have "node_rep (node_at d3 a) (OList xs)" by simp
      note lr = list_repD [OF this]
      show ?thesis using Some lr(2,3,8) unfolding old_run_def old_count_def by (simp add: lr(4))
    qed
    have fn: "fresh_node key NList (8 + run_bytes ys) (node_at d3 p)" using c p by simp
    define n where "n = texts_node vs front old_run old_count (run_bytes ys) (node_at d3 p)"
    note tn = texts_node [OF fn arg_cong [OF ys(1), of run_bytes] ys(2) o [THEN conjunct1] o [THEN conjunct2, THEN conjunct1]
        o [THEN conjunct2, THEN conjunct2] n_def, folded ys(1)]
    have fl: "\<not> has_flag flag_has_ttl n" using tn(3) fresh_flag [OF fn] by simp
    have ne: "ys \<noteq> []" using vs by (simp add: ys(1) pushed_all_def)
    then have ok: "obj_ok (OList ys)" using ys(2) by simp
    have "run_bytes xs + sum_list (map encoded_size_text vs) \<le> value_limit" using ys by (simp add: run_bytes_pushed_all)
    from v_replay_push [OF k lo this vs, of front]
    have ap: "v_replay (coded (map (\<lambda>v. (if front then op_push_left else op_push_right, [key, str ''s'', v])) vs)) (vals S)
        = Some (vals (a_store key (OList ys) S))"
      by (simp add: vals_store ys(1))
    obtain r5 d5 where lg: "log_batch e p (length key + largest_length vs + 64)
        (map (\<lambda>v. (if front then op_push_left else op_push_right, [key, str ''s'', v])) vs) (put_node p n d3) = (r5, d5)" by fastforce
    have o': "case old of None \<Rightarrow> ks_map S key = None | Some a \<Rightarrow> a \<in> links d \<and> keyat d a = key" using old by (cases old) simp_all
    have szs: "\<forall>r \<in> set (map (\<lambda>v. (if front then op_push_left else op_push_right, [key, str ''s'', v])) vs).
        length (encode_payload (op_code (fst r)) (snd r)) + 8 \<le> length key + largest_length vs + 64 \<and> length (snd r) \<le> 255"
      using texts_records_size by blast
    note pb = pending_batch [OF inv e k o' cr [unfolded p] tn(1,2,4) fl tn(5) ok ap szs lg]
    have "texts_tail e old key vs front (run_bytes ys) d =
        (case r5 of Inl x \<Rightarrow> (Inl x, d5) | Inr _ \<Rightarrow> (Inr (Inr (ucast (n_count (node_at d5 p)))), commit_node e old p True d5))"
      unfolding texts_tail_def w cr p prod.case sum.case Let_def old_run_def [symmetric] old_count_def [symmetric] n_def [symmetric] lg
      by (cases r5) simp_all
    then have rd: "(res, d') = (case r5 of Inl x \<Rightarrow> (Inl x, d5) | Inr _ \<Rightarrow> (Inr (Inr (ucast (n_count (node_at d5 p)))), commit_node e old p True d5))"
      using run by simp
    have "length ys \<le> value_limit" using length_run [of ys] ys(2) by (simp add: run_bytes_def)
    then have "ucast (n_count n) = (of_nat (length ys) :: int64)"
      using tn(6) by (metis of_nat_unat value_limit_32(1))
    then show ?thesis using rd pb by (cases r5) auto
  qed
qed

lemma of_nat_count:
  assumes "node_rep n (OList xs)"
  shows "(ucast (n_count n) :: int64) = of_nat (length xs)"
  using list_repD(3) [OF assms] by (metis of_nat_unat)

lemma push_texts_spec:
  assumes inv: "db_inv d A" and e: "env_ok e" and run: "push_texts e key vs front d = (res, d')"
  defines "S \<equiv> a_seen e d key A"
  shows "outcome e d key A res d' True (\<lambda>c. texts_obj vs front (obj_of (vals S) key) = Inl c)
     (\<lambda>n B. \<exists>ys. texts_obj vs front (obj_of (vals S) key) = Inr ys \<and> n = of_nat (length ys)
        \<and> B = (if vs = [] then S else a_store key (OList ys) S))"
proof -
  obtain r d1 where f: "find_writable e key d = (r, d1)" by fastforce
  show ?thesis
  proof (cases r)
    case (Inl x)
    then show ?thesis using run f find_failed [OF inv e, of key x d1] by (auto simp: push_texts_alt)
  next
    case (Inr old)
    note fc = found_case [OF inv e f [unfolded Inr]]
    have i: "db_inv d1 S" using fc(1) by (simp add: S_def)
    have al: "a \<in> links d1" "keyat d1 a = key" if "old = Some a" for a using fc(4) that by simp_all
    have new: "ks_map S key = None" if "old = None" using fc(4) that by (simp add: S_def)
    show ?thesis
    proof (cases "case old of None \<Rightarrow> False | Some a \<Rightarrow> node_type (node_at d1 a) \<noteq> NList")
      case True
      then obtain a where a: "old = Some a" "node_type (node_at d1 a) \<noteq> NList" by (cases old) simp_all
      obtain ob where ob: "ks_map S key = Some (ob, deadlines (d_sched d1) a)" "node_rep (node_at d1 a) ob"
        using fc(5) [OF a(1)] by (auto simp: S_def)
      have "texts_obj vs front (obj_of (vals S) key) = Inl wrong_type"
        using list_of_node [OF ob(2)] a(2) by (simp add: texts_obj_def obj_of_vals ob(1))
      then show ?thesis using run f Inr a i fc(2,3) by (auto simp: push_texts_alt S_def)
    next
      case False
      define xs where "xs = (case ks_map S key of Some (OList xs, _) \<Rightarrow> xs | _ \<Rightarrow> [])"
      have at: "ks_map S key = Some (OList xs, deadlines (d_sched d1) a) \<and> node_rep (node_at d1 a) (OList xs)" if o: "old = Some a" for a
      proof -
        obtain ob where ob: "ks_map S key = Some (ob, deadlines (d_sched d1) a)" "node_rep (node_at d1 a) ob"
          using fc(5) [OF o] by (auto simp: S_def)
        moreover have "node_type (node_at d1 a) = NList" using False o by simp
        ultimately show ?thesis by (cases ob) (auto simp: xs_def)
      qed
      have x0: "xs = []" if "old = None" using new [OF that] by (simp add: xs_def)
      have lo: "list_of (obj_of (vals S) key) = Inr xs"
        using at new x0 by (cases old) (auto simp: obj_of_vals list_of_def)
      define used where "used = (case old of None \<Rightarrow> 0 | Some a \<Rightarrow> list_used (node_at d1 a))"
      have used: "used = run_bytes xs" "run_bytes xs \<le> value_limit"
        using at x0 list_repD(4,5) [of "node_at d1 (the old)" xs] by (cases old; simp add: used_def)+
      define cnt :: int64 where "cnt = (case old of None \<Rightarrow> 0 | Some a \<Rightarrow> ucast (n_count (node_at d1 a)))"
      have cnt: "cnt = of_nat (length xs)" using at x0 of_nat_count by (auto simp: cnt_def split: option.splits)
      have P: "push_texts e key vs front d =
          (if vs = [] then (Inr (Inr cnt), d1)
           else case push_bytes vs used of
               None \<Rightarrow> (Inr (Inl request_too_large), d1)
             | Some room \<Rightarrow>
                 (case (if old = None then maybe_rehash e d1 else (Inr (), d1)) of
                    (Inl x, d2) \<Rightarrow> (Inl x, d2)
                  | (Inr _, d2) \<Rightarrow> texts_tail e old key vs front room d2))"
        unfolding push_texts_alt f Inr prod.case sum.case if_not_P [OF False] used_def cnt_def ..
      have to: "texts_obj vs front (obj_of (vals S) key) = (if value_limit < run_bytes xs + sum_list (map encoded_size_text vs)
          then Inl request_too_large else Inr (pushed_all vs front xs))"
        by (simp add: texts_obj_def lo run_bytes_pushed_all)
      have pb: "push_bytes vs used = (if value_limit < run_bytes xs + sum_list (map encoded_size_text vs) then None
          else Some (run_bytes (pushed_all vs front xs)))"
        using push_bytes_eq [of used vs] used by (simp add: run_bytes_pushed_all)
      show ?thesis
      proof (cases "vs = []")
        case True
        then have "texts_obj vs front (obj_of (vals S) key) = Inr xs" using to used(2) by (simp add: pushed_all_def)
        moreover have "res = Inr (Inr cnt)" "d' = d1" using P run True by simp_all
        ultimately show ?thesis using i fc(2,3) cnt True by (auto simp: S_def)
      next
        case ne: False
        show ?thesis
        proof (cases "value_limit < run_bytes xs + sum_list (map encoded_size_text vs)")
          case True
          have "res = Inr (Inl request_too_large)" "d' = d1" using P run ne pb True by simp_all
          then show ?thesis using to True i fc(2,3) by (auto simp: S_def)
        next
          case fit: False
          let ?ys = "pushed_all vs front xs"
          have to': "texts_obj vs front (obj_of (vals S) key) = Inr ?ys" using to fit by simp
          obtain r2 d2 where rh: "(if old = None then maybe_rehash e d1 else (Inr (), d1)) = (r2, d2)" by fastforce
          note h = rehash_if_inv [OF i e rh]
          show ?thesis
          proof (cases r2)
            case x: (Inl x)
            have "res = Inl x" "d' = d2" using P run ne pb fit rh x by simp_all
            then show ?thesis using h(1,2) x by (auto simp: kept_def S_def)
          next
            case u: (Inr u)
            have t: "texts_tail e old key vs front (run_bytes ?ys) d2 = (res, d')" using P run ne pb fit rh u by simp
            have "case old of None \<Rightarrow> ks_map S key = None
               | Some a \<Rightarrow> a \<in> links d2 \<and> keyat d2 a = key \<and> ks_map S key = Some (OList xs, deadlines (d_sched d2) a)"
              using at al new h(3-5) by (cases old) simp_all
            note tt = texts_tail [OF h(1) e fc(2) ne this x0 to' lo t]
            show ?thesis using tt to' ne fc(2,3) h(6) by (cases res) (auto simp: S_def kept_def)
          qed
        qed
      qed
    qed
  qed
qed

end
