(* ===== verification/DatabaseHashes.thy ===== *)
theory DatabaseHashes
  imports DatabaseLists
begin

text \<open>
  The hash commands on packed and promoted hashes keep the invariant of the database and do what
  finite maps do.
\<close>

section \<open>Hashes\<close>

abbreviation pairs_bytes :: "(bytes \<times> element) list \<Rightarrow> bytes" where
  "pairs_bytes ps \<equiv> concat (map pair_bytes ps)"

definition pairs_ok :: "(bytes \<times> element) list \<Rightarrow> bool" where
  "pairs_ok ps \<longleftrightarrow> (\<forall>p \<in> set ps. length (fst p) < 2 ^ 32 \<and> element_ok (snd p))"

definition packed_node :: "bytes \<Rightarrow> nat \<Rightarrow> node \<Rightarrow> node" where
  "packed_node bs cnt n = set_hash_used (length bs) (set_hash_count cnt (n\<lparr>body := write_at 0 bs (body n)\<rparr>))"

text \<open>A command that works on a hash it found.\<close>

definition hash_at :: "db \<Rightarrow> keyspace \<Rightarrow> addr \<Rightarrow> bytes \<Rightarrow> (bytes \<Rightarrow> element option) \<Rightarrow> bool" where
  "hash_at d S a key h \<longleftrightarrow>
     db_inv d S \<and> a \<in> links d \<and> keyat d a = key \<and> ks_map S key = Some (OHash h, deadlines (d_sched d) a)
     \<and> node_rep (node_at d a) (OHash h) \<and> node_wf (node_at d a) \<and> key_bytes (node_at d a) = key
     \<and> length key \<le> max_key_length \<and> obj_ok (OHash h)"

text \<open>The hash an assignment starts from: its pairs, or none for a new key.\<close>

definition packed_old :: "db \<Rightarrow> keyspace \<Rightarrow> bytes \<Rightarrow> addr option \<Rightarrow> (bytes \<times> element) list \<Rightarrow> bool" where
  "packed_old d S key old ps \<longleftrightarrow>
     (case old of
        None \<Rightarrow> ks_map S key = None \<and> ps = []
      | Some a \<Rightarrow> hash_at d S a key (map_of ps) \<and> packed_rep (node_at d a) ps \<and> \<not> has_flag flag_hash_promoted (node_at d a))"

definition packed_assign :: "env \<Rightarrow> addr option \<Rightarrow> bytes \<Rightarrow> bytes \<Rightarrow> element \<Rightarrow> db \<Rightarrow> (exn + int64 result) \<times> db" where
  "packed_assign e old key field v d1 =
     (let found = (case old of None \<Rightarrow> None | Some a \<Rightarrow> hash_find (node_at d1 a) field);
          field_bytes = w32 (body_size_text field);
          value_bytes = w32 (elem_size v False);
          buf = (case old of None \<Rightarrow> [] | Some a \<Rightarrow> body (node_at d1 a));
          old_bytes = (case found of None \<Rightarrow> 0 | Some (element, _) \<Rightarrow> the (element_size (drop element buf)));
          used = (case old of None \<Rightarrow> 0 | Some a \<Rightarrow> hash_used (node_at d1 a));
          needed = w32 (used - old_bytes + value_bytes + (if found = None then field_bytes else 0));
          cnt = (case old of None \<Rightarrow> 0 | Some a \<Rightarrow> hash_count (node_at d1 a)) + (if found = None then 1 else 0);
          res = (if found = None then 1 else 0)
      in case (if old = None then maybe_rehash e d1 else (Inr (), d1)) of
           (Inl x, d2) \<Rightarrow> (Inl x, d2)
         | (Inr _, d2) \<Rightarrow>
             if hash_packed_limit < cnt \<or> hash_packed_byte_limit < needed
             then promote_assign e old key field v cnt res d2
             else if (case old of None \<Rightarrow> True | Some a \<Rightarrow> node_body_capacity (node_at d2 a) < needed) then
               (case create_node e key NHash
                       (grown_capacity needed (case old of None \<Rightarrow> 0 | Some a \<Rightarrow> node_body_capacity (node_at d2 a))) d2 of
                  (Inl x, d3) \<Rightarrow> (Inl x, d3)
                | (Inr p, d3) \<Rightarrow>
                    let n = node_at d3 p;
                        n1 = n\<lparr>body := write_at 0 (assigned_bytes buf used found field v) (body n)\<rparr>
                    in commit_hash e old p (hash_record key field v) res
                         (put_node p (set_hash_used needed (set_hash_count cnt n1)) d3))
             else
               let a = the old
               in (case db_log e op_hash_set (hash_record key field v) d2 of
                     (Inl x, d3) \<Rightarrow> (Inl x, d3)
                   | (Inr _, d3) \<Rightarrow>
                       let n = node_at d3 a;
                           n1 = n\<lparr>body := write_at 0 (assigned_bytes buf used found field v) (body n)\<rparr>
                       in (Inr (Inr res), bump_sequence (put_node a (set_hash_used needed (set_hash_count cnt n1)) d3))))"

fun arg_pairs :: "bytes list \<Rightarrow> (bytes \<times> bytes) list" where
  "arg_pairs (f # v # rest) = (f, v) # arg_pairs rest"
| "arg_pairs _ = []"

definition hfields :: "bytes list \<Rightarrow> (bytes \<Rightarrow> element option) \<Rightarrow> bytes \<Rightarrow> element option" where
  "hfields args h = foldl (\<lambda>h p. h(fst p \<mapsto> EString (snd p))) h (arg_pairs args)"

definition hfields_obj :: "bytes list \<Rightarrow> obj option \<Rightarrow> (bytes \<Rightarrow> element option) result" where
  "hfields_obj args ob =
     (case hash_of ob of
        Inl c \<Rightarrow> Inl c
      | Inr h \<Rightarrow> if \<exists>x \<in> set args. value_limit < length x then Inl request_too_large else Inr (hfields args h))"

text \<open>Texts whose encoding stays within the limit on a value when the text does.\<close>

definition texts_fit :: "bytes list \<Rightarrow> bool" where
  "texts_fit args \<longleftrightarrow> (\<forall>x \<in> set args. length x \<le> value_limit \<longrightarrow> body_size_text x \<le> value_limit)"

lemma pair_bytes_body: "pair_bytes (f, v) = encode_body (EString f) @ encode_body v"
  by (simp add: pair_bytes_def)

lemma read_body:
  assumes "element_ok v"
  shows "decode (drop (length pre) (pre @ encode_body v @ rest)) = Some v"
    "element_size (drop (length pre) (pre @ encode_body v @ rest)) = Some (length (encode_body v))"
  using assms by (simp_all add: decode_encode_body element_size_def header_and_payload_encode)

text \<open>The scan stops at the first pair whose field has the name.\<close>

lemma hash_find_loop:
  assumes "pairs_ok ps"
  shows "case hash_find_loop (pre @ pairs_bytes ps @ rest) (length pre) (length ps) field of
      None \<Rightarrow> field \<notin> fst ` set ps
    | Some (el, st) \<Rightarrow> \<exists>us v vs. ps = us @ (field, v) # vs \<and> field \<notin> fst ` set us
        \<and> el = length (pre @ pairs_bytes us @ encode_body_text field) \<and> st = length (encode_body_text field)"
  using assms
proof (induction ps arbitrary: pre)
  case (Cons p ps)
  obtain f v where p: "p = (f, v)" by (cases p)
  have ok: "element_ok (EString f)" "element_ok v" "pairs_ok ps" using Cons.prems by (auto simp: pairs_ok_def p)
  have b1: "pre @ pairs_bytes (p # ps) @ rest = pre @ encode_body (EString f) @ (encode_body v @ pairs_bytes ps @ rest)"
    and b2: "pre @ pairs_bytes (p # ps) @ rest = (pre @ encode_body (EString f)) @ encode_body v @ (pairs_bytes ps @ rest)"
    and b3: "pre @ pairs_bytes (p # ps) @ rest = (pre @ pair_bytes p) @ pairs_bytes ps @ rest"
    by (simp_all add: p pair_bytes_body)
  note r1 = read_body [OF ok(1), of pre "encode_body v @ pairs_bytes ps @ rest", folded b1]
    and r2 = read_body [OF ok(2), of "pre @ encode_body (EString f)" "pairs_bytes ps @ rest", folded b2]
  have l: "length pre + length (encode_body (EString f)) = length (pre @ encode_body (EString f))"
    "length (pre @ encode_body (EString f)) + length (encode_body v) = length (pre @ pair_bytes p)"
    by (simp_all add: p pair_bytes_body)
  have step: "hash_find_loop (pre @ pairs_bytes (p # ps) @ rest) (length pre) (length (p # ps)) field =
      (if f = field then Some (length (pre @ encode_body (EString f)), length (encode_body (EString f)))
       else hash_find_loop ((pre @ pair_bytes p) @ pairs_bytes ps @ rest) (length (pre @ pair_bytes p)) (length ps) field)"
    unfolding length_Cons hash_find_loop.simps Let_def r1 option.sel l(1) r2(2) l(2) b3 [symmetric] by simp
  show ?case
  proof (cases "f = field")
    case True
    then show ?thesis unfolding step by (auto intro!: exI [of _ "[]"] simp: p)
  next
    case False
    note IH = Cons.IH [OF ok(3), of "pre @ pair_bytes p"]
    show ?thesis
    proof (cases "hash_find_loop ((pre @ pair_bytes p) @ pairs_bytes ps @ rest) (length (pre @ pair_bytes p)) (length ps) field")
      case None
      then show ?thesis using IH False unfolding step by (auto simp: p)
    next
      case (Some r)
      obtain el st where r: "r = (el, st)" by (cases r)
      obtain us w vs where u: "ps = us @ (field, w) # vs" "field \<notin> fst ` set us"
        "el = length ((pre @ pair_bytes p) @ pairs_bytes us @ encode_body_text field)" "st = length (encode_body_text field)"
        using IH unfolding Some r by auto
      have "\<exists>us v vs. p # ps = us @ (field, v) # vs \<and> field \<notin> fst ` set us
          \<and> el = length (pre @ pairs_bytes us @ encode_body_text field) \<and> st = length (encode_body_text field)"
        using u False by (intro exI [of _ "p # us"] exI [of _ w] exI [of _ vs]) (auto simp: p)
      then show ?thesis using False unfolding step by (simp add: Some [simplified] r)
    qed
  qed
qed simp

lemma unpack_pairs:
  assumes "pairs_ok ps"
  shows "unpack_pairs (pre @ pairs_bytes ps @ rest) (length pre) (length ps) = ps"
  using assms
proof (induction ps arbitrary: pre)
  case (Cons p ps)
  obtain f v where p: "p = (f, v)" by (cases p)
  have ok: "element_ok (EString f)" "element_ok v" "pairs_ok ps" using Cons.prems by (auto simp: pairs_ok_def p)
  have b1: "pre @ pairs_bytes (p # ps) @ rest = pre @ encode_body (EString f) @ (encode_body v @ pairs_bytes ps @ rest)"
    and b2: "pre @ pairs_bytes (p # ps) @ rest = (pre @ encode_body (EString f)) @ encode_body v @ (pairs_bytes ps @ rest)"
    and b3: "pre @ pairs_bytes (p # ps) @ rest = (pre @ pair_bytes p) @ pairs_bytes ps @ rest"
    by (simp_all add: p pair_bytes_body)
  note r1 = read_body [OF ok(1), of pre "encode_body v @ pairs_bytes ps @ rest", folded b1]
    and r2 = read_body [OF ok(2), of "pre @ encode_body (EString f)" "pairs_bytes ps @ rest", folded b2]
  have l: "length pre + length (encode_body (EString f)) = length (pre @ encode_body (EString f))"
    "length (pre @ encode_body (EString f)) + length (encode_body v) = length (pre @ pair_bytes p)"
    by (simp_all add: p pair_bytes_body)
  show ?case
    unfolding length_Cons unpack_pairs.simps Let_def r1 option.sel l(1) r2 l(2) element.case
    unfolding b3 Cons.IH [OF ok(3)] by (simp add: p)
qed simp

lemma table_of_pairs:
  assumes "distinct (map fst ps)"
  shows "table_of_pairs ps = ps"
proof -
  have upd: "AList.update k v t = t @ [(k, v)]" if "k \<notin> fst ` set t" for k :: bytes and v :: element and t
    using that by (induction t) auto
  have "foldl (\<lambda>t p. if map_of t (fst p) = None then AList.update (fst p) (snd p) t else t) t ps = t @ ps"
    if "distinct (map fst (t @ ps))" for t
    using that assms
  proof (induction ps arbitrary: t)
    case (Cons p ps)
    have "fst p \<notin> fst ` set t" using Cons.prems(1) by (auto simp: image_iff)
    then show ?case using Cons.IH [of "t @ [p]"] Cons.prems upd [of "fst p" t "snd p"] by (simp add: map_of_eq_None_iff)
  qed simp
  from this [of "[]"] show ?thesis using assms by (simp add: table_of_pairs_def)
qed

lemma alist_update_new: "k \<notin> fst ` set t \<Longrightarrow> AList.update k v t = t @ [(k, v)]"
  by (induction t) auto

lemma alist_update_old: "k \<notin> fst ` set us \<Longrightarrow> AList.update k v (us @ (k, w) # vs) = us @ (k, v) # vs"
  by (induction us) auto

lemma pairs_ok_simps [simp]:
  "pairs_ok []" "pairs_ok (p # ps) \<longleftrightarrow> length (fst p) < 2 ^ 32 \<and> element_ok (snd p) \<and> pairs_ok ps"
  "pairs_ok (ps @ qs) \<longleftrightarrow> pairs_ok ps \<and> pairs_ok qs"
  by (auto simp: pairs_ok_def)

lemma pairs_ok_update:
  assumes "pairs_ok ps" "length f < 2 ^ 32" "element_ok v"
  shows "pairs_ok (AList.update f v ps)"
  using assms by (induction ps) auto

text \<open>What a scan finds, and the bytes an assignment makes of a packed run of pairs.\<close>

lemma assigned:
  assumes ok: "pairs_ok ps" and buf: "buf = pairs_bytes ps @ rest" and fd: "found = hash_find_loop buf 0 (length ps) field"
  shows "found = None \<longleftrightarrow> map_of ps field = None"
    and "assigned_bytes buf (length (pairs_bytes ps)) found field v = pairs_bytes (AList.update field v ps)"
    and "length (pairs_bytes (AList.update field v ps)) =
       length (pairs_bytes ps) - (case found of None \<Rightarrow> 0 | Some (el, _) \<Rightarrow> the (element_size (drop el buf)))
       + length (encode_body v) + (if found = None then length (encode_body_text field) else 0)"
    and "length (AList.update field v ps) = length ps + (if found = None then 1 else 0)"
    and "found = Some (el, st) \<Longrightarrow> \<exists>us w vs. ps = us @ (field, w) # vs \<and> field \<notin> fst ` set us
       \<and> st = length (encode_body_text field) \<and> el = length (pairs_bytes us) + st
       \<and> decode (drop el buf) = Some w \<and> element_size (drop el buf) = Some (length (encode_body w))"
proof -
  note h = hash_find_loop [OF ok, where pre = "[]" and rest = rest and field = field, unfolded append_Nil list.size, folded buf fd]
  have F: "\<exists>us w vs. ps = us @ (field, w) # vs \<and> field \<notin> fst ` set us
       \<and> st = length (encode_body_text field) \<and> el = length (pairs_bytes us) + st
       \<and> decode (drop el buf) = Some w \<and> element_size (drop el buf) = Some (length (encode_body w))"
    if f: "found = Some (el, st)" for el st
  proof -
    obtain us w vs where u: "ps = us @ (field, w) # vs" "field \<notin> fst ` set us"
      "el = length (pairs_bytes us @ encode_body_text field)" "st = length (encode_body_text field)"
      using h f by auto
    have w: "element_ok w" using ok u(1) by simp
    have "buf = (pairs_bytes us @ encode_body_text field) @ encode_body w @ (pairs_bytes vs @ rest)"
      by (simp add: buf u(1) pair_bytes_body)
    from read_body [OF w, where pre = "pairs_bytes us @ encode_body_text field" and rest = "pairs_bytes vs @ rest", folded this u(3)]
    show ?thesis using u by (intro exI [of _ us] exI [of _ w] exI [of _ vs]) simp
  qed
  then show "found = Some (el, st) \<Longrightarrow> \<exists>us w vs. ps = us @ (field, w) # vs \<and> field \<notin> fst ` set us
       \<and> st = length (encode_body_text field) \<and> el = length (pairs_bytes us) + st
       \<and> decode (drop el buf) = Some w \<and> element_size (drop el buf) = Some (length (encode_body w))" .
  let ?old = "case found of None \<Rightarrow> 0 | Some (el, _) \<Rightarrow> the (element_size (drop el buf))"
  have "(found = None \<longleftrightarrow> map_of ps field = None)
    \<and> assigned_bytes buf (length (pairs_bytes ps)) found field v = pairs_bytes (AList.update field v ps)
    \<and> length (pairs_bytes (AList.update field v ps)) = length (pairs_bytes ps) - ?old
        + length (encode_body v) + (if found = None then length (encode_body_text field) else 0)
    \<and> length (AList.update field v ps) = length ps + (if found = None then 1 else 0)"
  proof (cases found)
    case None
    then have "field \<notin> fst ` set ps" using h by simp
    note up = alist_update_new [OF this]
    show ?thesis using None \<open>field \<notin> fst ` set ps\<close> unfolding up by (simp add: map_of_eq_None_iff assigned_bytes_def buf pair_bytes_body)
  next
    case (Some r)
    obtain el st where r: "r = (el, st)" by (cases r)
    obtain us w vs where u: "ps = us @ (field, w) # vs" "field \<notin> fst ` set us" "st = length (encode_body_text field)"
      "el = length (pairs_bytes us) + st" "element_size (drop el buf) = Some (length (encode_body w))"
      using F Some r by blast
    have b: "buf = pairs_bytes us @ encode_body_text field @ encode_body w @ pairs_bytes vs @ rest" by (simp add: buf u(1) pair_bytes_body)
    have up: "AList.update field v ps = us @ (field, v) # vs" unfolding u(1) by (rule alist_update_old [OF u(2)])
    have t: "take el buf = pairs_bytes us @ encode_body_text field"
      "drop (el + length (encode_body w)) buf = pairs_bytes vs @ rest"
      unfolding u(3,4) b by simp_all
    have s: "length (pairs_bytes ps) - el - length (encode_body w) = length (pairs_bytes vs)"
      "length (pairs_bytes ps) - length (encode_body w) = el + length (pairs_bytes vs)"
      by (simp_all add: u(1,3,4) pair_bytes_body)
    have "map_of ps field \<noteq> None" using u(1) by (simp add: map_of_eq_None_iff)
    then show ?thesis
      unfolding Some r up by (simp add: assigned_bytes_def u(5) t s) (simp add: pair_bytes_body u(1,3,4))
  qed
  then show "found = None \<longleftrightarrow> map_of ps field = None"
    "assigned_bytes buf (length (pairs_bytes ps)) found field v = pairs_bytes (AList.update field v ps)"
    "length (pairs_bytes (AList.update field v ps)) = length (pairs_bytes ps) - ?old
        + length (encode_body v) + (if found = None then length (encode_body_text field) else 0)"
    "length (AList.update field v ps) = length ps + (if found = None then 1 else 0)" by simp_all
qed

text \<open>A packed hash node and the pairs it holds.\<close>

lemma packed_repD:
  assumes "packed_rep n ps"
  shows "distinct (map fst ps)" "pairs_ok ps" "hash_count n = length ps" "hash_used n = length (pairs_bytes ps)"
    "length ps \<le> 128" "length (pairs_bytes ps) \<le> 4096" "length (pairs_bytes ps) \<le> length (body n)"
    "body n = pairs_bytes ps @ drop (length (pairs_bytes ps)) (body n)"
proof -
  show "distinct (map fst ps)" "pairs_ok ps" "hash_count n = length ps" "hash_used n = length (pairs_bytes ps)"
    "length ps \<le> 128" "length (pairs_bytes ps) \<le> 4096" "length (pairs_bytes ps) \<le> length (body n)"
    using assms by (auto simp: packed_rep_def pairs_ok_def hash_packed_limit_def hash_packed_byte_limit_def)
  show "body n = pairs_bytes ps @ drop (length (pairs_bytes ps)) (body n)"
    using assms append_take_drop_id [of "hash_used n" "body n"] unfolding packed_rep_def by metis
qed

lemma packed_find:
  assumes "packed_rep n ps"
  shows "hash_find n field = hash_find_loop (body n) 0 (length ps) field"
    "unpack_pairs (body n) 0 (hash_count n) = ps"
proof -
  note p = packed_repD [OF assms]
  show "hash_find n field = hash_find_loop (body n) 0 (length ps) field" by (simp add: hash_find_def p(3))
  show "unpack_pairs (body n) 0 (hash_count n) = ps"
    using unpack_pairs [OF p(2), of "[]" "drop (length (pairs_bytes ps)) (body n)"] p(8) by (simp add: p(3))
qed

lemma small_field: "k < 2 ^ 16 \<Longrightarrow> unat ((of_nat k :: u32) AND 0xFFFF) = k"
proof -
  assume k: "k < 2 ^ 16"
  have "(of_nat k :: u32) AND 0xFFFF = take_bit 16 (of_nat k)" by (simp add: take_bit_eq_mask mask_eq_exp_minus_1)
  also have "\<dots> = of_nat k" using k by (simp add: of_nat_take_bit [symmetric] take_bit_nat_eq_self del: of_nat_take_bit)
  finally show ?thesis using k by (simp add: unat_of_nat)
qed

lemma packed_node:
  assumes n: "node_wf n" "node_type n = NHash" "\<not> has_flag flag_hash_promoted n" and len: "length (pairs_bytes ps) \<le> length (body n)"
    and ps: "distinct (map fst ps)" "pairs_ok ps" "length ps \<le> 128" "length (pairs_bytes ps) \<le> 4096"
  shows "node_wf (packed_node (pairs_bytes ps) (length ps) n)"
    "node_block_size (packed_node (pairs_bytes ps) (length ps) n) = node_block_size n"
    "has_flag f (packed_node (pairs_bytes ps) (length ps) n) = has_flag f n"
    "key_bytes (packed_node (pairs_bytes ps) (length ps) n) = key_bytes n"
    "node_rep (packed_node (pairs_bytes ps) (length ps) n) (OHash (map_of ps))"
proof -
  let ?m = "packed_node (pairs_bytes ps) (length ps) n"
  have b: "length (body ?m) = length (body n)" "take (length (pairs_bytes ps)) (body ?m) = pairs_bytes ps"
    using len take_write_at_0 [of "pairs_bytes ps" "body n"]
    by (simp_all add: packed_node_def set_hash_used_def set_hash_count_def)
  have c: "key_meta ?m = key_meta n" "exact_size ?m = exact_size n" "key_bytes ?m = key_bytes n"
    by (simp_all add: packed_node_def set_hash_used_def set_hash_count_def)
  have h: "hash_count ?m = length ps" "hash_used ?m = length (pairs_bytes ps)"
    using ps(3,4) small_field [of "length ps"] small_field [of "length (pairs_bytes ps)"]
    by (simp_all add: packed_node_def hash_count_def hash_used_def set_hash_used_def set_hash_count_def meta_simps)
  note nc = node_cong [OF c b(1)]
  show "node_wf ?m" "node_block_size ?m = node_block_size n" "has_flag f ?m = has_flag f n" "key_bytes ?m = key_bytes n"
    using nc c n by simp_all
  have "packed_rep ?m ps" unfolding packed_rep_def h using b ps len
    by (simp add: pairs_ok_def hash_packed_limit_def hash_packed_byte_limit_def)
  then show "node_rep ?m (OHash (map_of ps))" using nc n by auto
qed

lemma std_alloc_inv:
  assumes "db_inv d S" "env_ok e" "std_alloc e k d = (r, d1)"
  shows "db_inv d1 S" "r = Inl x \<Longrightarrow> is_bad_alloc x" "d_nodes d1 = d_nodes d" "d_buckets d1 = d_buckets d" "d_sched d1 = d_sched d"
    "replaying d1 = replaying d" "node_at d1 a = node_at d a"
proof -
  have f: "d_nodes d1 = d_nodes d" "d_buckets d1 = d_buckets d" "d_sched d1 = d_sched d" "replaying d1 = replaying d" "d_wal d1 = d_wal d"
    using assms(3) by (auto simp: std_alloc_def split: prod.splits)
  show "r = Inl x \<Longrightarrow> is_bad_alloc x" using assms(2,3) by (auto simp: env_ok_def std_alloc_def split: prod.splits) (metis fst_conv)
  have "db_rep {} d1 S" using std_rep(1) [OF db_inv_rep(1) [OF assms(1)] assms(2,3)] ..
  then show "db_inv d1 S" using db_st_frame [OF db_inv_rep(2) [OF assms(1)] _ f(5,4)] db_inv_rep(3) [OF assms(1)] by (simp add: db_inv_def)
  show "d_nodes d1 = d_nodes d" "d_buckets d1 = d_buckets d" "d_sched d1 = d_sched d"
    "replaying d1 = replaying d" "node_at d1 a = node_at d a" using f by (simp_all add: node_at_def)
qed

lemma std_free_inv:
  assumes "db_inv d S" "env_ok e"
  shows "db_inv (std_free e k d) S"
  using std_rep(2) [OF db_inv_rep(1) [OF assms(1)] assms(2)] db_st_frame [OF db_inv_rep(2) [OF assms(1)]] db_inv_rep(3) [OF assms(1)]
  by (simp add: db_inv_def)

lemma std_free_node [simp]: "node_at (std_free e k d) a = node_at d a" "d_nodes (std_free e k d) = d_nodes d"
  "d_buckets (std_free e k d) = d_buckets d" "d_sched (std_free e k d) = d_sched d"
  by (simp_all add: std_free_def node_at_def)

lemma v_apply_hset:
  assumes "length key \<le> max_key_length" "hset_obj field v (obj_of (vals S) key) = Inr h"
  shows "v_apply op_hash_set (hash_record key field v) (vals S) = Some (vals (a_store key (OHash h) S))"
proof -
  obtain tag body where l: "log_value v = [tag, body]" by (cases v) (auto simp: log_value_def)
  then show ?thesis
    using assms by (simp add: v_apply_def hash_record_def replay_log_value(1) [OF l] vals_store)
qed

lemma promoted_node:
  assumes n: "node_wf n" "node_type n = NHash" "has_flag flag_hash_promoted n" and t: "distinct (map fst t)" "pairs_ok t"
  shows "node_wf (n\<lparr>hash_table := t, n_count := c\<rparr>)" "node_block_size (n\<lparr>hash_table := t, n_count := c\<rparr>) = node_block_size n"
    "has_flag f (n\<lparr>hash_table := t, n_count := c\<rparr>) = has_flag f n" "key_bytes (n\<lparr>hash_table := t, n_count := c\<rparr>) = key_bytes n"
    "node_rep (n\<lparr>hash_table := t, n_count := c\<rparr>) (OHash (map_of t))"
proof -
  let ?m = "n\<lparr>hash_table := t, n_count := c\<rparr>"
  have c: "key_meta ?m = key_meta n" "exact_size ?m = exact_size n" "key_bytes ?m = key_bytes n" "length (body ?m) = length (body n)" by simp_all
  note nc = node_cong [OF c]
  show "node_wf ?m" "node_block_size ?m = node_block_size n" "has_flag f ?m = has_flag f n" "key_bytes ?m = key_bytes n"
    using nc c n by simp_all
  show "node_rep ?m (OHash (map_of t))" using nc n t by (auto simp: promoted_rep_def pairs_ok_def)
qed

lemma hash_limit:
  assumes "length field \<le> value_limit" "elem_size v False \<le> value_limit"
  shows "length field < 2 ^ 32" "element_ok v"
  using assms element_ok_size(1) [of v] by (simp_all add: element_sizes) (simp add: value_limit_def)

lemma hash_ok_update:
  assumes "obj_ok (OHash h) \<or> h = Map.empty" "length field \<le> value_limit" "elem_size v False \<le> value_limit"
  shows "obj_ok (OHash (h(field \<mapsto> v)))"
  using assms by auto

lemma hset_obj_hash:
  "length field \<le> value_limit \<Longrightarrow> elem_size v False \<le> value_limit \<Longrightarrow> hset_obj field v (Some (OHash h)) = Inr (h(field \<mapsto> v))"
  "length field \<le> value_limit \<Longrightarrow> elem_size v False \<le> value_limit \<Longrightarrow> hset_obj field v None = Inr [field \<mapsto> v]"
  by (simp_all add: hset_obj_def hash_of_def)

lemma hash_atI:
  assumes "db_inv d S" "a \<in> links d" "keyat d a = key" "ks_map S key = Some (OHash h, deadlines (d_sched d) a)"
  shows "hash_at d S a key h"
proof -
  have "node_rep (node_at d a) (OHash h)"
    using linked_val(1) [OF db_inv_rep(1) [OF assms(1)] assms(2)] assms(3,4) by simp
  moreover have "node_wf (node_at d a)" "key_bytes (node_at d a) = key"
    using linked_node [OF db_inv_rep(1) [OF assms(1)] assms(2)] assms(3) by simp_all
  moreover have "length key \<le> max_key_length" "obj_ok (OHash h)"
    using db_inv_rep(3) [OF assms(1)] assms(4) unfolding ks_ok_def by blast+
  ultimately show ?thesis using assms by (simp add: hash_at_def)
qed

lemma hash_at_frame:
  assumes "hash_at d S a key h" "db_inv d1 S" "d_nodes d1 = d_nodes d" "d_buckets d1 = d_buckets d" "d_sched d1 = d_sched d"
  shows "hash_at d1 S a key h"
  using assms by (intro hash_atI) (simp_all add: hash_at_def)

text \<open>Logging an assignment and writing it into the node it was found in.\<close>

lemma hset_in_place:
  assumes h: "hash_at d S a key h" and S: "S = a_touch key A0"
    and fit: "length field \<le> value_limit" "elem_size v False \<le> value_limit"
    and n: "node_wf n" "key_bytes n = key" "node_block_size n = node_block_size (node_at d a)"
      "has_flag flag_has_ttl n = has_flag flag_has_ttl (node_at d a)" "node_rep n (OHash (h(field \<mapsto> v)))"
    and lg: "db_log e op_hash_set (hash_record key field v) d = (res, d2)"
  shows "case res of
      Inl x \<Rightarrow> db_inv d2 S \<and> \<not> replaying d
    | Inr _ \<Rightarrow> db_inv (put_node a n d2) (a_store key (OHash (h(field \<mapsto> v))) S) \<and> replaying d2 = replaying d \<and> node_at d2 a = node_at d a"
proof -
  note h' = h [unfolded hash_at_def]
  have "hset_obj field v (obj_of (vals S) key) = Inr (h(field \<mapsto> v))" using h' fit by (simp add: obj_of_vals hset_obj_hash)
  note ap = v_apply_hset [OF _ this]
  have ok: "obj_ok (OHash (h(field \<mapsto> v)))" using hash_ok_update [OF _ fit] h' by blast
  show ?thesis
    by (rule log_in_place [OF _ lg, where ob = "OHash h" and key = key]) (use h' S n ap ok in simp_all)
qed

lemma promoted_assign:
  assumes h: "hash_at d S a key h" and e: "env_ok e" and S: "S = a_touch key A0" and pr: "has_flag flag_hash_promoted (node_at d a)"
    and fit: "length field \<le> value_limit" "elem_size v False \<le> value_limit"
    and run: "promoted_assign e a key field v d = (res, d')"
  shows "case res of
      Inl x \<Rightarrow> db_inv d' S \<and> (replaying d \<longrightarrow> is_bad_alloc x)
    | Inr r \<Rightarrow> r = Inr (if h field = None then 1 else 0) \<and> db_inv d' (a_store key (OHash (h(field \<mapsto> v))) S) \<and> replaying d' = replaying d"
proof -
  let ?n = "node_at d a"
  have inv: "db_inv d S" and nr: "node_rep ?n (OHash h)" and wf: "node_wf ?n" "key_bytes ?n = key" using h by (simp_all add: hash_at_def)
  have t: "map_of (hash_table ?n) = h" "distinct (map fst (hash_table ?n))" "pairs_ok (hash_table ?n)" "node_type ?n = NHash"
    using nr pr by (auto simp: promoted_rep_def pairs_ok_def)
  let ?t = "AList.update field v (hash_table ?n)"
  have t': "distinct (map fst ?t)" "pairs_ok ?t" "map_of ?t = h(field \<mapsto> v)"
    using t hash_limit [OF fit] distinct_update pairs_ok_update by (auto simp: update_conv')
  note pn = promoted_node [OF wf(1) t(4) pr t'(1,2), unfolded t'(3)]
  obtain r1 d1 where s1: "std_alloc e 2 d = (r1, d1)" by fastforce
  note a1 = std_alloc_inv [OF inv e s1]
  show ?thesis
  proof (cases r1)
    case (Inl x)
    then show ?thesis using run s1 a1(1,2) by (auto simp: promoted_assign_def)
  next
    case u1: (Inr u1)
    have h1: "hash_at d1 S a key h" using hash_at_frame [OF h a1(1,3-5)] .
    show ?thesis
    proof (cases "h field = None")
      case False
      obtain r2 d2 where lg: "db_log e op_hash_set (hash_record key field v) d1 = (r2, d2)" by fastforce
      note l = hset_in_place [OF h1 S fit _ _ _ _ _ lg, of "?n\<lparr>hash_table := ?t, n_count := n_count ?n\<rparr>", unfolded a1(7), OF pn(1) _ pn(2,3,5)]
      have r: "promoted_assign e a key field v d = (case r2 of Inl x \<Rightarrow> (Inl x, std_free e 5 d2)
          | Inr _ \<Rightarrow> (Inr (Inr 0), bump_sequence (std_free e 6 (put_node a ((node_at d2 a)\<lparr>hash_table := AList.update field v (hash_table (node_at d2 a))\<rparr>) d2))))"
        using False t(1) by (simp add: promoted_assign_def s1 u1 lg a1(7) Let_def split: sum.splits)
      have eq: "?n\<lparr>hash_table := ?t, n_count := n_count ?n\<rparr> = ?n\<lparr>hash_table := ?t\<rparr>" by simp
      show ?thesis using l wf(2) False std_free_inv [OF _ e] run a1(6) unfolding r eq by (cases r2) auto
    next
      case True
      obtain r2 d2 where s2: "std_alloc e 3 d1 = (r2, d2)" by fastforce
      note a2 = std_alloc_inv [OF a1(1) e s2]
      show ?thesis
      proof (cases r2)
        case (Inl x)
        then show ?thesis using run s1 u1 s2 a2(1,2) True t(1) std_free_inv [OF _ e] by (auto simp: promoted_assign_def a1(7))
      next
        case u2: (Inr u2)
        have h2: "hash_at d2 S a key h" using hash_at_frame [OF h1 a2(1,3-5)] .
        obtain r3 d3 where lg: "db_log e op_hash_set (hash_record key field v) d2 = (r3, d3)" by fastforce
        note l = hset_in_place [OF h2 S fit _ _ _ _ _ lg, of "?n\<lparr>hash_table := ?t, n_count := of_nat (length ?t)\<rparr>", unfolded a2(7) a1(7), OF pn(1) _ pn(2,3,5)]
        have r: "promoted_assign e a key field v d = (case r3 of Inl x \<Rightarrow> (Inl x, std_free e 7 d3)
            | Inr _ \<Rightarrow> (Inr (Inr 1), bump_sequence (put_node a ((node_at d3 a)\<lparr>hash_table := AList.update field v (hash_table (node_at d3 a)),
                 n_count := of_nat (length (AList.update field v (hash_table (node_at d3 a))))\<rparr>) d3)))"
          using True t(1) by (simp add: promoted_assign_def s1 u1 s2 u2 lg a1(7) Let_def split: sum.splits)
        show ?thesis using l wf(2) True std_free_inv [OF _ e] run a1(6) a2(6) unfolding r by (cases r3) auto
      qed
    qed
  qed
qed

lemma hash_commit:
  assumes inv: "db_inv d S" and e: "env_ok e" and k: "length key \<le> max_key_length"
    and old: "case old of None \<Rightarrow> ks_map S key = None | Some a \<Rightarrow> a \<in> links d \<and> keyat d a = key"
    and cr: "create_node e key NHash cap d = (Inr p, d3)"
    and n: "node_wf n" "node_block_size n = node_block_size (node_at d3 p)"
    "key_bytes n = key" "\<not> has_flag flag_has_ttl n" "node_rep n (OHash h)" and ok: "obj_ok (OHash h)"
    and hs: "hset_obj field v (obj_of (vals S) key) = Inr h"
    and run: "commit_hash e old p (hash_record key field v) r (put_node p n d3) = (res, d')"
  shows "case res of
      Inl x \<Rightarrow> db_inv d' S \<and> \<not> replaying d
    | Inr q \<Rightarrow> q = Inr r \<and> db_inv d' (a_store key (OHash h) S) \<and> replaying d' = replaying d"
proof -
  obtain r5 d5 where lg: "log_pending e p op_hash_set (hash_record key field v) (put_node p n d3) = (r5, d5)" by fastforce
  have B: "a_store key (OHash h) S = a_touch key (a_put key (OHash h, if True then ttl_of S key else None) S)" by (simp add: a_store_def)
  note pc = pending_commit [OF inv e k old cr n B ks_ok_store [OF db_inv_rep(3) [OF inv] k ok] v_apply_hset [OF k hs] lg]
  show ?thesis using pc run by (cases r5) (auto simp: commit_hash_def lg)
qed

lemma promoted_flags [simp]:
  "has_flag flag_hash_promoted (set_flags flag_hash_promoted n)" "\<not> has_flag flag_has_ttl (set_flags flag_hash_promoted n)"
  by (simp_all add: has_flag_def flag_hash_promoted_def flag_has_ttl_def set_flags_def node_flags_def meta_simps)

lemma packed_old:
  assumes "packed_old d S key old ps"
  shows "case old of None \<Rightarrow> ks_map S key = None | Some a \<Rightarrow> a \<in> links d \<and> keyat d a = key"
    "obj_of (vals S) key = (case old of None \<Rightarrow> None | Some _ \<Rightarrow> Some (OHash (map_of ps)))"
    "obj_ok (OHash (map_of ps)) \<or> map_of ps = Map.empty" "distinct (map fst ps)" "pairs_ok ps"
  using assms packed_repD(1,2) by (auto simp: packed_old_def hash_at_def obj_of_vals split: option.splits)

lemma packed_old_hset:
  assumes "packed_old d S key old ps" "length field \<le> value_limit" "elem_size v False \<le> value_limit"
  shows "hset_obj field v (obj_of (vals S) key) = Inr ((map_of ps)(field \<mapsto> v))"
    "obj_ok (OHash ((map_of ps)(field \<mapsto> v)))"
    "distinct (map fst (AList.update field v ps))" "pairs_ok (AList.update field v ps)"
    "map_of (AList.update field v ps) = (map_of ps)(field \<mapsto> v)"
proof -
  note p = packed_old [OF assms(1)]
  have "ps = []" if "old = None" using assms(1) that by (simp add: packed_old_def)
  then show "hset_obj field v (obj_of (vals S) key) = Inr ((map_of ps)(field \<mapsto> v))"
    using p(2) assms(2,3) by (cases old) (simp_all add: hset_obj_hash)
  show "obj_ok (OHash ((map_of ps)(field \<mapsto> v)))" by (rule hash_ok_update [OF p(3) assms(2,3)])
  show "distinct (map fst (AList.update field v ps))" using p(4) by (rule distinct_update)
  show "pairs_ok (AList.update field v ps)" by (rule pairs_ok_update [OF p(5) hash_limit [OF assms(2,3)]])
  show "map_of (AList.update field v ps) = (map_of ps)(field \<mapsto> v)" by (simp add: update_conv')
qed

lemma promote_assign:
  assumes inv: "db_inv d S" and e: "env_ok e" and k: "length key \<le> max_key_length" and old: "packed_old d S key old ps"
    and fit: "length field \<le> value_limit" "elem_size v False \<le> value_limit"
    and run: "promote_assign e old key field v cnt r d = (res, d')"
  shows "case res of
      Inl x \<Rightarrow> db_inv d' S \<and> (replaying d \<longrightarrow> is_bad_alloc x)
    | Inr q \<Rightarrow> q = Inr r \<and> db_inv d' (a_store key (OHash ((map_of ps)(field \<mapsto> v))) S) \<and> replaying d' = replaying d"
proof -
  obtain r1 d1 where s1: "std_alloc e 2 d = (r1, d1)" by fastforce
  note a1 = std_alloc_inv [OF inv e s1]
  show ?thesis
  proof (cases r1)
    case (Inl x)
    then show ?thesis using run s1 a1(1,2) by (auto simp: promote_assign_def)
  next
    case u1: (Inr u1)
    note po = packed_old [OF old] and hs = packed_old_hset [OF old fit]
    let ?t = "AList.update field v ps"
    have ps: "(case old of None \<Rightarrow> [] | Some a \<Rightarrow> unpack_pairs (body (node_at d1 a)) 0 (hash_count (node_at d1 a))) = ps"
      using old packed_find(2) by (cases old) (auto simp: packed_old_def a1(7))
    obtain r2 d2 where cr: "create_node e key NHash 8 d1 = (r2, d2)" by fastforce
    note c = create_st [OF db_inv_rep(2) [OF a1(1)] e k cr]
    have o1: "case old of None \<Rightarrow> ks_map S key = None | Some a \<Rightarrow> a \<in> links d1 \<and> keyat d1 a = key"
      using po(1) a1(3,4) by (cases old) simp_all
    show ?thesis
    proof (cases r2)
      case (Inl x)
      then have "db_inv d2 S" using c db_inv_frame [OF a1(1)] by (simp add: db_inv_def db_inv_rep(3) [OF inv])
      then show ?thesis using run s1 u1 cr Inl c std_free_inv [OF _ e] by (auto simp: promote_assign_def Let_def)
    next
      case p: (Inr p)
      have fn: "fresh_node key NHash 8 (node_at d2 p)" "replaying d2 = replaying d1" using c p by simp_all
      let ?m = "set_flags flag_hash_promoted (node_at d2 p)"
      have m: "node_wf ?m" "node_type ?m = NHash" "node_block_size ?m = node_block_size (node_at d2 p)" "key_bytes ?m = key"
        using fn by (simp_all add: fresh_node_def)
      note pn = promoted_node [OF m(1,2) promoted_flags(1) hs(3,4), unfolded hs(5)]
      have "promote_assign e old key field v cnt r d = commit_hash e old p (hash_record key field v) r
          (put_node p (?m\<lparr>hash_table := ?t, n_count := of_nat cnt\<rparr>) d2)"
        using ps table_of_pairs [OF po(4)] by (simp add: promote_assign_def s1 u1 cr p Let_def)
      then have run': "commit_hash e old p (hash_record key field v) r (put_node p (?m\<lparr>hash_table := ?t, n_count := of_nat cnt\<rparr>) d2) = (res, d')"
        using run by simp
      show ?thesis
        using hash_commit [OF a1(1) e k o1 cr [unfolded p] pn(1) _ _ _ pn(5) hs(2,1) run'] pn(2-4) m a1(6)
        by (cases res) simp_all
    qed
  qed
qed

lemma hash_assign_alt:
  "hash_assign e key field v d =
     (case find_writable e key d of
        (Inl x, d1) \<Rightarrow> (Inl x, d1)
      | (Inr old, d1) \<Rightarrow>
          if (case old of None \<Rightarrow> False | Some a \<Rightarrow> node_type (node_at d1 a) \<noteq> NHash) then (Inr (Inl wrong_type), d1)
          else if value_limit < length field \<or> value_limit < elem_size v False then (Inr (Inl request_too_large), d1)
          else if (case old of None \<Rightarrow> False | Some a \<Rightarrow> has_flag flag_hash_promoted (node_at d1 a))
          then promoted_assign e (the old) key field v d1
          else packed_assign e old key field v d1)"
  unfolding hash_assign_def packed_assign_def ..

text \<open>The sizes computed in 32 bits are the exact ones.\<close>

lemma packed_assign_alt:
  assumes old: "packed_old d S key old ps" and fit: "length field \<le> value_limit" "elem_size v False \<le> value_limit"
  defines "ps' \<equiv> AList.update field v ps"
  defines "bs \<equiv> pairs_bytes ps'"
  defines "r \<equiv> (if map_of ps field = None then 1 else 0)"
  shows "packed_assign e old key field v d =
     (case (if old = None then maybe_rehash e d else (Inr (), d)) of
        (Inl x, d2) \<Rightarrow> (Inl x, d2)
      | (Inr _, d2) \<Rightarrow>
          if 128 < length ps' \<or> 4096 < length bs then promote_assign e old key field v (length ps') r d2
          else if (case old of None \<Rightarrow> True | Some a \<Rightarrow> node_body_capacity (node_at d2 a) < length bs) then
            (case create_node e key NHash
                    (grown_capacity (length bs) (case old of None \<Rightarrow> 0 | Some a \<Rightarrow> node_body_capacity (node_at d2 a))) d2 of
               (Inl x, d3) \<Rightarrow> (Inl x, d3)
             | (Inr p, d3) \<Rightarrow>
                 commit_hash e old p (hash_record key field v) r (put_node p (packed_node bs (length ps') (node_at d3 p)) d3))
          else
            (case db_log e op_hash_set (hash_record key field v) d2 of
               (Inl x, d3) \<Rightarrow> (Inl x, d3)
             | (Inr _, d3) \<Rightarrow>
                 (Inr (Inr r), bump_sequence (put_node (the old) (packed_node bs (length ps') (node_at d3 (the old))) d3))))"
proof -
  define buf where "buf = (case old of None \<Rightarrow> [] | Some a \<Rightarrow> body (node_at d a))"
  define found where "found = (case old of None \<Rightarrow> None | Some a \<Rightarrow> hash_find (node_at d a) field)"
  define used where "used = (case old of None \<Rightarrow> 0 | Some a \<Rightarrow> hash_used (node_at d a))"
  define cnt where "cnt = (case old of None \<Rightarrow> 0 | Some a \<Rightarrow> hash_count (node_at d a))"
  define old_bytes where "old_bytes = (case found of None \<Rightarrow> 0 | Some (element, _) \<Rightarrow> the (element_size (drop element buf)))"
  have o: "\<exists>rest. buf = pairs_bytes ps @ rest" "found = hash_find_loop buf 0 (length ps) field" "used = length (pairs_bytes ps)"
    "cnt = length ps" "used \<le> 4096"
    using old packed_repD [of "node_at d (the old)" ps] packed_find(1) [of "node_at d (the old)" ps field]
    by (cases old; auto simp: packed_old_def buf_def found_def used_def cnt_def)+
  then obtain rest where buf: "buf = pairs_bytes ps @ rest" by blast
  note as = assigned [OF packed_old(5) [OF old] buf o(2)]
  have fr: "(if found = None then 1 else 0 :: int64) = r" using as(1) by (simp add: r_def)
  have l: "length bs = used - old_bytes + length (encode_body v) + (if found = None then length (encode_body_text field) else 0)"
    using as(3) unfolding bs_def ps'_def old_bytes_def o(3) by simp
  have c': "cnt + (if found = None then 1 else 0) = length ps'" using as(4) o(4) by (simp add: ps'_def)
  have fb: "body_size_text field = length (encode_body_text field)" "body_size_text field \<le> value_limit + 5"
    using fit(1) by (auto simp: length_encode_body body_size_text_def max_string_header_def)
  have w: "w32 (body_size_text field) = length (encode_body_text field)" "w32 (elem_size v False) = length (encode_body v)"
    using fb fit(2) w32_small [of "body_size_text field"] w32_small [of "elem_size v False"]
    by (simp_all add: element_sizes value_limit_def)
  have nd: "w32 (used - old_bytes + w32 (elem_size v False) + (if found = None then w32 (body_size_text field) else 0)) = length bs"
  proof -
    have "length bs \<le> 4096 + value_limit + (value_limit + 5)"
      using l o(5) fb fit(2) diff_le_self [of used old_bytes] unfolding element_sizes by (cases "found = None") simp_all
    then show ?thesis unfolding w using l w32_small [of "length bs"] by (simp add: value_limit_def)
  qed
  have ab: "assigned_bytes buf used found field v = bs" using as(2) by (simp add: o(3) bs_def ps'_def)
  show ?thesis
    unfolding packed_assign_def Let_def buf_def [symmetric] found_def [symmetric] used_def [symmetric] cnt_def [symmetric]
      old_bytes_def [symmetric] nd c' ab fr packed_node_def hash_packed_limit_def hash_packed_byte_limit_def ..
qed

lemma packed_assign:
  assumes inv: "db_inv d S" and e: "env_ok e" and k: "length key \<le> max_key_length" and old: "packed_old d S key old ps"
    and S: "\<And>a. old = Some a \<Longrightarrow> S = a_touch key A0"
    and fit: "length field \<le> value_limit" "elem_size v False \<le> value_limit"
    and run: "packed_assign e old key field v d = (res, d')"
  shows "case res of
      Inl x \<Rightarrow> db_inv d' S \<and> (replaying d \<longrightarrow> is_bad_alloc x)
    | Inr q \<Rightarrow> q = Inr (if map_of ps field = None then 1 else 0) \<and> db_inv d' (a_store key (OHash ((map_of ps)(field \<mapsto> v))) S)
        \<and> replaying d' = replaying d"
proof -
  let ?ps = "AList.update field v ps" and ?r = "if map_of ps field = None then 1 else 0 :: int64"
  let ?bs = "pairs_bytes ?ps"
  note P = packed_assign_alt [OF old fit, of e] and hs = packed_old_hset [OF old fit]
  obtain r2 d2 where rh: "(if old = None then maybe_rehash e d else (Inr (), d)) = (r2, d2)" by fastforce
  note h = rehash_if_inv [OF inv e rh]
  show ?thesis
  proof (cases r2)
    case (Inl x)
    then show ?thesis using run h(1,2) unfolding P rh by auto
  next
    case u2: (Inr u2)
    have o2: "packed_old d2 S key old ps"
    proof (cases old)
      case None
      then show ?thesis using old by (simp add: packed_old_def)
    next
      case (Some a)
      then have ha: "hash_at d S a key (map_of ps)" using old by (simp add: packed_old_def)
      then have "hash_at d2 S a key (map_of ps)" by (intro hash_atI [OF h(1)]) (simp_all add: h(3-5) hash_at_def)
      then show ?thesis using old Some by (simp add: packed_old_def h(7))
    qed
    note po = packed_old [OF o2]
    show ?thesis
    proof (cases "128 < length ?ps \<or> 4096 < length ?bs")
      case True
      then have "promote_assign e old key field v (length ?ps) ?r d2 = (res, d')" using run unfolding P rh u2 by simp
      from promote_assign [OF h(1) e k o2 fit this] show ?thesis unfolding h(6) .
    next
      case small: False
      then have sm: "length ?ps \<le> 128" "length ?bs \<le> 4096" by simp_all
      show ?thesis
      proof (cases "case old of None \<Rightarrow> True | Some a \<Rightarrow> node_body_capacity (node_at d2 a) < length ?bs")
        case True
        let ?cur = "case old of None \<Rightarrow> 0 | Some a \<Rightarrow> node_body_capacity (node_at d2 a)"
        obtain r3 d3 where cr: "create_node e key NHash (grown_capacity (length ?bs) ?cur) d2 = (r3, d3)" by fastforce
        note c = create_st [OF db_inv_rep(2) [OF h(1)] e k cr]
        show ?thesis
        proof (cases r3)
          case (Inl x)
          then have "res = Inl x" "d' = d3" using run small True unfolding P rh u2 by (simp_all add: cr)
          then show ?thesis using c Inl db_inv_rep(3) [OF inv] by (simp add: db_inv_def)
        next
          case p: (Inr p)
          have fn: "fresh_node key NHash (grown_capacity (length ?bs) ?cur) (node_at d3 p)" using c p by simp
          have "(field, v) \<in> set ?ps" using hs(5) by (intro map_of_SomeD) simp
          then have "0 < length ?bs" using encode_body_min [of v] by (force simp: pair_bytes_def)
          then have "length ?bs \<le> grown_capacity (length ?bs) ?cur"
            using True sm(2) by (intro grown_capacity_bounds(1)) (auto simp: value_limit_def split: option.splits)
          then have f: "node_wf (node_at d3 p)" "node_type (node_at d3 p) = NHash" "length ?bs \<le> length (body (node_at d3 p))" "key_bytes (node_at d3 p) = key"
            using fn by (auto simp: fresh_node_def)
          note pn = packed_node [OF f(1,2) fresh_flag [OF fn] f(3) hs(3,4) sm, unfolded hs(5)]
          have "commit_hash e old p (hash_record key field v) ?r (put_node p (packed_node ?bs (length ?ps) (node_at d3 p)) d3) = (res, d')"
            using run small True unfolding P rh u2 by (simp add: cr p)
          from hash_commit [OF h(1) e k po(1) cr [unfolded p] pn(1,2) _ _ pn(5) hs(2,1) this]
          show ?thesis using pn(3,4) f(4) fresh_flag [OF fn] h(6) by (cases res) simp_all
        qed
      next
        case False
        then obtain a where a: "old = Some a" "length ?bs \<le> node_body_capacity (node_at d2 a)" by (cases old) auto
        have ha: "hash_at d2 S a key (map_of ps)" "\<not> has_flag flag_hash_promoted (node_at d2 a)" using o2 a(1) by (simp_all add: packed_old_def)
        have f: "node_wf (node_at d2 a)" "node_type (node_at d2 a) = NHash" "length ?bs \<le> length (body (node_at d2 a))" "key_bytes (node_at d2 a) = key"
          using ha(1) a(2) wf_capacity [of "node_at d2 a"] by (auto simp: hash_at_def)
        note pn = packed_node [OF f(1,2) ha(2) f(3) hs(3,4) sm, unfolded hs(5)]
        obtain r3 d3 where lg: "db_log e op_hash_set (hash_record key field v) d2 = (r3, d3)" by fastforce
        have n3: "node_at d3 a = node_at d2 a" using db_log_fields(1) [OF lg] by (simp add: node_at_def)
        have r: "packed_assign e old key field v d = (case r3 of Inl x \<Rightarrow> (Inl x, d3)
            | Inr _ \<Rightarrow> (Inr (Inr ?r), bump_sequence (put_node a (packed_node ?bs (length ?ps) (node_at d2 a)) d3)))"
          using small False a(1) unfolding P rh u2 by (simp add: lg n3 split: sum.splits)
        from hset_in_place [OF ha(1) S [OF a(1)] fit pn(1) _ pn(2,3,5) lg]
        show ?thesis using run pn(4) f(4) h(6) unfolding r by (cases r3) auto
      qed
    qed
  qed
qed

lemma hash_of_node:
  assumes "node_rep n ob"
  shows "hash_of (Some ob) = (if node_type n = NHash then Inr (case ob of OHash h \<Rightarrow> h) else Inl wrong_type)"
  using assms by (cases ob) (simp_all add: hash_of_def)

text \<open>A lookup that finds a hash gives the hash; one that finds nothing leaves an empty map to start from.\<close>

lemma found_hash:
  assumes inv: "db_inv d A" and e: "env_ok e" and f: "find_writable e key d = (Inr (Some a), d1)" and t: "node_type (node_at d1 a) = NHash"
  obtains h where "hash_at d1 (a_seen e d key A) a key h" "a_seen e d key A = a_touch key A"
    "obj_of (vals (a_seen e d key A)) key = Some (OHash h)"
proof -
  note fc = found_case [OF inv e f]
  obtain ob where ob: "ks_map (a_seen e d key A) key = Some (ob, deadlines (d_sched d1) a)" "node_rep (node_at d1 a) ob"
    using fc(5) [OF refl] by blast
  then obtain h where h: "ob = OHash h" using t by (cases ob) auto
  have "hash_at d1 (a_seen e d key A) a key h" using fc(1,4) ob(1) h by (intro hash_atI) simp_all
  then show ?thesis using that seen_touched [OF inv e f] ob(1) h by (simp add: obj_of_vals)
qed

lemma found_other:
  assumes inv: "db_inv d A" and e: "env_ok e" and f: "find_writable e key d = (Inr (Some a), d1)" and t: "node_type (node_at d1 a) \<noteq> NHash"
  shows "hash_of (obj_of (vals (a_seen e d key A)) key) = Inl wrong_type"
proof -
  obtain ob where "ks_map (a_seen e d key A) key = Some (ob, deadlines (d_sched d1) a)" "node_rep (node_at d1 a) ob"
    using found_case(5) [OF inv e f refl] by blast
  then show ?thesis using t hash_of_node [of "node_at d1 a" ob] by (simp add: obj_of_vals)
qed

lemma found_none:
  assumes inv: "db_inv d A" and e: "env_ok e" and f: "find_writable e key d = (Inr None, d1)"
  shows "obj_of (vals (a_seen e d key A)) key = None"
  using found_case(4) [OF inv e f] by (simp add: obj_of_vals)

lemma packed_hash:
  assumes "hash_at d S a key h" "\<not> has_flag flag_hash_promoted (node_at d a)"
  obtains ps where "map_of ps = h" "packed_rep (node_at d a) ps" "packed_old d S key (Some a) ps"
  using assms by (auto simp: hash_at_def packed_old_def)

lemma hash_assign_spec:
  assumes inv: "db_inv d A" and e: "env_ok e" and run: "hash_assign e key field v d = (res, d')"
  defines "S \<equiv> a_seen e d key A"
  shows "outcome e d key A res d' True (\<lambda>c. hset_obj field v (obj_of (vals S) key) = Inl c)
     (\<lambda>n B. \<exists>h. hset_obj field v (obj_of (vals S) key) = Inr h
        \<and> n = (if hash_of (obj_of (vals S) key) = Inr (h(field := None)) then 1 else 0) \<and> B = a_store key (OHash h) S)"
proof -
  obtain r d1 where f: "find_writable e key d = (r, d1)" by fastforce
  show ?thesis
  proof (cases r)
    case (Inl x)
    then show ?thesis using run f find_failed [OF inv e, of key x d1] by (auto simp: hash_assign_alt)
  next
    case (Inr old)
    note f' = f [unfolded Inr]
    note fc = found_case [OF inv e f']
    have i: "db_inv d1 S" using fc(1) by (simp add: S_def)
    show ?thesis
    proof (cases "case old of None \<Rightarrow> False | Some a \<Rightarrow> node_type (node_at d1 a) \<noteq> NHash")
      case True
      then obtain a where a: "old = Some a" "node_type (node_at d1 a) \<noteq> NHash" by (cases old) simp_all
      then have "hset_obj field v (obj_of (vals S) key) = Inl wrong_type"
        using found_other [OF inv e f' [unfolded a(1)]] by (simp add: hset_obj_def S_def)
      then show ?thesis using run f' a i fc(2,3) by (auto simp: hash_assign_alt S_def)
    next
      case ok: False
      have hm: "\<exists>h. hash_of (obj_of (vals S) key) = Inr h"
      proof (cases old)
        case None
        then show ?thesis using found_none [OF inv e f' [unfolded None]] by (simp add: hash_of_def S_def)
      next
        case (Some a)
        then have "node_type (node_at d1 a) = NHash" using ok by simp
        from found_hash [OF inv e f' [unfolded Some] this] obtain h where "obj_of (vals S) key = Some (OHash h)" unfolding S_def by blast
        then show ?thesis by (simp add: hash_of_def)
      qed
      show ?thesis
      proof (cases "value_limit < length field \<or> value_limit < elem_size v False")
        case True
        then have "hset_obj field v (obj_of (vals S) key) = Inl request_too_large" using hm by (auto simp: hset_obj_def)
        moreover have "res = Inr (Inl request_too_large)" "d' = d1"
          using run unfolding hash_assign_alt f' prod.case sum.case if_not_P [OF ok] if_P [OF True] by simp_all
        ultimately show ?thesis using i fc(2,3) by (simp add: S_def)
      next
        case small: False
        then have fit: "length field \<le> value_limit" "elem_size v False \<le> value_limit" by simp_all
        have R: "(if (case old of None \<Rightarrow> False | Some a \<Rightarrow> has_flag flag_hash_promoted (node_at d1 a))
            then promoted_assign e (the old) key field v d1 else packed_assign e old key field v d1) = (res, d')"
          using run unfolding hash_assign_alt f' prod.case sum.case if_not_P [OF ok] if_not_P [OF small] .
        have "\<exists>h. hash_of (obj_of (vals S) key) = Inr h \<and> (case res of
            Inl x \<Rightarrow> db_inv d' S \<and> (replaying d1 \<longrightarrow> is_bad_alloc x)
          | Inr q \<Rightarrow> q = Inr (if h field = None then 1 else 0) \<and> db_inv d' (a_store key (OHash (h(field \<mapsto> v))) S) \<and> replaying d' = replaying d1)"
        proof (cases old)
          case None
          have "packed_old d1 S key None []" using fc(4) None by (simp add: packed_old_def S_def)
          from packed_assign [OF i e fc(2) this _ fit, of A res d'] show ?thesis
            using R None found_none [OF inv e f' [unfolded None]] by (cases res) (simp_all add: hash_of_def S_def)
        next
          case (Some a)
          then have t: "node_type (node_at d1 a) = NHash" using ok by simp
          obtain h where h: "hash_at d1 S a key h" "S = a_touch key A" "obj_of (vals S) key = Some (OHash h)"
            using found_hash [OF inv e f' [unfolded Some] t] unfolding S_def by blast
          show ?thesis
          proof (cases "has_flag flag_hash_promoted (node_at d1 a)")
            case True
            then show ?thesis using promoted_assign [OF h(1) e h(2) True fit] R Some h(3) by (cases res) (simp_all add: hash_of_def)
          next
            case False
            from packed_hash [OF h(1) this] obtain ps where ps: "map_of ps = h" "packed_old d1 S key old ps" unfolding Some by blast
            show ?thesis using packed_assign [OF i e fc(2) ps(2) h(2) fit] R Some False h(3) unfolding ps(1) by (cases res) (simp_all add: hash_of_def)
          qed
        qed
        then obtain h where h: "hash_of (obj_of (vals S) key) = Inr h" "case res of
            Inl x \<Rightarrow> db_inv d' S \<and> (replaying d1 \<longrightarrow> is_bad_alloc x)
          | Inr q \<Rightarrow> q = Inr (if h field = None then 1 else 0) \<and> db_inv d' (a_store key (OHash (h(field \<mapsto> v))) S) \<and> replaying d' = replaying d1"
          by blast
        have hs: "hset_obj field v (obj_of (vals S) key) = Inr (h(field \<mapsto> v))" using h(1) fit by (simp add: hset_obj_def)
        have "h field = None \<longleftrightarrow> hash_of (obj_of (vals S) key) = Inr ((h(field \<mapsto> v))(field := None))"
          unfolding h(1) using fun_upd_idem_iff [of h field None] by (simp add: eq_commute)
        then show ?thesis using h(2) hs fc(2,3) by (cases res) (auto simp: S_def kept_def)
      qed
    qed
  qed
qed

lemma v_apply_hdel:
  assumes "length key \<le> max_key_length" "hdel_obj field (obj_of (vals S) key) = Inr (Some h)"
  shows "v_apply op_hash_del [key, field] (vals S) = Some (vals (if h = Map.empty then a_drop key S else a_store key (OHash h) S))"
  using assms by (simp add: v_apply_def v_hash_def vals_store)

lemma std_free_st: "db_st P d A V \<Longrightarrow> env_ok e \<Longrightarrow> db_st P (std_free e k d) A V"
  using std_rep(2) [of P d A e k] db_st_frame [of P d A V P "std_free e k d" A] by (simp add: db_st_def)

text \<open>A field was removed from the node: the hash stays, or it was the last field and the key goes.\<close>

lemma hdel_tail:
  assumes ha: "hash_at d S a key h" and e: "env_ok e" and S: "S = a_touch key A0" and fd: "h field \<noteq> None"
    and lg: "db_log e op_hash_del [key, field] d = (Inr u, d2)"
    and m: "node_wf m" "key_bytes m = key" "node_block_size m = node_block_size (node_at d a)"
      "has_flag flag_has_ttl m = has_flag flag_has_ttl (node_at d a)" "node_rep m (OHash (h(field := None)))"
    and d3: "d3 = bump_sequence (if c then std_free e 6 (put_node a m d2) else put_node a m d2)"
    and d': "d' = (if h(field := None) = Map.empty then erase_node e a d3 else d3)"
  shows "db_inv d' (if h(field := None) = Map.empty then a_drop key S else a_store key (OHash (h(field := None))) S)"
    "replaying d' = replaying d"
proof -
  let ?h = "h(field := None)" and ?n = "node_at d a"
  let ?B = "if ?h = Map.empty then a_drop key S else a_store key (OHash ?h) S"
  have i: "db_inv d S" "a \<in> links d" "keyat d a = key" "ks_map S key = Some (OHash h, deadlines (d_sched d) a)"
    "length key \<le> max_key_length" "obj_ok (OHash h)" using ha by (simp_all add: hash_at_def)
  have "hdel_obj field (obj_of (vals S) key) = Inr (Some ?h)" using i(4) fd by (simp add: obj_of_vals hdel_obj_def hash_of_def)
  note ap = v_apply_hdel [OF i(5) this]
  have s2: "db_st {} d2 S (vals ?B)" "d_nodes d2 = d_nodes d" "d_buckets d2 = d_buckets d" "d_sched d2 = d_sched d" "replaying d2 = replaying d"
    using db_log_st [OF db_inv_rep(2) [OF i(1)] lg, of "vals ?B"] ap by simp_all
  have n2: "node_at d2 a = ?n" "a \<in> links d2" "keyat d2 a = key" using i s2 by (simp_all add: node_at_def)
  let ?A3 = "a_put key (OHash ?h, deadlines (d_sched d) a) S"
  have "db_rep {} (put_node a m d2) ?A3"
    using put_rep [of "{}" d2 S a m "OHash ?h"] s2(1,4) n2 m by (simp add: db_st_def)
  then have "db_st {} (put_node a m d2) ?A3 (vals ?B)" by (intro db_st_frame [OF s2(1)]) simp_all
  then have s3: "db_st {} d3 ?A3 (vals ?B)" using std_free_st [OF _ e] by (simp add: d3)
  have k3: "a \<in> links d3" "keyat d3 a = key" "replaying d3 = replaying d"
    using n2 m(2) s2(5) by (auto simp: d3 nkey_def bump_sequence_def)
  have "db_inv d' ?B \<and> replaying d' = replaying d"
  proof (cases "?h = Map.empty")
    case True
    have "db_st {} (erase_node e a d3) (a_drop key ?A3) (vals ?B)" by (rule erase_st [OF s3 e k3(1,2)])
    moreover have "ks_ok (a_drop key S)" using db_inv_rep(3) [OF i(1)] by simp
    ultimately show ?thesis using True k3(3) by (simp add: d' drop_put db_inv_def)
  next
    case False
    have B: "?A3 = ?B" using False i(4) S by (simp add: a_store_def ttl_of_def touch_put_touch)
    have "obj_ok (OHash ?h)" using i(6) False by auto
    then have "ks_ok ?B" using False ks_ok_store [OF db_inv_rep(3) [OF i(1)] i(5)] by simp
    then show ?thesis using s3 B False k3(3) by (simp add: d' db_inv_def)
  qed
  then show "db_inv d' ?B" "replaying d' = replaying d" by simp_all
qed

lemma write_at_after:
  assumes "i + length bs \<le> length buf"
  shows "take (i + length bs) (write_at i bs buf) = take i buf @ bs"
  using assms by (simp add: write_at_def)

text \<open>Closing the gap a pair leaves in a packed hash.\<close>

lemma packed_del:
  assumes n: "node_wf n" "node_type n = NHash" "\<not> has_flag flag_hash_promoted n" and rep: "packed_rep n ps"
    and fd: "hash_find n field = Some (el, st)"
  defines "pair \<equiv> st + the (element_size (drop el (body n)))"
  defines "start \<equiv> el - st"
  defines "m \<equiv> set_hash_count (hash_count n - 1) (set_hash_used (hash_used n - pair)
     (n\<lparr>body := write_at start (take (hash_used n - start - pair) (drop (start + pair) (body n))) (body n)\<rparr>))"
  shows "node_wf m" "node_block_size m = node_block_size n" "has_flag f m = has_flag f n" "key_bytes m = key_bytes n"
    "node_rep m (OHash ((map_of ps)(field := None)))" "hash_count n = 1 \<longleftrightarrow> (map_of ps)(field := None) = Map.empty"
    "map_of ps field \<noteq> None"
proof -
  note p = packed_repD [OF rep]
  obtain us w vs where u: "ps = us @ (field, w) # vs" "field \<notin> fst ` set us" "st = length (encode_body_text field)"
    "el = length (pairs_bytes us) + st" "element_size (drop el (body n)) = Some (length (encode_body w))"
    using assigned(5) [OF p(2,8) packed_find(1) [OF rep], of field el st] fd by blast
  have start: "start = length (pairs_bytes us)" by (simp add: start_def u(4))
  have pair: "pair = length (pair_bytes (field, w))" by (simp add: pair_def u(3,5) pair_bytes_body)
  obtain rest where b: "body n = pairs_bytes us @ pair_bytes (field, w) @ pairs_bytes vs @ rest" using p(8) by (auto simp: u(1))
  have used: "hash_used n = length (pairs_bytes us) + pair + length (pairs_bytes vs)" by (simp add: p(4) u(1) pair)
  have mv: "take (hash_used n - start - pair) (drop (start + pair) (body n)) = pairs_bytes vs"
    by (simp add: used start pair b)
  have fit: "start + length (pairs_bytes vs) \<le> length (body n)" by (simp add: b start)
  let ?ps = "us @ vs"
  have len: "hash_used n - pair = length (pairs_bytes ?ps)" "hash_count n - 1 = length ?ps" by (simp_all add: used p(3) u(1))
  have m: "m = set_hash_count (length ?ps) (set_hash_used (length (pairs_bytes ?ps)) (n\<lparr>body := write_at start (pairs_bytes vs) (body n)\<rparr>))"
    unfolding m_def mv len ..
  have bm: "length (body m) = length (body n)" "take (length (pairs_bytes ?ps)) (body m) = pairs_bytes ?ps"
    using fit write_at_after [OF fit] by (simp_all add: m set_hash_used_def set_hash_count_def start b)
  have sm: "length ?ps \<le> 128" "length (pairs_bytes ?ps) \<le> 4096" using p(5,6) by (simp_all add: u(1))
  have c: "key_meta m = key_meta n" "exact_size m = exact_size n" "key_bytes m = key_bytes n"
    by (simp_all add: m set_hash_used_def set_hash_count_def)
  have h: "hash_count m = length ?ps" "hash_used m = length (pairs_bytes ?ps)"
    using sm small_field [of "length ?ps"] small_field [of "length (pairs_bytes ?ps)"]
    by (simp_all add: m hash_count_def hash_used_def set_hash_used_def set_hash_count_def meta_simps)
  note nc = node_cong [OF c bm(1)]
  show "node_wf m" "node_block_size m = node_block_size n" "has_flag f m = has_flag f n" "key_bytes m = key_bytes n"
    using nc c n by simp_all
  have mo: "map_of ?ps = (map_of ps)(field := None)"
  proof -
    have "map_of us field = None" "map_of vs field = None" using p(1) by (auto simp: u(1) map_of_eq_None_iff)
    then show ?thesis by (auto simp: u(1) fun_eq_iff map_add_def split: option.splits)
  qed
  have "packed_rep m ?ps" unfolding packed_rep_def h using bm sm p(1,2) fit
    by (auto simp: pairs_ok_def hash_packed_limit_def hash_packed_byte_limit_def u(1) start)
  then show "node_rep m (OHash ((map_of ps)(field := None)))" unfolding mo [symmetric] using nc n by (auto simp del: map_of_append)
  have "(map_of ps)(field := None) = Map.empty \<longleftrightarrow> ?ps = []" unfolding mo [symmetric] by (metis map_of_eq_empty_iff)
  then show "hash_count n = 1 \<longleftrightarrow> (map_of ps)(field := None) = Map.empty" by (auto simp: p(3) u(1))
  show "map_of ps field \<noteq> None" by (simp add: u(1) map_of_eq_None_iff)
qed

lemma hash_del_spec:
  assumes inv: "db_inv d A" and e: "env_ok e" and run: "hash_del e key field d = (res, d')"
  defines "S \<equiv> a_seen e d key A"
  shows "outcome e d key A res d' True (\<lambda>c. hdel_obj field (obj_of (vals S) key) = Inl c)
     (\<lambda>b B. case hdel_obj field (obj_of (vals S) key) of
        Inr None \<Rightarrow> \<not> b \<and> B = S
      | Inr (Some h) \<Rightarrow> b \<and> B = (if h = Map.empty then a_drop key S else a_store key (OHash h) S)
      | Inl _ \<Rightarrow> False)"
proof -
  obtain r d1 where f: "find_writable e key d = (r, d1)" by fastforce
  consider x where "r = Inl x" | "r = Inr None" | a where "r = Inr (Some a)" by (metis option.exhaust sum.exhaust)
  then show ?thesis
  proof cases
    case 1
    then show ?thesis using run f find_failed [OF inv e, of key x d1] by (auto simp: hash_del_def)
  next
    case 2
    note fc = found_case [OF inv e f [unfolded 2]]
    have "hdel_obj field (obj_of (vals S) key) = Inr None"
      using found_none [OF inv e f [unfolded 2]] by (simp add: S_def hdel_obj_def hash_of_def)
    then show ?thesis using run f 2 fc(1-3) by (auto simp: hash_del_def S_def)
  next
    case 3
    note f3 = f [unfolded 3]
    note fc = found_case [OF inv e f3]
    have i: "db_inv d1 S" using fc(1) by (simp add: S_def)
    let ?n = "node_at d1 a"
    show ?thesis
    proof (cases "node_type ?n = NHash")
      case False
      then have "hdel_obj field (obj_of (vals S) key) = Inl wrong_type" using found_other [OF inv e f3] by (simp add: hdel_obj_def S_def)
      then show ?thesis using run f 3 False i fc(2,3) by (auto simp: hash_del_def S_def Let_def)
    next
      case t: True
      obtain h where h: "hash_at d1 S a key h" "S = a_touch key A" "obj_of (vals S) key = Some (OHash h)"
        using found_hash [OF inv e f3 t] unfolding S_def by blast
      have n: "node_wf ?n" "key_bytes ?n = key" "node_rep ?n (OHash h)" using h(1) by (simp_all add: hash_at_def)
      have ho: "hdel_obj field (obj_of (vals S) key) = (if h field = None then Inr None else Inr (Some (h(field := None))))"
        by (simp add: h(3) hdel_obj_def hash_of_def)
      obtain r2 d2 where lg: "db_log e op_hash_del [key, field] d1 = (r2, d2)" by fastforce
      have n2: "node_at d2 a = ?n" using db_log_fields(1) [OF lg] by (simp add: node_at_def)
      have fail: ?thesis if "r2 = Inl x" "res = Inl x" "d' = d2" for x
        using db_log_st [OF db_inv_rep(2) [OF i] lg] db_inv_rep(3) [OF i] that fc(3) by (simp add: S_def kept_def db_inv_def)
      have absent: ?thesis if "h field = None" "res = Inr (Inr False)" "d' = d1"
        using that i fc(2,3) ho by (simp add: S_def)
      have removed: ?thesis if "h field \<noteq> None" "res = Inr (Inr True)" "replaying d' = replaying d1"
        "db_inv d' (if h(field := None) = Map.empty then a_drop key S else a_store key (OHash (h(field := None))) S)"
        using that fc(2,3) ho by simp
      show ?thesis
      proof (cases "has_flag flag_hash_promoted ?n")
        case True
        let ?t = "AList.delete field (hash_table ?n)"
        have tb: "map_of (hash_table ?n) = h" "distinct (map fst (hash_table ?n))" "pairs_ok (hash_table ?n)"
          using n(3) True by (auto simp: promoted_rep_def pairs_ok_def)
        have t': "distinct (map fst ?t)" "pairs_ok ?t" "map_of ?t = h(field := None)"
          using tb distinct_delete [of "hash_table ?n" field] by (simp, force simp: pairs_ok_def AList.delete_eq, simp add: delete_conv')
        have em: "?t = [] \<longleftrightarrow> h(field := None) = Map.empty" unfolding t'(3) [symmetric] by (metis map_of_eq_empty_iff)
        note pn = promoted_node [OF n(1) t True t'(1,2), unfolded t'(3)]
        have R: "(res, d') = (if h field = None then (Inr (Inr False), d1)
            else case r2 of Inl x \<Rightarrow> (Inl x, d2)
              | Inr _ \<Rightarrow> (Inr (Inr True), let d3 = bump_sequence (std_free e 6 (put_node a (?n\<lparr>hash_table := ?t, n_count := of_nat (length ?t)\<rparr>) d2))
                    in if ?t = [] then erase_node e a d3 else d3))"
          using run t unfolding hash_del_def f3 prod.case sum.case option.case Let_def if_P [OF True] tb(1) lg n2
          by (simp split: sum.splits)
        show ?thesis
        proof (cases "h field = None \<or> (\<exists>x. r2 = Inl x)")
          case True
          then show ?thesis using R absent fail by (cases "h field = None") auto
        next
          case False
          then obtain u where r2: "r2 = Inr u" "h field \<noteq> None" by (cases r2) auto
          note ht = hdel_tail [OF h(1) e h(2) r2(2) lg [unfolded r2(1)] pn(1) _ pn(2,3,5), where c = True, OF _ refl refl]
          have "res = Inr (Inr True)" "d' = (let d3 = bump_sequence (std_free e 6 (put_node a (?n\<lparr>hash_table := ?t, n_count := of_nat (length ?t)\<rparr>) d2))
              in if ?t = [] then erase_node e a d3 else d3)" using R r2 by simp_all
          then show ?thesis using removed [OF r2(2)] ht pn(4) n(2) unfolding em Let_def if_True by simp
        qed
      next
        case np: False
        from packed_hash [OF h(1) np] obtain ps where ps: "map_of ps = h" "packed_rep ?n ps" by blast
        have fn: "hash_find ?n field = None \<longleftrightarrow> h field = None"
          using assigned(1) [OF packed_repD(2,8) [OF ps(2)] packed_find(1) [OF ps(2)]] ps(1) by simp
        show ?thesis
        proof (cases "hash_find ?n field")
          case None
          then have "res = Inr (Inr False)" "d' = d1" using run t np unfolding hash_del_def f3 by (simp_all add: Let_def)
          then show ?thesis using absent fn None by simp
        next
          case (Some es)
          obtain el st where es: "es = (el, st)" by (cases es)
          note pd = packed_del [OF n(1) t np ps(2) Some [unfolded es], unfolded ps(1)]
          let ?pair = "st + the (element_size (drop el (body ?n)))"
          let ?m = "set_hash_count (hash_count ?n - 1) (set_hash_used (hash_used ?n - ?pair)
            (?n\<lparr>body := write_at (el - st) (take (hash_used ?n - (el - st) - ?pair) (drop (el - st + ?pair) (body ?n))) (body ?n)\<rparr>))"
          have R: "(res, d') = (case r2 of Inl x \<Rightarrow> (Inl x, d2)
              | Inr _ \<Rightarrow> (Inr (Inr True), let d3 = bump_sequence (put_node a ?m d2) in if hash_count ?n = 1 then erase_node e a d3 else d3))"
            using run t np unfolding hash_del_def f3 prod.case sum.case option.case Let_def if_not_P [OF np] Some es lg n2
            by (simp split: sum.splits)
          show ?thesis
          proof (cases r2)
            case (Inl x)
            then show ?thesis using R fail by simp
          next
            case (Inr u)
            note ht = hdel_tail [OF h(1) e h(2) pd(7) lg [unfolded Inr] pd(1) _ pd(2,3,5), where c = False, OF _ refl refl]
            have "res = Inr (Inr True)" "d' = (let d3 = bump_sequence (put_node a ?m d2) in if hash_count ?n = 1 then erase_node e a d3 else d3)"
              using R Inr by simp_all
            then show ?thesis using removed [OF pd(7)] ht pd(4) n(2) unfolding pd(6) Let_def if_False by simp
          qed
        qed
      qed
    qed
  qed
qed

section \<open>Assigning several fields\<close>

lemma hfields_simps [simp]:
  "hfields [] h = h" "hfields [x] h = h" "hfields (f # v # rest) h = hfields rest (h(f \<mapsto> EString v))"
  by (simp_all add: hfields_def)

lemma text_limit: "length x \<le> value_limit \<Longrightarrow> length x < 2 ^ 32"
  by (simp add: value_limit_def)

lemma alist_update_length: "length (AList.update k v t) = (if map_of t k = None then length t + 1 else length t)"
  by (induction t) auto

lemma assign_fields:
  assumes "length args mod 2 = 0" "distinct (map fst t)" "pairs_ok t"
  shows "case assign_fields args t added longest of
      None \<Rightarrow> \<exists>x \<in> set args. value_limit < length x
    | Some (t', added', longest') \<Rightarrow> (\<forall>x \<in> set args. length x \<le> value_limit) \<and> map_of t' = hfields args (map_of t)
        \<and> distinct (map fst t') \<and> pairs_ok t' \<and> added' + length t = added + length t' \<and> longest \<le> longest'
        \<and> (\<forall>r \<in> set (field_records key args).
             length (encode_payload (op_code (fst r)) (snd r)) + 8 \<le> length key + longest' + 64 \<and> length (snd r) \<le> 255)"
  using assms
proof (induction args t added longest rule: assign_fields.induct)
  case (1 f v rest t added longest)
  show ?case
  proof (cases "value_limit < length f \<or> value_limit < length v")
    case True
    then show ?thesis by auto
  next
    case False
    let ?t = "AList.update f (EString v) t"
    have "length f < 2 ^ 32" "element_ok (EString v)" using False text_limit by (auto simp: not_less)
    then have t: "distinct (map fst ?t)" "pairs_ok ?t" "length rest mod 2 = 0"
      using distinct_update [OF "1.prems"(2)] pairs_ok_update [OF "1.prems"(3)] "1.prems"(1) by simp_all
    have m: "map_of ?t = (map_of t)(f \<mapsto> EString v)" by (simp add: update_conv')
    note IH = "1.IH" [OF False t(3,1,2)]
    let ?r = "assign_fields rest ?t (if map_of t f = None then added + 1 else added) (max longest (length f + length v))"
    have eq: "assign_fields (f # v # rest) t added longest = ?r" using False by simp
    show ?thesis
    proof (cases ?r)
      case None
      then show ?thesis using IH unfolding eq by simp
    next
      case (Some q)
      obtain t' added' longest' where q: "q = (t', added', longest')" by (cases q)
      note I = IH [unfolded Some q option.case prod.case]
      have "length (encode_payload (op_code op_hash_set) [key, f, str ''s'', v]) + 8 \<le> length key + longest' + 64"
        using I by (simp add: payload_shape str_def)
      moreover have "added' + length t = added + length t'" using I alist_update_length [of f "EString v" t] by (simp split: if_splits)
      ultimately show ?thesis using I False unfolding eq Some q by (simp add: m)
    qed
  qed
qed auto

lemma hfields_dom: "finite (dom h) \<Longrightarrow> finite (dom (hfields args h))"
  by (induction args arbitrary: h rule: arg_pairs.induct) simp_all

lemma hfields_ok:
  assumes "\<forall>x \<in> set args. length x \<le> value_limit" "texts_fit args" "obj_ok (OHash h) \<or> h = Map.empty" "length args mod 2 = 0"
  shows "args \<noteq> [] \<or> h \<noteq> Map.empty \<Longrightarrow> obj_ok (OHash (hfields args h))"
  using assms
proof (induction args arbitrary: h rule: arg_pairs.induct)
  case (1 f v rest)
  have "body_size_text v \<le> value_limit" using "1.prems"(2,3) by (simp add: texts_fit_def)
  then have "obj_ok (OHash (h(f \<mapsto> EString v)))" using "1.prems"(2,4) by (intro hash_ok_update) (simp_all add: elem_size_def)
  moreover have "h(f \<mapsto> EString v) \<noteq> Map.empty" by (metis fun_upd_same option.distinct(1))
  ultimately show ?case unfolding hfields_simps
    by (intro "1.IH") (use "1.prems" in \<open>simp_all add: texts_fit_def del: obj_ok.simps fun_upd_apply\<close>)
qed auto

lemma v_replay_coded [simp]:
  "v_replay (coded []) V = Some V"
  "v_replay (coded ((opr, a) # rs)) V = (case v_apply opr a V of None \<Rightarrow> None | Some V1 \<Rightarrow> v_replay (coded rs) V1)"
  by (simp_all add: coded_def del: op_code.simps split: option.splits)

lemma v_put_put [simp]: "v_put key ob (v_put key ob' V) = v_put key ob V"
  by (simp add: v_put_def has_ttl_def)

lemma v_replay_fields:
  assumes "length key \<le> max_key_length" "\<forall>x \<in> set args. length x \<le> value_limit" "texts_fit args" "length args mod 2 = 0"
    "hash_of (obj_of V key) = Inr h" "args \<noteq> []"
  shows "v_replay (coded (field_records key args)) V = Some (v_put key (OHash (hfields args h)) V)"
  using assms
proof (induction args arbitrary: V h rule: induct_list012)
  case (3 f v rest)
  let ?V = "v_put key (OHash (h(f \<mapsto> EString v))) V"
  have "body_size_text v \<le> value_limit" using "3.prems"(2,3) by (simp add: texts_fit_def)
  then have "hset_obj f (EString v) (obj_of V key) = Inr (h(f \<mapsto> EString v))"
    using "3.prems"(2,5) by (simp add: hset_obj_def elem_size_def)
  then have a: "v_apply op_hash_set [key, f, str ''s'', v] V = Some ?V"
    using "3.prems"(1) by (simp add: v_apply_def replay_value_def str_def)
  show ?case
  proof (cases "rest = []")
    case True
    then show ?thesis using a by (simp del: fun_upd_apply)
  next
    case False
    have "hash_of (obj_of ?V key) = Inr (h(f \<mapsto> EString v))" by (simp add: v_put_def obj_of_def hash_of_def)
    from "3.IH"(1) [OF "3.prems"(1) _ _ _ this False] "3.prems" a
    show ?thesis by (simp add: texts_fit_def del: fun_upd_apply)
  qed
qed simp_all

lemma iterated:
  assumes e: "env_ok e" and t: "distinct (map fst t)"
  shows "distinct (map fst (e_iter e t))" "map_of (e_iter e t) = map_of t" "length (e_iter e t) = length t"
    "pairs_ok (e_iter e t) = pairs_ok t" "length (pairs_bytes (e_iter e t)) = sum_list (map pair_size t)"
proof -
  have d: "distinct t" using t by (simp add: distinct_map)
  then have i: "distinct (e_iter e t)" "set (e_iter e t) = set t" using e by (simp_all add: env_ok_def)
  show f: "distinct (map fst (e_iter e t))" using i t by (simp add: distinct_map)
  show "map_of (e_iter e t) = map_of t" using map_of_inject_set [OF f t] i(2) by simp
  show "length (e_iter e t) = length t" using distinct_card [OF d] distinct_card [OF i(1)] i(2) by simp
  show "pairs_ok (e_iter e t) = pairs_ok t" by (simp add: pairs_ok_def i(2))
  have p: "length (pair_bytes p) = pair_size p" for p
    by (simp add: pair_bytes_def pair_size_def element_sizes length_encode_body)
  have "length (pairs_bytes (e_iter e t)) = sum_list (map pair_size (e_iter e t))" by (simp add: length_concat comp_def p)
  then show "length (pairs_bytes (e_iter e t)) = sum_list (map pair_size t)"
    using sum_list_distinct_conv_sum_set [OF i(1), of pair_size] sum_list_distinct_conv_sum_set [OF d, of pair_size] i(2) by simp
qed

lemma pack_pairs_bytes: "pack_pairs ps = pairs_bytes ps"
  by (induction ps) (simp_all add: pack_pairs_def pair_bytes_def)

lemma fill_hash:
  assumes e: "env_ok e" and t: "distinct (map fst t)" "pairs_ok t"
    and room: "room = sum_list (map pair_size t)" and pr: "pr \<longleftrightarrow> 128 < length t \<or> 4096 < room"
    and fn: "fresh_node key NHash (if pr then 8 else room) n"
  shows "node_wf (fill_hash e pr room t n)" "node_block_size (fill_hash e pr room t n) = node_block_size n"
    "key_bytes (fill_hash e pr room t n) = key" "\<not> has_flag flag_has_ttl (fill_hash e pr room t n)"
    "node_rep (fill_hash e pr room t n) (OHash (map_of t))"
proof -
  let ?m = "fill_hash e pr room t n"
  have f: "node_wf n" "node_type n = NHash" "key_bytes n = key" using fn by (simp_all add: fresh_node_def)
  have "node_wf ?m \<and> node_block_size ?m = node_block_size n \<and> key_bytes ?m = key \<and> \<not> has_flag flag_has_ttl ?m
      \<and> node_rep ?m (OHash (map_of t))"
  proof (cases pr)
    case True
    let ?s = "set_flags flag_hash_promoted n"
    have s: "node_wf ?s" "node_type ?s = NHash" using f by simp_all
    note pn = promoted_node [OF s promoted_flags(1) t]
    show ?thesis using pn(1-5) True f by (simp add: fill_hash_def)
  next
    case False
    note it = iterated [OF e t(1)]
    let ?ps = "e_iter e t"
    have sm: "length ?ps \<le> 128" "length (pairs_bytes ?ps) \<le> 4096" "pairs_ok ?ps" using False pr room it t(2) by simp_all
    have lb: "length (pairs_bytes ?ps) \<le> length (body n)" using fn False room it(5) by (simp add: fresh_node_def)
    have w: "w32 room = length (pairs_bytes ?ps)" using w32_small [of room] False pr room it(5) by simp
    note pn = packed_node [OF f(1,2) fresh_flag [OF fn] lb it(1) sm(3,1,2)]
    have "?m = packed_node (pairs_bytes ?ps) (length ?ps) n"
      using False w it(3) by (simp add: fill_hash_def packed_node_def pack_pairs_bytes)
    then show ?thesis using pn(1-5) f fresh_flag [OF fn] it(2) by simp
  qed
  then show "node_wf ?m" "node_block_size ?m = node_block_size n" "key_bytes ?m = key" "\<not> has_flag flag_has_ttl ?m"
    "node_rep ?m (OHash (map_of t))" by simp_all
qed

lemma hash_set_table:
  assumes inv: "db_inv d S" and e: "env_ok e" and k: "length key \<le> max_key_length"
    and old: "case old of None \<Rightarrow> ks_map S key = None | Some a \<Rightarrow> a \<in> links d \<and> keyat d a = key"
    and t: "distinct (map fst t)" "pairs_ok t" "map_of t = hfields args h" and ho: "hash_of (obj_of (vals S) key) = Inr h"
    and fit: "\<forall>x \<in> set args. length x \<le> value_limit" "texts_fit args" "length args mod 2 = 0" "args \<noteq> []"
    and ok: "obj_ok (OHash h) \<or> h = Map.empty"
    and sz: "\<forall>r \<in> set (field_records key args).
             length (encode_payload (op_code (fst r)) (snd r)) + 8 \<le> length key + longest + 64 \<and> length (snd r) \<le> 255"
    and run: "hash_set_table e old key args t added longest d = (res, d')"
  shows "case res of
      Inl x \<Rightarrow> db_inv d' S \<and> (replaying d \<longrightarrow> is_bad_alloc x)
    | Inr q \<Rightarrow> q = Inr (of_nat added) \<and> db_inv d' (a_store key (OHash (hfields args h)) S) \<and> replaying d' = replaying d"
proof -
  define room where "room = sum_list (map pair_size t)"
  define pr where "pr = (hash_packed_limit < length t \<or> hash_packed_byte_limit < room)"
  have pr': "pr \<longleftrightarrow> 128 < length t \<or> 4096 < room" by (simp add: pr_def hash_packed_limit_def hash_packed_byte_limit_def)
  have cap: "(if pr then 8 else w32 room) = (if pr then 8 else room)" using pr' w32_small [of room] by auto
  obtain r1 d1 where rh: "(if old = None then maybe_rehash e d else (Inr (), d)) = (r1, d1)" by fastforce
  note i1 = rehash_if_inv [OF inv e rh]
  note H = hash_set_table_def [of e old key args t added longest d, unfolded Let_def, folded room_def, folded pr_def, unfolded rh cap]
  show ?thesis
  proof (cases r1)
    case (Inl x)
    then show ?thesis using run i1(1,2) std_free_inv [OF _ e] unfolding H by auto
  next
    case u1: (Inr u1)
    obtain r2 d2 where cr: "create_node e key NHash (if pr then 8 else room) d1 = (r2, d2)" by fastforce
    note c = create_st [OF db_inv_rep(2) [OF i1(1)] e k cr]
    have o1: "case old of None \<Rightarrow> ks_map S key = None | Some a \<Rightarrow> a \<in> links d1 \<and> keyat d1 a = key"
      using old i1(3,4) by (cases old) simp_all
    show ?thesis
    proof (cases r2)
      case (Inl x)
      then have "res = Inl x" "d' = std_free e 4 d2" using run unfolding H by (simp_all add: u1 cr)
      moreover have "db_inv d2 S" "is_bad_alloc x" using c Inl db_inv_rep(3) [OF inv] by (simp_all add: db_inv_def)
      ultimately show ?thesis using std_free_inv [OF _ e] by simp
    next
      case p: (Inr p)
      have fn: "fresh_node key NHash (if pr then 8 else room) (node_at d2 p)" using c p by simp
      note fh = fill_hash [OF e t(1,2) room_def pr' fn, unfolded t(3)]
      have ob: "obj_ok (OHash (hfields args h))" by (rule hfields_ok [OF fit(1,2) ok fit(3)]) (simp add: fit(4))
      have ap: "v_replay (coded (field_records key args)) (vals S) = Some (vals (a_store key (OHash (hfields args h)) S))"
        using v_replay_fields [OF k fit(1-3) ho fit(4)] by (simp add: vals_store)
      obtain r3 d3 where lg: "log_batch e p (length key + longest + 64) (field_records key args)
          (put_node p (fill_hash e pr room t (node_at d2 p)) d2) = (r3, d3)" by fastforce
      note pb = pending_batch [OF i1(1) e k o1 cr [unfolded p] fh ob ap sz lg]
      show ?thesis
      proof (cases r3)
        case (Inl x)
        then have "res = Inl x" "d' = (if pr then d3 else std_free e 4 d3)" using run unfolding H by (simp_all add: u1 cr p lg)
        then show ?thesis using pb Inl i1(6) std_free_inv [OF _ e] by simp
      next
        case (Inr u)
        let ?d4 = "commit_node e old p True d3"
        have "res = Inr (Inr (of_nat added))" "d' = (if pr then ?d4 else std_free e 4 ?d4)"
          using run unfolding H by (simp_all add: u1 cr p lg Inr)
        then show ?thesis using pb Inr i1(6) std_free_inv [OF _ e] by simp
      qed
    qed
  qed
qed

lemma old_pairs:
  assumes e: "env_ok e" and h: "hash_at d S a key h"
  shows "table_of_pairs (hash_pairs e (node_at d a)) = hash_pairs e (node_at d a)" "map_of (hash_pairs e (node_at d a)) = h"
    "distinct (map fst (hash_pairs e (node_at d a)))" "pairs_ok (hash_pairs e (node_at d a))"
proof -
  let ?n = "node_at d a"
  have "map_of (hash_pairs e ?n) = h \<and> distinct (map fst (hash_pairs e ?n)) \<and> pairs_ok (hash_pairs e ?n)"
  proof (cases "has_flag flag_hash_promoted ?n")
    case True
    then have "map_of (hash_table ?n) = h" "distinct (map fst (hash_table ?n))" "pairs_ok (hash_table ?n)"
      using h by (auto simp: hash_at_def promoted_rep_def pairs_ok_def)
    then show ?thesis using iterated [OF e] True by (simp add: hash_pairs_def)
  next
    case False
    from packed_hash [OF h False] obtain ps where ps: "map_of ps = h" "packed_rep ?n ps" by blast
    then show ?thesis using packed_find(2) packed_repD(1,2) False by (simp add: hash_pairs_def)
  qed
  then show "map_of (hash_pairs e ?n) = h" "distinct (map fst (hash_pairs e ?n))" "pairs_ok (hash_pairs e ?n)"
    "table_of_pairs (hash_pairs e ?n) = hash_pairs e ?n"
    using table_of_pairs by blast+
qed

lemma hash_set_texts_odd: "length args mod 2 \<noteq> 0 \<Longrightarrow> hash_set_texts e key args d = (Inr (Inl wrong_argument_count), d)"
  by (simp add: hash_set_texts_def)

lemma card_dom_pairs: "distinct (map fst t) \<Longrightarrow> card (dom (map_of t)) = length t"
  using distinct_card [of "map fst t"] by (simp add: dom_map_of_conv_image_fst)

lemma hash_set_texts_spec:
  assumes inv: "db_inv d A" and e: "env_ok e" and run: "hash_set_texts e key args d = (res, d')"
    and ev: "length args mod 2 = 0" and tf: "texts_fit args"
  defines "S \<equiv> a_seen e d key A"
  shows "outcome e d key A res d' True (\<lambda>c. hfields_obj args (obj_of (vals S) key) = Inl c)
     (\<lambda>n B. \<exists>h h'. hash_of (obj_of (vals S) key) = Inr h \<and> hfields_obj args (obj_of (vals S) key) = Inr h'
        \<and> n = of_nat (card (dom h') - card (dom h)) \<and> B = (if args = [] then S else a_store key (OHash h') S))"
proof -
  obtain r d1 where f: "find_writable e key d = (r, d1)" by fastforce
  have H: "hash_set_texts e key args d =
      (case find_writable e key d of
        (Inl x, d1) \<Rightarrow> (Inl x, d1)
      | (Inr old, d1) \<Rightarrow>
          if (case old of None \<Rightarrow> False | Some a \<Rightarrow> node_type (node_at d1 a) \<noteq> NHash) then (Inr (Inl wrong_type), d1)
          else if args = [] then (Inr (Inr 0), d1)
          else
            (case std_alloc e 2 d1 of
               (Inl x, d2) \<Rightarrow> (Inl x, d2)
             | (Inr _, d2) \<Rightarrow>
                 (case assign_fields args
                         (table_of_pairs (case old of None \<Rightarrow> [] | Some a \<Rightarrow> hash_pairs e (node_at d2 a))) 0 0 of
                    None \<Rightarrow> (Inr (Inl request_too_large), std_free e 4 d2)
                  | Some (t, added, longest) \<Rightarrow> hash_set_table e old key args t added longest d2)))"
    using ev unfolding hash_set_texts_def by (simp only: if_False simp_thms)
  show ?thesis
  proof (cases r)
    case (Inl x)
    then show ?thesis using run f find_failed [OF inv e, of key x d1] unfolding H by auto
  next
    case (Inr old)
    note f' = f [unfolded Inr]
    note fc = found_case [OF inv e f']
    have i: "db_inv d1 S" using fc(1) by (simp add: S_def)
    show ?thesis
    proof (cases "case old of None \<Rightarrow> False | Some a \<Rightarrow> node_type (node_at d1 a) \<noteq> NHash")
      case True
      then obtain a where a: "old = Some a" "node_type (node_at d1 a) \<noteq> NHash" by (cases old) simp_all
      then have "hfields_obj args (obj_of (vals S) key) = Inl wrong_type"
        using found_other [OF inv e f' [unfolded a(1)]] by (simp add: hfields_obj_def S_def)
      moreover have "res = Inr (Inl wrong_type)" "d' = d1" using run unfolding H f' prod.case sum.case if_P [OF True] by simp_all
      ultimately show ?thesis using i fc(2,3) by (simp add: S_def)
    next
      case ok: False
      obtain h where ho: "hash_of (obj_of (vals S) key) = Inr h" and hk: "obj_ok (OHash h) \<or> h = Map.empty"
        and pairs: "\<And>d2. db_inv d2 S \<Longrightarrow> d_nodes d2 = d_nodes d1 \<Longrightarrow> d_buckets d2 = d_buckets d1 \<Longrightarrow> d_sched d2 = d_sched d1 \<Longrightarrow>
            (let t = table_of_pairs (case old of None \<Rightarrow> [] | Some a \<Rightarrow> hash_pairs e (node_at d2 a))
             in map_of t = h \<and> distinct (map fst t) \<and> pairs_ok t)"
      proof (cases old)
        case None
        have "hash_of (obj_of (vals S) key) = Inr Map.empty"
          using found_none [OF inv e f' [unfolded None]] by (simp add: hash_of_def S_def)
        then show ?thesis by (rule that) (simp_all add: None table_of_pairs_def)
      next
        case (Some a)
        then have t: "node_type (node_at d1 a) = NHash" using ok by simp
        obtain h where h: "hash_at d1 S a key h" "obj_of (vals S) key = Some (OHash h)"
          using found_hash [OF inv e f' [unfolded Some] t] unfolding S_def by blast
        show ?thesis
        proof (rule that [of h])
          show "hash_of (obj_of (vals S) key) = Inr h" by (simp add: h(2) hash_of_def)
          show "obj_ok (OHash h) \<or> h = Map.empty" using h(1) by (simp add: hash_at_def)
        next
          fix d2 assume "db_inv d2 S" "d_nodes d2 = d_nodes d1" "d_buckets d2 = d_buckets d1" "d_sched d2 = d_sched d1"
          from old_pairs [OF e hash_at_frame [OF h(1) this]]
          show "let t = table_of_pairs (case old of None \<Rightarrow> [] | Some a \<Rightarrow> hash_pairs e (node_at d2 a))
             in map_of t = h \<and> distinct (map fst t) \<and> pairs_ok t" by (simp add: Some Let_def)
        qed
      qed
      show ?thesis
      proof (cases "args = []")
        case True
        then have "res = Inr (Inr 0)" "d' = d1" using run unfolding H f' prod.case sum.case if_not_P [OF ok] by simp_all
        then show ?thesis using True i fc(2,3) ho by (simp add: S_def hfields_obj_def)
      next
        case ne: False
        obtain r2 d2 where s2: "std_alloc e 2 d1 = (r2, d2)" by fastforce
        note a2 = std_alloc_inv [OF i e s2]
        note H2 = run [unfolded H f' prod.case sum.case if_not_P [OF ok] if_not_P [OF ne] s2]
        show ?thesis
        proof (cases r2)
          case (Inl x)
          then have "res = Inl x" "d' = d2" using H2 by simp_all
          then show ?thesis using a2(1,2) Inl by (simp add: kept_def S_def)
        next
          case u2: (Inr u2)
          define t where "t = table_of_pairs (case old of None \<Rightarrow> [] | Some a \<Rightarrow> hash_pairs e (node_at d2 a))"
          have t: "map_of t = h" "distinct (map fst t)" "pairs_ok t" using pairs [OF a2(1,3-5)] by (simp_all add: t_def Let_def)
          note H3 = H2 [unfolded u2 sum.case, folded t_def]
          note as = assign_fields [OF ev t(2,3), where added = 0 and longest = 0 and key = key]
          show ?thesis
          proof (cases "assign_fields args t 0 0")
            case None
            then have "hfields_obj args (obj_of (vals S) key) = Inl request_too_large" using as ho by (simp add: hfields_obj_def)
            moreover have "res = Inr (Inl request_too_large)" "d' = std_free e 4 d2" using H3 None by simp_all
            ultimately show ?thesis using std_free_inv [OF a2(1) e] fc(2,3) a2(6) by (simp add: S_def)
          next
            case (Some q)
            obtain t' added longest where q: "q = (t', added, longest)" by (cases q)
            note as' = as [unfolded Some q option.case prod.case]
            have H4: "hash_set_table e old key args t' added longest d2 = (res, d')" using H3 by (simp add: Some q)
            have o2: "case old of None \<Rightarrow> ks_map S key = None | Some a \<Rightarrow> a \<in> links d2 \<and> keyat d2 a = key"
              using fc(4) a2(3,4) by (cases old) (simp_all add: S_def)
            have m: "map_of t' = hfields args h" "distinct (map fst t')" "pairs_ok t'" using as' t(1) by simp_all
            have hs: "hfields_obj args (obj_of (vals S) key) = Inr (hfields args h)"
              using as' ho by (auto simp: hfields_obj_def)
            have ad: "added = card (dom (hfields args h)) - card (dom h)"
              using as' card_dom_pairs [OF m(2)] card_dom_pairs [OF t(2)] m(1) t(1) by auto
            note ht = hash_set_table [OF a2(1) e fc(2) o2 m(2,3,1) ho _ tf ev ne hk _ H4]
            show ?thesis using ht as' hs ho ad ne fc(2,3) a2(6) by (cases res) (auto simp: S_def kept_def)
          qed
        qed
      qed
    qed
  qed
qed

end
