(* ===== verification/DatabaseKeys.thy ===== *)
theory DatabaseKeys
  imports DatabaseHashes
begin

text \<open>
  Deletion, deadlines and reads.
\<close>

text \<open>What a read sees of a key, and the keyspace after it: an expired key is hidden and left for the sweep.\<close>

definition a_look :: "env \<Rightarrow> db \<Rightarrow> bytes \<Rightarrow> keyspace \<Rightarrow> (obj \<times> int option) option" where
  "a_look e d key A = fst (a_find (e_steady e 0) (replaying d) key A)"

definition a_read :: "env \<Rightarrow> db \<Rightarrow> bytes \<Rightarrow> keyspace \<Rightarrow> keyspace" where
  "a_read e d key A = (if a_look e d key A = None then A else a_touch key A)"

definition get_obj :: "obj option \<Rightarrow> bytes option result" where
  "get_obj ob =
     (case ob of
        None \<Rightarrow> Inr None
      | Some (OInteger i) \<Rightarrow> Inr (Some (decimal (sint i)))
      | Some (OString s) \<Rightarrow> Inr (Some s)
      | Some _ \<Rightarrow> Inl wrong_type)"

definition view_obj :: "obj \<Rightarrow> view" where
  "view_obj ob = (case ob of OString s \<Rightarrow> VString s | OInteger i \<Rightarrow> VInteger i | OList _ \<Rightarrow> VList | OHash _ \<Rightarrow> VHash)"

definition llen_obj :: "obj option \<Rightarrow> int64 result" where
  "llen_obj ob = (case list_of ob of Inl c \<Rightarrow> Inl c | Inr xs \<Rightarrow> Inr (of_nat (length xs)))"

definition hget_obj :: "bytes \<Rightarrow> obj option \<Rightarrow> element option result" where
  "hget_obj field ob = (case hash_of ob of Inl c \<Rightarrow> Inl c | Inr h \<Rightarrow> Inr (h field))"

definition hlen_obj :: "obj option \<Rightarrow> int64 result" where
  "hlen_obj ob = (case hash_of ob of Inl c \<Rightarrow> Inl c | Inr h \<Rightarrow> Inr (of_nat (card (dom h))))"

section \<open>Removing keys and deadlines\<close>

text \<open>A found key is logged as deleted and removed.\<close>

lemma log_erase:
  assumes inv: "db_inv d S" and e: "env_ok e" and k: "length key \<le> max_key_length" and a: "a \<in> links d" "keyat d a = key"
    and lg: "db_log e op_del [key] d = (res, d2)"
  shows "case res of
      Inl x \<Rightarrow> db_inv d2 S \<and> \<not> replaying d
    | Inr _ \<Rightarrow> db_inv (erase_node e a d2) (a_drop key S) \<and> replaying d2 = replaying d"
proof -
  note l = db_log_st [OF db_inv_rep(2) [OF inv] lg, of "vals (a_drop key S)"]
  show ?thesis
  proof (cases res)
    case (Inl x)
    then show ?thesis using l db_inv_rep(3) [OF inv] by (simp add: db_inv_def)
  next
    case (Inr u)
    then have s: "db_st {} d2 S (vals (a_drop key S))" "d_nodes d2 = d_nodes d" "d_buckets d2 = d_buckets d" "replaying d2 = replaying d"
      using l v_apply_del [OF k, of "vals S"] by simp_all
    have "db_st {} (erase_node e a d2) (a_drop key S) (vals (a_drop key S))" by (rule erase_st [OF s(1) e]) (use a s in simp_all)
    then show ?thesis using Inr s(4) db_inv_rep(3) [OF inv] by (simp add: db_inv_def)
  qed
qed

lemma del_spec:
  assumes inv: "db_inv d A" and e: "env_ok e" and run: "del e key d = (res, d')"
  defines "S \<equiv> a_seen e d key A"
  shows "case res of
      Inl x \<Rightarrow> kept e d key A d' \<and> (replaying d \<longrightarrow> max_key_length < length key)
    | Inr b \<Rightarrow> b = (ks_map S key \<noteq> None) \<and> db_inv d' (if b then a_drop key S else S) \<and> replaying d' = replaying d
        \<and> length key \<le> max_key_length"
proof -
  obtain r d1 where f: "find_writable e key d = (r, d1)" by fastforce
  consider x where "r = Inl x" | "r = Inr None" | a where "r = Inr (Some a)" by (metis option.exhaust sum.exhaust)
  then show ?thesis
  proof cases
    case 1
    then show ?thesis using run f find_failed [OF inv e, of key x d1] by (auto simp: del_def)
  next
    case 2
    then show ?thesis using run f found_case(1-4) [OF inv e f [unfolded 2]] by (auto simp: del_def S_def)
  next
    case 3
    note fc = found_case [OF inv e f [unfolded 3]]
    obtain r2 d2 where lg: "db_log e op_del [key] d1 = (r2, d2)" by fastforce
    have "ks_map S key \<noteq> None" using fc(5) [of a] by (auto simp: S_def)
    moreover have "(res, d') = (case r2 of Inl x \<Rightarrow> (Inl x, d2) | Inr _ \<Rightarrow> (Inr True, erase_node e a d2))"
      using run f 3 lg by (cases r2) (simp_all add: del_def)
    ultimately show ?thesis
      using log_erase [OF fc(1) e fc(2) _ _ lg, of a] fc(2-4) by (cases r2) (auto simp: S_def kept_def)
  qed
qed

text \<open>A deadline is set in memory first; when the log refuses the record, the old one comes back.\<close>

lemma schedule_st:
  assumes st: "db_st {} d A V" and e: "env_ok e" and a: "a \<in> links d" "keyat d a = key" and ob: "ks_map A key = Some (ob, t)"
    and run: "schedule_expiry e a dl d = (res, d')"
  shows "case res of
      Inl x \<Rightarrow> db_st {} d' A V \<and> is_bad_alloc x \<and> t = None
    | Inr _ \<Rightarrow> db_st {} d' (a_put key (ob, Some dl) A) V \<and> links d' = links d \<and> keyat d' a = key
        \<and> deadlines (d_sched d') a = Some dl \<and> replaying d' = replaying d"
proof -
  have r: "db_rep {} d A" using st by (simp add: db_st_def)
  note s = schedule_expiry_rep [OF r e a(1) ob [folded a(2)] run]
  have t: "t = deadlines (d_sched d) a" using linked_val(2) [OF r a(1) ob [folded a(2)]] .
  show ?thesis
  proof (cases res)
    case (Inl x)
    then have "deadlines (d_sched d) a = None"
      using run expiries_deadlines [of "d_sched d" a] by (auto simp: schedule_expiry_def Let_def split: if_splits)
    then show ?thesis using s Inl t db_st_frame [OF st, of "{}" d' A] by simp
  next
    case (Inr u)
    have k: "keyat d' a = key" "a \<in> links d'" using s a by simp_all
    have r': "db_rep {} d' (a_put key (ob, Some dl) A)" using s Inr a(2) by simp
    then have "Some dl = deadlines (d_sched d') a" using linked_val(2) [OF r' k(2), of ob "Some dl"] k(1) by simp
    then show ?thesis using Inr s k r' db_st_frame [OF st, of "{}" d' "a_put key (ob, Some dl) A"] by simp
  qed
qed

lemma decimal_from_chars:
  assumes "0 \<le> n" "n \<le> max_int"
  shows "from_chars_i64 (decimal n) = Some (word_of_int n)" "sint (word_of_int n :: int64) = n"
proof -
  show s: "sint (word_of_int n :: int64) = n" using assms by (simp add: max_int_def sint_sbintrunc' signed_take_bit_int_eq_self)
  show "from_chars_i64 (decimal n) = Some (word_of_int n)" using from_chars_decimal [of "word_of_int n"] unfolding s .
qed

lemma expire_spec:
  assumes inv: "db_inv d A" and e: "env_ok e" and run: "expire e key seconds d = (res, d')"
    and clock: "0 \<le> e_steady e 1" "0 \<le> e_wall e 1" "e_wall e 1 + seconds * 1000 \<le> max_int"
  defines "S \<equiv> a_seen e d key A"
  shows "case res of
      Inl x \<Rightarrow> kept e d key A d'
    | Inr b \<Rightarrow> replaying d' = replaying d \<and> length key \<le> max_key_length \<and>
        (case ks_map S key of
           None \<Rightarrow> \<not> b \<and> db_inv d' S
         | Some (ob, _) \<Rightarrow> b \<and> db_inv d' (if seconds \<le> 0 then a_drop key S else a_put key (ob, Some (e_steady e 1 + seconds * 1000)) S))"
proof -
  obtain r d1 where f: "find_writable e key d = (r, d1)" by fastforce
  consider x where "r = Inl x" | "r = Inr None" | a where "r = Inr (Some a)" by (metis option.exhaust sum.exhaust)
  then show ?thesis
  proof cases
    case 1
    then show ?thesis using run f find_failed [OF inv e, of key x d1] by (auto simp: expire_def)
  next
    case 2
    then show ?thesis using run f found_case(1-4) [OF inv e f [unfolded 2]] by (auto simp: expire_def S_def)
  next
    case 3
    note fc = found_case [OF inv e f [unfolded 3]]
    have i: "db_inv d1 S" and al: "a \<in> links d1" "keyat d1 a = key" using fc(1,4) by (simp_all add: S_def)
    obtain ob where ob: "ks_map S key = Some (ob, deadlines (d_sched d1) a)" using fc(5) [of a] by (auto simp: S_def)
    have fail: ?thesis if "res = Inl x" "db_inv d' S" for x using that by (simp add: kept_def S_def)
    show ?thesis
    proof (cases "seconds \<le> 0")
      case True
      obtain r2 d2 where lg: "db_log e op_del [key] d1 = (r2, d2)" by fastforce
      have "(res, d') = (case r2 of Inl x \<Rightarrow> (Inl x, d2) | Inr _ \<Rightarrow> (Inr True, erase_node e a d2))"
        using run f 3 lg True by (cases r2) (simp_all add: expire_def)
      then show ?thesis using log_erase [OF i e fc(2) al lg] fc(2,3) ob True fail by (cases r2) auto
    next
      case pos: False
      let ?dl = "e_steady e 1 + seconds * 1000" and ?wall = "e_wall e 1 + seconds * 1000"
      let ?B = "a_put key (ob, Some ?dl) S"
      show ?thesis
      proof (cases "(max_int - max (e_steady e 1) (e_wall e 0)) div 1000 < seconds")
        case True
        then have "res = Inl (Error value_not_integer)" "d' = d1" using run f 3 pos by (simp_all add: expire_def Let_def)
        then show ?thesis using fail i by simp
      next
        case ok: False
        obtain r2 d2 where sc: "schedule_expiry e a ?dl d1 = (r2, d2)" by fastforce
        note s = schedule_st [OF db_inv_rep(2) [OF i] e al ob sc]
        obtain r3 d3 where lg: "db_log e op_expire_at [key, decimal ?wall] d2 = (r3, d3)" by fastforce
        define previous where "previous = (case expiries (d_sched d1) a of None \<Rightarrow> - 1 | Some x \<Rightarrow> deadline x)"
        have R: "(res, d') = (case r2 of Inl x \<Rightarrow> (Inl x, d2)
            | Inr _ \<Rightarrow> (case r3 of
                Inl x \<Rightarrow> if previous < 0 then (Inl x, clear_expiry e a d3)
                         else (case schedule_expiry e a previous d3 of (Inl y, d4) \<Rightarrow> (Inl y, d4) | (Inr _, d4) \<Rightarrow> (Inl x, d4))
              | Inr _ \<Rightarrow> (Inr True, bump_sequence d3)))"
          using run f 3 pos ok sc lg unfolding previous_def by (cases r2; cases r3) (simp_all add: expire_def Let_def)
        have vB: "v_apply op_expire_at [key, decimal ?wall] (vals S) = Some (vals ?B)"
        proof -
          have w: "0 \<le> ?wall" using clock pos by simp
          note df = decimal_from_chars [OF w clock(3)]
          have "vals S key = Some (ob, deadlines (d_sched d1) a \<noteq> None)" by (simp add: vals_def ob)
          then show ?thesis using fc(2) df w by (simp add: v_apply_def)
        qed
        have kB: "ks_ok ?B" using db_inv_rep(3) [OF i] ob fc(2) clock(1) pos by (auto simp: ks_ok_def)
        show ?thesis
        proof (cases r2)
          case (Inl x)
          then show ?thesis using R s fail db_inv_rep(3) [OF i] by (simp add: db_inv_def)
        next
          case u2: (Inr u2)
          have s2: "db_st {} d2 ?B (vals S)" "a \<in> links d2" "keyat d2 a = key" "deadlines (d_sched d2) a = Some ?dl" "replaying d2 = replaying d1"
            using s u2 al by simp_all
          note l = db_log_st [OF s2(1) lg, of "vals ?B"]
          show ?thesis
          proof (cases r3)
            case (Inr u)
            then have "db_inv d3 ?B" "replaying d3 = replaying d2" using l vB kB by (simp_all add: db_inv_def)
            then show ?thesis using R u2 Inr ob pos fc(2,3) s2(5) by simp
          next
            case (Inl x)
            have f3: "d_nodes d3 = d_nodes d2" "d_buckets d3 = d_buckets d2" "d_sched d3 = d_sched d2" using db_log_fields [OF lg] by simp_all
            have s3: "db_st {} d3 ?B (vals S)" "a \<in> links d3" "keyat d3 a = key" using l Inl s2 f3 by simp_all
            have obB: "ks_map ?B key = Some (ob, Some ?dl)" by simp
            show ?thesis
            proof (cases "deadlines (d_sched d1) a")
              case None
              then have pv: "previous < 0" using expiries_deadlines [of "d_sched d1" a] by (simp add: previous_def)
              have undo: "a_put key (ob, None) ?B = S" using ob None by (simp add: a_put_def fun_upd_idem)
              have "db_rep {} (clear_expiry e a d3) S"
                using clear_expiry_rep [of "{}" d3 ?B e a ob "Some ?dl"] s3 e obB undo by (simp add: db_st_def)
              then have "db_st {} (clear_expiry e a d3) S (vals S)" by (intro db_st_frame [OF s3(1)]) (simp_all add: clear_expiry_fields)
              then show ?thesis using R u2 Inl pv fail db_inv_rep(3) [OF i] by (simp add: db_inv_def)
            next
              case (Some t)
              have "0 \<le> t" using db_inv_rep(3) [OF i] ob Some unfolding ks_ok_def by (metis option.simps(5))
              moreover have "previous = t" using Some by (auto simp: previous_def deadlines_def split: option.splits)
              ultimately have pv: "\<not> previous < 0" "previous = t" by simp_all
              obtain r4 d4 where sc4: "schedule_expiry e a t d3 = (r4, d4)" by fastforce
              note s4 = schedule_st [OF s3(1) e s3(2,3) obB sc4]
              have undo: "a_put key (ob, Some t) ?B = S" using ob Some by (simp add: a_put_def fun_upd_idem)
              show ?thesis
              proof (cases r4)
                case u4: (Inr u4)
                then show ?thesis using R u2 Inl pv sc4 s4 undo fail db_inv_rep(3) [OF i] by (simp add: db_inv_def)
              qed (use s4 in simp)
            qed
          qed
        qed
      qed
    qed
  qed
qed

section \<open>Reads\<close>

lemma read_st:
  assumes inv: "db_inv d A" and run: "find_active e key d = (r, d1)"
  shows "db_inv d1 (a_read e d key A)" "replaying d1 = replaying d"
    "r = None \<longleftrightarrow> a_look e d key A = None"
    "r = Some a \<Longrightarrow> \<exists>ob. a_look e d key A = Some (ob, deadlines (d_sched d1) a) \<and> node_rep (node_at d1 a) ob"
proof -
  note f = find_active_rep [OF db_inv_rep(1) [OF inv] run]
  show "r = None \<longleftrightarrow> a_look e d key A = None" using f by (cases r) (auto simp: a_look_def)
  show "replaying d1 = replaying d" using f by (cases r) auto
  show "r = Some a \<Longrightarrow> \<exists>ob. a_look e d key A = Some (ob, deadlines (d_sched d1) a) \<and> node_rep (node_at d1 a) ob"
    using f by (auto simp: a_look_def)
  show "db_inv d1 (a_read e d key A)"
  proof (cases r)
    case None
    then show ?thesis using f inv by (simp add: a_read_def a_look_def)
  next
    case (Some b)
    then have "db_rep {} d1 (a_touch key A)" "a_read e d key A = a_touch key A" "d1 = touch_node b d"
      using f by (auto simp: a_read_def a_look_def)
    then show ?thesis using db_st_frame [OF db_inv_rep(2) [OF inv]] db_inv_rep(3) [OF inv] by (simp add: db_inv_def)
  qed
qed

text \<open>The common shape of a read: find the key, then look at its node.\<close>

lemma read_case:
  assumes inv: "db_inv d A" and run: "(case find_active e key d of (None, d1) \<Rightarrow> (none, d1) | (Some a, d1) \<Rightarrow> (some d1 a, d1)) = (res, d')"
    and some: "\<And>d1 a ob. node_rep (node_at d1 a) ob \<Longrightarrow> some d1 a = out (Some ob)" and none: "none = out None"
  shows "res = out (map_option fst (a_look e d key A))" "db_inv d' (a_read e d key A)" "replaying d' = replaying d"
proof -
  obtain r d1 where f: "find_active e key d = (r, d1)" by fastforce
  note s = read_st [OF inv f]
  have "res = out (map_option fst (a_look e d key A)) \<and> d' = d1"
  proof (cases r)
    case None
    then show ?thesis using run f s(3) none by simp
  next
    case (Some a)
    then obtain ob where "a_look e d key A = Some (ob, deadlines (d_sched d1) a)" "node_rep (node_at d1 a) ob" using s(4) by blast
    then show ?thesis using run f Some some by simp
  qed
  then show "res = out (map_option fst (a_look e d key A))" "db_inv d' (a_read e d key A)" "replaying d' = replaying d"
    using s(1,2) by simp_all
qed

lemma value_view_spec:
  assumes "db_inv d A" "value_view e key d = (res, d')"
  shows "res = map_option view_obj (map_option fst (a_look e d key A))" "db_inv d' (a_read e d key A)" "replaying d' = replaying d"
proof -
  have "(case find_active e key d of (None, d1) \<Rightarrow> (None, d1)
      | (Some a, d1) \<Rightarrow> (Some (case node_type (node_at d1 a) of NString \<Rightarrow> VString (string_value (node_at d1 a))
               | NInteger \<Rightarrow> VInteger (integer_value (node_at d1 a)) | NList \<Rightarrow> VList | NHash \<Rightarrow> VHash), d1)) = (res, d')"
    using assms(2) unfolding value_view_def Let_def .
  note r = read_case [OF assms(1) this, of "map_option view_obj"]
  have "(case node_type (node_at d1 a) of NString \<Rightarrow> VString (string_value (node_at d1 a)) | NInteger \<Rightarrow> VInteger (integer_value (node_at d1 a))
      | NList \<Rightarrow> VList | NHash \<Rightarrow> VHash) = view_obj ob" if "node_rep (node_at d1 a) ob" for d1 a ob
    using that by (cases ob) (auto simp: view_obj_def string_value_def)
  then show "res = map_option view_obj (map_option fst (a_look e d key A))" "db_inv d' (a_read e d key A)" "replaying d' = replaying d"
    using r by simp_all
qed

lemma get_spec:
  assumes inv: "db_inv d A" and run: "db_get e key d = (res, d')"
  shows "res = get_obj (map_option fst (a_look e d key A))" "db_inv d' (a_read e d key A)" "replaying d' = replaying d"
proof -
  obtain v d1 where v: "value_view e key d = (v, d1)" by fastforce
  note s = value_view_spec [OF inv v]
  have "d' = d1" using run v by (auto simp: db_get_def split: option.splits)
  then show "db_inv d' (a_read e d key A)" "replaying d' = replaying d" using s(2,3) by simp_all
  show "res = get_obj (map_option fst (a_look e d key A))"
    using run v s(1) by (auto simp: db_get_def get_obj_def view_obj_def split: option.splits obj.splits)
qed

lemma list_length_spec:
  assumes "db_inv d A" "list_length e key d = (res, d')"
  shows "res = llen_obj (map_option fst (a_look e d key A))" "db_inv d' (a_read e d key A)" "replaying d' = replaying d"
proof -
  note r = read_case [OF assms(1) assms(2) [unfolded list_length_def], of llen_obj]
  have "(if node_type (node_at d1 a) \<noteq> NList then Inl wrong_type else Inr (ucast (n_count (node_at d1 a)))) = llen_obj (Some ob)"
    if n: "node_rep (node_at d1 a) ob" for d1 a ob
    using list_of_node [OF n] n of_nat_count by (cases ob) (auto simp: llen_obj_def)
  then show "res = llen_obj (map_option fst (a_look e d key A))" "db_inv d' (a_read e d key A)" "replaying d' = replaying d"
    using r by (simp_all add: llen_obj_def list_of_def)
qed

lemma packed_value:
  assumes "packed_rep n ps"
  shows "(case hash_find n field of None \<Rightarrow> Inr None | Some (el, _) \<Rightarrow> Inr (Some (the (decode (drop el (body n)))))) = Inr (map_of ps field)"
proof (cases "hash_find n field")
  case None
  then have "map_of ps field = None" using assigned(1) [OF packed_repD(2,8) [OF assms] packed_find(1) [OF assms]] by blast
  then show ?thesis by (simp add: None)
next
  case (Some es)
  obtain el st where es: "es = (el, st)" by (cases es)
  obtain us w vs where u: "ps = us @ (field, w) # vs" "field \<notin> fst ` set us" "decode (drop el (body n)) = Some w"
    using assigned(5) [OF packed_repD(2,8) [OF assms] packed_find(1) [OF assms], of field el st] Some es by blast
  have "map_of us field = None" using u(2) by (simp add: map_of_eq_None_iff)
  then show ?thesis using u(3) by (simp add: Some es u(1) map_add_def)
qed

lemma hash_field_spec:
  assumes "db_inv d A" "hash_field e key field d = (res, d')"
  shows "res = hget_obj field (map_option fst (a_look e d key A))" "db_inv d' (a_read e d key A)" "replaying d' = replaying d"
proof -
  note r = read_case [OF assms(1) assms(2) [unfolded hash_field_def Let_def], of "hget_obj field"]
  have "(if node_type (node_at d1 a) \<noteq> NHash then Inl wrong_type
      else if has_flag flag_hash_promoted (node_at d1 a) then Inr (map_of (hash_table (node_at d1 a)) field)
      else case hash_find (node_at d1 a) field of None \<Rightarrow> Inr None
        | Some (element, _) \<Rightarrow> Inr (Some (the (decode (drop element (body (node_at d1 a))))))) = hget_obj field (Some ob)"
    if n: "node_rep (node_at d1 a) ob" for d1 a ob
  proof (cases ob)
    case (OHash h)
    then show ?thesis using n packed_value [of "node_at d1 a" _ field] by (auto simp: hget_obj_def hash_of_def promoted_rep_def)
  qed (use n in \<open>simp_all add: hget_obj_def hash_of_def\<close>)
  then show "res = hget_obj field (map_option fst (a_look e d key A))" "db_inv d' (a_read e d key A)" "replaying d' = replaying d"
    using r by (simp_all add: hget_obj_def hash_of_def)
qed

lemma hash_length_spec:
  assumes "db_inv d A" "hash_length e key d = (res, d')"
  shows "res = hlen_obj (map_option fst (a_look e d key A))" "db_inv d' (a_read e d key A)" "replaying d' = replaying d"
proof -
  note r = read_case [OF assms(1) assms(2) [unfolded hash_length_def Let_def], of hlen_obj]
  have "(if node_type (node_at d1 a) \<noteq> NHash then Inl wrong_type
      else if has_flag flag_hash_promoted (node_at d1 a) then Inr (of_nat (length (hash_table (node_at d1 a))))
      else Inr (of_nat (hash_count (node_at d1 a)))) = hlen_obj (Some ob)"
    if n: "node_rep (node_at d1 a) ob" for d1 a ob
  proof (cases ob)
    case (OHash h)
    then obtain ps where ps: "map_of ps = h" "if has_flag flag_hash_promoted (node_at d1 a) then promoted_rep (node_at d1 a) ps else packed_rep (node_at d1 a) ps"
      using n by auto
    then have "distinct (map fst ps)" using packed_repD(1) by (auto simp: promoted_rep_def split: if_splits)
    then have "card (dom h) = length ps" using card_dom_pairs ps(1) by blast
    then show ?thesis using n ps packed_repD(3) OHash by (auto simp: hlen_obj_def hash_of_def promoted_rep_def split: if_splits)
  qed (use n in \<open>simp_all add: hlen_obj_def hash_of_def\<close>)
  then show "res = hlen_obj (map_option fst (a_look e d key A))" "db_inv d' (a_read e d key A)" "replaying d' = replaying d"
    using r by (simp_all add: hlen_obj_def hash_of_def)
qed

lemma ttl_spec:
  assumes inv: "db_inv d A" and run: "ttl e key d = (res, d')"
  shows "res = (case a_look e d key A of
        None \<Rightarrow> - 2
      | Some (_, None) \<Rightarrow> - 1
      | Some (_, Some t) \<Rightarrow> if t - e_steady e 1 \<le> 0 then - 2 else (t - e_steady e 1) div 1000)"
    "db_inv d' (a_read e d key A)"
proof -
  obtain r d1 where f: "find_active e key d = (r, d1)" by fastforce
  note s = read_st [OF inv f]
  have "d' = d1" using run f by (auto simp: ttl_def split: option.splits)
  then show "db_inv d' (a_read e d key A)" using s(1) by simp
  show "res = (case a_look e d key A of
        None \<Rightarrow> - 2
      | Some (_, None) \<Rightarrow> - 1
      | Some (_, Some t) \<Rightarrow> if t - e_steady e 1 \<le> 0 then - 2 else (t - e_steady e 1) div 1000)"
  proof (cases r)
    case None
    then show ?thesis using run f s(3) by (simp add: ttl_def)
  next
    case (Some a)
    then obtain ob where "a_look e d key A = Some (ob, deadlines (d_sched d1) a)" using s(4) by blast
    then show ?thesis using run f Some by (auto simp: ttl_def deadlines_def Let_def split: option.splits)
  qed
qed

end
