(* ===== verification/Recovery.thy ===== *)
theory Recovery
  imports DatabaseKeys
begin

text \<open>
  Maintenance and durability: the eviction and expiry sweeps, the replay of log records, recovery
  from the prefix of the log that a crash leaves, and compaction (\<^verbatim>\<open>evict_to\<close>, \<^verbatim>\<open>remove_expired\<close>,
  \<^verbatim>\<open>replay\<close>, \<^verbatim>\<open>open_wal\<close>, \<^verbatim>\<open>clear\<close> and \<^verbatim>\<open>compact_wal\<close> of database.cpp).
\<close>

text \<open>
  The time stamp that a record gives to a key, and the last stamp that a log gives to a key, with
  the position of its record. Replaying the stamp gives a deadline as far ahead of the steady clock
  as the stamp is ahead of the wall clock.
\<close>

definition record_stamp :: "log_record \<Rightarrow> (bytes \<times> int) option" where
  "record_stamp r =
     (if wal_op_of (fst r) = Some op_expire_at
      then map_option (\<lambda>s. (snd r ! 0, sint s)) (from_chars_i64 (snd r ! 1)) else None)"

primrec last_stamp :: "bytes \<Rightarrow> log_record list \<Rightarrow> (nat \<times> int) option" where
  "last_stamp key [] = None"
| "last_stamp key (r # rs) =
     (case last_stamp key rs of
        Some (i, s) \<Rightarrow> Some (i + 1, s)
      | None \<Rightarrow> (case record_stamp r of None \<Rightarrow> None | Some (k, s) \<Rightarrow> if k = key then Some (0, s) else None))"

definition due :: "env \<Rightarrow> int \<Rightarrow> int" where
  "due e s = e_steady e 0 + max 0 (s - e_wall e 0)"

definition retime :: "env \<Rightarrow> log_record \<Rightarrow> (bytes \<Rightarrow> int option) \<Rightarrow> bytes \<Rightarrow> int option" where
  "retime e r T = (case record_stamp r of None \<Rightarrow> T | Some (k, s) \<Rightarrow> T(k \<mapsto> due e s))"

text \<open>What replaying one record may do to the database: the values it leaves and deadlines it may leave.\<close>

definition replay_ok :: "vals option \<Rightarrow> (bytes \<Rightarrow> int option) \<Rightarrow> (exn + unit) \<Rightarrow> db \<Rightarrow> bool" where
  "replay_ok V T res d' \<longleftrightarrow>
     (case res of
        Inl x \<Rightarrow> (\<exists>B. db_inv d' B) \<and> (is_bad_alloc x \<or> V = None)
      | Inr _ \<Rightarrow> \<exists>B. db_inv d' B \<and> V = Some (vals B) \<and> ttl_of B \<subseteq>\<^sub>m T \<and> replaying d')"

definition ks_empty :: keyspace where
  "ks_empty = \<lparr>ks_map = Map.empty, ks_order = []\<rparr>"

text \<open>
  The keyspace that replaying the records \<open>rs\<close> restores: every key of their values \<open>V\<close> with its object,
  and a key that has a deadline with the one that its last stamp gives, read against the clocks at
  the replay of that record.
\<close>

definition restores :: "(nat \<Rightarrow> env) \<Rightarrow> log_record list \<Rightarrow> vals \<Rightarrow> keyspace \<Rightarrow> bool" where
  "restores es rs V B \<longleftrightarrow>
     (\<forall>key. case V key of
        None \<Rightarrow> ks_map B key = None
      | Some (ob, timed) \<Rightarrow>
          if timed then \<exists>i s. last_stamp key rs = Some (i, s) \<and> ks_map B key = Some (ob, Some (due (es i) s))
          else ks_map B key = Some (ob, None))"

text \<open>Opening a log restores what it records, and removes the keys whose deadline has passed at that time, and no others.\<close>

definition recovers :: "(nat \<Rightarrow> env) \<Rightarrow> int \<Rightarrow> log_record list \<Rightarrow> vals \<Rightarrow> keyspace \<Rightarrow> bool" where
  "recovers es now rs V B \<longleftrightarrow>
     (\<exists>B0 ks. restores es rs V B0 \<and> swept now no_expiry_limit ks B0 \<and> B = fold a_drop ks B0
        \<and> (length ks = no_expiry_limit \<or> none_expired now B))"

text \<open>The records of a snapshot of one node, and whether its deadline can be written as a time stamp.\<close>

definition stamp_for :: "int \<Rightarrow> int \<Rightarrow> int \<Rightarrow> int" where
  "stamp_for steady wall t = wall + max 0 (t - steady)"

definition node_stamp :: "int \<Rightarrow> int \<Rightarrow> db \<Rightarrow> addr \<Rightarrow> int" where
  "node_stamp steady wall d a = stamp_for steady wall (deadline_of (d_sched d) a)"

definition node_log :: "env \<Rightarrow> int \<Rightarrow> int \<Rightarrow> db \<Rightarrow> addr \<Rightarrow> log_record list" where
  "node_log e steady wall d a =
     node_records e (node_at d a)
     @ (if has_flag flag_has_ttl (node_at d a)
        then [(op_code op_expire_at, [stored_key (node_at d a), decimal (node_stamp steady wall d a)])] else [])"

definition stamp_fits :: "int \<Rightarrow> int \<Rightarrow> db \<Rightarrow> addr \<Rightarrow> bool" where
  "stamp_fits steady wall d a \<longleftrightarrow> has_flag flag_has_ttl (node_at d a) \<longrightarrow> node_stamp steady wall d a \<le> max_int"

section \<open>Sweeps\<close>

lemma end_batch_log:
  assumes "end_batch env w = (r, w')" "log_inv w rs"
  shows "log_inv w' rs" "\<not> w_failed w' \<Longrightarrow> \<not> w_failed w"
proof -
  let ?w = "w\<lparr>w_defer := False\<rparr>"
  have i: "log_inv ?w rs" using assms(2) by simp
  show "log_inv w' rs"
    using assms(1) flush_locked_inv [OF i] i by (auto simp: end_batch_def Let_def split: if_splits)
  show "\<not> w_failed w' \<Longrightarrow> \<not> w_failed w"
    using assms(1) flush_locked_cases [of env ?w r w'] by (cases r) (auto simp: end_batch_def Let_def split: if_splits)
qed

lemma batch_inv:
  "db_inv d A \<Longrightarrow> db_inv (begin_wal_batch d) A" "db_inv d A \<Longrightarrow> end_wal_batch e d = (r, d') \<Longrightarrow> db_inv d' A"
proof -
  assume inv: "db_inv d A"
  have "log_ok (begin_wal_batch d) V" if l: "log_ok d V" for V
  proof (cases "d_wal d")
    case None
    then show ?thesis by (simp add: log_ok_def begin_wal_batch_def)
  next
    case (Some w)
    obtain rs extra where "log_inv w (rs @ extra)" "\<not> w_failed w \<longrightarrow> extra = []" "v_replay rs Map.empty = Some V"
      using l Some by (auto simp: log_ok_def)
    then have "log_inv (begin_batch w) (rs @ extra)" "\<not> w_failed (begin_batch w) \<longrightarrow> extra = []" "v_replay rs Map.empty = Some V"
      by (simp_all add: begin_batch_def)
    then show ?thesis using Some log_okI [of "begin_wal_batch d" "begin_batch w" rs extra V] by (simp add: begin_wal_batch_def)
  qed
  moreover have "db_rep {} (begin_wal_batch d) A" using db_inv_rep(1) [OF inv] by (simp add: db_rep_def counts_ok_def begin_wal_batch_def)
  ultimately show "db_inv (begin_wal_batch d) A" using inv by (auto simp: db_inv_def db_st_def begin_wal_batch_def)
next
  assume inv: "db_inv d A" and en: "end_wal_batch e d = (r, d')"
  have "log_ok d' V" if l: "log_ok d V" for V
  proof (cases "d_wal d")
    case None
    then show ?thesis using en l by (simp add: end_wal_batch_def)
  next
    case (Some w)
    obtain w' where w: "end_batch (e_io e) w = (r, w')" "d' = d\<lparr>d_wal := Some w'\<rparr>"
      using en Some by (auto simp: end_wal_batch_def split: prod.splits)
    obtain rs extra where rs: "log_inv w (rs @ extra)" "\<not> w_failed w \<longrightarrow> extra = []" "v_replay rs Map.empty = Some V"
      using l Some by (auto simp: log_ok_def)
    note el = end_batch_log [OF w(1) rs(1)]
    show ?thesis using el rs w(2) log_okI [of d' w' rs extra V] by simp
  qed
  moreover have "db_rep {} d' A" by (rule end_batch_rep [OF db_inv_rep(1) [OF inv] en])
  moreover have "replaying d' = replaying d" using en by (auto simp: end_wal_batch_def split: option.splits prod.splits)
  ultimately show "db_inv d' A" using inv by (auto simp: db_inv_def db_st_def)
qed

lemma in_batch_inv:
  assumes run: "in_batch e work d = (res, d')" and inv: "db_inv d A"
    and work: "\<And>r d1. work (begin_wal_batch d) = (r, d1) \<Longrightarrow> \<exists>A'. Q r A' \<and> db_inv d1 A'"
  shows "\<exists>r A'. Q r A' \<and> db_inv d' A' \<and> (\<forall>v. res = Inr v \<longrightarrow> r = Inr v)"
proof -
  obtain r d1 where w: "work (begin_wal_batch d) = (r, d1)" by (rule prod.exhaust)
  obtain A' where A': "Q r A'" "db_inv d1 A'" using work [OF w] by blast
  obtain r2 d2 where en: "end_wal_batch e d1 = (r2, d2)" by (rule prod.exhaust)
  have "db_inv d2 A'" by (rule batch_inv(2) [OF A'(2) en])
  moreover have "d' = d2" "\<forall>v. res = Inr v \<longrightarrow> r = Inr v"
    using run w en by (auto simp: in_batch_def split: sum.splits)
  ultimately show ?thesis using A'(1) by blast
qed

lemma counter_inv [simp]: "db_inv (d\<lparr>evictions := n\<rparr>) A = db_inv d A" "db_inv (d\<lparr>expired_keys := n\<rparr>) A = db_inv d A"
  by (simp_all add: db_inv_def)

lemma sweep_erase:
  assumes inv: "db_inv d A" and e: "env_ok e" and a: "a \<in> links d" and lg: "db_log e op_del [stored_key (node_at d a)] d = (res, d1)"
  shows "case res of Inl x \<Rightarrow> db_inv d1 A | Inr _ \<Rightarrow> db_inv (erase_node e a d1) (a_drop (keyat d a) A)"
proof -
  have k: "stored_key (node_at d a) = keyat d a" using linked_node(4) [OF db_inv_rep(1) [OF inv] a] .
  obtain ob where "ks_map A (keyat d a) = Some (ob, deadlines (d_sched d) a)" by (rule linked_obj [OF db_inv_rep(1) [OF inv] a])
  then have "length (keyat d a) \<le> max_key_length" using db_inv_rep(3) [OF inv] by (auto simp: ks_ok_def)
  from log_erase [OF inv e this a refl lg [unfolded k]] show ?thesis by (cases res) simp_all
qed

lemma evict_loop_inv:
  assumes "db_inv d A" "env_ok e" "evict_loop e target n ev d = (res, d')"
  shows "\<exists>k \<le> n. k \<le> length (ks_order A) \<and> db_inv d' (a_evict k A)
    \<and> (\<forall>v. res = Inr v \<longrightarrow> v = ev + k \<and> k = min n (length (ks_order A) - target))"
  using assms
proof (induction e target n ev d arbitrary: A rule: evict_loop.induct)
  case (1 e target ev d)
  then show ?case by auto
next
  case (2 e target n ev d)
  note r = db_inv_rep(1) [OF "2.prems"(1)]
  have len: "key_total d = length (ks_order A)" by (rule order_length [OF r])
  show ?case
  proof (cases "key_total d \<le> target \<or> lru_tail (d_lru d) = None")
    case True
    then have "res = Inr ev" "d' = d" using "2.prems"(3) by (auto split: option.splits)
    moreover have "length (ks_order A) - target = 0" using True tail_key(1) [OF r] len by auto
    ultimately show ?thesis using "2.prems"(1) by (intro exI [of _ 0]) auto
  next
    case False
    then obtain a where a: "lru_tail (d_lru d) = Some a" "target < key_total d" by auto
    note tk = tail_key(2) [OF r a(1)]
    obtain r1 d1 where l: "db_log e op_del [stored_key (node_at d a)] d = (r1, d1)" by (rule prod.exhaust)
    note se = sweep_erase [OF "2.prems"(1,2) _ l]
    show ?thesis
    proof (cases r1)
      case (Inl x)
      then have "res = Inl x" "d' = d1" using "2.prems"(3) a l by auto
      then show ?thesis using se tk Inl by (intro exI [of _ 0]) auto
    next
      case (Inr u)
      let ?d2 = "erase_node e a d1" and ?A = "a_drop (last (ks_order A)) A"
      let ?d3 = "?d2\<lparr>evictions := evictions ?d2 + 1\<rparr>"
      have r3: "db_inv ?d3 ?A" using se tk Inr by simp
      have run: "evict_loop e target n (ev + 1) ?d3 = (res, d')" using "2.prems"(3) a l Inr by (simp add: Let_def)
      have ne: "ks_order A \<noteq> []" using a(2) len by auto
      have "db_core {} d A" using r by (simp add: db_rep_core)
      then have di: "distinct (ks_order A)" by (rule order_distinct)
      have ol: "length (ks_order ?A) = length (ks_order A) - 1" unfolding drop_last_order [OF di ne] by simp
      obtain k where k: "k \<le> n" "k \<le> length (ks_order ?A)" "db_inv d' (a_evict k ?A)"
        "\<forall>v. res = Inr v \<longrightarrow> v = ev + 1 + k \<and> k = min n (length (ks_order ?A) - target)"
        using "2.IH" [OF _ a(1) l [symmetric] Inr refl refl r3 "2.prems"(2) run] a(2) by auto
      have "min (Suc n) (length (ks_order A) - target) = Suc (min n (length (ks_order A) - 1 - target))"
        using a(2) len by simp
      then show ?thesis using k ol ne a(2) len by (intro exI [of _ "Suc k"]) auto
    qed
  qed
qed

lemma evict_to_spec:
  assumes inv: "db_inv d A" and e: "env_ok e" and run: "evict_to e target limit d = (res, d')"
  shows "\<exists>k \<le> limit. k \<le> length (ks_order A) \<and> db_inv d' (a_evict k A)
    \<and> (\<forall>v. res = Inr v \<longrightarrow> v = k \<and> k = min limit (length (ks_order A) - target))"
proof -
  let ?Q = "\<lambda>(r :: exn + nat) A'. \<exists>k \<le> limit. k \<le> length (ks_order A) \<and> A' = a_evict k A
    \<and> (\<forall>v. r = Inr v \<longrightarrow> v = k \<and> k = min limit (length (ks_order A) - target))"
  have "\<exists>r A'. ?Q r A' \<and> db_inv d' A' \<and> (\<forall>v. res = Inr v \<longrightarrow> r = Inr v)"
  proof (rule in_batch_inv [where Q = ?Q, OF run [unfolded evict_to_def] inv])
    fix r d1 assume "evict_loop e target limit 0 (begin_wal_batch d) = (r, d1)"
    from evict_loop_inv [OF batch_inv(1) [OF inv] e this] show "\<exists>A'. ?Q r A' \<and> db_inv d1 A'" by auto
  qed
  then show ?thesis by blast
qed

lemma expire_loop_inv:
  assumes "db_inv d A" "env_ok e" "expire_loop e now n d = (res, d')"
  shows "\<exists>ks. swept now n ks A \<and> db_inv d' (fold a_drop ks A)
    \<and> (res = Inr () \<longrightarrow> length ks = n \<or> none_expired now (fold a_drop ks A))"
  using assms
proof (induction e now n d arbitrary: A rule: expire_loop.induct)
  case (1 e now d)
  then show ?case by (intro exI [of _ "[]"]) (simp add: swept_def)
next
  case (2 e now n d)
  note r = db_inv_rep(1) [OF "2.prems"(1)]
  note fe = front_expired [OF r]
  show ?case
  proof (cases "sched_front (d_sched d)")
    case None
    then show ?thesis using "2.prems" fe(1) by (intro exI [of _ "[]"]) (auto simp: swept_def)
  next
    case (Some a)
    show ?thesis
    proof (cases "now < deadline_of (d_sched d) a")
      case True
      then show ?thesis using "2.prems" Some fe(2) by (intro exI [of _ "[]"]) (auto simp: swept_def)
    next
      case False
      obtain v where a: "a \<in> links d" "ks_map A (keyat d a) = Some v" "is_expired now v"
        using fe(3) [OF Some False] by blast
      obtain r1 d1 where l: "db_log e op_del [stored_key (node_at d a)] d = (r1, d1)" by (rule prod.exhaust)
      note se = sweep_erase [OF "2.prems"(1,2) a(1) l]
      show ?thesis
      proof (cases r1)
        case (Inl x)
        then have "res = Inl x" "d' = d1" using "2.prems"(3) Some False l by auto
        then show ?thesis using se Inl by (intro exI [of _ "[]"]) (simp add: swept_def)
      next
        case (Inr u)
        let ?d2 = "erase_node e a d1" and ?A = "a_drop (keyat d a) A"
        let ?d3 = "?d2\<lparr>expired_keys := expired_keys ?d2 + 1\<rparr>"
        have r3: "db_inv ?d3 ?A" using se Inr by simp
        have run: "expire_loop e now n ?d3 = (res, d')" using "2.prems"(3) Some False l Inr by (simp add: Let_def)
        obtain ks where k: "swept now n ks ?A" "db_inv d' (fold a_drop ks ?A)"
          "res = Inr () \<longrightarrow> length ks = n \<or> none_expired now (fold a_drop ks ?A)"
          using "2.IH" [OF Some False l [symmetric] Inr refl refl r3 "2.prems"(2) run] by blast
        then show ?thesis using drop_swept [OF k(1) a(2,3)] by (intro exI [of _ "keyat d a # ks"]) auto
      qed
    qed
  qed
qed

lemma remove_expired_locked_spec:
  assumes inv: "db_inv d A" and e: "env_ok e" and run: "remove_expired_locked e limit d = (res, d')"
  shows "\<exists>ks. swept (e_steady e 0) limit ks A \<and> db_inv d' (fold a_drop ks A)
    \<and> (res = Inr () \<longrightarrow> length ks = limit \<or> none_expired (e_steady e 0) (fold a_drop ks A))"
proof -
  let ?now = "e_steady e 0"
  let ?Q = "\<lambda>(r :: exn + unit) A'. \<exists>ks. swept ?now limit ks A \<and> A' = fold a_drop ks A
    \<and> (r = Inr () \<longrightarrow> length ks = limit \<or> none_expired ?now (fold a_drop ks A))"
  have "\<exists>r A'. ?Q r A' \<and> db_inv d' A' \<and> (\<forall>v. res = Inr v \<longrightarrow> r = Inr v)"
  proof (rule in_batch_inv [where Q = ?Q, OF run [unfolded remove_expired_locked_def] inv])
    fix r d1 assume "expire_loop e ?now limit (begin_wal_batch d) = (r, d1)"
    from expire_loop_inv [OF batch_inv(1) [OF inv] e this] show "\<exists>A'. ?Q r A' \<and> db_inv d1 A'" by blast
  qed
  then show ?thesis by blast
qed

lemma remove_expired_spec:
  assumes inv: "db_inv d A" and e: "env_ok e" and run: "remove_expired e limit d = (res, d')"
  shows "\<exists>ks. swept (e_steady e 0) limit ks A \<and> db_inv d' (fold a_drop ks A)
    \<and> (res = Inr () \<longrightarrow> length ks = limit \<or> none_expired (e_steady e 0) (fold a_drop ks A))"
proof (cases "ttl_hint d")
  case True
  then show ?thesis using remove_expired_locked_spec [OF inv e] run by (simp add: remove_expired_def)
next
  case False
  have r: "db_rep {} d A" by (rule db_inv_rep(1) [OF inv])
  have "sched_front (d_sched d) = None" using False db_repD(7) [OF r] by (simp add: counts_ok_def sched_front_def)
  then have "none_expired (e_steady e 0) A" using front_expired(1) [OF r] by blast
  then show ?thesis using run inv False by (intro exI [of _ "[]"]) (simp add: remove_expired_def swept_def)
qed

section \<open>Replay\<close>

lemma replaying_inv: "replaying d \<Longrightarrow> db_inv d A \<longleftrightarrow> db_rep {} d A \<and> ks_ok A"
  by (auto simp: db_inv_def db_st_def)

lemma seen_replaying [simp]: "replaying d \<Longrightarrow> vals (a_seen e d key A) = vals A"
  by (auto simp: a_seen_alt split: option.splits)

lemma replay_ok_simps [simp]:
  "replay_ok V T (Inl x) d' \<longleftrightarrow> (\<exists>B. db_inv d' B) \<and> (is_bad_alloc x \<or> V = None)"
  "replay_ok V T (Inr u) d' \<longleftrightarrow> (\<exists>B. db_inv d' B \<and> V = Some (vals B) \<and> ttl_of B \<subseteq>\<^sub>m T \<and> replaying d')"
  by (simp_all add: replay_ok_def)

lemma ttl_simps [simp]:
  "ttl_of (a_touch key A) = ttl_of A" "ttl_of (a_drop key A) = (ttl_of A)(key := None)"
  "ttl_of (a_put key v A) = (ttl_of A)(key := snd v)" "ttl_of (a_store key ob A) = ttl_of A"
  by (auto simp: ttl_of_def a_store_def fun_eq_iff)

lemma ttl_seen [simp]: "replaying d \<Longrightarrow> ttl_of (a_seen e d key A) = ttl_of A"
  by (auto simp: a_seen_alt split: option.splits)

lemma map_leI: "(\<And>k v. f k = Some v \<Longrightarrow> g k = Some v) \<Longrightarrow> f \<subseteq>\<^sub>m g"
  by (auto simp: map_le_def)

lemma map_leD: "f \<subseteq>\<^sub>m g \<Longrightarrow> f k = Some v \<Longrightarrow> g k = Some v"
  by (metis domI map_le_def)

lemma ttl_cleared [simp]: "T(key := None) \<subseteq>\<^sub>m T"
  by (simp add: map_le_def)

lemma kept_exists: "kept e d key A d' \<Longrightarrow> \<exists>B. db_inv d' B"
  by (auto simp: kept_def)

lemma replayed_outcome:
  assumes rp: "replaying d" and k: "length key \<le> max_key_length"
    and oc: "outcome e d key A r d1 True err good" and run: "replayed (r, d1) = (res, d')"
    and err: "\<And>c. err c \<Longrightarrow> V = None" and good: "\<And>y B. good y B \<Longrightarrow> V = Some (vals B) \<and> ttl_of B \<subseteq>\<^sub>m T"
  shows "replay_ok V T res d'"
proof -
  consider x where "r = Inl x" | c where "r = Inr (Inl c)" | y where "r = Inr (Inr y)" by (metis sum.exhaust)
  then show ?thesis
  proof cases
    case 1
    then show ?thesis using run oc rp k kept_exists by (auto simp: replayed_def)
  next
    case 2
    then show ?thesis using run oc err by (auto simp: replayed_def)
  next
    case 3
    then obtain B where "db_inv d1 B" "good y B" "replaying d1" using oc rp by auto
    then show ?thesis using run 3 good [of y B] by (auto simp: replayed_def)
  qed
qed

lemma replay_integer_set:
  assumes inv: "db_inv d A" and rp: "replaying d" and e: "env_ok e" and k: "length key \<le> max_key_length"
    and run: "replay_integer_set e key v d = (res, d')"
  shows "replay_ok (Some ((vals A)(key \<mapsto> (OInteger v, False)))) (ttl_of A) res d'"
proof -
  define d1 where "d1 = (case find_node key d of Some old \<Rightarrow> erase_node e old d | None \<Rightarrow> d)"
  define B where "B = (case find_node key d of Some old \<Rightarrow> a_drop key A | None \<Rightarrow> A)"
  have r: "db_rep {} d A" "ks_ok A" using inv db_inv_rep by auto
  have r1: "db_rep {} d1 B" "ks_map B key = None" "replaying d1" "ks_ok B" "vals B = (vals A)(key := None)" "ttl_of B \<subseteq>\<^sub>m ttl_of A"
  proof -
    have "db_rep {} d1 B \<and> ks_map B key = None \<and> replaying d1 \<and> ks_ok B \<and> vals B = (vals A)(key := None) \<and> ttl_of B \<subseteq>\<^sub>m ttl_of A"
    proof (cases "find_node key d")
      case None
      then have "ks_map A key = None" using find_node_None [OF r(1)] by blast
      then show ?thesis using None r rp by (simp add: d1_def B_def vals_def fun_eq_iff)
    next
      case (Some a)
      note f = find_node_Some [OF r(1) Some]
      show ?thesis using erase_rep(1) [OF r(1) e f(1)] f(2) Some r(2) rp by (simp add: d1_def B_def)
    qed
    then show "db_rep {} d1 B" "ks_map B key = None" "replaying d1" "ks_ok B" "vals B = (vals A)(key := None)"
      "ttl_of B \<subseteq>\<^sub>m ttl_of A" by simp_all
  qed
  have i1: "db_inv d1 B" using r1 by (simp add: replaying_inv)
  obtain r2 d2 where ins: "insert_node e key NInteger 8 d1 = (r2, d2)" by fastforce
  show ?thesis
  proof (cases r2)
    case (Inl x)
    obtain rm dm where m: "maybe_rehash e d1 = (rm, dm)" by fastforce
    note im = rehash_if_inv [OF i1 e, of True, simplified, OF m]
    obtain rc dc where c: "create_node e key NInteger 8 dm = (rc, dc)" by fastforce
    note cs = create_st [OF db_inv_rep(2) [OF im(1)] e k c]
    have "db_inv d2 B \<and> is_bad_alloc x"
    proof (cases rm)
      case x': (Inl x')
      then show ?thesis using ins Inl m im(1,2) by (auto simp: insert_node_def)
    next
      case (Inr u)
      then have "rc = Inl x" "dc = d2" using ins Inl m c by (auto simp: insert_node_def Let_def split: sum.splits prod.splits)
      then show ?thesis using cs r1(4) by (simp add: db_inv_def)
    qed
    moreover have "res = Inl x" "d' = d2" using run ins Inl by (simp_all add: replay_integer_set_def d1_def)
    ultimately show ?thesis by auto
  next
    case (Inr a)
    define Q where "Q ob n \<longleftrightarrow> node_wf n \<and> 8 \<le> length (body n) \<and> node_type n = NInteger \<and> node_flags n = 0" for ob :: obj and n
    obtain ob where ob: "db_rep {} d2 (a_touch key (a_put key (ob, None) B))" "a \<in> links d2" "keyat d2 a = key" "Q ob (node_at d2 a)"
    proof (rule insert_rep [OF r1(1) e k r1(2) ins [unfolded Inr], where Q = Q])
      fix n assume n: "node_wf n" "8 \<le> length (body n)" "node_type n = NInteger" "node_flags n = 0"
      have "node_rep n (OInteger (integer_value n))" using n by simp
      then show "\<exists>ob. node_rep n ob \<and> Q ob n" using n by (intro exI [of _ "OInteger (integer_value n)"]) (simp add: Q_def)
    qed (use that in blast)
    let ?A = "a_touch key (a_put key (ob, None) B)" and ?n = "node_at d2 a"
    have n: "node_wf ?n" "8 \<le> length (body ?n)" "node_type ?n = NInteger" using ob(4) by (simp_all add: Q_def)
    note si = set_integer_value [OF n(1,2), where v = v]
    have kb: "key_bytes ?n = key" using linked_node(3) [OF ob(1,2)] ob(3) by simp
    have dl: "deadlines (d_sched d2) a = None" using linked_val(2) [OF ob(1,2), of ob None] ob(3) by simp
    have "node_rep (set_integer_value v ?n) (OInteger v)" using si n(2,3) by simp
    from put_rep [OF ob(1,2) si(1) _ this si(2,3)]
    have rep: "db_rep {} (put_node a (set_integer_value v ?n) d2) (a_put key (OInteger v, None) ?A)" using si(4) kb ob(3) dl by simp
    have d': "res = Inr ()" "d' = put_node a (set_integer_value v ?n) d2"
      using run ins Inr by (simp_all add: replay_integer_set_def d1_def)
    have rp2: "replaying d2"
      using ins Inr r1(3)
      by (auto simp: insert_node_def maybe_rehash_def rehash_def create_node_def std_alloc_def Let_def link_def touch_node_def bump_sequence_def
          set_key_total_def put_node_def split: prod.splits sum.splits if_splits)
    have "ks_ok (a_put key (OInteger v, None) ?A)" using r1(4) k by (auto simp: ks_ok_def)
    then have "db_inv d' (a_put key (OInteger v, None) ?A)" using rep rp2 d'(2) by (simp add: replaying_inv)
    moreover have "vals (a_put key (OInteger v, None) ?A) = (vals A)(key \<mapsto> (OInteger v, False))" using r1(5) by simp
    moreover have "ttl_of (a_put key (OInteger v, None) ?A) \<subseteq>\<^sub>m ttl_of A" using r1(6) by (simp add: map_le_def)
    ultimately show ?thesis using d' rp2 by (metis put_node_simps(2) replay_ok_simps(2))
  qed
qed

lemma replay_expire:
  assumes inv: "db_inv d A" and rp: "replaying d" and e: "env_ok e" and clock: "0 \<le> e_steady e 0"
    and run: "replay_expire_at e key stamp d = (res, d')"
  shows "replay_ok (case (vals A key, from_chars_i64 stamp) of
      (Some v, Some wall) \<Rightarrow> if sint wall < 0 then None else Some ((vals A)(key \<mapsto> (fst v, True)))
    | _ \<Rightarrow> None) (case from_chars_i64 stamp of None \<Rightarrow> ttl_of A | Some wall \<Rightarrow> (ttl_of A)(key \<mapsto> due e (sint wall))) res d'"
proof -
  have r: "db_rep {} d A" using inv by (rule db_inv_rep)
  show ?thesis
  proof (cases "find_node key d")
    case None
    then show ?thesis using find_node_None [OF r None] run inv by (auto simp: replay_expire_at_def vals_def)
  next
    case (Some a)
    note f = find_node_Some [OF r Some]
    obtain ob where ob: "ks_map A key = Some (ob, deadlines (d_sched d) a)" using linked_obj [OF r f(1)] f(2) by auto
    have va: "vals A key = Some (ob, deadlines (d_sched d) a \<noteq> None)" by (simp add: vals_def ob)
    show ?thesis
    proof (cases "from_chars_i64 stamp")
      case None
      then show ?thesis using run Some inv va by (auto simp: replay_expire_at_def)
    next
      case w: (Some wall)
      show ?thesis
      proof (cases "sint wall < 0")
        case True
        then show ?thesis using run Some w inv va by (auto simp: replay_expire_at_def)
      next
        case False
        define dl where "dl = e_steady e 0 + (if e_wall e 0 < sint wall then sint wall - e_wall e 0 else 0)"
        have "schedule_expiry e a dl d = (res, d')" using run Some w False by (simp add: replay_expire_at_def Let_def dl_def)
        note s = schedule_st [OF db_inv_rep(2) [OF inv] e f ob this]
        have "0 \<le> dl" "due e (sint wall) = dl" using clock by (simp_all add: dl_def due_def)
        then have k: "ks_ok (a_put key (ob, Some dl) A)" using db_inv_rep(3) [OF inv] ob by (auto simp: ks_ok_def)
        have v: "vals (a_put key (ob, Some dl) A) = (vals A)(key \<mapsto> (ob, True))" by simp
        show ?thesis
        proof (cases res)
          case (Inl x)
          then show ?thesis using s db_inv_rep(3) [OF inv] by (auto simp: db_inv_def)
        next
          case (Inr u)
          then have "db_inv d' (a_put key (ob, Some dl) A)" using s k rp by (simp add: db_st_def replaying_inv)
          then show ?thesis unfolding va w Inr using s Inr rp False v \<open>due e (sint wall) = dl\<close>
            by (auto intro!: exI [of _ "a_put key (ob, Some dl) A"])
        qed
      qed
    qed
  qed
qed

lemma replay_set:
  assumes inv: "db_inv d A" and rp: "replaying d" and e: "env_ok e" and k: "length key \<le> max_key_length"
    and run: "db_set e key val d = (res, d')"
  shows "replay_ok (if length val \<le> value_limit then Some ((vals A)(key \<mapsto> (OString val, False))) else None) (ttl_of A) res d'"
proof -
  note s = set_spec [OF inv e run]
  show ?thesis
  proof (cases res)
    case (Inl x)
    then show ?thesis using s rp k kept_exists by auto
  next
    case (Inr u)
    have "vals (a_touch key (a_put key (OString val, None) (a_seen e d key A))) = (vals A)(key \<mapsto> (OString val, False))" using rp by simp
    then show ?thesis using s Inr rp by (auto intro!: exI [of _ "a_touch key (a_put key (OString val, None) (a_seen e d key A))"])
  qed
qed

lemma replay_push:
  assumes inv: "db_inv d A" and rp: "replaying d" and e: "env_ok e" and k: "length key \<le> max_key_length"
    and run: "(case replay_value tag val of None \<Rightarrow> (Inl (Error disk_read_failed), d) | Some v \<Rightarrow> replayed (list_push e key v front d)) = (res, d')"
  shows "replay_ok (v_push key tag val front (vals A)) (ttl_of A) res d'"
proof (cases "replay_value tag val")
  case None
  then show ?thesis using run inv by (auto simp: v_push_def)
next
  case (Some v)
  obtain r d1 where p: "list_push e key v front d = (r, d1)" by fastforce
  have run': "replayed (r, d1) = (res, d')" using run Some p by simp
  show ?thesis
    by (rule replayed_outcome [OF rp k list_push_spec [OF inv e p] run'])
      (use rp in \<open>auto simp: v_push_def Some vals_store\<close>)
qed

lemma replay_pop:
  assumes inv: "db_inv d A" and rp: "replaying d" and e: "env_ok e" and k: "length key \<le> max_key_length"
    and run: "replayed (list_pop e key front d) = (res, d')"
  shows "replay_ok (v_pop key front (vals A)) (ttl_of A) res d'"
proof -
  obtain r d1 where p: "list_pop e key front d = (r, d1)" by fastforce
  show ?thesis
    by (rule replayed_outcome [OF rp k list_pop_spec [OF inv e p] run [unfolded p]])
      (use rp in \<open>auto simp: v_pop_def v_list_def vals_store split: sum.splits option.splits\<close>)
qed

lemma retime_op:
  "wal_op_of opc = Some opr \<Longrightarrow> retime e (opc, a) T =
     (if opr = op_expire_at then (case from_chars_i64 (a ! 1) of None \<Rightarrow> T | Some s \<Rightarrow> T(a ! 0 \<mapsto> due e (sint s))) else T)"
  by (simp add: retime_def record_stamp_def split: option.splits)

lemma replay_op:
  assumes inv: "db_inv d A" and rp: "replaying d" and e: "env_ok e" and clock: "0 \<le> e_steady e 0"
    and a: "length a = expected_args opr" "length (a ! 0) \<le> max_key_length"
    and run: "replay_op e opr a d = (res, d')"
  shows "replay_ok (v_op opr a (vals A))
    (if opr = op_expire_at then (case from_chars_i64 (a ! 1) of None \<Rightarrow> ttl_of A | Some s \<Rightarrow> (ttl_of A)(a ! 0 \<mapsto> due e (sint s)))
     else ttl_of A) res d'"
proof (cases opr)
  case op_set
  then have "db_set e (a ! 0) (a ! 1) d = (res, d')" using run by (simp add: replay_op_def)
  from replay_set [OF inv rp e a(2) this] show ?thesis by (simp add: op_set)
next
  case op_increment
  obtain r d1 where p: "increment e (a ! 0) d = (r, d1)" by fastforce
  have "replayed (r, d1) = (res, d')" using run op_increment p by (simp add: replay_op_def)
  from replayed_outcome [OF rp a(2) increment_spec [OF inv e p] this] show ?thesis
    using rp by (auto simp: op_increment vals_store split: sum.splits)
next
  case op_push_left
  then show ?thesis using replay_push [OF inv rp e a(2)] run by (simp add: replay_op_def)
next
  case op_push_right
  then show ?thesis using replay_push [OF inv rp e a(2)] run by (simp add: replay_op_def)
next
  case op_pop_left
  then show ?thesis using replay_pop [OF inv rp e a(2)] run by (simp add: replay_op_def)
next
  case op_pop_right
  then show ?thesis using replay_pop [OF inv rp e a(2)] run by (simp add: replay_op_def)
next
  case op_hash_set
  show ?thesis
  proof (cases "replay_value (a ! 2) (a ! 3)")
    case None
    then show ?thesis using run inv op_hash_set by (auto simp: replay_op_def)
  next
    case (Some v)
    obtain r d1 where p: "hash_assign e (a ! 0) (a ! 1) v d = (r, d1)" by fastforce
    have "replayed (r, d1) = (res, d')" using run op_hash_set Some p by (simp add: replay_op_def)
    from replayed_outcome [OF rp a(2) hash_assign_spec [OF inv e p] this] show ?thesis
      using rp by (auto simp: op_hash_set Some vals_store split: sum.splits)
  qed
next
  case op_hash_del
  obtain r d1 where p: "hash_del e (a ! 0) (a ! 1) d = (r, d1)" by fastforce
  have "replayed (r, d1) = (res, d')" using run op_hash_del p by (simp add: replay_op_def)
  from replayed_outcome [OF rp a(2) hash_del_spec [OF inv e p] this] show ?thesis
    using rp by (auto simp: op_hash_del vals_store v_hash_def split: sum.splits option.splits)
next
  case op_expire_at
  then show ?thesis using replay_expire [OF inv rp e clock] run by (simp add: replay_op_def)
next
  case op_del
  obtain r d1 where p: "del e (a ! 0) d = (r, d1)" by fastforce
  note s = del_spec [OF inv e p]
  show ?thesis
  proof (cases r)
    case (Inl x)
    then show ?thesis using s rp a(2) by simp
  next
    case (Inr b)
    let ?S = "a_seen e d (a ! 0) A"
    have S: "vals ?S = vals A" by (rule seen_replaying [OF rp])
    have d': "res = Inr ()" "d' = d1" using run p Inr by (simp_all add: replay_op_def op_del)
    show ?thesis
    proof (cases b)
      case True
      then show ?thesis using s Inr rp d' S by (auto simp: op_del intro!: exI [of _ "a_drop (a ! 0) ?S"])
    next
      case False
      then have "vals A (a ! 0) = None" using s Inr unfolding S [symmetric] by (cases "ks_map ?S (a ! 0)") (auto simp: vals_def)
      then have "(vals A)(a ! 0 := None) = vals ?S" by (simp add: S fun_upd_idem)
      then show ?thesis using s Inr rp d' False by (auto simp: op_del intro!: exI [of _ ?S])
    qed
  qed
next
  case op_integer_set
  then show ?thesis using run inv replay_integer_set [OF inv rp e a(2)] by (auto simp: replay_op_def split: option.splits)
qed

lemma db_replay_refines:
  assumes inv: "db_inv d A" and rp: "replaying d" and e: "env_ok e" and clock: "0 \<le> e_steady e 0"
    and run: "db_replay e opc a d = (res, d')"
  shows "replay_ok (v_record (opc, a) (vals A)) (retime e (opc, a) (ttl_of A)) res d'"
proof (cases "wal_op_of opc")
  case None
  then show ?thesis using run inv by (auto simp: db_replay_def v_record_def)
next
  case (Some opr)
  show ?thesis
  proof (cases "length a \<noteq> expected_args opr \<or> a = [] \<or> max_key_length < length (a ! 0)")
    case True
    have "0 < expected_args opr" by (cases opr) simp_all
    then have "v_record (opc, a) (vals A) = None" using True Some by (auto simp: v_record_def v_apply_def)
    then show ?thesis using run inv Some True by (auto simp: db_replay_def)
  next
    case False
    then have a: "length a = expected_args opr" "length (a ! 0) \<le> max_key_length" by simp_all
    have "replay_op e opr a d = (res, d')" using run Some False by (simp add: db_replay_def)
    from replay_op [OF inv rp e clock a this] show ?thesis using a Some by (simp add: v_record_def v_apply_def retime_op [OF Some])
  qed
qed

lemma replay_ok_mono: "replay_ok V T res d' \<Longrightarrow> T \<subseteq>\<^sub>m T' \<Longrightarrow> replay_ok V T' res d'"
  by (cases res) (auto intro: map_le_trans)

text \<open>The deadlines after a sequence of records: the last stamp of a key gives its deadline.\<close>

lemma retime_step:
  assumes "T' \<subseteq>\<^sub>m retime (es n) r T"
  shows "(\<lambda>key. case last_stamp key rs of None \<Rightarrow> T' key | Some (i, s) \<Rightarrow> Some (due (es (n + 1 + i)) s))
    \<subseteq>\<^sub>m (\<lambda>key. case last_stamp key (r # rs) of None \<Rightarrow> T key | Some (i, s) \<Rightarrow> Some (due (es (n + i)) s))"
proof (rule map_leI)
  fix key t
  assume t: "(case last_stamp key rs of None \<Rightarrow> T' key | Some (i, s) \<Rightarrow> Some (due (es (n + 1 + i)) s)) = Some t"
  show "(case last_stamp key (r # rs) of None \<Rightarrow> T key | Some (i, s) \<Rightarrow> Some (due (es (n + i)) s)) = Some t"
  proof (cases "last_stamp key rs")
    case None
    then have "T' key = Some t" using t by simp
    then have "retime (es n) r T key = Some t" using map_leD [OF assms] by blast
    then show ?thesis using None by (auto simp: retime_def split: option.splits if_splits)
  next
    case (Some p)
    then show ?thesis using t by (cases p) simp
  qed
qed

lemma replay_all_refines:
  assumes "db_inv d A" "replaying d" "\<And>i. env_ok (es i) \<and> 0 \<le> e_steady (es i) 0"
    "replay_all (replay_step es) rs (d, n) = (res, d', n')"
  shows "replay_ok (v_replay rs (vals A))
    (\<lambda>key. case last_stamp key rs of None \<Rightarrow> ttl_of A key | Some (i, s) \<Rightarrow> Some (due (es (n + i)) s)) res d'"
  using assms
proof (induction rs arbitrary: d A n)
  case Nil
  then have "ttl_of A \<subseteq>\<^sub>m ttl_of A" "res = Inr ()" "d' = d" by simp_all
  then show ?case using Nil by auto
next
  case (Cons r rs)
  obtain r1 d1 where s: "db_replay (es n) (fst r) (snd r) d = (r1, d1)" by fastforce
  have ro: "replay_ok (v_record r (vals A)) (retime (es n) r (ttl_of A)) r1 d1"
    using db_replay_refines [OF Cons.prems(1,2) _ _ s] Cons.prems(3) by simp
  have st: "replay_step es (fst r) (snd r) (d, n) = (r1, d1, n + 1)" by (simp add: replay_step_def s)
  show ?case
  proof (cases r1)
    case (Inl x)
    then have "res = Inl x" "d' = d1" using Cons.prems(4) st by simp_all
    then show ?thesis using ro Inl by auto
  next
    case (Inr u)
    then obtain B where B: "db_inv d1 B" "v_record r (vals A) = Some (vals B)" "replaying d1" "ttl_of B \<subseteq>\<^sub>m retime (es n) r (ttl_of A)"
      using ro by auto
    have "replay_all (replay_step es) rs (d1, n + 1) = (res, d', n')" using Cons.prems(4) st Inr by simp
    from replay_ok_mono [OF Cons.IH [OF B(1,3) Cons.prems(3) this] retime_step [where es = es and n = n, OF B(4)]]
    show ?thesis using B(2) by (simp del: last_stamp.simps)
  qed
qed

section \<open>An empty keyspace\<close>

lemma vals_empty [simp]: "vals ks_empty = Map.empty" "ks_ok ks_empty"
  by (auto simp: vals_def ks_empty_def ks_ok_def)

lemma distinct_buckets:
  assumes "table_ok B N P"
  shows "distinct (concat B)"
proof -
  have b: "i < length B \<Longrightarrow> distinct (B ! i) \<and> (\<forall>a \<in> set (B ! i). bucket_of (nkey N a) (length B) = i)" for i
    using assms by (auto simp: table_ok_def)
  have g: "distinct (concat B)" if "\<And>i. i < length B \<Longrightarrow> distinct (B ! i) \<and> (\<forall>a \<in> set (B ! i). f a = i + k)" for B :: "addr list list" and f k
    using that
  proof (induction B arbitrary: k)
    case (Cons c B)
    have "distinct (concat B)" by (rule Cons.IH [of "k + 1"]) (use Cons.prems [of "Suc _"] in auto)
    moreover have "distinct c" "\<forall>a \<in> set c. f a = k" using Cons.prems [of 0] by simp_all
    moreover have "f a \<noteq> k" if m: "a \<in> set (concat B)" for a
    proof -
      obtain i where "i < length B" "a \<in> set (B ! i)" using m unfolding set_concat by (auto simp: in_set_conv_nth [of _ B])
      then show ?thesis using Cons.prems [of "Suc i"] by simp
    qed
    ultimately show ?case by auto
  qed simp
  show ?thesis
  proof (rule g [of B "\<lambda>a. bucket_of (nkey N a) (length B)" 0])
    fix i assume "i < length B"
    from b [OF this] show "distinct (B ! i) \<and> (\<forall>a \<in> set (B ! i). bucket_of (nkey N a) (length B) = i + 0)" unfolding add_0_right .
  qed
qed

lemma fold_destroy:
  assumes "distinct xs" "set xs \<subseteq> dom (d_nodes d)" "pool_ok (d_pool d) (live (d_nodes d))" "env_ok e" "finite (dom (d_nodes d))"
    "tracked_bytes d = (\<Sum>a \<in> dom (d_nodes d). node_block_size (the (d_nodes d a)))"
  shows "let d' = fold (destroy e) xs d in
      d_nodes d' = d_nodes d |` (- set xs) \<and> pool_ok (d_pool d') (live (d_nodes d'))
      \<and> tracked_bytes d' = (\<Sum>a \<in> dom (d_nodes d'). node_block_size (the (d_nodes d' a)))
      \<and> d_buckets d' = d_buckets d \<and> d_lru d' = d_lru d \<and> d_wal d' = d_wal d \<and> replaying d' = replaying d"
  using assms
proof (induction xs arbitrary: d)
  case (Cons a xs)
  have da: "d_nodes d a = Some (node_at d a)" using Cons.prems(2) by (auto simp: node_at_def)
  let ?d = "destroy e a d"
  have p: "pool_ok (d_pool ?d) (live (d_nodes ?d))" using destroy_pool [OF Cons.prems(3,4) da] by simp
  have t: "tracked_bytes ?d = (\<Sum>b \<in> dom (d_nodes ?d). node_block_size (the (d_nodes ?d b)))"
    using sum_remove [OF Cons.prems(5) da] Cons.prems(6) by simp
  have n: "distinct xs" "set xs \<subseteq> dom (d_nodes ?d)" "finite (dom (d_nodes ?d))" using Cons.prems(1,2,5) by auto
  have m: "(d_nodes d)(a := None) |` (- set xs) = d_nodes d |` (- set (a # xs))" by (auto simp: restrict_map_def fun_eq_iff)
  show ?case using Cons.IH [OF n(1,2) p Cons.prems(4) n(3) t, unfolded destroy_fields m] by (simp only: fold_simps)
qed (auto simp: restrict_map_def Let_def)

lemma empty_rep:
  assumes "length (d_buckets d) = 2 ^ k" "concat (d_buckets d) = []" "d_nodes d = Map.empty" "lru_head (d_lru d) = None" "lru_tail (d_lru d) = None"
    "d_sched d = schedule_init" "pool_ok (d_pool d) Map.empty" "key_total d = 0" "key_hint d = 0" "ttl_key_count d = 0" "\<not> ttl_hint d" "tracked_bytes d = 0"
  shows "db_rep {} d ks_empty"
proof -
  have L: "links d = {}" using assms(2) by (simp add: linked_def)
  have e: "i < length (d_buckets d) \<Longrightarrow> d_buckets d ! i = []" for i using assms(2) by (auto simp: concat_eq_Nil_conv)
  have "table_ok (d_buckets d) (d_nodes d) {}" using assms(1,3) L e by (auto simp: table_ok_def)
  moreover have "dll (d_lru d) []" using assms(4,5) by (simp add: dll_def)
  then have "order_ok (d_lru d) (links d) (d_nodes d) {} []" using L by (auto simp: order_ok_def)
  moreover have "timers_ok (d_sched d) (links d) (d_nodes d)" using assms(6) L by (simp add: timers_ok_def)
  moreover have "live (d_nodes d) = Map.empty" using assms(3) by (simp add: live_def fun_eq_iff)
  ultimately show ?thesis using assms L by (simp add: db_rep_def kv_ok_def counts_ok_def ks_empty_def schedule_init_def)
qed

lemma clear_rep:
  assumes r: "db_rep {} d A" and e: "env_ok e"
  shows "db_rep {} (clear_keyspace e d) ks_empty" "d_wal (clear_keyspace e d) = d_wal d" "replaying (clear_keyspace e d) = replaying d"
proof -
  let ?d = "fold (destroy e) (concat (d_buckets d)) d"
  note D = db_repD [OF r]
  have dom: "dom (d_nodes d) = set (concat (d_buckets d))" using D(1) by (auto simp: table_ok_def linked_def)
  have "tracked_bytes d = (\<Sum>a \<in> dom (d_nodes d). node_block_size (the (d_nodes d a)))" using D(7) by (simp add: counts_ok_def)
  note F = fold_destroy [OF distinct_buckets [OF D(1)] equalityD2 [OF dom] D(4) e finite_nodes [OF r] this, unfolded Let_def, folded dom]
  have f: "d_nodes ?d = d_nodes d |` (- dom (d_nodes d))" "pool_ok (d_pool ?d) (live (d_nodes ?d))"
      "tracked_bytes ?d = (\<Sum>a \<in> dom (d_nodes ?d). node_block_size (the (d_nodes ?d a)))"
      "d_buckets ?d = d_buckets d" "d_wal ?d = d_wal d" "replaying ?d = replaying d"
    using F by blast+
  have n: "d_nodes ?d = Map.empty" unfolding f(1) by (auto simp: restrict_map_def fun_eq_iff)
  let ?c = "?d\<lparr>d_buckets := replicate (length (d_buckets ?d)) [], d_lru := (d_lru ?d)\<lparr>lru_head := None, lru_tail := None\<rparr>,
     key_total := 0, ttl_key_count := 0, d_sched := schedule_init, key_hint := 0, ttl_hint := False\<rparr>"
  obtain k where k: "length (d_buckets d) = 2 ^ k" using D(1) by (auto simp: table_ok_def)
  have "pool_ok (d_pool ?d) Map.empty" using f(2) n by (simp add: live_def [abs_def])
  then have "db_rep {} ?c ks_empty" using n k f(3,4) by (intro empty_rep [of _ k]) simp_all
  from std_rep(2) [OF this e, of 3]
  show "db_rep {} (clear_keyspace e d) ks_empty" by (simp add: clear_keyspace_def Let_def)
  show "d_wal (clear_keyspace e d) = d_wal d" "replaying (clear_keyspace e d) = replaying d"
    using f by (simp_all add: clear_keyspace_def Let_def bump_sequence_def)
qed

lemma init_inv: "db_inv (db_init keys memory) ks_empty"
proof -
  have "pool_ok (pool_init memory True) Map.empty" using pool_init_inv by (auto simp: pool_ok_def large_blocks_def pool_init_def)
  then have "db_rep {} (db_init keys memory) ks_empty"
    by (intro empty_rep [of _ 4]) (simp_all add: db_init_def initial_bucket_count_def lru_init_def)
  then show ?thesis by (simp add: db_inv_def db_st_def log_ok_def db_init_def)
qed

section \<open>Recovery\<close>

lemma vals_drops: "vals (fold a_drop ks A) = vals A |` (- set ks)"
proof (induction ks arbitrary: A)
  case (Cons k ks)
  then show ?case by (auto simp: restrict_map_def fun_eq_iff)
qed (simp add: restrict_map_def fun_eq_iff)

lemma replay_restores:
  assumes "ttl_of B \<subseteq>\<^sub>m (\<lambda>key. case last_stamp key rs of None \<Rightarrow> ttl_of ks_empty key | Some (i, s) \<Rightarrow> Some (due (es (0 + i)) s))"
  shows "restores es rs (vals B) B"
  unfolding restores_def
proof
  fix key
  have "\<exists>i s. last_stamp key rs = Some (i, s) \<and> t = due (es i) s" if "ks_map B key = Some (ob, Some t)" for ob t
  proof -
    have "ttl_of B key = Some t" using that by (simp add: ttl_of_def)
    from map_leD [OF assms this] show ?thesis by (auto simp: ttl_of_def ks_empty_def split: option.splits)
  qed
  then show "case vals B key of
      None \<Rightarrow> ks_map B key = None
    | Some (ob, timed) \<Rightarrow>
        if timed then \<exists>i s. last_stamp key rs = Some (i, s) \<and> ks_map B key = Some (ob, Some (due (es i) s))
        else ks_map B key = Some (ob, None)"
    by (auto simp: vals_def split: option.splits)
qed

lemma fold_drop_map: "ks_map (fold a_drop ks A) = ks_map A |` (- set ks)"
  by (induction ks arbitrary: A) (auto simp: restrict_map_def fun_eq_iff)

text \<open>What a recovery gives, key by key.\<close>

lemma recovers_key:
  assumes "recovers es now rs V B"
  shows "case V key of
      None \<Rightarrow> ks_map B key = None
    | Some (ob, timed) \<Rightarrow>
        if timed then \<exists>i s. last_stamp key rs = Some (i, s)
          \<and> (ks_map B key = Some (ob, Some (due (es i) s)) \<or> due (es i) s \<le> now \<and> ks_map B key = None)
        else ks_map B key = Some (ob, None)"
proof -
  obtain B0 ks where B0: "restores es rs V B0" "swept now no_expiry_limit ks B0" "B = fold a_drop ks B0"
    using assms unfolding recovers_def by blast
  have "\<exists>ob t. ks_map B0 key = Some (ob, Some t) \<and> t \<le> now" if "key \<in> set ks"
    using B0(2) that by (fastforce simp: swept_def is_expired_def split: option.splits)
  then show ?thesis
    using B0(1) [unfolded restores_def, rule_format, of key] unfolding B0(3) fold_drop_map
    by (cases "key \<in> set ks") (auto split: option.splits if_splits)
qed

lemma v_replay_prefix:
  assumes "v_replay rs V = Some V'"
  obtains V1 where "v_replay (take m rs) V = Some V1"
  using assms v_replay_append [of "take m rs" "drop m rs" V] by (cases "v_replay (take m rs) V") simp_all

lemma in_batch_wal:
  assumes "in_batch e work d = (res, d')" "\<And>d1 r. work (begin_wal_batch d) = (r, d1) \<Longrightarrow> d_wal d1 \<noteq> None"
  shows "d_wal d' \<noteq> None"
  using assms by (auto simp: in_batch_def end_wal_batch_def split: prod.splits sum.splits option.splits)

lemma db_log_wal: "db_log e opr a d = (res, d') \<Longrightarrow> d_wal d \<noteq> None \<Longrightarrow> d_wal d' \<noteq> None"
  by (auto simp: db_log_def split: option.splits if_splits prod.splits)

lemma expire_loop_wal: "expire_loop e now n d = (res, d') \<Longrightarrow> d_wal d \<noteq> None \<Longrightarrow> d_wal d' \<noteq> None"
proof (induction e now n d rule: expire_loop.induct)
  case (2 e now n d)
  show ?case
  proof (cases "sched_front (d_sched d)")
    case None
    then show ?thesis using "2.prems" by simp
  next
    case (Some a)
    obtain r1 d1 where l: "db_log e op_del [stored_key (node_at d a)] d = (r1, d1)" by fastforce
    have w: "d_wal d1 \<noteq> None" using db_log_wal [OF l "2.prems"(2)] .
    show ?thesis
    proof (cases "now < deadline_of (d_sched d) a \<or> (\<exists>x. r1 = Inl x)")
      case True
      then show ?thesis using "2.prems" Some l w by (auto split: if_splits)
    next
      case False
      then obtain u where u: "r1 = Inr u" "\<not> now < deadline_of (d_sched d) a" by (cases r1) auto
      let ?d3 = "(erase_node e a d1)\<lparr>expired_keys := expired_keys (erase_node e a d1) + 1\<rparr>"
      have "expire_loop e now n ?d3 = (res, d')" using "2.prems"(1) Some l u by (simp add: Let_def)
      from "2.IH" [OF Some u(2) l [symmetric] u(1) refl refl this] w show ?thesis by simp
    qed
  qed
qed simp

lemma expire_loop_replaying: "expire_loop e now n d = (res, d') \<Longrightarrow> replaying d' = replaying d"
proof (induction e now n d rule: expire_loop.induct)
  case (2 e now n d)
  show ?case
  proof (cases "sched_front (d_sched d)")
    case None
    then show ?thesis using "2.prems" by simp
  next
    case (Some a)
    obtain r1 d1 where l: "db_log e op_del [stored_key (node_at d a)] d = (r1, d1)" by fastforce
    have w: "replaying d1 = replaying d" using db_log_fields(5) [OF l] .
    show ?thesis
    proof (cases "now < deadline_of (d_sched d) a \<or> (\<exists>x. r1 = Inl x)")
      case True
      then show ?thesis using "2.prems" Some l w by (auto split: if_splits)
    next
      case False
      then obtain u where u: "r1 = Inr u" "\<not> now < deadline_of (d_sched d) a" by (cases r1) auto
      let ?d3 = "(erase_node e a d1)\<lparr>expired_keys := expired_keys (erase_node e a d1) + 1\<rparr>"
      have "expire_loop e now n ?d3 = (res, d')" using "2.prems"(1) Some l u by (simp add: Let_def)
      from "2.IH" [OF Some u(2) l [symmetric] u(1) refl refl this] w show ?thesis by simp
    qed
  qed
qed simp

lemma sweep_replaying:
  assumes "remove_expired_locked e n d = (res, d')"
  shows "replaying d' = replaying d"
proof -
  obtain r d1 where l: "expire_loop e (e_steady e 0) n (begin_wal_batch d) = (r, d1)" by fastforce
  obtain r2 d2 where en: "end_wal_batch e d1 = (r2, d2)" by fastforce
  have "d' = d2" using assms l en by (auto simp: remove_expired_locked_def in_batch_def split: sum.splits)
  moreover have "replaying d2 = replaying d1" using en by (auto simp: end_wal_batch_def split: option.splits prod.splits)
  ultimately show ?thesis using expire_loop_replaying [OF l] by (simp add: begin_wal_batch_def)
qed

lemma sweep_wal:
  assumes "remove_expired_locked e n d = (res, d')" "d_wal d \<noteq> None"
  shows "d_wal d' \<noteq> None"
  using in_batch_wal [OF assms(1) [unfolded remove_expired_locked_def]] expire_loop_wal [of e "e_steady e 0" n "begin_wal_batch d"] assms(2)
  by (simp add: begin_wal_batch_def)

text \<open>The opening of a log whose recovery replays the records \<open>rs\<close>.\<close>

lemma open_recovers:
  assumes es: "\<And>i. env_ok (es i) \<and> 0 \<le> e_steady (es i) 0" and e: "env_ok e" and io: "\<And>i. io_ok (e_io e) i"
    and rec: "\<And>st. recover (e_io e) 4 (replay_step es) (Some file) st =
      (case replay_all (replay_step es) rs st of
         (Inl x, st1) \<Rightarrow> (Inl x, Some file, st1)
       | (Inr _, st1) \<Rightarrow> (Inr (8 + length (encode_log rs)), Some (magic @ encode_log rs), st1))"
    and ok: "\<forall>r \<in> set rs. record_ok r"
    and run: "open_wal e es sync (Some file) (db_init keys memory) = (res, path, d')"
  shows "case res of
      Inl x \<Rightarrow> (\<exists>B. db_inv d' B) \<and> (is_bad_alloc x \<or> v_replay rs Map.empty = None \<or> d_wal d' \<noteq> None)
    | Inr _ \<Rightarrow> \<exists>V B. v_replay rs Map.empty = Some V \<and> db_inv d' B \<and> recovers es (e_steady e 0) rs V B \<and> \<not> replaying d' \<and> d_wal d' \<noteq> None"
proof -
  let ?d0 = "(db_init keys memory)\<lparr>replaying := True\<rparr>"
  have i0: "db_inv ?d0 ks_empty"
  proof -
    have "db_rep {} (db_init keys memory) ks_empty" by (rule db_inv_rep(1) [OF init_inv])
    then have "db_rep {} ?d0 ks_empty" by (simp add: db_rep_def counts_ok_def)
    then show ?thesis by (simp add: replaying_inv)
  qed
  obtain r d1 n where ra: "replay_all (replay_step es) rs (?d0, 0) = (r, d1, n)" by (metis surj_pair)
  have rp0: "replaying ?d0" by simp
  note ro = replay_all_refines [OF i0 rp0 es ra, unfolded vals_empty(1)]
  define w where "w = \<lparr>w_file = magic @ encode_log rs, w_durable = 0, w_sync = sync, w_total = 8 + length (encode_log rs), w_failed = False,
     w_dirty = False, w_defer = False, w_io = 8\<rparr>"
  have op: "wal_open (e_io e) 0 sync (replay_step es) (Some file) (?d0, 0) =
      (case r of Inl x \<Rightarrow> (Inl x, Some file, d1, n) | Inr _ \<Rightarrow> (Inr w, Some (magic @ encode_log rs), d1, n))"
    using io rec [of "(?d0, 0)"] by (cases r) (simp_all add: wal_open_def ra Let_def w_def)
  have z: "d_wal (db_init keys memory) = None" "key_total (db_init keys memory) = 0" by (simp_all add: db_init_def)
  show ?thesis
  proof (cases r)
    case (Inl x)
    then obtain B where "db_inv d1 B" "is_bad_alloc x \<or> v_replay rs Map.empty = None" using ro by auto
    moreover have "db_rep {} (d1\<lparr>d_wal := None, replaying := False\<rparr>) B" using db_inv_rep(1) [OF \<open>db_inv d1 B\<close>] by (simp add: db_rep_def counts_ok_def)
    note c = clear_rep [OF this e]
    moreover have "res = Inl x" "d' = clear_keyspace e (d1\<lparr>d_wal := None, replaying := False\<rparr>)" using run op Inl z by (auto simp: open_wal_def)
    moreover have "db_inv d' ks_empty" using c \<open>d' = _\<close> by (simp add: db_inv_def db_st_def log_ok_def)
    ultimately show ?thesis by auto
  next
    case (Inr u)
    then obtain B where B: "db_inv d1 B" "v_replay rs Map.empty = Some (vals B)" "replaying d1"
      and rt: "restores es rs (vals B) B"
      using ro unfolding Inr replay_ok_simps by (blast intro: replay_restores)
    let ?d2 = "d1\<lparr>d_wal := Some w, replaying := False\<rparr>"
    have "db_rep {} ?d2 B" using db_inv_rep(1) [OF B(1)] by (simp add: db_rep_def counts_ok_def)
    moreover have "log_inv w rs" using ok by (simp add: log_inv_def w_def)
    then have "log_ok ?d2 (vals B)" using B(2) by (intro log_okI [of _ w rs "[]"]) simp_all
    ultimately have i2: "db_inv ?d2 B" using db_inv_rep(3) [OF B(1)] by (simp add: db_inv_def db_st_def)
    obtain r2 d2 where sw: "remove_expired_locked e no_expiry_limit ?d2 = (r2, d2)" by fastforce
    obtain ks where ks: "swept (e_steady e 0) no_expiry_limit ks B" "db_inv d2 (fold a_drop ks B)"
      "r2 = Inr () \<longrightarrow> length ks = no_expiry_limit \<or> none_expired (e_steady e 0) (fold a_drop ks B)"
      using remove_expired_locked_spec [OF i2 e sw] by blast
    have d': "res = r2" "d' = d2" using run op Inr z sw by (auto simp: open_wal_def)
    have w2: "d_wal d2 \<noteq> None" using sweep_wal [OF sw] by simp
    show ?thesis
    proof (cases res)
      case (Inl x)
      then show ?thesis using ks(2) w2 d' by auto
    next
      case ok: (Inr u2)
      have "\<not> replaying d2" using sweep_replaying [OF sw] by simp
      moreover have "recovers es (e_steady e 0) rs (vals B) (fold a_drop ks B)"
        unfolding recovers_def using rt ks(1,3) d'(1) ok by (intro exI [of _ B] exI [of _ ks]) simp
      ultimately show ?thesis using B(2) ks(2) w2 d' ok by auto
    qed
  qed
qed

lemma complete_all: "complete_records (length (encode_log rs)) rs = length rs"
  using complete_records_append [of rs "length (encode_log rs)" "[]"] by simp

text \<open>A crash leaves a prefix of the file; opening it restores the values after a prefix of the records.\<close>

lemma crash_reopen:
  assumes inv: "db_inv d A" and live: "\<not> replaying d" "d_wal d = Some w" "\<not> w_failed w"
    and k: "8 \<le> k" "k \<le> length (w_file w)"
    and es: "\<And>i. env_ok (es i) \<and> 0 \<le> e_steady (es i) 0" and e: "env_ok e" and io: "\<And>i. io_ok (e_io e) i" "io_bad (e_io e) 5 = None"
    and run: "open_wal e es sync (Some (take k (w_file w))) (db_init keys memory) = (res, path, d')"
  shows "\<exists>rs V. log_inv w rs \<and> v_replay rs Map.empty = Some (vals A)
    \<and> v_replay (take (complete_records (k - 8) rs) rs) Map.empty = Some V \<and> (k = length (w_file w) \<longrightarrow> V = vals A)
    \<and> (case res of
         Inl x \<Rightarrow> (\<exists>B. db_inv d' B) \<and> (is_bad_alloc x \<or> d_wal d' \<noteq> None)
       | Inr _ \<Rightarrow> \<exists>B. db_inv d' B \<and> recovers es (e_steady e 0) (take (complete_records (k - 8) rs) rs) V B
           \<and> \<not> replaying d' \<and> d_wal d' \<noteq> None)"
proof -
  have "log_ok d (vals A)" using inv live(1) by (simp add: db_inv_def db_st_def)
  then obtain rs where rs: "log_inv w rs" "v_replay rs Map.empty = Some (vals A)" using live by (auto simp: log_ok_def)
  let ?rs = "take (complete_records (k - 8) rs) rs"
  obtain V where V: "v_replay ?rs Map.empty = Some V" using v_replay_prefix [OF rs(2)] by blast
  have full: "V = vals A" if "k = length (w_file w)"
  proof -
    have "w_file w = magic @ encode_log rs" using rs(1) live(3) by (simp add: log_inv_def)
    then have "complete_records (k - 8) rs = length rs" using that complete_all by simp
    then show ?thesis using V rs(2) by simp
  qed
  have rec: "recover (e_io e) 4 (replay_step es) (Some (take k (w_file w))) st =
      (case replay_all (replay_step es) ?rs st of
         (Inl x, st1) \<Rightarrow> (Inl x, Some (take k (w_file w)), st1)
       | (Inr _, st1) \<Rightarrow> (Inr (8 + length (encode_log ?rs)), Some (magic @ encode_log ?rs), st1))" for st
    by (rule crash_recover [OF rs(1) k]) (use io in simp_all)
  have ok: "\<forall>r \<in> set ?rs. record_ok r" using rs(1) by (auto simp: log_inv_def dest: in_set_takeD)
  note o = open_recovers [OF es e io(1) rec ok run]
  show ?thesis using rs V full o by (intro exI [of _ rs] exI [of _ V]) (cases res; auto)
qed

text \<open>The records of a log that has not failed are determined by its file.\<close>

lemma log_unique:
  assumes "log_inv w rs" "log_inv w ss" "\<not> w_failed w"
  shows "rs = ss"
proof -
  have f: "w_file w = magic @ encode_log xs" if "log_inv w xs" for xs using that assms(3) by (simp add: log_inv_def)
  have a: "8 \<le> length (w_file w)" "length (w_file w) - 8 = length (encode_log xs)" if "log_inv w xs" for xs using f [OF that] by simp_all
  have r: "recover calm 0 collect (Some (take (length (w_file w)) (w_file w))) []
      = (Inr (8 + length (encode_log xs)), Some (magic @ encode_log xs), xs)" if "log_inv w xs" for xs
    using crash_recover [OF that a(1) [OF that] order.refl, of calm 0 collect "[]"] unfolding a(2) [OF that] complete_all
    by (simp add: replay_collect calm_def)
  show ?thesis using r [OF assms(1)] r [OF assms(2)] by simp
qed

section \<open>The stamp of a deadline\<close>

lemma db_log_appends:
  assumes "log_ok d V" "db_log e opr a d = (Inr u, d')" "\<not> replaying d" "d_wal d = Some w"
  shows "\<exists>w' rs. d_wal d' = Some w' \<and> \<not> w_failed w' \<and> log_inv w rs \<and> log_inv w' (rs @ [(op_code opr, a)])"
proof -
  obtain w' where ap: "append (e_io e) (op_code opr) a w = (Inr u, w')" and d': "d' = d\<lparr>d_wal := Some w'\<rparr>"
    using assms(2-4) by (auto simp: db_log_def split: option.splits prod.splits)
  obtain rs extra where l: "log_inv w (rs @ extra)" "\<not> w_failed w \<longrightarrow> extra = []" using assms(1,4) by (auto simp: log_ok_def)
  have "extra = []" using append_cases [OF ap] l(2) by auto
  then show ?thesis using append_inv [OF l(1) ap] l(1) d' by auto
qed

text \<open>\<^verbatim>\<open>EXPIRE\<close> records the time on the wall clock at which the key expires.\<close>

lemma expire_logs:
  assumes inv: "db_inv d A" and e: "env_ok e" and run: "expire e key seconds d = (Inr True, d')" and pos: "0 < seconds"
    and live: "\<not> replaying d" "d_wal d = Some w"
  shows "\<exists>w' rs. d_wal d' = Some w' \<and> \<not> w_failed w' \<and> log_inv w rs
    \<and> log_inv w' (rs @ [(op_code op_expire_at, [key, decimal (e_wall e 1 + seconds * 1000)])])"
proof -
  let ?dl = "e_steady e 1 + seconds * 1000"
  obtain a d1 d2 d3 where f: "find_writable e key d = (Inr (Some a), d1)" and sc: "schedule_expiry e a ?dl d1 = (Inr (), d2)"
    and lg: "db_log e op_expire_at [key, decimal (e_wall e 1 + seconds * 1000)] d2 = (Inr (), d3)" and d': "d' = bump_sequence d3"
    using run pos by (auto simp: expire_def Let_def split: prod.splits sum.splits option.splits if_splits)
  note fc = found_case [OF inv e f]
  have i: "db_inv d1 (a_seen e d key A)" and al: "a \<in> links d1" "keyat d1 a = key" using fc(1,4) by simp_all
  obtain ob where ob: "ks_map (a_seen e d key A) key = Some (ob, deadlines (d_sched d1) a)" using fc(5) [of a] by auto
  note s = schedule_st [OF db_inv_rep(2) [OF i] e al ob sc, unfolded sum.case]
  have "d_wal d1 = d_wal d"
    using f by (auto simp: find_writable_def Let_def split: if_splits option.splits prod.splits sum.splits)
  moreover have "d_wal d2 = d_wal d1"
    using sc by (auto simp: schedule_expiry_def Let_def std_wal split: if_splits prod.splits sum.splits)
  moreover have "\<not> replaying d2" using s fc(3) live(1) by simp
  moreover have "log_ok d2 (vals (a_seen e d key A))" using s calculation(3) by (simp add: db_st_def)
  ultimately show ?thesis using db_log_appends [OF _ lg, of _ w] live(2) d' by (auto simp: bump_sequence_def)
qed

section \<open>Compaction\<close>

lemma append_all_append:
  "append_all env (rs @ ss) w = (case append_all env rs w of (Inl x, w1) \<Rightarrow> (Inl x, w1) | (Inr _, w1) \<Rightarrow> append_all env ss w1)"
  by (induction rs arbitrary: w) (auto split: prod.splits sum.splits)

lemma write_node:
  "(case append_all (e_io e) (node_records e (node_at d a)) w of
      (Inl x, w1) \<Rightarrow> (Inl x, w1)
    | (Inr _, w1) \<Rightarrow> write_expiry e steady wall d a w1) =
     (if stamp_fits steady wall d a then append_all (e_io e) (node_log e steady wall d a) w
      else case append_all (e_io e) (node_records e (node_at d a)) w of
         (Inl x, w1) \<Rightarrow> (Inl x, w1) | (Inr _, w1) \<Rightarrow> (Inl (Error value_not_integer), w1))"
  by (auto simp: node_log_def append_all_append write_expiry_def stamp_fits_def node_stamp_def stamp_for_def Let_def split: prod.splits sum.splits)

text \<open>Walking the list from its tail writes the nodes from the least recently used on.\<close>

lemma write_nodes:
  assumes "dseg (lru_previous (d_lru d)) N None xs q"
  shows "(\<forall>a \<in> set xs. stamp_fits steady wall d a) \<Longrightarrow> write_nodes e steady wall d (length xs) (opt_last xs) w =
      append_all (e_io e) (concat (map (node_log e steady wall d) (rev xs))) w"
    and "\<not> (\<forall>a \<in> set xs. stamp_fits steady wall d a) \<Longrightarrow> \<exists>x w'. write_nodes e steady wall d (length xs) (opt_last xs) w = (Inl x, w')"
  using assms
proof (induction xs arbitrary: q w rule: rev_induct)
  case (snoc a xs)
  let ?rest = "write_nodes e steady wall d (length xs) (opt_last xs)"
  {
    fix q assume "dseg (lru_previous (d_lru d)) N None (xs @ [a]) q"
    then have "lru_previous (d_lru d) a = opt_last xs" "dseg (lru_previous (d_lru d)) N None xs (Some a)"
      by (auto simp: or_else_def split: option.splits)
  } note p = this
  have step: "write_nodes e steady wall d (length (xs @ [a])) (opt_last (xs @ [a])) w =
      (case (case append_all (e_io e) (node_records e (node_at d a)) w of
          (Inl x, w1) \<Rightarrow> (Inl x, w1) | (Inr _, w1) \<Rightarrow> write_expiry e steady wall d a w1) of
         (Inl x, w2) \<Rightarrow> (Inl x, w2)
       | (Inr _, w2) \<Rightarrow> ?rest w2)" if "dseg (lru_previous (d_lru d)) N None (xs @ [a]) q" for q w
    by (simp add: p(1) [OF that] split: prod.splits sum.splits)
  {
    case 1
    note IH = snoc.IH(1) [OF _ p(2) [OF 1(2)]]
    have r: "?rest = append_all (e_io e) (concat (map (node_log e steady wall d) (rev xs)))" using IH 1(1) by (simp add: fun_eq_iff)
    show ?case unfolding step [OF 1(2)] write_node r using 1(1) by (simp add: append_all_append)
  next
    case 2
    note IH = snoc.IH(2) [OF _ p(2) [OF 2(2)]]
    show ?case
    proof (cases "stamp_fits steady wall d a")
      case True
      then have "\<not> (\<forall>a \<in> set xs. stamp_fits steady wall d a)" using 2(1) by auto
      note I = IH [OF this]
      show ?thesis unfolding step [OF 2(2)] write_node using I
        by (cases "append_all (e_io e) (node_log e steady wall d a) w") (auto simp: True split: sum.splits)
    next
      case False
      then show ?thesis unfolding step [OF 2(2)] write_node by (auto split: prod.splits sum.splits)
    qed
  }
qed simp_all

section \<open>What a snapshot restores\<close>

lemma list_items:
  assumes "\<forall>x \<in> set xs. element_ok x"
  shows "list_items (pre @ concat (map encode_element xs) @ rest) (length pre) (length xs) = xs"
  using assms
proof (induction xs arbitrary: pre)
  case (Cons x xs)
  let ?buf = "pre @ concat (map encode_element (x # xs)) @ rest"
  have b: "drop (length pre) ?buf = encode_element x @ (concat (map encode_element xs) @ rest)" by simp
  have r: "decode (drop (length pre) ?buf) = Some x" "stride (drop (length pre) ?buf) = Some (length (encode_element x))"
    unfolding b using Cons.prems by (simp_all add: decode_encode_element stride_encode)
  have "list_items ?buf (length (pre @ encode_element x)) (length xs) = xs"
    using Cons.IH [of "pre @ encode_element x"] Cons.prems by simp
  then show ?case unfolding length_Cons list_items.simps r by simp
qed simp

lemma node_items:
  assumes "node_rep n (OList xs)"
  shows "list_items (list_run n) (list_head n) (unat (n_count n)) = xs"
proof -
  note lr = list_repD [OF assms]
  have t: "take (list_used n) (drop (list_head n) (list_run n)) = concat (map encode_element xs)"
    "list_head n + list_used n \<le> length (list_run n)" "\<forall>x \<in> set xs. element_ok x" "unat (n_count n) = length xs"
    using assms by (auto simp: list_rep_def list_run_def)
  have "list_run n = take (list_head n) (list_run n) @ concat (map encode_element xs) @ drop (list_head n + list_used n) (list_run n)"
    using run_split(2) [OF t(1)] .
  moreover have "length (take (list_head n) (list_run n)) = list_head n" using t(2) by simp
  ultimately show ?thesis using list_items [OF t(3), of "take (list_head n) (list_run n)"] t(4) by metis
qed

lemma v_replay_pushes:
  assumes "length key \<le> max_key_length" "list_of (obj_of V key) = Inr xs" "run_bytes (xs @ ys) \<le> value_limit" "ys \<noteq> []"
  shows "v_replay (map (\<lambda>v. (op_code op_push_right, key # log_value v)) ys) V = Some (v_put key (OList (xs @ ys)) V)"
  using assms(2-)
proof (induction ys arbitrary: V xs)
  case (Cons y ys)
  obtain tag bs where l: "log_value y = [tag, bs]" by (cases y) (auto simp: log_value_def)
  have "push_obj y False (obj_of V key) = Inr (xs @ [y])"
    using Cons.prems(1,2) by (simp add: push_obj_def element_sizes)
  then have s: "v_apply op_push_right (key # log_value y) V = Some (v_put key (OList (xs @ [y])) V)"
    using assms(1) by (simp add: l v_apply_def v_push_def replay_log_value(1) [OF l])
  have o: "list_of (obj_of (v_put key (OList (xs @ [y])) V) key) = Inr (xs @ [y])" by (simp add: obj_of_def v_put_def list_of_def)
  show ?case
  proof (cases "ys = []")
    case True
    then show ?thesis using s by (simp del: op_code.simps)
  next
    case False
    then show ?thesis using s Cons.IH [OF o] Cons.prems(2) by (simp del: op_code.simps)
  qed
qed simp

lemma v_replay_hsets:
  assumes "length key \<le> max_key_length" "hash_of (obj_of V key) = Inr h" "ps \<noteq> []" "distinct (map fst ps)" "fst ` set ps \<inter> dom h = {}"
    "\<And>f v. (f, v) \<in> set ps \<Longrightarrow> length f \<le> value_limit \<and> elem_size v False \<le> value_limit"
  shows "v_replay (map (\<lambda>p. (op_code op_hash_set, hash_record key (fst p) (snd p))) ps) V = Some (v_put key (OHash (h ++ map_of ps)) V)"
  using assms(2-)
proof (induction ps arbitrary: V h)
  case (Cons p ps)
  obtain f v where p: "p = (f, v)" by (cases p)
  obtain tag bs where l: "log_value v = [tag, bs]" by (cases v) (auto simp: log_value_def)
  let ?h = "h(f \<mapsto> v)"
  have "hset_obj f v (obj_of V key) = Inr ?h" using Cons.prems(1) Cons.prems(5) [of f v] by (simp add: hset_obj_def p)
  then have s: "v_apply op_hash_set (hash_record key f v) V = Some (v_put key (OHash ?h) V)"
    using assms(1) by (simp add: hash_record_def l v_apply_def replay_log_value(1) [OF l])
  have o: "hash_of (obj_of (v_put key (OHash ?h) V) key) = Inr ?h" by (simp add: obj_of_def v_put_def hash_of_def)
  have nf: "map_of ps f = None" using Cons.prems(3) by (simp add: p map_of_eq_None_iff)
  have m: "?h ++ map_of ps = h ++ map_of (p # ps)" using nf by (auto simp: p map_add_def fun_eq_iff split: option.splits)
  show ?case
  proof (cases "ps = []")
    case True
    then show ?thesis using s by (simp add: p del: op_code.simps fun_upd_apply)
  next
    case False
    have dj: "fst ` set ps \<inter> dom ?h = {}" using Cons.prems(3,4) by (auto simp: p)
    have "v_replay (map (\<lambda>p. (op_code op_hash_set, hash_record key (fst p) (snd p))) ps) (v_put key (OHash ?h) V)
        = Some (v_put key (OHash (?h ++ map_of ps)) (v_put key (OHash ?h) V))"
      by (rule Cons.IH [OF o False _ dj]) (use Cons.prems(3,5) in \<open>auto simp: p\<close>)
    then show ?thesis using s unfolding m by (simp add: p del: op_code.simps fun_upd_apply)
  qed
qed simp

lemma v_replay_one [simp]: "v_replay [(op_code opr, a)] V = v_apply opr a V"
  by (simp add: option.case_eq_if del: op_code.simps)

lemma records_restore:
  assumes inv: "db_inv d A" and e: "env_ok e" and a: "a \<in> links d" and ob: "ks_map A (keyat d a) = Some (ob, t)" and new: "V (keyat d a) = None"
  shows "v_replay (node_records e (node_at d a)) V = Some (V(keyat d a \<mapsto> (ob, False)))"
proof -
  let ?n = "node_at d a" and ?key = "keyat d a"
  have r: "db_rep {} d A" by (rule db_inv_rep(1) [OF inv])
  have n: "node_rep ?n ob" "t = deadlines (d_sched d) a" using linked_val [OF r a ob] by simp_all
  have k: "stored_key ?n = ?key" "length ?key \<le> max_key_length" "obj_ok ob"
    using linked_node(4) [OF r a] db_inv_rep(3) [OF inv] ob unfolding ks_ok_def by blast+
  have put: "v_put ?key ob V = V(?key \<mapsto> (ob, False))" for ob using new by (simp add: v_put_def has_ttl_def)
  show ?thesis
  proof (cases ob)
    case (OString s)
    then show ?thesis using n k by (simp add: node_records_def Let_def string_value_def v_apply_def del: op_code.simps)
  next
    case (OInteger i)
    then show ?thesis using n k by (simp add: node_records_def Let_def v_apply_def from_chars_decimal del: op_code.simps)
  next
    case (OList xs)
    have "list_of (obj_of V ?key) = Inr []" using new by (simp add: obj_of_def list_of_def)
    from v_replay_pushes [OF k(2) this, of xs] show ?thesis
      using n(1) k(1,3) node_items [of ?n xs] OList put by (simp add: node_records_def Let_def del: op_code.simps)
  next
    case (OHash h)
    have ha: "hash_at d A a ?key h" using ob n(2) by (intro hash_atI [OF inv a refl]) (simp add: OHash)
    note op = old_pairs [OF e ha]
    let ?ps = "hash_pairs e ?n"
    have "hash_of (obj_of V ?key) = Inr Map.empty" using new by (simp add: obj_of_def hash_of_def)
    moreover have "?ps \<noteq> []" using op(2) k(3) OHash by auto
    moreover have "length f \<le> value_limit \<and> elem_size v False \<le> value_limit" if "(f, v) \<in> set ?ps" for f v
    proof -
      have "h f = Some v" using op(2,3) that map_of_is_SomeI by fastforce
      then show ?thesis using k(3) OHash by simp
    qed
    ultimately have "v_replay (map (\<lambda>p. (op_code op_hash_set, hash_record ?key (fst p) (snd p))) ?ps) V
        = Some (v_put ?key (OHash (Map.empty ++ map_of ?ps)) V)"
      by (intro v_replay_hsets [OF k(2) _ _ op(3)]) auto
    then show ?thesis using n(1) k(1) OHash op(2) put by (simp add: node_records_def Let_def del: op_code.simps)
  qed
qed

lemma node_restore:
  assumes inv: "db_inv d A" and e: "env_ok e" and a: "a \<in> links d" and new: "V (keyat d a) = None"
    and fit: "stamp_fits steady wall d a" and wall: "0 \<le> wall"
  shows "v_replay (node_log e steady wall d a) V = Some (V(keyat d a := vals A (keyat d a)))"
proof -
  let ?n = "node_at d a" and ?key = "keyat d a"
  have r: "db_rep {} d A" by (rule db_inv_rep(1) [OF inv])
  obtain ob where ob: "ks_map A ?key = Some (ob, deadlines (d_sched d) a)" by (rule linked_obj [OF r a])
  have k: "stored_key ?n = ?key" "length ?key \<le> max_key_length"
    using linked_node(4) [OF r a] db_inv_rep(3) [OF inv] ob unfolding ks_ok_def by blast+
  have fl: "has_flag flag_has_ttl ?n \<longleftrightarrow> deadlines (d_sched d) a \<noteq> None"
    using db_repD(3) [OF r] a unfolding timers_ok_def node_at_def by blast
  note rr = records_restore [where V = V, OF inv e a ob new]
  show ?thesis
  proof (cases "has_flag flag_has_ttl ?n")
    case False
    then show ?thesis using rr fl by (simp add: node_log_def vals_def ob)
  next
    case True
    let ?s = "node_stamp steady wall d a"
    have s: "0 \<le> ?s" "?s \<le> max_int" using wall fit True by (simp_all add: node_stamp_def stamp_for_def stamp_fits_def)
    have "v_apply op_expire_at [?key, decimal ?s] (V(?key \<mapsto> (ob, False))) = Some (V(?key \<mapsto> (ob, True)))"
      using k(2) decimal_from_chars [OF s] s(1) by (simp add: v_apply_def)
    then show ?thesis using rr True fl k(1) by (auto simp: node_log_def v_replay_append vals_def ob simp del: op_code.simps)
  qed
qed

lemma snapshot_restore:
  assumes inv: "db_inv d A" and e: "env_ok e" and wall: "0 \<le> wall"
    and xs: "set xs \<subseteq> links d" "distinct xs" "\<forall>a \<in> set xs. stamp_fits steady wall d a" "\<forall>a \<in> set xs. V (keyat d a) = None"
  shows "v_replay (concat (map (node_log e steady wall d) xs)) V
    = Some (\<lambda>key. if key \<in> keyat d ` set xs then vals A key else V key)"
  using xs
proof (induction xs arbitrary: V)
  case (Cons a xs)
  have inj: "inj_on (keyat d) (links d)" using db_repD(1) [OF db_inv_rep(1) [OF inv]] by (auto simp: table_ok_def)
  let ?V = "V(keyat d a := vals A (keyat d a))"
  have ne: "keyat d b \<noteq> keyat d a" if "b \<in> set xs" for b using inj Cons.prems(1,2) that unfolding inj_on_def by auto
  have s: "v_replay (node_log e steady wall d a) V = Some ?V"
    using node_restore [OF inv e _ _ _ wall] Cons.prems by simp
  have "v_replay (concat (map (node_log e steady wall d) xs)) ?V
      = Some (\<lambda>key. if key \<in> keyat d ` set xs then vals A key else ?V key)"
    using Cons.prems ne by (intro Cons.IH) auto
  then show ?case by (auto simp: v_replay_append s fun_eq_iff)
qed simp

text \<open>The stamps of a snapshot: one for each key that has a deadline, as far ahead as the deadline.\<close>

lemma last_stamp_append:
  "last_stamp key (rs @ ss) =
     (case last_stamp key ss of None \<Rightarrow> last_stamp key rs | Some (i, s) \<Rightarrow> Some (length rs + i, s))"
  by (induction rs) (auto split: option.splits prod.splits)

lemma last_stamp_None: "\<forall>r \<in> set rs. wal_op_of (fst r) \<noteq> Some op_expire_at \<Longrightarrow> last_stamp key rs = None"
  by (induction rs) (simp_all add: record_stamp_def)

lemma node_records_stamp: "last_stamp key (node_records e n) = None"
proof (rule last_stamp_None)
  have "wal_op_of (op_code opr) \<noteq> Some op_expire_at" if "opr \<noteq> op_expire_at" for opr using that by simp
  from this [of op_set] this [of op_integer_set] this [of op_push_right] this [of op_hash_set]
  show "\<forall>r \<in> set (node_records e n). wal_op_of (fst r) \<noteq> Some op_expire_at"
    by (auto simp: node_records_def Let_def simp del: op_code.simps wal_op_of_code split: node_kind.splits)
qed

lemma node_log_stamp:
  assumes inv: "db_inv d A" and a: "a \<in> links d" and fit: "stamp_fits steady wall d a" and wall: "0 \<le> wall"
  shows "map_option snd (last_stamp key (node_log e steady wall d a)) =
    (if key = keyat d a then map_option (stamp_for steady wall) (ttl_of A key) else None)"
proof -
  let ?n = "node_at d a"
  have r: "db_rep {} d A" by (rule db_inv_rep(1) [OF inv])
  obtain ob where ob: "ks_map A (keyat d a) = Some (ob, deadlines (d_sched d) a)" by (rule linked_obj [OF r a])
  have k: "stored_key ?n = keyat d a" by (rule linked_node(4) [OF r a])
  have fl: "has_flag flag_has_ttl ?n \<longleftrightarrow> deadlines (d_sched d) a \<noteq> None"
    using db_repD(3) [OF r] a unfolding timers_ok_def node_at_def by blast
  have t: "ttl_of A (keyat d a) = deadlines (d_sched d) a" by (simp add: ttl_of_def ob)
  show ?thesis
  proof (cases "has_flag flag_has_ttl ?n")
    case False
    then show ?thesis using fl t by (simp add: node_log_def node_records_stamp)
  next
    case True
    let ?s = "node_stamp steady wall d a"
    have s: "0 \<le> ?s" "?s \<le> max_int" using wall fit True by (simp_all add: node_stamp_def stamp_for_def stamp_fits_def)
    have "record_stamp (op_code op_expire_at, [keyat d a, decimal ?s]) = Some (keyat d a, ?s)"
      using decimal_from_chars [OF s] by (simp add: record_stamp_def del: op_code.simps)
    moreover have "deadlines (d_sched d) a = Some (deadline_of (d_sched d) a)"
      using True fl by (auto simp: deadlines_def deadline_of_def split: option.splits)
    ultimately show ?thesis using True k t
      by (simp add: node_log_def last_stamp_append node_records_stamp node_stamp_def del: op_code.simps)
  qed
qed

lemma snapshot_stamps:
  assumes inv: "db_inv d A" and wall: "0 \<le> wall"
    and xs: "set xs \<subseteq> links d" "\<forall>a \<in> set xs. stamp_fits steady wall d a"
  shows "map_option snd (last_stamp key (concat (map (node_log e steady wall d) xs))) =
    (if key \<in> keyat d ` set xs then map_option (stamp_for steady wall) (ttl_of A key) else None)"
  using xs
proof (induction xs)
  case (Cons a xs)
  have "map_option snd (last_stamp key (node_log e steady wall d a)) =
      (if key = keyat d a then map_option (stamp_for steady wall) (ttl_of A key) else None)"
    using node_log_stamp [OF inv _ _ wall] Cons.prems by simp
  then show ?case using Cons by (auto simp: last_stamp_append split: option.splits if_splits)
qed simp

lemma log_inv_io [simp]: "log_inv (w\<lparr>w_io := k\<rparr>) rs = log_inv w rs"
  by (simp add: log_inv_def)

text \<open>A compaction with the records of a snapshot leaves a log with the same values, whatever happens on the way.\<close>

lemma compact_log:
  assumes run: "compact env (append_all env new) w = (x, w')" and l: "log_inv w (rs @ extra)" "\<not> w_failed w \<longrightarrow> extra = []"
    and V: "v_replay rs Map.empty = Some V" "v_replay new Map.empty = Some V"
  shows "\<exists>rs extra. log_inv w' (rs @ extra) \<and> (\<not> w_failed w' \<longrightarrow> extra = []) \<and> v_replay rs Map.empty = Some V"
proof (cases x)
  case (Inr u)
  then have "log_inv w' new" using compact_cases [OF run] by (simp add: log_inv_def)
  then show ?thesis using V(2) by (intro exI [of _ new] exI [of _ "[]"]) simp
next
  case (Inl y)
  consider "w' = w" | j y1 where "flush_locked env (w\<lparr>w_io := j\<rparr>) = (Inl y1, w')"
    | r w1 u where "write_replacement env (w_io w + 1) (append_all env new) = Inr r"
        "flush_locked env (w\<lparr>w_io := w_io r + 3\<rparr>) = (Inr u, w1)" "switch_to env (w_io w1) r w1 = (Inl y, w')"
    using run Inl by (auto simp: compact_def split: if_splits prod.splits sum.splits)
  then show ?thesis
  proof cases
    case 1
    then show ?thesis using l V(1) by blast
  next
    case 2
    have "log_inv (w\<lparr>w_io := j\<rparr>) (rs @ extra)" using l(1) by simp
    from flush_locked_inv [OF this 2] have "log_inv w' (rs @ extra)" .
    moreover have "w_failed w'" using flush_locked_cases [OF 2] by simp
    ultimately show ?thesis using V(1) by blast
  next
    case 3
    have "log_inv (w\<lparr>w_io := w_io r + 3\<rparr>) (rs @ extra)" using l(1) by simp
    note f = flush_locked_inv [OF this 3(2)]
    note nl = write_replacement_log [OF 3(1)]
    have "w' = w1\<lparr>w_failed := True\<rparr> \<or> w_failed w' \<and> w_file w' = w_file r \<and> w_durable w' \<le> length (w_file w')"
      using 3(3) nl by (auto simp: switch_to_def Let_def split: if_splits)
    then show ?thesis
    proof
      assume w': "w' = w1\<lparr>w_failed := True\<rparr>"
      then have "log_inv w' (rs @ extra)" using log_inv_fail [OF f, of "w_io w1"] by (simp add: log_inv_def)
      then show ?thesis using V(1) w' by (intro exI [of _ rs] exI [of _ extra]) simp
    next
      assume w': "w_failed w' \<and> w_file w' = w_file r \<and> w_durable w' \<le> length (w_file w')"
      have "log_inv w' new" unfolding log_inv_def using w' nl empty_record
        by (auto intro!: exI [of _ "0 :: byte"] exI [of _ "[] :: bytes list"] exI [of _ "0 :: nat"])
      then show ?thesis using V(2) w' by (intro exI [of _ new] exI [of _ "[]"]) simp
    qed
  qed
qed

lemma compact_refused:
  assumes "\<And>w. \<exists>x w'. emit w = (Inl x, w')"
  shows "\<exists>x. compact env emit w = (Inl x, w)"
proof -
  have "\<exists>x. write_replacement env k emit = Inl x" for k
  proof (cases "wal_open env k Always no_replay None ()")
    case (fields r p st)
    then show ?thesis using assms by (cases r) (auto simp: write_replacement_def split: prod.splits sum.splits, metis Pair_inject sum.distinct(1))
  qed
  then show ?thesis by (auto simp: compact_def split: sum.splits) (metis sum.distinct(1))
qed

lemma write_snapshot:
  assumes inv: "db_inv d A" and e: "env_ok e" and wall: "0 \<le> wall"
  shows "(\<exists>new. (\<forall>w. write_nodes e steady wall d (key_total d) (lru_tail (d_lru d)) w = append_all (e_io e) new w)
      \<and> v_replay new Map.empty = Some (vals A)
      \<and> (\<forall>key. map_option snd (last_stamp key new) = map_option (stamp_for steady wall) (ttl_of A key)))
    \<or> (\<forall>w. \<exists>x w'. write_nodes e steady wall d (key_total d) (lru_tail (d_lru d)) w = (Inl x, w'))"
proof -
  have r: "db_rep {} d A" by (rule db_inv_rep(1) [OF inv])
  obtain xs where x: "dll (d_lru d) xs" "set xs = links d" using db_repD(2) [OF r] by (auto simp: order_ok_def)
  have dx: "distinct xs" "lru_tail (d_lru d) = opt_last xs" "dseg (lru_previous (d_lru d)) (lru_next (d_lru d)) None xs None"
    using x(1) by (simp_all add: dll_def)
  have kt: "key_total d = length xs" using db_repD(7) [OF r] x(2) distinct_card [OF dx(1)] by (simp add: counts_ok_def)
  note wn = write_nodes [OF dx(3), where e = e and steady = steady and wall = wall]
  show ?thesis
  proof (cases "\<forall>a \<in> set xs. stamp_fits steady wall d a")
    case True
    let ?new = "concat (map (node_log e steady wall d) (rev xs))"
    have km: "keyat d ` links d = dom (ks_map A)" using db_repD(6) [OF r] by (simp add: kv_ok_def)
    have "v_replay ?new Map.empty = Some (\<lambda>key. if key \<in> keyat d ` set (rev xs) then vals A key else None)"
      by (rule snapshot_restore [OF inv e wall]) (use x(2) dx(1) True in simp_all)
    moreover have "(\<lambda>key. if key \<in> keyat d ` set (rev xs) then vals A key else None) = vals A"
      using km x(2) by (auto simp: vals_def fun_eq_iff)
    moreover have "map_option snd (last_stamp key ?new) = map_option (stamp_for steady wall) (ttl_of A key)" for key
    proof -
      have "map_option snd (last_stamp key ?new)
          = (if key \<in> keyat d ` set (rev xs) then map_option (stamp_for steady wall) (ttl_of A key) else None)"
        by (rule snapshot_stamps [OF inv wall]) (use x(2) True in simp_all)
      then show ?thesis using km x(2) by (auto simp: ttl_of_def split: option.splits)
    qed
    ultimately show ?thesis using wn(1) [OF True] kt dx(2) by (intro disjI1 exI [of _ ?new]) simp
  next
    case False
    then show ?thesis using wn(2) kt dx(2) by auto
  qed
qed

lemma compact_wal_spec:
  assumes inv: "db_inv d A" and e: "env_ok e" and live: "\<not> replaying d" and wall: "0 \<le> e_wall e 0"
    and run: "compact_wal e d = (res, d')"
  shows "\<exists>ks. swept (e_steady e 0) no_expiry_limit ks A \<and> db_inv d' (fold a_drop ks A)
    \<and> (res = Inr () \<longrightarrow> (\<exists>w new. d_wal d' = Some w \<and> log_inv w new \<and> \<not> w_failed w \<and> w_durable w = length (w_file w)
         \<and> v_replay new Map.empty = Some (vals (fold a_drop ks A))
         \<and> (\<forall>key. map_option snd (last_stamp key new) = map_option (stamp_for (e_steady e 1) (e_wall e 0)) (ttl_of (fold a_drop ks A) key))))"
proof (cases "d_wal d = None")
  case True
  then show ?thesis using run inv by (intro exI [of _ "[]"]) (auto simp: compact_wal_def swept_def)
next
  case False
  obtain r1 d1 where sw: "remove_expired_locked e no_expiry_limit d = (r1, d1)" by fastforce
  obtain ks where ks: "swept (e_steady e 0) no_expiry_limit ks A" "db_inv d1 (fold a_drop ks A)"
    using remove_expired_locked_spec [OF inv e sw] by blast
  let ?B = "fold a_drop ks A"
  show ?thesis
  proof (cases r1)
    case (Inl x)
    then have "res = Inl x" "d' = d1" using run sw False by (simp_all add: compact_wal_def)
    then show ?thesis using ks by auto
  next
    case (Inr u)
    obtain w where w: "d_wal d1 = Some w" using sweep_wal [OF sw False] by blast
    have rp: "\<not> replaying d1" using sweep_replaying [OF sw] live by simp
    have "log_ok d1 (vals ?B)" using ks(2) rp by (simp add: db_inv_def db_st_def)
    then obtain rs extra where l: "log_inv w (rs @ extra)" "\<not> w_failed w \<longrightarrow> extra = []" "v_replay rs Map.empty = Some (vals ?B)"
      using w by (auto simp: log_ok_def)
    let ?emit = "write_nodes e (e_steady e 1) (e_wall e 0) d1 (key_total d1) (lru_tail (d_lru d1))"
    obtain r2 w' where c: "compact (e_io e) ?emit w = (r2, w')" by fastforce
    have d': "res = r2" "d' = d1\<lparr>d_wal := Some w'\<rparr>" using run sw Inr False w c by (simp_all add: compact_wal_def)
    have rep: "db_rep {} d' ?B" using db_inv_rep(1) [OF ks(2)] d'(2) by (simp add: db_rep_def counts_ok_def)
    let ?stamped = "\<lambda>new. \<forall>key. map_option snd (last_stamp key new) = map_option (stamp_for (e_steady e 1) (e_wall e 0)) (ttl_of ?B key)"
    have "log_ok d' (vals ?B) \<and> (res = Inr () \<longrightarrow> (\<exists>new. log_inv w' new \<and> \<not> w_failed w' \<and> w_durable w' = length (w_file w')
         \<and> v_replay new Map.empty = Some (vals ?B) \<and> ?stamped new))"
      using write_snapshot [OF ks(2) e wall]
    proof
      assume "\<exists>new. (\<forall>w. ?emit w = append_all (e_io e) new w) \<and> v_replay new Map.empty = Some (vals ?B) \<and> ?stamped new"
      then obtain new where n: "?emit = append_all (e_io e) new" "v_replay new Map.empty = Some (vals ?B)" "?stamped new"
        unfolding fun_eq_iff by blast
      note c' = c [unfolded n(1)]
      obtain rs' extra' where "log_inv w' (rs' @ extra')" "\<not> w_failed w' \<longrightarrow> extra' = []" "v_replay rs' Map.empty = Some (vals ?B)"
        using compact_log [OF c' l n(2)] by blast
      then have "log_ok d' (vals ?B)" using d'(2) by (intro log_okI [of _ w' rs' extra']) simp_all
      moreover have "log_inv w' new \<and> \<not> w_failed w' \<and> w_durable w' = length (w_file w')" if "res = Inr ()"
        using compact_cases [OF c'] that d'(1) by (simp add: log_inv_def)
      ultimately show ?thesis using n(2,3) by blast
    next
      assume "\<forall>w. \<exists>x w'. ?emit w = (Inl x, w')"
      then obtain x where "compact (e_io e) ?emit w = (Inl x, w)" using compact_refused [of ?emit "e_io e" w] by blast
      then have "r2 = Inl x" "w' = w" using c by simp_all
      then show ?thesis using d' l log_okI [of d' w rs extra "vals ?B"] by simp
    qed
    then have "db_inv d' ?B" "res = Inr () \<longrightarrow> (\<exists>w new. d_wal d' = Some w \<and> log_inv w new \<and> \<not> w_failed w \<and> w_durable w = length (w_file w)
         \<and> v_replay new Map.empty = Some (vals ?B) \<and> ?stamped new)"
      using rep rp d'(2) db_inv_rep(3) [OF ks(2)] by (auto simp: db_inv_def db_st_def)
    then show ?thesis using ks(1) by blast
  qed
qed

end
