(* ===== verification/Sessions.thy ===== *)
theory Sessions
  imports Recovery
begin

text \<open>
  Whole lives of a database: the calls of its interface as a step relation, the states it can
  reach with failures, crashes and restarts, and the properties of the database component.
\<close>

section \<open>Sessions\<close>

text \<open>
  One call of the interface of the database, in any environment the code may meet. The conditions
  are on the clocks, which do not run before 1970 and are not read within the last moment an
  \<^verbatim>\<open>int64_t\<close> can name, and on the texts of \<^verbatim>\<open>hash_set_texts\<close>, whose encoding must stay within the
  limit of a value.
\<close>

inductive db_step :: "env \<Rightarrow> db \<Rightarrow> db \<Rightarrow> bool" for e where
  "db_set e key val d = (r, d') \<Longrightarrow> db_step e d d'"
| "db_get e key d = (r, d') \<Longrightarrow> db_step e d d'"
| "value_view e key d = (r, d') \<Longrightarrow> db_step e d d'"
| "increment e key d = (r, d') \<Longrightarrow> db_step e d d'"
| "list_push e key v front d = (r, d') \<Longrightarrow> db_step e d d'"
| "push_texts e key vs front d = (r, d') \<Longrightarrow> db_step e d d'"
| "list_pop e key front d = (r, d') \<Longrightarrow> db_step e d d'"
| "list_length e key d = (r, d') \<Longrightarrow> db_step e d d'"
| "hash_assign e key field v d = (r, d') \<Longrightarrow> db_step e d d'"
| "hash_set_texts e key args d = (r, d') \<Longrightarrow> texts_fit args \<Longrightarrow> db_step e d d'"
| "hash_field e key field d = (r, d') \<Longrightarrow> db_step e d d'"
| "hash_del e key field d = (r, d') \<Longrightarrow> db_step e d d'"
| "hash_length e key d = (r, d') \<Longrightarrow> db_step e d d'"
| "expire e key seconds d = (r, d') \<Longrightarrow> 0 \<le> e_steady e 1 \<Longrightarrow> 0 \<le> e_wall e 1 \<Longrightarrow> e_wall e 1 + seconds * 1000 \<le> max_int \<Longrightarrow> db_step e d d'"
| "ttl e key d = (r, d') \<Longrightarrow> db_step e d d'"
| "del e key d = (r, d') \<Longrightarrow> db_step e d d'"
| "evict_to e target limit d = (r, d') \<Longrightarrow> db_step e d d'"
| "remove_expired e limit d = (r, d') \<Longrightarrow> db_step e d d'"
| "compact_wal e d = (r, d') \<Longrightarrow> \<not> replaying d \<Longrightarrow> 0 \<le> e_wall e 0 \<Longrightarrow> db_step e d d'"
| "flush_wal e d = (r, d') \<Longrightarrow> db_step e d d'"
| "db_step e d (begin_wal_batch d)"
| "end_wal_batch e d = (r, d') \<Longrightarrow> db_step e d d'"

text \<open>
  The states a database can be in: new, with a new log, after a call, or opened again on the bytes
  of the log that a crash left.
\<close>

inductive reachable :: "db \<Rightarrow> bool" where
  start: "reachable (db_init keys memory)"
| fresh: "open_wal e es sync None (db_init keys memory) = (r, path, d) \<Longrightarrow> env_ok e \<Longrightarrow> reachable d"
| restart: "reachable d \<Longrightarrow> \<not> replaying d \<Longrightarrow> d_wal d = Some w \<Longrightarrow> 8 \<le> k \<Longrightarrow> k \<le> length (w_file w) \<Longrightarrow>
    open_wal e es sync (Some (take k (w_file w))) (db_init keys memory) = (r, path, d') \<Longrightarrow> env_ok e \<Longrightarrow>
    (\<And>i. env_ok (es i) \<and> 0 \<le> e_steady (es i) 0) \<Longrightarrow> (\<And>i. io_ok (e_io e) i) \<Longrightarrow> io_bad (e_io e) 5 = None \<Longrightarrow> reachable d'"
| step: "reachable d \<Longrightarrow> env_ok e \<Longrightarrow> db_step e d d' \<Longrightarrow> reachable d'"

text \<open>A call in some environment that keeps its promises.\<close>

definition db_call :: "db \<Rightarrow> db \<Rightarrow> bool" where
  "db_call d d' \<longleftrightarrow> (\<exists>e. env_ok e \<and> db_step e d d')"

text \<open>An environment that grants every request for memory.\<close>

definition willing :: "env \<Rightarrow> bool" where
  "willing e \<longleftrightarrow>
     (\<forall>rs n. e_place e rs n \<noteq> None)
     \<and> (\<forall>k s. fst (e_std e k s) = Inr () \<and> mem_limit (snd (e_std e k s)) = mem_limit s)
     \<and> (\<forall>k s. mem_limit (e_free e k s) = mem_limit s)"

text \<open>A database with neither a memory limit nor a log.\<close>

definition roomy :: "db \<Rightarrow> bool" where
  "roomy d \<longleftrightarrow> mem_limit (d_pool d) = 0 \<and> d_wal d = None"

definition sample_env :: env where
  "sample_env =
     \<lparr>e_place = bump, e_std = (\<lambda>_ s. (Inr (), s)), e_free = (\<lambda>_ s. s), e_junk = (\<lambda>_. 0), e_iter = (\<lambda>t. t),
      e_io = calm, e_steady = (\<lambda>_. 5000), e_wall = (\<lambda>_. 5000)\<rparr>"

definition sample_db :: db where
  "sample_db = snd (db_set sample_env (str ''k'') (str ''7'') (db_init 16 0))"

definition sample_keys :: keyspace where
  "sample_keys = \<lparr>ks_map = [str ''k'' \<mapsto> (OString (str ''7''), None)], ks_order = [str ''k'']\<rparr>"

text \<open>The same database with a deadline on its key and a log.\<close>

definition logged_keys :: keyspace where
  "logged_keys = \<lparr>ks_map = [str ''k'' \<mapsto> (OString (str ''7''), Some 9000)], ks_order = [str ''k'']\<rparr>"

definition logged_records :: "log_record list" where
  "logged_records = [(op_code op_set, [str ''k'', str ''7'']), (op_code op_expire_at, [str ''k'', decimal 9000])]"

definition logged_wal :: wal where
  "logged_wal =
     (let file = magic @ encode_log logged_records
      in \<lparr>w_file = file, w_durable = length file, w_sync = Always, w_total = length file, w_failed = False, w_dirty = False,
          w_defer = False, w_io = 0\<rparr>)"

definition logged_db :: db where
  "logged_db = (snd (schedule_expiry sample_env (the (find_node (str ''k'') sample_db)) 9000 sample_db))\<lparr>d_wal := Some logged_wal\<rparr>"

lemma flush_inv:
  assumes inv: "db_inv d A" and run: "flush_wal e d = (r, d')"
  shows "db_inv d' A"
proof (cases "d_wal d")
  case None
  then show ?thesis using inv run by (simp add: flush_wal_def)
next
  case (Some w)
  obtain w' where w: "flush_locked (e_io e) w = (r, w')" "d' = d\<lparr>d_wal := Some w'\<rparr>"
    using run Some by (auto simp: flush_wal_def split: prod.splits)
  have "log_ok d' V" if l: "log_ok d V" for V
  proof -
    obtain rs extra where rs: "log_inv w (rs @ extra)" "\<not> w_failed w \<longrightarrow> extra = []" "v_replay rs Map.empty = Some V"
      using l Some by (auto simp: log_ok_def)
    have "\<not> w_failed w' \<Longrightarrow> \<not> w_failed w" using flush_locked_cases [OF w(1)] by (cases r) auto
    then show ?thesis using w(2) rs flush_locked_inv [OF rs(1) w(1)] by (intro log_okI [of _ w' rs extra]) auto
  qed
  moreover have "db_rep {} d' A" using db_inv_rep(1) [OF inv] w(2) by (simp add: db_rep_def counts_ok_def)
  ultimately show ?thesis using inv w(2) by (auto simp: db_inv_def db_st_def)
qed

lemma outcome_inv: "outcome e d key A res d' fits err good \<Longrightarrow> \<exists>B. db_inv d' B"
  by (auto simp: outcome_def kept_def split: sum.splits)

lemma set_inv:
  assumes "db_inv d A" "env_ok e" "db_set e key val d = (res, d')"
  shows "\<exists>B. db_inv d' B"
  using set_spec [OF assms] kept_exists by (cases res) auto

lemma step_inv:
  assumes "db_step e d d'" "env_ok e" "db_inv d A"
  shows "\<exists>B. db_inv d' B"
  using assms
proof (induction rule: db_step.induct)
  case (10 key args d r d')
  show ?case
  proof (cases "length args mod 2 = 0")
    case True
    then show ?thesis using outcome_inv [OF hash_set_texts_spec [OF 10(4,3,1) _ 10(2)]] by simp
  next
    case False
    then show ?thesis using 10 hash_set_texts_odd by auto
  qed
next
  case (14 key seconds d r d')
  then show ?case using expire_spec [OF 14(6,5,1-4)] kept_exists by (cases r) (auto split: option.splits)
next
  case (16 key d r d')
  then show ?case using del_spec [OF 16(3,2,1)] kept_exists by (cases r) auto
next
  case (17 target limit d r d')
  then show ?case using evict_to_spec by blast
next
  case (18 limit d r d')
  then show ?case using remove_expired_spec by blast
next
  case (19 d r d')
  then show ?case using compact_wal_spec by blast
next
  case (1 key val d r d')
  show ?case using set_inv [OF 1(3,2,1)] by blast
next
  case (2 key d r d')
  show ?case using get_spec(2) [OF 2(3,1)] by blast
next
  case (3 key d r d')
  show ?case using value_view_spec(2) [OF 3(3,1)] by blast
next
  case (4 key d r d')
  show ?case using outcome_inv [OF increment_spec [OF 4(3,2,1)]] by blast
next
  case (5 key v front d r d')
  show ?case using outcome_inv [OF list_push_spec [OF 5(3,2,1)]] by blast
next
  case (6 key vs front d r d')
  show ?case using outcome_inv [OF push_texts_spec [OF 6(3,2,1)]] by blast
next
  case (7 key front d r d')
  show ?case using outcome_inv [OF list_pop_spec [OF 7(3,2,1)]] by blast
next
  case (8 key d r d')
  show ?case using list_length_spec(2) [OF 8(3,1)] by blast
next
  case (9 key field v d r d')
  show ?case using outcome_inv [OF hash_assign_spec [OF 9(3,2,1)]] by blast
next
  case (11 key field d r d')
  show ?case using hash_field_spec(2) [OF 11(3,1)] by blast
next
  case (12 key field d r d')
  show ?case using outcome_inv [OF hash_del_spec [OF 12(3,2,1)]] by blast
next
  case (13 key d r d')
  show ?case using hash_length_spec(2) [OF 13(3,1)] by blast
next
  case (15 key d r d')
  show ?case using ttl_spec(2) [OF 15(3,1)] by blast
next
  case (20 d r d')
  show ?case using flush_inv [OF 20(3,1)] by blast
next
  case (21 d)
  show ?case using batch_inv(1) [OF 21(2)] by blast
next
  case (22 d r d')
  show ?case using batch_inv(2) [OF 22(3,1)] by blast
qed

lemma wal_open_fresh_state: "wal_open env k sync replay None st = (r, path, st') \<Longrightarrow> st' = st"
  by (auto simp: wal_open_def recover_def Let_def split: if_splits prod.splits sum.splits)

lemma open_fresh:
  assumes e: "env_ok e" and run: "open_wal e es sync None (db_init keys memory) = (r, path, d')"
  shows "\<exists>B. db_inv d' B"
proof -
  let ?d = "db_init keys memory"
  let ?begun = "?d\<lparr>replaying := True\<rparr>"
  have z: "d_wal ?d = None" "key_total ?d = 0" "replaying ?d = False" by (simp_all add: db_init_def)
  have rep: "db_rep {} ?d ks_empty" by (rule db_inv_rep(1) [OF init_inv])
  obtain r1 p st where o: "wal_open (e_io e) 0 sync (replay_step es) None (?begun, 0) = (r1, p, st)" by (metis surj_pair)
  have st: "st = (?begun, 0)" by (rule wal_open_fresh_state [OF o])
  show ?thesis
  proof (cases r1)
    case (Inl x)
    have "db_rep {} (?begun\<lparr>d_wal := None, replaying := False\<rparr>) ks_empty" using rep by (simp add: db_rep_def counts_ok_def)
    note c = clear_rep [OF this e]
    have "d' = clear_keyspace e (?begun\<lparr>d_wal := None, replaying := False\<rparr>)" using run o Inl st z by (simp add: open_wal_def)
    then have "db_inv d' ks_empty" using c by (simp add: db_inv_def db_st_def log_ok_def)
    then show ?thesis ..
  next
    case (Inr w)
    let ?d2 = "?begun\<lparr>d_wal := Some w, replaying := False\<rparr>"
    have l: "log_inv w []" using wal_open_fresh [OF o [unfolded Inr]] by simp
    have "db_rep {} ?d2 ks_empty" using rep by (simp add: db_rep_def counts_ok_def)
    moreover have "log_ok ?d2 (vals ks_empty)" using l by (intro log_okI [of _ w "[]" "[]"]) simp_all
    ultimately have "db_inv ?d2 ks_empty" by (simp add: db_inv_def db_st_def)
    moreover have "remove_expired_locked e no_expiry_limit ?d2 = (r, d')"
      using run o Inr st z by (auto simp: open_wal_def split: prod.splits)
    ultimately show ?thesis using remove_expired_locked_spec [OF _ e] by blast
  qed
qed

lemma restart_inv:
  assumes inv: "db_inv d A" and live: "\<not> replaying d" "d_wal d = Some w" and k: "8 \<le> k" "k \<le> length (w_file w)"
    and es: "\<And>i. env_ok (es i) \<and> 0 \<le> e_steady (es i) 0" and e: "env_ok e" and io: "\<And>i. io_ok (e_io e) i" "io_bad (e_io e) 5 = None"
    and run: "open_wal e es sync (Some (take k (w_file w))) (db_init keys memory) = (res, path, d')"
  shows "\<exists>B. db_inv d' B"
proof -
  have "log_ok d (vals A)" using inv live(1) by (simp add: db_inv_def db_st_def)
  then obtain rs where rs: "log_inv w rs" using live by (auto simp: log_ok_def)
  let ?rs = "take (complete_records (k - 8) rs) rs"
  have rec: "recover (e_io e) 4 (replay_step es) (Some (take k (w_file w))) st =
      (case replay_all (replay_step es) ?rs st of
         (Inl x, st1) \<Rightarrow> (Inl x, Some (take k (w_file w)), st1)
       | (Inr _, st1) \<Rightarrow> (Inr (8 + length (encode_log ?rs)), Some (magic @ encode_log ?rs), st1))" for st
    by (rule crash_recover [OF rs k]) (use io in simp_all)
  have ok: "\<forall>r \<in> set ?rs. record_ok r" using rs by (auto simp: log_inv_def dest: in_set_takeD)
  show ?thesis using open_recovers [OF es e io(1) rec ok run] by (cases res) auto
qed

lemma reachable_inv: "reachable d \<Longrightarrow> \<exists>A. db_inv d A"
proof (induction rule: reachable.induct)
  case (start keys memory)
  show ?case using init_inv by blast
next
  case (fresh e es sync keys memory r path d)
  show ?case using open_fresh [OF fresh(2,1)] .
next
  case (restart d w k e es sync keys memory r path d')
  then show ?case using restart_inv by blast
next
  case (step d e d')
  then show ?case using step_inv by blast
qed

text \<open>What a client of the database relies on: each call keeps the invariant.\<close>

locale store =
  fixes inv :: "'d \<Rightarrow> bool" and step :: "'d \<Rightarrow> 'd \<Rightarrow> bool"
  assumes step_keeps: "inv d \<Longrightarrow> step d d' \<Longrightarrow> inv d'"
begin

lemma steps_keep: "step\<^sup>*\<^sup>* d d' \<Longrightarrow> inv d \<Longrightarrow> inv d'"
  by (induction rule: rtranclp_induct) (auto intro: step_keeps)

end

interpretation database: store "\<lambda>d. \<exists>A. db_inv d A" "db_call"
  by unfold_locales (auto simp: db_call_def intro: step_inv)

section \<open>Success\<close>

lemma mem_allocate_granted:
  assumes "\<And>rs n. place rs n \<noteq> None" "mem_limit s = 0"
  obtains p s' where "mem_allocate place n s = (Inr p, s')" "mem_limit s' = 0" "free_lists s' = free_lists s"
  using assms(1) [of "regions s" n] assms(2) by (auto simp: mem_allocate_def new_allocate_def)

lemma add_chunk_granted:
  assumes "\<And>rs n. place rs n \<noteq> None" "mem_limit s = 0" "i < 36" "length (free_lists s) = 36"
  obtains s' where "add_chunk place i s = (Inr (), s')" "mem_limit s' = 0" "free_lists s' ! i \<noteq> []"
proof -
  obtain p s1 where s1: "mem_allocate place 65536 s = (Inr p, s1)" "mem_limit s1 = 0" "free_lists s1 = free_lists s"
    using mem_allocate_granted [of place s] assms(1,2) by metis
  obtain q s2 where s2: "mem_allocate place chunk_struct_bytes s1 = (Inr q, s2)" "mem_limit s2 = 0" "free_lists s2 = free_lists s"
    using mem_allocate_granted [of place s1] assms(1) s1(2,3) by metis
  define n where "n = 65536 div class_sizes ! i"
  define fl where "fl = push_blocks p (class_sizes ! i) 0 n (free_lists s ! i)"
  have "class_sizes ! i \<le> 65536" "0 < class_sizes ! i" using class_sizes_bounds [OF assms(3)] by simp_all
  then have "0 < n" by (simp add: n_def div_greater_zero_iff)
  then have "set fl \<noteq> {}" unfolding fl_def set_push_blocks by simp
  then have ne: "fl \<noteq> []" by auto
  have "add_chunk place i s = (Inr (), s2\<lparr>chunks := \<lparr>c_memory = p, c_bytes = 65536, c_index = i, c_self = q\<rparr> # chunks s2,
      reserved := reserved s2 + 65536, free_lists := (free_lists s)[i := fl]\<rparr>)"
    unfolding add_chunk_def grow_bytes_class [OF assms(3)] Let_def using s1 s2 by (simp add: n_def [symmetric] fl_def)
  then show ?thesis by (rule that) (use s2 assms(3,4) ne in simp_all)
qed

lemma slab_granted:
  assumes "\<And>rs n. place rs n \<noteq> None" "mem_limit s = 0" "length (free_lists s) = 36"
  shows "\<exists>a s'. slab_allocate place sz s = (Inr a, s') \<and> mem_limit s' = 0"
proof (cases "largest_class < sz")
  case True
  obtain p s' where "mem_allocate place sz s = (Inr p, s')" "mem_limit s' = 0"
    by (rule mem_allocate_granted [OF assms(1,2)])
  then show ?thesis using True by (simp add: slab_allocate_def)
next
  case False
  define i where "i = class_index sz"
  have i: "i < 36" using class_index_correct [of sz] False by (simp add: i_def)
  have pop: "\<exists>a s'. pop_free i t = (Inr a, s') \<and> mem_limit s' = 0" if "mem_limit t = 0" "free_lists t ! i \<noteq> []" for t
    using that by (auto simp: pop_free_def split: list.splits)
  have alt: "slab_allocate place sz s = (if free_lists s ! i = []
      then (case add_chunk place i s of (Inl e, s1) \<Rightarrow> (Inl e, s1) | (Inr _, s1) \<Rightarrow> pop_free i s1) else pop_free i s)"
    unfolding slab_allocate_def i_def Let_def using False by (simp only: if_False)
  obtain s1 where s1: "add_chunk place i s = (Inr (), s1)" "mem_limit s1 = 0" "free_lists s1 ! i \<noteq> []"
    by (rule add_chunk_granted [OF assms(1,2) i assms(3)])
  show ?thesis
  proof (cases "free_lists s ! i = []")
    case True
    then show ?thesis unfolding alt s1(1) prod.case sum.case if_P [OF True] by (intro pop [OF s1(2,3)])
  next
    case ne: False
    then show ?thesis unfolding alt if_not_P [OF ne] by (intro pop [OF assms(2) ne])
  qed
qed

lemma node_layout_bound:
  assumes "k \<le> max_key_length" "cap \<le> 3 * value_limit"
  shows "fst (node_layout (unat (key_stride (of_nat k))) cap) < 2 ^ 32"
proof -
  have "unat (of_nat k :: u32) = k" using assms(1) by (simp add: unat_of_nat max_key_length_def)
  then have "unat (key_stride (of_nat k)) \<le> k + 7"
    using unat_key_stride [of "of_nat k"] assms(1) by (simp add: max_key_length_def)
  then have r: "node_bytes + unat (key_stride (of_nat k)) + cap + 8 < 2 ^ 32"
    using assms by (simp add: max_key_length_def value_limit_def node_bytes_def)
  let ?q = "node_bytes + unat (key_stride (of_nat k)) + cap"
  show ?thesis
  proof (cases "?q \<le> largest_class")
    case True
    then have "class_index ?q < 36" using class_index_correct [of ?q] by simp
    then show ?thesis using True class_sizes_bounds(2) [of "class_index ?q"] by (simp add: node_layout_def Let_def)
  next
    case False
    then show ?thesis using r by (simp add: node_layout_def Let_def)
  qed
qed

lemma create_granted:
  assumes rep: "db_rep P d A" and w: "willing e" and r: "roomy d"
    and k: "length key \<le> max_key_length" and c: "cap \<le> 3 * value_limit"
  obtains p d' where "create_node e key t cap d = (Inr p, d')" "roomy d'"
proof -
  obtain block cls where l: "node_layout (unat (key_stride (of_nat (length key)))) cap = (block, cls)" by fastforce
  then have b: "\<not> 2 ^ 32 - 1 < block" using node_layout_bound [OF k c] by simp
  have "length (free_lists (d_pool d)) = 36"
    using rep by (auto simp: db_rep_def pool_ok_def pool_inv_def pool_inv_for_def free_ok_def)
  then obtain a s' where s: "slab_allocate (e_place e) block (d_pool d) = (Inr a, s')" "mem_limit s' = 0"
    using slab_granted [of "e_place e" "d_pool d" block] w r by (auto simp: willing_def roomy_def)
  then show ?thesis using that r b l by (auto simp: create_node_def Let_def roomy_def put_node_def)
qed

lemma roomy_frames [simp]:
  "roomy (put_node a n d) = roomy d" "roomy (touch_node a d) = roomy d" "roomy (d\<lparr>expired_keys := v\<rparr>) = roomy d"
  "roomy (bump_sequence d) = roomy d" "roomy (set_key_total t d) = roomy d" "roomy (link a d) = roomy d" "roomy (unlink a d) = roomy d"
  by (simp_all add: roomy_def put_node_def touch_node_def bump_sequence_def set_key_total_def link_def unlink_def Let_def)

lemma log_roomy: "roomy d \<Longrightarrow> db_log e opr args d = (Inr (), d)"
  by (simp add: roomy_def db_log_def)

lemma std_free_roomy: "willing e \<Longrightarrow> roomy d \<Longrightarrow> roomy (std_free e k d)"
  by (simp add: willing_def roomy_def std_free_def)

lemma clear_expiry_roomy: "willing e \<Longrightarrow> roomy d \<Longrightarrow> roomy (clear_expiry e a d)"
  by (auto simp: clear_expiry_def Let_def willing_def roomy_def std_free_def put_node_def split: option.splits)

lemma destroy_roomy: "willing e \<Longrightarrow> roomy d \<Longrightarrow> roomy (destroy e a d)"
  by (auto simp: destroy_def Let_def willing_def roomy_def std_free_def slab_deallocate_def mem_deallocate_def)

lemma erase_roomy: "willing e \<Longrightarrow> roomy d \<Longrightarrow> roomy (erase_node e a d)"
proof -
  assume w: "willing e" and r: "roomy d"
  have "roomy (clear_expiry e a d)" by (rule clear_expiry_roomy [OF w r])
  then have "roomy ((clear_expiry e a d)\<lparr>d_lru := l\<rparr>)" for l by (simp add: roomy_def)
  then show ?thesis unfolding erase_node_def Let_def using destroy_roomy [OF w] by simp
qed

lemma commit_roomy: "willing e \<Longrightarrow> roomy d \<Longrightarrow> roomy (commit_node e old f k d)"
proof -
  assume w: "willing e" and r: "roomy d"
  then have "roomy (d\<lparr>d_sched := s\<rparr>)" for s by (simp add: roomy_def)
  then show ?thesis unfolding commit_node_def Let_def using r erase_roomy [OF w] by (cases old) simp_all
qed

lemma find_granted:
  assumes "willing e" "roomy d" "length key \<le> max_key_length"
  shows "\<exists>found d'. find_writable e key d = (Inr found, d') \<and> roomy d'"
  using assms erase_roomy [OF assms(1,2)] by (auto simp: find_writable_def log_roomy Let_def split: option.splits)

lemma rehash_granted:
  assumes "willing e" "roomy d"
  shows "\<exists>d'. (if c then maybe_rehash e d else (Inr (), d)) = (Inr (), d') \<and> roomy d'"
proof -
  obtain p where p: "e_std e 0 (d_pool d) = (Inr (), p)" "mem_limit p = 0"
    using assms by (cases "e_std e 0 (d_pool d)") (auto simp: willing_def roomy_def dest!: spec [of _ 0] spec [of _ "d_pool d"])
  have "\<exists>d'. rehash e n d = (Inr (), d') \<and> roomy d'" for n
    using p assms by (auto simp: rehash_def std_alloc_def Let_def std_free_def willing_def roomy_def)
  then show ?thesis using assms(2) by (simp add: maybe_rehash_def)
qed

lemma set_granted:
  assumes inv: "db_inv d A" and e: "env_ok e" and w: "willing e" and r: "roomy d"
    and k: "length key \<le> max_key_length" and v: "length val \<le> value_limit"
  shows "\<exists>d'. db_set e key val d = (Inr (), d') \<and> roomy d'"
proof -
  obtain found d1 where f: "find_writable e key d = (Inr found, d1)" and r1: "roomy d1" using find_granted [OF w r k] by blast
  note i1 = found_case(1) [OF inv e f]
  obtain d2 where h: "(if found = None then maybe_rehash e d1 else (Inr (), d1)) = (Inr (), d2)" and r2: "roomy d2"
    using rehash_granted [OF w r1, of "found = None"] by blast
  have v32: "w32 (length val) = length val" using v w32_small [of "length val"] by (simp add: value_limit_def)
  have v3: "length val \<le> 3 * value_limit" using v by simp
  obtain p d3 where c: "create_node e key NString (length val) d2 = (Inr p, d3)" and r3: "roomy d3"
    by (rule create_granted [OF db_inv_rep(1) [OF rehash_if_inv(1) [OF i1 e h]] w r2 k v3])
  have lp: "log_pending e p opr args (put_node p n d3) = (Inr (), put_node p n d3)" for n opr args
    using r3 by (simp add: log_pending_def log_roomy)
  have nv: "\<not> value_limit < length val" using v by simp
  show ?thesis
    unfolding db_set_def if_not_P [OF nv] f prod.case sum.case h v32 c Let_def lp log_roomy [OF r1]
    using commit_roomy [OF w] clear_expiry_roomy [OF w] r1 r3 by simp
qed

section \<open>A sample session\<close>

lemma sample_env_ok: "env_ok sample_env"
  using bump_ok by (simp add: env_ok_def sample_env_def)

lemma sample_willing: "willing sample_env"
  by (simp add: willing_def sample_env_def bump_def)

lemma init_roomy: "roomy (db_init keys 0)"
  by (simp add: roomy_def db_init_def pool_init_def)

lemma sample_set: "db_set sample_env (str ''k'') (str ''7'') (db_init 16 0) = (Inr (), sample_db)" "roomy sample_db"
proof -
  obtain d' where d': "db_set sample_env (str ''k'') (str ''7'') (db_init 16 0) = (Inr (), d')" "roomy d'"
    using set_granted [OF init_inv sample_env_ok sample_willing init_roomy, of "str ''k''" "str ''7''"]
    by (auto simp: max_key_length_def value_limit_def)
  then show "db_set sample_env (str ''k'') (str ''7'') (db_init 16 0) = (Inr (), sample_db)" "roomy sample_db"
    by (simp_all add: sample_db_def)
qed

lemma sample_db_inv: "db_inv sample_db sample_keys"
proof -
  have "a_touch (str ''k'') (a_put (str ''k'') (OString (str ''7''), None) (a_seen sample_env (db_init 16 0) (str ''k'') ks_empty))
      = sample_keys"
    by (simp add: a_seen_def a_find_def ks_empty_def a_put_def a_touch_def sample_keys_def)
  then show ?thesis using set_spec [OF init_inv sample_env_ok sample_set(1)] by simp
qed

lemma sample_replaying: "\<not> replaying sample_db"
  using set_spec [OF init_inv sample_env_ok sample_set(1)] by (simp add: db_init_def)

lemma sample_vals: "vals sample_keys = [str ''k'' \<mapsto> (OString (str ''7''), False)]"
  by (auto simp: vals_def sample_keys_def)

lemma logged_vals: "vals logged_keys = [str ''k'' \<mapsto> (OString (str ''7''), True)]"
  by (auto simp: vals_def logged_keys_def)

lemma logged_decimal: "from_chars_i64 (decimal 9000) = Some 9000" "sint (9000 :: int64) = 9000"
  using decimal_from_chars [of 9000] by (simp_all add: max_int_def)

lemma logged_replay: "v_replay logged_records Map.empty = Some (vals logged_keys)"
proof -
  have "v_apply op_set [str ''k'', str ''7''] Map.empty = Some [str ''k'' \<mapsto> (OString (str ''7''), False)]"
    by (simp add: v_apply_def max_key_length_def value_limit_def)
  moreover have "v_apply op_expire_at [str ''k'', decimal 9000] [str ''k'' \<mapsto> (OString (str ''7''), False)] = Some (vals logged_keys)"
    unfolding logged_vals by (simp add: v_apply_def max_key_length_def logged_decimal)
  ultimately show ?thesis by (simp add: logged_records_def del: op_code.simps)
qed

lemma logged_stamp: "last_stamp (str ''k'') logged_records = Some (1, 9000)"
proof -
  have "record_stamp (op_code op_expire_at, [str ''k'', decimal 9000]) = Some (str ''k'', 9000)"
    by (simp add: record_stamp_def logged_decimal del: op_code.simps)
  then show ?thesis by (simp add: logged_records_def del: op_code.simps)
qed

lemma logged_log: "log_inv logged_wal logged_records"
proof -
  have "length (decimal 9000) \<le> 20" by (simp add: decimal_def decimal_nat.simps)
  then show ?thesis
    by (simp add: log_inv_def logged_wal_def Let_def logged_records_def record_ok_def encode_payload_def max_record_def)
qed

lemma logged_db_inv: "db_inv logged_db logged_keys" "\<not> replaying logged_db" "d_wal logged_db = Some logged_wal" "\<not> w_failed logged_wal"
proof -
  show w: "d_wal logged_db = Some logged_wal" by (simp add: logged_db_def)
  then have lg: "log_ok logged_db (vals logged_keys)" using logged_log logged_replay by (intro log_okI [of _ _ logged_records "[]"]) simp_all
  let ?k = "str ''k''"
  have r: "db_rep {} sample_db sample_keys" "db_st {} sample_db sample_keys (vals sample_keys)" using db_inv_rep [OF sample_db_inv] by simp_all
  have "ks_map sample_keys ?k \<noteq> None" by (simp add: sample_keys_def)
  then obtain a where a: "find_node ?k sample_db = Some a" using find_node_None [OF r(1)] by (cases "find_node ?k sample_db") auto
  note f = find_node_Some [OF r(1) a]
  obtain d1 where sc: "schedule_expiry sample_env a 9000 sample_db = (Inr (), d1)"
    by (cases "expiries (d_sched sample_db) a") (auto simp: schedule_expiry_def Let_def std_alloc_def sample_env_def split: prod.splits)
  have ob: "ks_map sample_keys ?k = Some (OString (str ''7''), None)" by (simp add: sample_keys_def)
  have ak: "a_put ?k (OString (str ''7''), Some 9000) sample_keys = logged_keys"
    by (simp add: a_put_def sample_keys_def logged_keys_def)
  note s = schedule_st [OF r(2) sample_env_ok f ob sc, unfolded sum.case ak]
  have d: "logged_db = d1\<lparr>d_wal := Some logged_wal\<rparr>" by (simp add: logged_db_def a sc)
  show "\<not> replaying logged_db" unfolding d using s sample_replaying by simp
  have "db_rep {} d1 logged_keys" using s by (simp add: db_st_def)
  then have "db_rep {} logged_db logged_keys" unfolding d by (simp add: db_rep_def counts_ok_def)
  moreover have "ks_ok logged_keys" by (auto simp: ks_ok_def logged_keys_def max_key_length_def value_limit_def)
  ultimately show "db_inv logged_db logged_keys" using lg by (simp add: db_inv_def db_st_def)
  show "\<not> w_failed logged_wal" by (simp add: logged_wal_def Let_def)
qed

lemma logged_not_swept: "swept 5000 n ks logged_keys \<Longrightarrow> ks = []"
  by (cases ks) (auto simp: swept_def logged_keys_def is_expired_def split: if_splits)

lemma logged_recovers:
  assumes "recovers (\<lambda>_. sample_env) (e_steady sample_env 0) logged_records (vals logged_keys) B"
  shows "ks_map B = [str ''k'' \<mapsto> (OString (str ''7''), Some 9000)]"
proof -
  have e: "e_steady sample_env 0 = 5000" "due sample_env 9000 = 9000" by (simp_all add: sample_env_def due_def)
  obtain B0 ks where B0: "restores (\<lambda>_. sample_env) logged_records (vals logged_keys) B0" "swept 5000 no_expiry_limit ks B0"
    "B = fold a_drop ks B0"
    using assms unfolding recovers_def e(1) by blast
  have m: "ks_map B0 = ks_map logged_keys"
  proof
    fix key
    show "ks_map B0 key = ks_map logged_keys key"
      using B0(1) [unfolded restores_def logged_vals, rule_format, of key] logged_stamp e(2)
      by (auto simp: logged_keys_def split: if_splits)
  qed
  then have "swept 5000 no_expiry_limit ks logged_keys" using B0(2) by (simp add: swept_def)
  from logged_not_swept [OF this] show ?thesis using B0(3) m by (simp add: logged_keys_def)
qed

lemma sample_seen:
  "a_seen sample_env sample_db (str ''k'') sample_keys = a_touch (str ''k'') sample_keys"
  "a_seen sample_env sample_db (str ''n'') sample_keys = sample_keys"
  "obj_of (vals (a_touch (str ''k'') sample_keys)) (str ''k'') = Some (OString (str ''7''))"
  "obj_of (vals sample_keys) (str ''n'') = None"
  by (simp_all add: a_seen_def a_find_def sample_keys_def is_expired_def obj_of_def vals_def a_touch_def) (simp_all add: str_def)

lemma outcome_cases:
  "outcome e d key A res d' fits err good \<Longrightarrow>
     (case res of
        Inl x \<Rightarrow> db_inv d' A \<or> db_inv d' (a_seen e d key A)
      | Inr (Inl c) \<Rightarrow> err c \<and> db_inv d' (a_seen e d key A)
      | Inr (Inr y) \<Rightarrow> \<exists>B. db_inv d' B \<and> good y B)"
  by (auto simp: outcome_def kept_def split: sum.splits)

lemma prod_case: "f (fst p) (snd p) \<Longrightarrow> case p of (r, d') \<Rightarrow> f r d'"
  by (cases p) simp

section \<open>Properties\<close>

text \<open>
  C8. Every state a database can reach, by any calls, with failures of memory, of files and of the
  log at any point, and by crashes and restarts from any prefix of the log, represents a keyspace:
  the table, the eviction list, the deadlines, the slab blocks and the counters agree on one map
  from keys to objects, and the log, when it has not failed, replays to exactly that map.
\<close>

theorem reachable_represents:
  assumes "reachable d"
  shows "\<exists>A. db_inv d A"
  using assms by (rule reachable_inv)

theorem reachable_represents_witness: "reachable sample_db \<and> (\<exists>A. db_inv sample_db A)"
proof -
  have r: "reachable sample_db"
    using reachable.step [OF reachable.start sample_env_ok db_step.intros(1) [OF sample_set(1)]] .
  show ?thesis using r reachable_represents [OF r] by simp
qed

text \<open>
  C3. After a crash that keeps any prefix of the log holding its header, opening the log again
  restores exactly the keys of the complete records that survived, each with its object and, where it
  has one, the deadline of its last time stamp: as far ahead on the steady clock as the stamp is on
  the wall clock when the record is replayed. A key is missing only when that deadline has passed at
  the time of the opening, and no such key is left. When the whole file survived, the objects and the
  keys with a deadline are those the database held. An open that fails does so for want of memory or
  because a new write to the log failed.
\<close>

theorem crash_restores:
  assumes "db_inv d A" "\<not> replaying d" "d_wal d = Some w" "\<not> w_failed w" "8 \<le> k" "k \<le> length (w_file w)"
    and "\<And>i. env_ok (es i) \<and> 0 \<le> e_steady (es i) 0" "env_ok e" "\<And>i. io_ok (e_io e) i" "io_bad (e_io e) 5 = None"
    and "open_wal e es sync (Some (take k (w_file w))) (db_init keys memory) = (res, path, d')"
  shows "\<exists>rs V. log_inv w rs \<and> v_replay rs Map.empty = Some (vals A)
    \<and> v_replay (take (complete_records (k - 8) rs) rs) Map.empty = Some V \<and> (k = length (w_file w) \<longrightarrow> V = vals A)
    \<and> (case res of
         Inl x \<Rightarrow> (\<exists>B. db_inv d' B) \<and> (is_bad_alloc x \<or> d_wal d' \<noteq> None)
       | Inr _ \<Rightarrow> \<exists>B. db_inv d' B \<and> recovers es (e_steady e 0) (take (complete_records (k - 8) rs) rs) V B
           \<and> \<not> replaying d' \<and> d_wal d' \<noteq> None)"
  using assms by (rule crash_reopen)

theorem crash_restores_witness:
  "case open_wal sample_env (\<lambda>_. sample_env) Always (Some (w_file logged_wal)) (db_init 16 0) of (res, path, d') \<Rightarrow>
     (case res of
        Inl x \<Rightarrow> (\<exists>B. db_inv d' B) \<and> (is_bad_alloc x \<or> d_wal d' \<noteq> None)
      | Inr _ \<Rightarrow> \<exists>B. db_inv d' B \<and> ks_map B = [str ''k'' \<mapsto> (OString (str ''7''), Some 9000)] \<and> \<not> replaying d' \<and> d_wal d' \<noteq> None)"
proof -
  let ?f = "w_file logged_wal" and ?n = "complete_records (length (w_file logged_wal) - 8) logged_records"
  have f: "8 \<le> length ?f" "take (length ?f) ?f = ?f" "take ?n logged_records = logged_records"
    by (simp_all add: logged_wal_def Let_def complete_all)
  have io: "io_ok (e_io sample_env) i" "io_bad (e_io sample_env) 5 = None" for i by (simp_all add: sample_env_def calm_def)
  have es: "env_ok sample_env \<and> 0 \<le> e_steady sample_env 0" using sample_env_ok by (simp add: sample_env_def)
  obtain res path d' where run: "open_wal sample_env (\<lambda>_. sample_env) Always (Some (take (length ?f) ?f)) (db_init 16 0) = (res, path, d')"
    by (rule prod_cases3)
  from crash_restores [OF logged_db_inv f(1) order.refl es sample_env_ok io run] obtain rs where rs: "log_inv logged_wal rs"
    and c: "case res of
         Inl x \<Rightarrow> (\<exists>B. db_inv d' B) \<and> (is_bad_alloc x \<or> d_wal d' \<noteq> None)
       | Inr _ \<Rightarrow> \<exists>B. db_inv d' B \<and> recovers (\<lambda>_. sample_env) (e_steady sample_env 0) (take (complete_records (length ?f - 8) rs) rs) (vals logged_keys) B
           \<and> \<not> replaying d' \<and> d_wal d' \<noteq> None"
    by auto
  have "rs = logged_records" by (rule log_unique [OF rs logged_log logged_db_inv(4)])
  then show ?thesis using c run unfolding f(2,3) by (auto simp: f(3) dest!: logged_recovers split: sum.splits)
qed

text \<open>
  C10. Compaction removes expired keys only and keeps every other key with its object and deadline;
  when it succeeds, the log is a new complete and durable file that replays to exactly the objects
  the database holds. It has a time stamp for exactly the keys that have a deadline, each as far
  ahead on the wall clock as the deadline is on the steady clock.
\<close>

theorem compaction_keeps:
  assumes "db_inv d A" "env_ok e" "\<not> replaying d" "0 \<le> e_wall e 0"
  shows "case compact_wal e d of (res, d') \<Rightarrow>
    \<exists>ks. swept (e_steady e 0) no_expiry_limit ks A \<and> db_inv d' (fold a_drop ks A)
      \<and> (res = Inr () \<longrightarrow> (\<exists>w new. d_wal d' = Some w \<and> log_inv w new \<and> \<not> w_failed w \<and> w_durable w = length (w_file w)
           \<and> v_replay new Map.empty = Some (vals (fold a_drop ks A))
           \<and> (\<forall>key. map_option snd (last_stamp key new) =
                map_option (stamp_for (e_steady e 1) (e_wall e 0)) (ttl_of (fold a_drop ks A) key))))"
  using compact_wal_spec [OF assms] by (auto split: prod.splits)

theorem compaction_keeps_witness:
  "case compact_wal sample_env logged_db of (res, d') \<Rightarrow>
     db_inv d' logged_keys
     \<and> (res = Inr () \<longrightarrow> (\<exists>w new. d_wal d' = Some w \<and> log_inv w new \<and> \<not> w_failed w \<and> w_durable w = length (w_file w)
          \<and> v_replay new Map.empty = Some (vals logged_keys) \<and> map_option snd (last_stamp (str ''k'') new) = Some 9000))"
proof -
  have e: "0 \<le> e_wall sample_env 0" "e_steady sample_env 0 = 5000" "stamp_for (e_steady sample_env 1) (e_wall sample_env 0) 9000 = 9000"
    by (simp_all add: sample_env_def stamp_for_def)
  obtain res d' where run: "compact_wal sample_env logged_db = (res, d')" by fastforce
  from compaction_keeps [OF logged_db_inv(1) sample_env_ok logged_db_inv(2) e(1), unfolded run prod.case e(2)]
  obtain ks where ks: "swept 5000 no_expiry_limit ks logged_keys" "db_inv d' (fold a_drop ks logged_keys)"
    "res = Inr () \<longrightarrow> (\<exists>w new. d_wal d' = Some w \<and> log_inv w new \<and> \<not> w_failed w \<and> w_durable w = length (w_file w)
       \<and> v_replay new Map.empty = Some (vals (fold a_drop ks logged_keys))
       \<and> (\<forall>key. map_option snd (last_stamp key new) =
            map_option (stamp_for (e_steady sample_env 1) (e_wall sample_env 0)) (ttl_of (fold a_drop ks logged_keys) key)))"
    by blast
  have k: "ks = []" using logged_not_swept [OF ks(1)] .
  have t: "ttl_of logged_keys (str ''k'') = Some 9000" by (simp add: ttl_of_def logged_keys_def)
  have "map_option snd (last_stamp (str ''k'') new) = Some 9000"
    if "\<forall>key. map_option snd (last_stamp key new) = map_option (stamp_for (e_steady sample_env 1) (e_wall sample_env 0)) (ttl_of logged_keys key)"
    for new using spec [OF that, of "str ''k''"] unfolding t option.map e(3) .
  then show ?thesis using ks(2,3) unfolding run prod.case k fold_simps by blast
qed

text \<open>
  \<^verbatim>\<open>SET\<close> makes the key hold exactly the bytes given, without a deadline, as the most recently used
  key, whatever the key held before and whether its node is reused or replaced; a failure leaves
  every key as it was, apart from this key when it had expired.
\<close>

lemma set_stores:
  assumes "db_inv d A" "env_ok e"
  shows "case db_set e key val d of
      (Inl x, d') \<Rightarrow> db_inv d' A \<or> db_inv d' (a_seen e d key A)
    | (Inr _, d') \<Rightarrow> db_inv d' (a_touch key (a_put key (OString val, None) (a_seen e d key A)))"
  using set_spec [OF assms] by (fastforce simp: kept_def split: prod.splits sum.splits)

lemma set_stores_witness:
  "case db_set sample_env (str ''k'') (str ''8'') sample_db of
      (Inl x, d') \<Rightarrow> db_inv d' sample_keys \<or> db_inv d' (a_seen sample_env sample_db (str ''k'') sample_keys)
    | (Inr _, d') \<Rightarrow> db_inv d' (a_touch (str ''k'') (a_put (str ''k'') (OString (str ''8''), None)
        (a_seen sample_env sample_db (str ''k'') sample_keys)))"
  using set_stores [OF sample_db_inv sample_env_ok] .

text \<open>
  C24. Where memory is granted, no limit is set and no log is kept, \<^verbatim>\<open>SET\<close> of a key and a value within
  the limits succeeds, and a \<^verbatim>\<open>GET\<close> of the key, at any later time, answers the value.
\<close>

theorem set_then_get:
  assumes "db_inv d A" "env_ok e" "willing e" "roomy d" "length key \<le> max_key_length" "length val \<le> value_limit"
  shows "fst (db_set e key val d) = Inr () \<and> fst (db_get e' key (snd (db_set e key val d))) = Inr (Some val)"
proof -
  obtain d' where d': "db_set e key val d = (Inr (), d')" using set_granted [OF assms] by blast
  then have "db_inv d' (a_touch key (a_put key (OString val, None) (a_seen e d key A)))"
    using set_spec [OF assms(1,2) d'] by simp
  from get_spec(1) [OF this, of e' key] have "fst (db_get e' key d') = Inr (Some val)"
    by (cases "db_get e' key d'") (simp add: a_look_def a_find_def a_touch_def a_put_def get_obj_def is_expired_def)
  then show ?thesis using d' by simp
qed

theorem set_then_get_witness:
  "fst (db_set sample_env (str ''k'') (str ''8'') sample_db) = Inr ()
   \<and> fst (db_get sample_env (str ''k'') (snd (db_set sample_env (str ''k'') (str ''8'') sample_db))) = Inr (Some (str ''8''))"
proof -
  have "length (str ''k'') \<le> max_key_length" "length (str ''8'') \<le> value_limit" by (simp_all add: max_key_length_def value_limit_def)
  then show ?thesis using set_then_get [OF sample_db_inv sample_env_ok sample_willing sample_set(2)] by blast
qed

text \<open>
  C32. \<^verbatim>\<open>INCR\<close> adds one to an integer, to a text that reads as one, or to a missing key read as zero, keeps
  the deadline and answers the new value; a value that is no integer or is the largest one, and a
  list or a hash, is refused with the error the code names and is not changed.
\<close>

theorem increment_adds_one:
  assumes "db_inv d A" "env_ok e"
  shows "case increment e key d of
      (Inl x, d') \<Rightarrow> db_inv d' A \<or> db_inv d' (a_seen e d key A)
    | (Inr (Inl c), d') \<Rightarrow> incr_obj (obj_of (vals (a_seen e d key A)) key) = Inl c \<and> db_inv d' (a_seen e d key A)
    | (Inr (Inr i), d') \<Rightarrow> incr_obj (obj_of (vals (a_seen e d key A)) key) = Inr i
        \<and> db_inv d' (a_store key (OInteger i) (a_seen e d key A))"
  using increment_spec [OF assms] by (fastforce simp: outcome_def kept_def split: prod.splits sum.splits)

theorem increment_adds_one_witness:
  "case increment sample_env (str ''n'') sample_db of
      (Inl x, d') \<Rightarrow> db_inv d' sample_keys
    | (Inr (Inl c), d') \<Rightarrow> False
    | (Inr (Inr i), d') \<Rightarrow> i = 1 \<and> db_inv d' (a_store (str ''n'') (OInteger 1) sample_keys)"
  using increment_adds_one [OF sample_db_inv sample_env_ok, of "str ''n''"] sample_seen(2,4)
  by (auto simp: incr_obj_def split: prod.splits sum.splits)



text \<open>
  C34. \<^verbatim>\<open>LPOP\<close> and \<^verbatim>\<open>RPOP\<close> answer the element at the front or the back and remove it, and remove the key with
  its last element; a missing key answers nothing and a value of another type is refused unchanged.
\<close>

theorem pop_takes_end:
  assumes "db_inv d A" "env_ok e"
  shows "case list_pop e key front d of
      (Inl x, d') \<Rightarrow> db_inv d' A \<or> db_inv d' (a_seen e d key A)
    | (Inr (Inl c), d') \<Rightarrow> pop_obj front (obj_of (vals (a_seen e d key A)) key) = Inl c \<and> db_inv d' (a_seen e d key A)
    | (Inr (Inr r), d') \<Rightarrow> \<exists>B. db_inv d' B \<and>
        (case pop_obj front (obj_of (vals (a_seen e d key A)) key) of
           Inr None \<Rightarrow> r = None \<and> B = a_seen e d key A
         | Inr (Some (v, ys)) \<Rightarrow> r = Some v \<and>
             B = (if ys = [] then a_drop key (a_seen e d key A) else a_store key (OList ys) (a_seen e d key A))
         | Inl _ \<Rightarrow> False)"
  using outcome_cases [OF list_pop_spec [OF assms prod.collapse [symmetric]]] by (rule prod_case)

theorem pop_takes_end_witness:
  "case list_pop sample_env (str ''n'') True sample_db of
      (Inl x, d') \<Rightarrow> db_inv d' sample_keys
    | (Inr (Inl c), d') \<Rightarrow> False
    | (Inr (Inr r), d') \<Rightarrow> r = None \<and> db_inv d' sample_keys"
  using pop_takes_end [OF sample_db_inv sample_env_ok, of "str ''n''" True] sample_seen(2,4)
  by (auto simp: pop_obj_def list_of_def split: prod.splits sum.splits)



text \<open>
  \<^verbatim>\<open>HDEL\<close> removes the field and says whether it was there, and removes the key with its last field,
  for packed hashes and for tables.
\<close>

lemma hdel_removes_field:
  assumes "db_inv d A" "env_ok e"
  shows "case hash_del e key field d of
      (Inl x, d') \<Rightarrow> db_inv d' A \<or> db_inv d' (a_seen e d key A)
    | (Inr (Inl c), d') \<Rightarrow> hdel_obj field (obj_of (vals (a_seen e d key A)) key) = Inl c \<and> db_inv d' (a_seen e d key A)
    | (Inr (Inr b), d') \<Rightarrow> \<exists>B. db_inv d' B \<and>
        (case hdel_obj field (obj_of (vals (a_seen e d key A)) key) of
           Inr None \<Rightarrow> \<not> b \<and> B = a_seen e d key A
         | Inr (Some h) \<Rightarrow> b \<and> B = (if h = Map.empty then a_drop key (a_seen e d key A) else a_store key (OHash h) (a_seen e d key A))
         | Inl _ \<Rightarrow> False)"
  using outcome_cases [OF hash_del_spec [OF assms prod.collapse [symmetric]]] by (rule prod_case)

lemma hdel_removes_field_witness:
  "case hash_del sample_env (str ''n'') (str ''f'') sample_db of
      (Inl x, d') \<Rightarrow> db_inv d' sample_keys
    | (Inr (Inl c), d') \<Rightarrow> False
    | (Inr (Inr b), d') \<Rightarrow> \<not> b \<and> db_inv d' sample_keys"
  using hdel_removes_field [OF sample_db_inv sample_env_ok, of "str ''n''" "str ''f''"] sample_seen(2,4)
  by (auto simp: hdel_obj_def hash_of_def split: prod.splits sum.splits)

text \<open>
  The reading commands answer from the keyspace, treat an expired key as missing without
  removing it, refuse a value of another type, and change nothing but the recency of the key.
\<close>

lemma reads_answer:
  assumes "db_inv d A"
  shows "fst (db_get e key d) = get_obj (map_option fst (a_look e d key A))
    \<and> fst (list_length e key d) = llen_obj (map_option fst (a_look e d key A))
    \<and> fst (hash_field e key field d) = hget_obj field (map_option fst (a_look e d key A))
    \<and> fst (hash_length e key d) = hlen_obj (map_option fst (a_look e d key A))
    \<and> fst (ttl e key d) = (case a_look e d key A of
         None \<Rightarrow> - 2
       | Some (_, None) \<Rightarrow> - 1
       | Some (_, Some t) \<Rightarrow> if t - e_steady e 1 \<le> 0 then - 2 else (t - e_steady e 1) div 1000)
    \<and> (\<forall>d' \<in> {snd (db_get e key d), snd (list_length e key d), snd (hash_field e key field d),
          snd (hash_length e key d), snd (ttl e key d)}. db_inv d' (a_read e d key A))"
  using get_spec [OF assms prod.collapse [symmetric]] list_length_spec [OF assms prod.collapse [symmetric]]
    hash_field_spec [OF assms prod.collapse [symmetric]] hash_length_spec [OF assms prod.collapse [symmetric]]
    ttl_spec [OF assms prod.collapse [symmetric]]
  by auto

lemma reads_answer_witness:
  "fst (db_get sample_env (str ''k'') sample_db) = Inr (Some (str ''7''))
   \<and> fst (list_length sample_env (str ''k'') sample_db) = Inl wrong_type
   \<and> fst (hash_length sample_env (str ''n'') sample_db) = Inr 0 \<and> fst (ttl sample_env (str ''k'') sample_db) = - 1"
proof -
  have k: "a_look sample_env sample_db (str ''k'') sample_keys = Some (OString (str ''7''), None)"
    and n: "a_look sample_env sample_db (str ''n'') sample_keys = None"
    by (simp_all add: a_look_def a_find_def sample_keys_def is_expired_def str_def)
  show ?thesis
    using reads_answer [OF sample_db_inv, of sample_env "str ''k''"] reads_answer [OF sample_db_inv, of sample_env "str ''n''"]
    unfolding k n by (simp add: get_obj_def llen_obj_def list_of_def hlen_obj_def hash_of_def)
qed

text \<open>
  C36. \<^verbatim>\<open>EXPIRE\<close> gives a key that is there the deadline so many seconds from now and leaves its value,
  removes it at once when the time is not positive, and says whether the key was there. A log gains
  exactly one record for a new deadline, with the time so many seconds from now on the wall clock.
\<close>

theorem expire_sets_deadline:
  assumes "db_inv d A" "env_ok e" "0 \<le> e_steady e 1" "0 \<le> e_wall e 1" "e_wall e 1 + seconds * 1000 \<le> max_int"
  shows "case expire e key seconds d of
      (Inl x, d') \<Rightarrow> db_inv d' A \<or> db_inv d' (a_seen e d key A)
    | (Inr b, d') \<Rightarrow>
        (case ks_map (a_seen e d key A) key of
           None \<Rightarrow> \<not> b \<and> db_inv d' (a_seen e d key A)
         | Some (ob, _) \<Rightarrow> b \<and> db_inv d' (if seconds \<le> 0 then a_drop key (a_seen e d key A)
             else a_put key (ob, Some (e_steady e 1 + seconds * 1000)) (a_seen e d key A)))
        \<and> (\<forall>w. b \<and> 0 < seconds \<and> \<not> replaying d \<and> d_wal d = Some w \<longrightarrow>
             (\<exists>w' rs. d_wal d' = Some w' \<and> \<not> w_failed w' \<and> log_inv w rs
                \<and> log_inv w' (rs @ [(op_code op_expire_at, [key, decimal (e_wall e 1 + seconds * 1000)])])))"
proof -
  obtain res d' where run: "expire e key seconds d = (res, d')" by fastforce
  show ?thesis
    using expire_spec [OF assms(1,2) run assms(3-5)] expire_logs [OF assms(1,2), of key seconds d'] run
    by (cases res) (simp_all add: kept_def split: option.splits prod.splits del: op_code.simps)
qed

theorem expire_sets_deadline_witness:
  "case expire sample_env (str ''k'') 10 sample_db of
      (Inl x, d') \<Rightarrow> db_inv d' sample_keys \<or> db_inv d' (a_touch (str ''k'') sample_keys)
    | (Inr b, d') \<Rightarrow> b \<and> db_inv d' (a_put (str ''k'') (OString (str ''7''), Some 15000) (a_touch (str ''k'') sample_keys))"
proof -
  have "0 \<le> e_steady sample_env 1" "0 \<le> e_wall sample_env 1" "e_wall sample_env 1 + 10 * 1000 \<le> max_int" "e_steady sample_env 1 = 5000"
    by (simp_all add: sample_env_def max_int_def)
  moreover have "ks_map (a_touch (str ''k'') sample_keys) (str ''k'') = Some (OString (str ''7''), None)"
    by (simp add: a_touch_def sample_keys_def)
  ultimately show ?thesis
    using expire_sets_deadline [OF sample_db_inv sample_env_ok, of 10 "str ''k''"] unfolding sample_seen(1) by (simp split: prod.splits sum.splits)
qed

text \<open>
  C37. Eviction keeps exactly the most recently used keys: with limit and target it removes
  as many keys from the cold end as are over the target, at most the limit, and reports their
  number; a failure of the log stops it early, still at the cold end.
\<close>

theorem evict_keeps_recent:
  assumes "db_inv d A" "env_ok e"
  shows "case evict_to e target limit d of (res, d') \<Rightarrow>
    \<exists>k \<le> limit. k \<le> length (ks_order A)
      \<and> db_inv d' \<lparr>ks_map = ks_map A |` set (take (length (ks_order A) - k) (ks_order A)),
                    ks_order = take (length (ks_order A) - k) (ks_order A)\<rparr>
      \<and> (\<forall>v. res = Inr v \<longrightarrow> v = k \<and> k = min limit (length (ks_order A) - target))"
proof -
  have core: "db_core {} d A" using db_inv_rep(1) [OF assms(1)] by (simp add: db_rep_core)
  have o: "distinct (ks_order A)" "dom (ks_map A) \<subseteq> set (ks_order A)"
    using order_distinct [OF core] order_dom(1) [OF core] by simp_all
  obtain res d' where run: "evict_to e target limit d = (res, d')" by fastforce
  from evict_to_spec [OF assms run] obtain k where k: "k \<le> limit" "k \<le> length (ks_order A)" "db_inv d' (a_evict k A)"
    and r: "\<forall>v. res = Inr v \<longrightarrow> v = k \<and> k = min limit (length (ks_order A) - target)" by blast
  have "a_evict k A = \<lparr>ks_map = ks_map A |` set (take (length (ks_order A) - k) (ks_order A)),
      ks_order = take (length (ks_order A) - k) (ks_order A)\<rparr>"
    using a_evict_order [OF o k(2)] by (cases "a_evict k A") simp
  then show ?thesis using run k r by auto
qed

theorem evict_keeps_recent_witness:
  "case evict_to sample_env 0 5 sample_db of (res, d') \<Rightarrow>
    \<exists>k \<le> 1. db_inv d' \<lparr>ks_map = ks_map sample_keys |` set (take (1 - k) [str ''k'']), ks_order = take (1 - k) [str ''k'']\<rparr>
      \<and> (\<forall>v. res = Inr v \<longrightarrow> v = 1 \<and> k = 1)"
proof -
  have o: "ks_order sample_keys = [str ''k'']" by (simp add: sample_keys_def)
  obtain res d' where run: "evict_to sample_env 0 5 sample_db = (res, d')" by (rule prod.exhaust)
  from evict_keeps_recent [OF sample_db_inv sample_env_ok, where target = 0 and limit = 5, unfolded run prod.case o]
  show ?thesis unfolding run prod.case by (elim exE) (rule exI, auto)
qed

text \<open>
  C38. The expiry sweep removes only keys whose deadline has passed, at most the limit, each once;
  one that succeeds with room left leaves no expired key.
\<close>

theorem sweep_removes_expired:
  assumes "db_inv d A" "env_ok e"
  shows "case remove_expired e limit d of (res, d') \<Rightarrow>
    \<exists>ks. swept (e_steady e 0) limit ks A \<and> db_inv d' (fold a_drop ks A)
      \<and> (res = Inr () \<longrightarrow> length ks = limit \<or> none_expired (e_steady e 0) (fold a_drop ks A))"
  using remove_expired_spec [OF assms] by (auto split: prod.splits)

theorem sweep_removes_expired_witness:
  "case remove_expired sample_env 5 sample_db of (res, d') \<Rightarrow> db_inv d' sample_keys"
proof -
  have "ks = []" if "swept (e_steady sample_env 0) 5 ks sample_keys" for ks
    using that by (cases ks) (auto simp: swept_def sample_keys_def is_expired_def split: if_splits)
  then show ?thesis using sweep_removes_expired [OF sample_db_inv sample_env_ok, of 5] by fastforce
qed

text \<open>
  Replaying a record of the log does to the keyspace exactly what the record means: set, delete,
  increment, pushes, pops, field updates and deadlines, or fails for want of memory or because the
  record is malformed or does not fit the value it names.
\<close>

lemma replay_means:
  assumes "db_inv d A" "replaying d" "env_ok e" "0 \<le> e_steady e 0"
  shows "case db_replay e opc a d of
      (Inl x, d') \<Rightarrow> (\<exists>B. db_inv d' B) \<and> (is_bad_alloc x \<or> v_record (opc, a) (vals A) = None)
    | (Inr _, d') \<Rightarrow> \<exists>B. db_inv d' B \<and> v_record (opc, a) (vals A) = Some (vals B) \<and> replaying d'"
  using db_replay_refines [OF assms prod.collapse [symmetric], of opc a]
  by (auto simp: replay_ok_def split: prod.splits sum.splits)

lemma replay_means_witness:
  "case db_replay sample_env (op_code op_del) [str ''k''] (sample_db\<lparr>replaying := True\<rparr>) of
      (Inl x, d') \<Rightarrow> is_bad_alloc x
    | (Inr _, d') \<Rightarrow> \<exists>B. db_inv d' B \<and> vals B = Map.empty"
proof -
  have "db_inv (sample_db\<lparr>replaying := True\<rparr>) sample_keys"
    using db_inv_rep [OF sample_db_inv] by (simp add: replaying_inv)
  moreover have "v_record (op_code op_del, [str ''k'']) (vals sample_keys) = Some Map.empty"
    by (simp add: v_record_def v_apply_def max_key_length_def sample_vals del: op_code.simps)
  moreover have "0 \<le> e_steady sample_env 0" by (simp add: sample_env_def)
  ultimately show ?thesis
    using replay_means [of "sample_db\<lparr>replaying := True\<rparr>" sample_keys sample_env "op_code op_del" "[str ''k'']"] sample_env_ok
    by (auto split: prod.splits sum.splits)
qed

text \<open>
  C19. In every reachable state the node of every key is well typed: its packed header names the
  length of its key and a block that holds its body, the payload is the representation of one
  object of the type the header names, and the object is within the limits: no empty list, no empty
  hash, nothing over 64 MiB.
\<close>

theorem stored_well_typed:
  assumes "reachable d" "a \<in> links d"
  shows "\<exists>ob. node_wf (node_at d a) \<and> node_rep (node_at d a) ob \<and> obj_ok ob"
proof -
  obtain A where A: "db_inv d A" using reachable_inv [OF assms(1)] by blast
  have r: "db_rep {} d A" by (rule db_inv_rep(1) [OF A])
  then obtain ob where "ks_map A (keyat d a) = Some (ob, deadlines (d_sched d) a)" "node_rep (node_at d a) ob"
    using assms(2) by (auto simp: db_rep_def kv_ok_def node_at_def)
  moreover have "obj_ok ob" using calculation(1) db_inv_rep(3) [OF A] by (simp add: ks_ok_def)
  moreover have "a \<in> dom (d_nodes d)" using db_repD(1) [OF r] assms(2) by (simp add: table_ok_def)
  then have "node_wf (node_at d a)" using db_repD(5) [OF r] by (auto simp: node_at_def)
  ultimately show ?thesis by blast
qed

theorem stored_well_typed_witness:
  "\<exists>a \<in> links sample_db. \<exists>ob. node_wf (node_at sample_db a) \<and> node_rep (node_at sample_db a) ob \<and> obj_ok ob"
proof -
  have "db_rep {} sample_db sample_keys" by (rule db_inv_rep(1) [OF sample_db_inv])
  then have "dom (ks_map sample_keys) = keyat sample_db ` links sample_db" by (simp add: db_rep_def kv_ok_def)
  then obtain a where a: "a \<in> links sample_db" by (auto simp: sample_keys_def)
  have r: "reachable sample_db"
    using reachable.step [OF reachable.start sample_env_ok db_step.intros(1) [OF sample_set(1)]] .
  show ?thesis using a stored_well_typed [OF r a] by blast
qed

end
