(* ===== verification/Commands.thy ===== *)
theory Commands
  imports Sessions
begin

text \<open>
  The command layer of resp.cpp: \<^verbatim>\<open>execute_into\<close> and the handler of each command, with the figures of
  \<^verbatim>\<open>INFO\<close>. A handler checks its arguments, calls the database and appends one reply to the output
  of the client. Against it stands the meaning of a command on an abstract keyspace, \<open>a_execute\<close>:
  the reply as a value and the keyspace after it. The handlers are shown to append the encoding of
  that reply and to leave that keyspace, on every branch, the error replies included.
\<close>

section \<open>Definitions\<close>

record server_stats =
  connected_clients :: nat
  started_at :: int
  input_disconnects :: u64
  output_disconnects :: u64

text \<open>The clock of \<^verbatim>\<open>INFO\<close>, in nanoseconds, and the container sizes its figures are made of.\<close>

record host =
  h_layout :: container_layout
  h_now :: int

text \<open>
  A command runs against the database and appends its reply to the output, or raises. The
  environment of its \<open>i\<close>-th call of the database is \<open>es i\<close>.
\<close>

type_synonym execution = "(exn + bytes) \<times> db"

text \<open>An error result becomes an error reply; a value is formatted.\<close>

definition answer :: "('a \<Rightarrow> bytes \<Rightarrow> exn + bytes) \<Rightarrow> bytes \<Rightarrow> (exn + 'a result) \<times> db \<Rightarrow> execution" where
  "answer form output r =
     (case r of
        (Inl x, d) \<Rightarrow> (Inl x, d)
      | (Inr (Inl c), d) \<Rightarrow> (append_error (str (error_message c)) output, d)
      | (Inr (Inr v), d) \<Rightarrow> (form v output, d))"

definition info_line :: "string \<Rightarrow> int \<Rightarrow> bytes" where
  "info_line name v = str name @ decimal v @ CRLF"

definition info_text :: "host \<Rightarrow> server_stats \<Rightarrow> bool \<Rightarrow> db \<Rightarrow> bytes" where
  "info_text h stats memory_only d =
     (let s = db_stats (h_layout h) d;
          head = info_line ''owned_memory_bytes:'' (int (st_owned_memory s))
            @ info_line ''max_memory_bytes:'' (int (st_max_memory s));
          memory = str ''# Memory'' @ CRLF
            @ info_line ''used_memory_bytes:'' (int (st_approximate_memory s))
            @ info_line ''wal_bytes:'' (int (st_wal_bytes s))
            @ info_line ''reserved_memory_bytes:'' (int (st_reserved_memory s));
          uptime = (h_now h - started_at stats) div 1000000000;
          server = str ''# Server'' @ CRLF
            @ info_line ''uptime_seconds:'' uptime
            @ info_line ''connected_clients:'' (int (connected_clients stats))
            @ info_line ''input_buffer_disconnects:'' (uint (input_disconnects stats))
            @ info_line ''output_buffer_disconnects:'' (uint (output_disconnects stats))
            @ str ''# Keyspace'' @ CRLF
            @ info_line ''keys:'' (int (st_key_count s))
            @ info_line ''evictions:'' (uint (st_evictions s))
            @ info_line ''expired_keys:'' (uint (st_expired_keys s))
      in head @ (if memory_only then memory else server @ memory))"

definition append_info :: "host \<Rightarrow> server_stats \<Rightarrow> bool \<Rightarrow> db \<Rightarrow> bytes \<Rightarrow> exn + bytes" where
  "append_info h stats memory_only d output = append_bulk_view (info_text h stats memory_only d) output"

definition execute_ping :: "bytes \<Rightarrow> db \<Rightarrow> execution" where
  "execute_ping output d = (Inr (output @ str ''+PONG'' @ CRLF), d)"

definition execute_info :: "host \<Rightarrow> server_stats \<Rightarrow> bytes list \<Rightarrow> bytes \<Rightarrow> db \<Rightarrow> execution" where
  "execute_info h stats arguments output d =
     (if 1 < length arguments then (append_wrong_arguments (str ''info'') output, d)
      else
        let memory_only = (arguments \<noteq> [] \<and> arguments ! 0 = str ''memory'')
        in if arguments \<noteq> [] \<and> \<not> memory_only
           then (append_error (str (error_message unsupported_info_section)) output, d)
           else (append_info h stats memory_only d output, d))"

definition execute_set :: "env \<Rightarrow> bytes list \<Rightarrow> bytes \<Rightarrow> db \<Rightarrow> execution" where
  "execute_set e arguments output d =
     (if length arguments \<noteq> 2 then (append_wrong_arguments (str ''set'') output, d)
      else case db_set e (arguments ! 0) (arguments ! 1) d of
        (Inl x, d1) \<Rightarrow> (Inl x, d1)
      | (Inr _, d1) \<Rightarrow> (append_guarded 5 (str ''+OK'' @ CRLF) output, d1))"

definition execute_get :: "env \<Rightarrow> bytes list \<Rightarrow> bytes \<Rightarrow> db \<Rightarrow> execution" where
  "execute_get e arguments output d =
     (if length arguments \<noteq> 1 then (append_wrong_arguments (str ''get'') output, d)
      else case value_view e (arguments ! 0) d of
        (None, d1) \<Rightarrow> (append_null output, d1)
      | (Some (VInteger i), d1) \<Rightarrow> (append_bulk_string (decimal (sint i)) output, d1)
      | (Some (VString text), d1) \<Rightarrow> (append_bulk_view text output, d1)
      | (Some _, d1) \<Rightarrow> (append_error (str (error_message wrong_type)) output, d1))"

definition execute_increment :: "env \<Rightarrow> bytes list \<Rightarrow> bytes \<Rightarrow> db \<Rightarrow> execution" where
  "execute_increment e arguments output d =
     (if length arguments \<noteq> 1 then (append_wrong_arguments (str ''incr'') output, d)
      else answer (\<lambda>v. append_integer (sint v)) output (increment e (arguments ! 0) d))"

definition execute_list_push :: "env \<Rightarrow> bytes \<Rightarrow> bool \<Rightarrow> bytes list \<Rightarrow> bytes \<Rightarrow> db \<Rightarrow> execution" where
  "execute_list_push e name front arguments output d =
     (if length arguments < 2 then (append_wrong_arguments name output, d)
      else answer (\<lambda>v. append_integer (sint v)) output
        (if 2 < length arguments then push_texts e (arguments ! 0) (tl arguments) front d
         else if front then push_left_text e (arguments ! 0) (arguments ! 1) d
         else push_right_text e (arguments ! 0) (arguments ! 1) d))"

text \<open>An element as a bulk string.\<close>

definition append_element :: "element \<Rightarrow> bytes \<Rightarrow> exn + bytes" where
  "append_element v output =
     (case v of EString text \<Rightarrow> append_bulk_view text output | EInteger i \<Rightarrow> append_bulk_string (decimal (sint i)) output)"

definition append_optional :: "element option \<Rightarrow> bytes \<Rightarrow> exn + bytes" where
  "append_optional v output = (case v of None \<Rightarrow> append_null output | Some x \<Rightarrow> append_element x output)"

definition execute_list_pop :: "env \<Rightarrow> bytes \<Rightarrow> bool \<Rightarrow> bytes list \<Rightarrow> bytes \<Rightarrow> db \<Rightarrow> execution" where
  "execute_list_pop e name front arguments output d =
     (if length arguments \<noteq> 1 then (append_wrong_arguments name output, d)
      else answer append_optional output (if front then pop_left e (arguments ! 0) d else pop_right e (arguments ! 0) d))"

text \<open>A reading command never raises before its reply.\<close>

definition reading :: "'a result \<times> db \<Rightarrow> (exn + 'a result) \<times> db" where
  "reading r = (case r of (v, d) \<Rightarrow> (Inr v, d))"

definition execute_list_length :: "env \<Rightarrow> bytes list \<Rightarrow> bytes \<Rightarrow> db \<Rightarrow> execution" where
  "execute_list_length e arguments output d =
     (if length arguments \<noteq> 1 then (append_wrong_arguments (str ''llen'') output, d)
      else answer (\<lambda>v. append_integer (sint v)) output (reading (list_length e (arguments ! 0) d)))"

definition execute_hash_set :: "env \<Rightarrow> bytes list \<Rightarrow> bytes \<Rightarrow> db \<Rightarrow> execution" where
  "execute_hash_set e arguments output d =
     (if length arguments < 3 \<or> length arguments mod 2 = 0 then (append_wrong_arguments (str ''hset'') output, d)
      else answer (\<lambda>v. append_integer (sint v)) output
        (if 3 < length arguments then hash_set_texts e (arguments ! 0) (tl arguments) d
         else hash_set_text e (arguments ! 0) (arguments ! 1) (arguments ! 2) d))"

definition execute_hash_get :: "env \<Rightarrow> bytes list \<Rightarrow> bytes \<Rightarrow> db \<Rightarrow> execution" where
  "execute_hash_get e arguments output d =
     (if length arguments \<noteq> 2 then (append_wrong_arguments (str ''hget'') output, d)
      else answer append_optional output (reading (hash_field e (arguments ! 0) (arguments ! 1) d)))"

definition execute_hash_del :: "env \<Rightarrow> bytes list \<Rightarrow> bytes \<Rightarrow> db \<Rightarrow> execution" where
  "execute_hash_del e arguments output d =
     (if length arguments \<noteq> 2 then (append_wrong_arguments (str ''hdel'') output, d)
      else answer (\<lambda>removed. append_integer (if removed then 1 else 0)) output (hash_del e (arguments ! 0) (arguments ! 1) d))"

definition execute_hash_length :: "env \<Rightarrow> bytes list \<Rightarrow> bytes \<Rightarrow> db \<Rightarrow> execution" where
  "execute_hash_length e arguments output d =
     (if length arguments \<noteq> 1 then (append_wrong_arguments (str ''hlen'') output, d)
      else answer (\<lambda>v. append_integer (sint v)) output (reading (hash_length e (arguments ! 0) d)))"

definition execute_expire :: "env \<Rightarrow> bytes list \<Rightarrow> bytes \<Rightarrow> db \<Rightarrow> execution" where
  "execute_expire e arguments output d =
     (if length arguments \<noteq> 2 then (append_wrong_arguments (str ''expire'') output, d)
      else case from_chars_i64 (arguments ! 1) of
        None \<Rightarrow> (append_error (str (error_message value_not_integer)) output, d)
      | Some seconds \<Rightarrow>
          (case expire e (arguments ! 0) (sint seconds) d of
             (Inr b, d1) \<Rightarrow> (append_integer (if b then 1 else 0) output, d1)
           | (Inl x, d1) \<Rightarrow>
               if x = Error value_not_integer then (append_error (str (error_message value_not_integer)) output, d1)
               else (Inl x, d1)))"

definition execute_ttl :: "env \<Rightarrow> bytes list \<Rightarrow> bytes \<Rightarrow> db \<Rightarrow> execution" where
  "execute_ttl e arguments output d =
     (if length arguments \<noteq> 1 then (append_wrong_arguments (str ''ttl'') output, d)
      else case ttl e (arguments ! 0) d of (v, d1) \<Rightarrow> (append_integer (sint (word_of_int v :: int64)) output, d1))"

fun del_loop :: "(nat \<Rightarrow> env) \<Rightarrow> nat \<Rightarrow> bytes list \<Rightarrow> int64 \<Rightarrow> db \<Rightarrow> (exn + int64) \<times> db" where
  "del_loop es i [] deleted d = (Inr deleted, d)"
| "del_loop es i (key # ks) deleted d =
     (case del (es i) key d of
        (Inl x, d1) \<Rightarrow> (Inl x, d1)
      | (Inr b, d1) \<Rightarrow> del_loop es (Suc i) ks (if b then deleted + 1 else deleted) d1)"

definition execute_del :: "(nat \<Rightarrow> env) \<Rightarrow> bytes list \<Rightarrow> bytes \<Rightarrow> db \<Rightarrow> execution" where
  "execute_del es arguments output d =
     (if arguments = [] then (append_wrong_arguments (str ''del'') output, d)
      else case del_loop es 0 arguments 0 d of
        (Inl x, d1) \<Rightarrow> (Inl x, d1)
      | (Inr deleted, d1) \<Rightarrow> (append_integer (sint deleted) output, d1))"

definition execute_into ::
  "(nat \<Rightarrow> env) \<Rightarrow> host \<Rightarrow> server_stats \<Rightarrow> command \<Rightarrow> command_id \<Rightarrow> bytes \<Rightarrow> db \<Rightarrow> execution"
where
  "execute_into es h stats command classified_id output d =
     (let arguments = cmd_arguments command; name = cmd_name command; e = es 0
      in case classified_id of
           c_ping \<Rightarrow> execute_ping output d
         | c_info \<Rightarrow> execute_info h stats arguments output d
         | c_get \<Rightarrow> execute_get e arguments output d
         | c_set \<Rightarrow> execute_set e arguments output d
         | c_increment \<Rightarrow> execute_increment e arguments output d
         | c_list_push_left \<Rightarrow> execute_list_push e name True arguments output d
         | c_list_push_right \<Rightarrow> execute_list_push e name False arguments output d
         | c_list_pop_left \<Rightarrow> execute_list_pop e name True arguments output d
         | c_list_pop_right \<Rightarrow> execute_list_pop e name False arguments output d
         | c_list_length \<Rightarrow> execute_list_length e arguments output d
         | c_hash_set \<Rightarrow> execute_hash_set e arguments output d
         | c_hash_get \<Rightarrow> execute_hash_get e arguments output d
         | c_hash_del \<Rightarrow> execute_hash_del e arguments output d
         | c_hash_length \<Rightarrow> execute_hash_length e arguments output d
         | c_expire \<Rightarrow> execute_expire e arguments output d
         | c_ttl \<Rightarrow> execute_ttl e arguments output d
         | c_del \<Rightarrow> execute_del es arguments output d
         | c_unknown \<Rightarrow>
             (append_error (str (error_message unknown_command) @ str '' '' @ [39] @ name @ [39]) output, d))"

definition execute_named :: "(nat \<Rightarrow> env) \<Rightarrow> host \<Rightarrow> server_stats \<Rightarrow> command \<Rightarrow> bytes \<Rightarrow> db \<Rightarrow> execution" where
  "execute_named es h stats command output d =
     execute_into es h stats command (cid (classify_command (cmd_name command))) output d"

section \<open>Replies and the meaning of commands\<close>

datatype resp = Simple bytes | Err bytes | Number int | Null | Bulk bytes

primrec encode_reply :: "resp \<Rightarrow> bytes" where
  "encode_reply (Simple t) = str ''+'' @ t @ CRLF"
| "encode_reply (Err t) = str ''-'' @ t @ CRLF"
| "encode_reply (Number i) = str '':'' @ decimal i @ CRLF"
| "encode_reply Null = str ''$-1'' @ CRLF"
| "encode_reply (Bulk s) = encode_bulk s"

definition err_reply :: "error_code \<Rightarrow> resp" where
  "err_reply c = Err (str (error_message c))"

definition wrong_reply :: "bytes \<Rightarrow> resp" where
  "wrong_reply name = Err (str (error_message wrong_argument_count) @ str '' '' @ [39] @ name @ [39] @ str '' command'')"

definition element_reply :: "element option \<Rightarrow> resp" where
  "element_reply v = (case v of None \<Rightarrow> Null | Some (EString t) \<Rightarrow> Bulk t | Some (EInteger i) \<Rightarrow> Bulk (decimal (sint i)))"

definition count_reply :: "nat \<Rightarrow> resp" where
  "count_reply n = Number (sint (of_nat n :: int64))"

fun a_del :: "(nat \<Rightarrow> env) \<Rightarrow> db \<Rightarrow> nat \<Rightarrow> bytes list \<Rightarrow> int64 \<Rightarrow> keyspace \<Rightarrow> int64 \<times> keyspace" where
  "a_del es d i [] n A = (n, A)"
| "a_del es d i (key # ks) n A =
     (let S = a_seen (es i) d key A
      in if ks_map S key = None then a_del es d (Suc i) ks n S else a_del es d (Suc i) ks (n + 1) (a_drop key S))"

text \<open>What a command answers and does on an abstract keyspace.\<close>

definition a_reply :: "('a \<Rightarrow> resp \<times> keyspace) \<Rightarrow> keyspace \<Rightarrow> 'a result \<Rightarrow> resp \<times> keyspace" where
  "a_reply f S r = (case r of Inl c \<Rightarrow> (err_reply c, S) | Inr v \<Rightarrow> f v)"

definition a_push :: "env \<Rightarrow> db \<Rightarrow> bytes \<Rightarrow> bool \<Rightarrow> bytes list \<Rightarrow> keyspace \<Rightarrow> resp \<times> keyspace" where
  "a_push e d name front args A =
     (if length args < 2 then (wrong_reply name, A)
      else
        let key = args ! 0; S = a_seen e d key A
        in a_reply (\<lambda>ys. (count_reply (length ys), a_store key (OList ys) S)) S
             (if 2 < length args then texts_obj (tl args) front (obj_of (vals S) key)
              else push_obj (EString (args ! 1)) front (obj_of (vals S) key)))"

definition a_pop :: "env \<Rightarrow> db \<Rightarrow> bytes \<Rightarrow> bool \<Rightarrow> bytes list \<Rightarrow> keyspace \<Rightarrow> resp \<times> keyspace" where
  "a_pop e d name front args A =
     (if length args \<noteq> 1 then (wrong_reply name, A)
      else
        let key = args ! 0; S = a_seen e d key A
        in a_reply (\<lambda>r. case r of
               None \<Rightarrow> (Null, S)
             | Some (v, ys) \<Rightarrow> (element_reply (Some v), if ys = [] then a_drop key S else a_store key (OList ys) S)) S
             (pop_obj front (obj_of (vals S) key)))"

definition a_hset :: "env \<Rightarrow> db \<Rightarrow> bytes list \<Rightarrow> keyspace \<Rightarrow> resp \<times> keyspace" where
  "a_hset e d args A =
     (if length args < 3 \<or> length args mod 2 = 0 then (wrong_reply (str ''hset''), A)
      else
        let key = args ! 0; S = a_seen e d key A; old = hash_of (obj_of (vals S) key)
        in a_reply (\<lambda>h. (count_reply (card (dom h) - card (dom (projr old))), a_store key (OHash h) S)) S
             (if 3 < length args then hfields_obj (tl args) (obj_of (vals S) key)
              else hset_obj (args ! 1) (EString (args ! 2)) (obj_of (vals S) key)))"

definition a_hdel :: "env \<Rightarrow> db \<Rightarrow> bytes list \<Rightarrow> keyspace \<Rightarrow> resp \<times> keyspace" where
  "a_hdel e d args A =
     (if length args \<noteq> 2 then (wrong_reply (str ''hdel''), A)
      else
        let key = args ! 0; S = a_seen e d key A
        in a_reply (\<lambda>r. case r of
               None \<Rightarrow> (Number 0, S)
             | Some h \<Rightarrow> (Number 1, if h = Map.empty then a_drop key S else a_store key (OHash h) S)) S
             (hdel_obj (args ! 1) (obj_of (vals S) key)))"

definition a_expire :: "env \<Rightarrow> db \<Rightarrow> bytes list \<Rightarrow> keyspace \<Rightarrow> resp \<times> keyspace" where
  "a_expire e d args A =
     (if length args \<noteq> 2 then (wrong_reply (str ''expire''), A)
      else case from_chars_i64 (args ! 1) of
        None \<Rightarrow> (err_reply value_not_integer, A)
      | Some n \<Rightarrow>
          let key = args ! 0; S = a_seen e d key A; seconds = sint n
          in case ks_map S key of
               None \<Rightarrow> (Number 0, S)
             | Some (ob, _) \<Rightarrow>
                 if seconds \<le> 0 then (Number 1, a_drop key S)
                 else if (max_int - max (e_steady e 1) (e_wall e 0)) div 1000 < seconds then (err_reply value_not_integer, S)
                 else (Number 1, a_put key (ob, Some (e_steady e 1 + seconds * 1000)) S))"

definition a_query :: "env \<Rightarrow> db \<Rightarrow> string \<Rightarrow> nat \<Rightarrow> (obj option \<Rightarrow> resp result) \<Rightarrow> bytes list \<Rightarrow> keyspace \<Rightarrow> resp \<times> keyspace" where
  "a_query e d name n q args A =
     (if length args \<noteq> n then (wrong_reply (str name), A)
      else a_reply (\<lambda>r. (r, a_read e d (args ! 0) A)) (a_read e d (args ! 0) A) (q (map_option fst (a_look e d (args ! 0) A))))"

definition a_ttl :: "env \<Rightarrow> db \<Rightarrow> bytes list \<Rightarrow> keyspace \<Rightarrow> resp \<times> keyspace" where
  "a_ttl e d args A =
     (if length args \<noteq> 1 then (wrong_reply (str ''ttl''), A)
      else
        (Number (sint (word_of_int (case a_look e d (args ! 0) A of
                None \<Rightarrow> - 2
              | Some (_, None) \<Rightarrow> - 1
              | Some (_, Some t) \<Rightarrow> if t - e_steady e 1 \<le> 0 then - 2 else (t - e_steady e 1) div 1000) :: int64)),
         a_read e d (args ! 0) A))"

definition a_info :: "host \<Rightarrow> server_stats \<Rightarrow> db \<Rightarrow> bytes list \<Rightarrow> resp" where
  "a_info h stats d args =
     (if 1 < length args then wrong_reply (str ''info'')
      else if args = [] then Bulk (info_text h stats False d)
      else if args ! 0 = str ''memory'' then Bulk (info_text h stats True d)
      else err_reply unsupported_info_section)"

definition a_execute ::
  "(nat \<Rightarrow> env) \<Rightarrow> host \<Rightarrow> server_stats \<Rightarrow> db \<Rightarrow> command_id \<Rightarrow> bytes \<Rightarrow> bytes list \<Rightarrow> keyspace \<Rightarrow> resp \<times> keyspace"
where
  "a_execute es h stats d i name args A =
     (let e = es 0
      in case i of
           c_ping \<Rightarrow> (Simple (str ''PONG''), A)
         | c_info \<Rightarrow> (a_info h stats d args, A)
         | c_get \<Rightarrow> a_query e d ''get'' 1
             (\<lambda>ob. map_sum id (\<lambda>t. case t of None \<Rightarrow> Null | Some t \<Rightarrow> Bulk t) (get_obj ob)) args A
         | c_set \<Rightarrow>
             if length args \<noteq> 2 then (wrong_reply (str ''set''), A)
             else (Simple (str ''OK''),
                   a_touch (args ! 0) (a_put (args ! 0) (OString (args ! 1), None) (a_seen e d (args ! 0) A)))
         | c_increment \<Rightarrow>
             if length args \<noteq> 1 then (wrong_reply (str ''incr''), A)
             else
               let key = args ! 0; S = a_seen e d key A
               in a_reply (\<lambda>i. (Number (sint i), a_store key (OInteger i) S)) S (incr_obj (obj_of (vals S) key))
         | c_list_push_left \<Rightarrow> a_push e d name True args A
         | c_list_push_right \<Rightarrow> a_push e d name False args A
         | c_list_pop_left \<Rightarrow> a_pop e d name True args A
         | c_list_pop_right \<Rightarrow> a_pop e d name False args A
         | c_list_length \<Rightarrow> a_query e d ''llen'' 1 (\<lambda>ob. map_sum id (\<lambda>n. Number (sint n)) (llen_obj ob)) args A
         | c_hash_set \<Rightarrow> a_hset e d args A
         | c_hash_get \<Rightarrow> a_query e d ''hget'' 2 (\<lambda>ob. map_sum id element_reply (hget_obj (args ! 1) ob)) args A
         | c_hash_del \<Rightarrow> a_hdel e d args A
         | c_hash_length \<Rightarrow> a_query e d ''hlen'' 1 (\<lambda>ob. map_sum id (\<lambda>n. Number (sint n)) (hlen_obj ob)) args A
         | c_expire \<Rightarrow> a_expire e d args A
         | c_ttl \<Rightarrow> a_ttl e d args A
         | c_del \<Rightarrow>
             if args = [] then (wrong_reply (str ''del''), A)
             else (case a_del es d 0 args 0 A of (n, B) \<Rightarrow> (Number (sint n), B))
         | c_unknown \<Rightarrow> (Err (str (error_message unknown_command) @ str '' '' @ [39] @ name @ [39]), A))"

text \<open>
  A command that appends a reply has the meaning's reply and effect. One that raises has the effect
  when only its reply does not fit, and otherwise stores nothing: at most keys are gone.
\<close>

definition executes :: "keyspace \<Rightarrow> resp \<times> keyspace \<Rightarrow> bytes \<Rightarrow> execution \<Rightarrow> db \<Rightarrow> bool" where
  "executes A m output r d \<longleftrightarrow>
     (case r of
        (Inl x, d') \<Rightarrow> \<exists>B. db_inv d' B \<and> (x = Error request_too_large \<and> B = snd m \<or> ks_map B \<subseteq>\<^sub>m ks_map A)
      | (Inr output', d') \<Rightarrow>
          output' = output @ encode_reply (fst m) \<and> db_inv d' (snd m) \<and> replaying d' = replaying d)"

text \<open>A writer that appends a given reply when there is room.\<close>

definition writes :: "(bytes \<Rightarrow> exn + bytes) \<Rightarrow> resp \<Rightarrow> bool" where
  "writes f r \<longleftrightarrow>
     (\<forall>output. case f output of Inl x \<Rightarrow> x = Error request_too_large | Inr output' \<Rightarrow> output' = output @ encode_reply r)"

text \<open>
  The clocks a call reads: they do not run before 1970, and between the check of a deadline and its
  use the wall clock does not move so far that the longest time the check admits overflows.
\<close>

definition clock_ok :: "env \<Rightarrow> bool" where
  "clock_ok e \<longleftrightarrow>
     0 \<le> e_steady e 0 \<and> 0 \<le> e_steady e 1 \<and> 0 \<le> e_wall e 0 \<and> 0 \<le> e_wall e 1 \<and> e_wall e 1 \<le> max_int
     \<and> e_wall e 1 + (max_int - max (e_steady e 1) (e_wall e 0)) div 1000 * 1000 \<le> max_int"

text \<open>A reply that ends at its first line break, or at the length it announces.\<close>

primrec line_ok :: "resp \<Rightarrow> bool" where
  "line_ok (Simple t) \<longleftrightarrow> 13 \<notin> set t"
| "line_ok (Err t) \<longleftrightarrow> 13 \<notin> set t"
| "line_ok (Number i) \<longleftrightarrow> - (2 ^ 63) \<le> i \<and> i < 2 ^ 63"
| "line_ok Null \<longleftrightarrow> True"
| "line_ok (Bulk s) \<longleftrightarrow> True"

text \<open>A writer whose output stays within the limit.\<close>

definition within :: "exn + bytes \<Rightarrow> bool" where
  "within r \<longleftrightarrow> (\<forall>output. r = Inr output \<longrightarrow> length output \<le> max_reply_bytes)"

definition sample_command :: command where
  "sample_command = \<lparr>cmd_name = str ''SET'', cmd_arguments = [str ''k'', str ''8''], bytes_consumed = 0\<rparr>"

definition sample_host :: host where
  "sample_host =
     \<lparr>h_layout = \<lparr>cl_bucket_capacity = length, cl_table_bytes = 56, cl_table_buckets = length,
     cl_entry_bytes = 64, cl_text_capacity = length, cl_expiry_buckets = (\<lambda>_. 0), cl_expiry_bytes = 32, cl_heap_capacity = length\<rparr>,
      h_now = 0\<rparr>"

definition sample_stats :: server_stats where
  "sample_stats = \<lparr>connected_clients = 1, started_at = 0, input_disconnects = 0, output_disconnects = 0\<rparr>"

lemma append_guarded_writes: "encode_reply r = t \<Longrightarrow> writes (append_guarded n t) r"
  by (auto simp: writes_def append_guarded_def require_reply_space_def split: sum.splits)

lemma writers:
  "writes (append_error t) (Err t)" "writes (append_error (str (error_message c))) (err_reply c)"
  "writes (append_wrong_arguments name) (wrong_reply name)"
  "writes (append_integer i) (Number i)" "writes append_null Null" "writes (append_guarded 5 (str ''+OK'' @ CRLF)) (Simple (str ''OK''))"
  using append_guarded_writes
  by (auto simp: append_error_def append_wrong_arguments_def append_integer_def append_null_def err_reply_def wrong_reply_def writes_def
      append_guarded_def require_reply_space_def str_def split: sum.splits)

lemma bulk_writers:
  "writes (append_bulk_view t) (Bulk t)" "writes (append_bulk_string t) (Bulk t)" "writes (append_optional v) (element_reply v)"
proof -
  show b: "writes (append_bulk_view t) (Bulk t)" for t
    by (auto simp: writes_def append_bulk_view_def append_guarded_def require_reply_space_def encode_bulk_def Let_def split: sum.splits if_splits)
  then show "writes (append_bulk_string t) (Bulk t)" by (simp add: writes_def append_bulk_string_def)
  show "writes (append_optional v) (element_reply v)"
    using b writers(5)
    by (auto simp: writes_def append_optional_def element_reply_def append_element_def append_bulk_string_def split: option.splits element.splits)
qed

lemma executes_writes:
  "writes f (fst m) \<Longrightarrow> db_inv d' (snd m) \<Longrightarrow> replaying d' = replaying d \<Longrightarrow> executes A m output (f output, d') d"
  by (fastforce simp: executes_def writes_def split: sum.splits)

lemma seen_le: "ks_map (a_seen e d key A) \<subseteq>\<^sub>m ks_map A"
  by (auto simp: a_seen_alt a_drop_def a_touch_def map_le_def split: option.splits if_splits)

lemma executes_raises: "kept e d key A d' \<Longrightarrow> executes A m output (Inl x, d') d0"
  using seen_le [of e d key A] by (auto simp: executes_def kept_def)

text \<open>An operation with an error result, answered.\<close>

lemma answer_executes:
  assumes oc: "outcome e d key A res d' fits bad good"
    and bad: "\<And>c. bad c \<Longrightarrow> r = Inl c" and good: "\<And>v B. good v B \<Longrightarrow> \<exists>y. r = Inr y \<and> f y = (w v, B)"
    and form: "\<And>v. writes (form v) (w v)"
  shows "executes A (a_reply f (a_seen e d key A) r) output (answer form output (res, d')) d"
proof (cases res)
  case (Inl x)
  then have "kept e d key A d'" using oc by (simp add: outcome_def)
  then show ?thesis using Inl executes_raises by (simp add: answer_def)
next
  case (Inr r')
  show ?thesis
  proof (cases r')
    case (Inl c)
    then show ?thesis
      using oc bad \<open>res = Inr r'\<close> by (auto simp: answer_def outcome_def a_reply_def intro!: executes_writes writers(2))
  next
    case (Inr v)
    then obtain B y where "db_inv d' B" "r = Inr y" "f y = (w v, B)" "replaying d' = replaying d"
      using oc good \<open>res = Inr r'\<close> by (fastforce simp: outcome_def)
    then show ?thesis
      using Inr \<open>res = Inr r'\<close> form by (auto simp: answer_def a_reply_def intro!: executes_writes)
  qed
qed

lemma wrong_executes: "db_inv d A \<Longrightarrow> executes A (wrong_reply name, A) output (append_wrong_arguments name output, d) d"
  by (rule executes_writes) (simp_all add: writers)

lemma set_executes:
  assumes "db_inv d A" "env_ok e"
  shows "executes A (if length args \<noteq> 2 then (wrong_reply (str ''set''), A)
      else (Simple (str ''OK''), a_touch (args ! 0) (a_put (args ! 0) (OString (args ! 1), None) (a_seen e d (args ! 0) A))))
    output (execute_set e args output d) d"
proof (cases "length args = 2")
  case True
  obtain res d' where run: "db_set e (args ! 0) (args ! 1) d = (res, d')" by fastforce
  show ?thesis
  proof (cases res)
    case (Inl x)
    then have "kept e d (args ! 0) A d'" using set_spec [OF assms run] by simp
    then show ?thesis using True run Inl executes_raises by (simp add: execute_set_def)
  next
    case (Inr u)
    then show ?thesis using set_spec [OF assms run] True run by (auto simp: execute_set_def intro!: executes_writes writers(6))
  qed
qed (use assms wrong_executes in \<open>simp add: execute_set_def\<close>)

lemma increment_executes:
  assumes "db_inv d A" "env_ok e"
  shows "executes A (if length args \<noteq> 1 then (wrong_reply (str ''incr''), A)
      else let key = args ! 0; S = a_seen e d key A
           in a_reply (\<lambda>i. (Number (sint i), a_store key (OInteger i) S)) S (incr_obj (obj_of (vals S) key)))
    output (execute_increment e args output d) d"
proof (cases "length args = 1")
  case True
  obtain res d' where run: "increment e (args ! 0) d = (res, d')" by fastforce
  have "executes A (a_reply (\<lambda>i. (Number (sint i), a_store (args ! 0) (OInteger i) (a_seen e d (args ! 0) A))) (a_seen e d (args ! 0) A)
      (incr_obj (obj_of (vals (a_seen e d (args ! 0) A)) (args ! 0)))) output (answer (\<lambda>v. append_integer (sint v)) output (res, d')) d"
    by (rule answer_executes [OF increment_spec [OF assms run] _ _ writers(4)]) auto
  then show ?thesis using True by (simp add: execute_increment_def run Let_def)
qed (use assms wrong_executes in \<open>simp add: execute_increment_def\<close>)

lemma push_text_spec:
  assumes "db_inv d A" "env_ok e"
    and "(if 2 < length args then push_texts e (args ! 0) (tl args) front d
         else if front then push_left_text e (args ! 0) (args ! 1) d
         else push_right_text e (args ! 0) (args ! 1) d) = (res, d')"
    and "2 \<le> length args"
  defines "S \<equiv> a_seen e d (args ! 0) A"
  defines "r \<equiv> (if 2 < length args then texts_obj (tl args) front (obj_of (vals S) (args ! 0))
              else push_obj (EString (args ! 1)) front (obj_of (vals S) (args ! 0)))"
  shows "outcome e d (args ! 0) A res d' True (\<lambda>c. r = Inl c)
     (\<lambda>n B. \<exists>ys. r = Inr ys \<and> n = of_nat (length ys) \<and> B = a_store (args ! 0) (OList ys) S)"
proof (cases "2 < length args")
  case True
  then have "tl args \<noteq> []" by (cases args) auto
  then show ?thesis
    using True push_texts_spec [OF assms(1,2), of "args ! 0" "tl args" front res d'] assms(3) by (simp add: r_def S_def)
next
  case False
  then show ?thesis
    using list_push_spec [OF assms(1,2), of "args ! 0" "EString (args ! 1)" front res d'] assms(3)
    by (simp add: r_def S_def push_left_text_def push_right_text_def split: if_splits)
qed

lemma push_executes:
  assumes "db_inv d A" "env_ok e"
  shows "executes A (a_push e d name front args A) output (execute_list_push e name front args output d) d"
proof (cases "length args < 2")
  case True
  then show ?thesis using assms wrong_executes by (simp add: execute_list_push_def a_push_def)
next
  case False
  obtain res d' where run: "(if 2 < length args then push_texts e (args ! 0) (tl args) front d
         else if front then push_left_text e (args ! 0) (args ! 1) d
         else push_right_text e (args ! 0) (args ! 1) d) = (res, d')" by fastforce
  have "2 \<le> length args" using False by simp
  note spec = push_text_spec [OF assms run this]
  show ?thesis
    unfolding a_push_def execute_list_push_def run Let_def if_not_P [OF False]
    by (rule answer_executes [OF spec _ _ writers(4)]) (auto simp: count_reply_def)
qed

lemma pop_executes:
  assumes "db_inv d A" "env_ok e"
  shows "executes A (a_pop e d name front args A) output (execute_list_pop e name front args output d) d"
proof (cases "length args = 1")
  case True
  then have n: "\<not> length args \<noteq> 1" by simp
  obtain res d' where run: "(if front then pop_left e (args ! 0) d else pop_right e (args ! 0) d) = (res, d')" by fastforce
  have p: "list_pop e (args ! 0) front d = (res, d')" using run by (simp add: pop_left_def pop_right_def split: if_splits)
  show ?thesis
    unfolding a_pop_def execute_list_pop_def run Let_def if_not_P [OF n]
    by (rule answer_executes [OF list_pop_spec [OF assms p] _ _ bulk_writers(3)])
      (auto simp: element_reply_def split: sum.splits option.splits prod.splits)
qed (use assms wrong_executes in \<open>simp add: execute_list_pop_def a_pop_def\<close>)

lemma hdel_executes:
  assumes "db_inv d A" "env_ok e"
  shows "executes A (a_hdel e d args A) output (execute_hash_del e args output d) d"
proof (cases "length args = 2")
  case True
  then have n: "\<not> length args \<noteq> 2" by simp
  obtain res d' where run: "hash_del e (args ! 0) (args ! 1) d = (res, d')" by fastforce
  show ?thesis
    unfolding a_hdel_def execute_hash_del_def run Let_def if_not_P [OF n]
    by (rule answer_executes [OF hash_del_spec [OF assms run] _ _ writers(4)])
      (auto split: sum.splits option.splits)
qed (use assms wrong_executes in \<open>simp add: execute_hash_del_def a_hdel_def\<close>)

lemma new_fields:
  assumes "finite (dom h)"
  shows "card (dom (h(f \<mapsto> v))) - card (dom h) = (if h f = None then 1 else 0)"
  using assms by (auto simp: card_insert_if domIff)

lemma inv_hash_finite:
  assumes "db_inv d A" "ks_map A key = Some (OHash h, t)"
  shows "finite (dom h)"
proof -
  have kv: "kv_ok (ks_map A) (d_sched d) (links d) (d_nodes d)" by (rule db_repD(6) [OF db_inv_rep(1) [OF assms(1)]])
  then have "key \<in> nkey (d_nodes d) ` links d" using assms(2) by (auto simp: kv_ok_def)
  then obtain a where "node_rep (the (d_nodes d a)) (OHash h)" using kv assms(2) by (fastforce simp: kv_ok_def)
  then show ?thesis by (auto simp: finite_dom_map_of)
qed

lemma seen_hash_finite:
  assumes "db_inv d A" "hash_of (obj_of (vals (a_seen e d key A)) key) = Inr h"
  shows "finite (dom h)"
  using inv_hash_finite [OF assms(1), of key h] assms(2)
  by (auto simp: hash_of_def obj_of_vals a_seen_alt a_drop_def a_touch_def split: option.splits obj.splits if_splits)

lemma hset_text_spec:
  assumes "db_inv d A" "env_ok e"
    and "(if 3 < length args then hash_set_texts e (args ! 0) (tl args) d
         else hash_set_text e (args ! 0) (args ! 1) (args ! 2) d) = (res, d')"
    and "3 \<le> length args" "length args mod 2 \<noteq> 0" "texts_fit (tl args)"
  defines "S \<equiv> a_seen e d (args ! 0) A"
  defines "ob \<equiv> obj_of (vals S) (args ! 0)"
  defines "r \<equiv> (if 3 < length args then hfields_obj (tl args) ob else hset_obj (args ! 1) (EString (args ! 2)) ob)"
  shows "outcome e d (args ! 0) A res d' True (\<lambda>c. r = Inl c)
     (\<lambda>n B. \<exists>h. r = Inr h \<and> n = of_nat (card (dom h) - card (dom (projr (hash_of ob)))) \<and> B = a_store (args ! 0) (OHash h) S)"
proof (cases "3 < length args")
  case True
  then have "tl args \<noteq> []" "length (tl args) mod 2 = 0" using assms(5) by (cases args; auto; presburger)+
  then show ?thesis
    using hash_set_texts_spec [OF assms(1,2), of "args ! 0" "tl args" res d'] assms(3,6) True
    by (auto simp: r_def S_def ob_def outcome_def split: sum.splits)
next
  case False
  have run: "hash_assign e (args ! 0) (args ! 1) (EString (args ! 2)) d = (res, d')" using assms(3) False by (simp add: hash_set_text_def)
  note spec = hash_assign_spec [OF assms(1,2) run, folded S_def, folded ob_def]
  have r: "r = hset_obj (args ! 1) (EString (args ! 2)) ob" using False by (simp add: r_def)
  have n: "(if hash_of ob = Inr (h(args ! 1 := None)) then 1 else 0 :: int64) = of_nat (card (dom h) - card (dom (projr (hash_of ob))))"
    if h: "r = Inr h" for h
  proof -
    obtain h0 where h0: "hash_of ob = Inr h0" "h = h0(args ! 1 \<mapsto> EString (args ! 2))"
      using h r by (auto simp: hset_obj_def split: sum.splits if_splits)
    have "finite (dom h0)" using seen_hash_finite [OF assms(1)] h0(1) by (simp add: ob_def S_def)
    moreover have "h0 = h0(args ! 1 := None) \<longleftrightarrow> h0 (args ! 1) = None" by (auto simp: fun_eq_iff)
    ultimately show ?thesis using new_fields [of h0 "args ! 1" "EString (args ! 2)"] h0 by simp
  qed
  show ?thesis using spec n unfolding r [symmetric] by (auto simp: outcome_def split: sum.splits)
qed

lemma hset_executes:
  assumes "db_inv d A" "env_ok e" "texts_fit (tl args)"
  shows "executes A (a_hset e d args A) output (execute_hash_set e args output d) d"
proof (cases "length args < 3 \<or> length args mod 2 = 0")
  case True
  then show ?thesis using assms wrong_executes by (simp add: execute_hash_set_def a_hset_def)
next
  case False
  obtain res d' where run: "(if 3 < length args then hash_set_texts e (args ! 0) (tl args) d
         else hash_set_text e (args ! 0) (args ! 1) (args ! 2) d) = (res, d')" by fastforce
  have "3 \<le> length args" "length args mod 2 \<noteq> 0" using False by simp_all
  note spec = hset_text_spec [OF assms(1,2) run this assms(3)]
  show ?thesis
    unfolding a_hset_def execute_hash_set_def run Let_def if_not_P [OF False]
    by (rule answer_executes [OF spec _ _ writers(4)]) (auto simp: count_reply_def)
qed

lemma query_executes:
  assumes inv: "db_inv d' (a_read e d (args ! 0) A)" "replaying d' = replaying d" and A: "db_inv d A"
    and q: "q (map_option fst (a_look e d (args ! 0) A)) = map_sum id w r" and form: "\<And>v. writes (form v) (w v)"
  shows "executes A (a_query e d name n q args A) output
    (if length args \<noteq> n then (append_wrong_arguments (str name) output, d) else answer form output (reading (r, d'))) d"
proof (cases "length args = n")
  case True
  then show ?thesis
    using inv q form by (cases r) (auto simp: a_query_def a_reply_def answer_def reading_def intro!: executes_writes writers(2))
qed (use A wrong_executes in \<open>simp add: a_query_def\<close>)

lemma length_executes:
  assumes "db_inv d A"
  shows "executes A (a_query e d ''llen'' 1 (\<lambda>ob. map_sum id (\<lambda>n. Number (sint n)) (llen_obj ob)) args A) output
      (execute_list_length e args output d) d"
    and "executes A (a_query e d ''hlen'' 1 (\<lambda>ob. map_sum id (\<lambda>n. Number (sint n)) (hlen_obj ob)) args A) output
      (execute_hash_length e args output d) d"
    and "executes A (a_query e d ''hget'' 2 (\<lambda>ob. map_sum id element_reply (hget_obj (args ! 1) ob)) args A) output
      (execute_hash_get e args output d) d"
proof -
  obtain r d' where run: "list_length e (args ! 0) d = (r, d')" by fastforce
  note s = list_length_spec [OF assms run]
  show "executes A (a_query e d ''llen'' 1 (\<lambda>ob. map_sum id (\<lambda>n. Number (sint n)) (llen_obj ob)) args A) output
      (execute_list_length e args output d) d"
    unfolding execute_list_length_def run by (rule query_executes [OF s(2,3) assms _ writers(4)]) (simp add: s(1))
next
  obtain r d' where run: "hash_length e (args ! 0) d = (r, d')" by fastforce
  note s = hash_length_spec [OF assms run]
  show "executes A (a_query e d ''hlen'' 1 (\<lambda>ob. map_sum id (\<lambda>n. Number (sint n)) (hlen_obj ob)) args A) output
      (execute_hash_length e args output d) d"
    unfolding execute_hash_length_def run by (rule query_executes [OF s(2,3) assms _ writers(4)]) (simp add: s(1))
next
  obtain r d' where run: "hash_field e (args ! 0) (args ! 1) d = (r, d')" by fastforce
  note s = hash_field_spec [OF assms run]
  show "executes A (a_query e d ''hget'' 2 (\<lambda>ob. map_sum id element_reply (hget_obj (args ! 1) ob)) args A) output
      (execute_hash_get e args output d) d"
    unfolding execute_hash_get_def run by (rule query_executes [OF s(2,3) assms _ bulk_writers(3)]) (simp add: s(1))
qed

lemma get_executes:
  assumes "db_inv d A"
  shows "executes A (a_query e d ''get'' 1
      (\<lambda>ob. map_sum id (\<lambda>t. case t of None \<Rightarrow> Null | Some t \<Rightarrow> Bulk t) (get_obj ob)) args A) output (execute_get e args output d) d"
proof (cases "length args = 1")
  case True
  obtain r d' where run: "value_view e (args ! 0) d = (r, d')" by fastforce
  note s = value_view_spec [OF assms run]
  then show ?thesis
    using True s
    by (auto simp: execute_get_def run a_query_def get_obj_def view_obj_def a_reply_def intro!: executes_writes writers bulk_writers
        simp del: error_message.simps split: option.splits obj.splits)
qed (use assms wrong_executes in \<open>simp add: execute_get_def a_query_def\<close>)

lemma ttl_replaying: "ttl e key d = (r, d') \<Longrightarrow> replaying d' = replaying d"
  by (auto simp: ttl_def find_active_def Let_def split: option.splits prod.splits if_splits)

lemma ttl_executes:
  assumes "db_inv d A"
  shows "executes A (a_ttl e d args A) output (execute_ttl e args output d) d"
proof (cases "length args = 1")
  case True
  obtain r d' where run: "ttl e (args ! 0) d = (r, d')" by fastforce
  note s = ttl_spec [OF assms run]
  show ?thesis
    using True s ttl_replaying [OF run] by (auto simp: execute_ttl_def run a_ttl_def intro!: executes_writes writers)
qed (use assms wrong_executes in \<open>simp add: execute_ttl_def a_ttl_def\<close>)

lemma db_log_code: "db_log e opr args d = (Inl x, d') \<Longrightarrow> x \<noteq> Error value_not_integer"
  by (auto simp: db_log_def append_def flush_locked_def write_failure_def Let_def split: option.splits if_splits prod.splits)

lemma find_writable_code: "find_writable e key d = (Inl x, d') \<Longrightarrow> x \<noteq> Error value_not_integer"
  by (auto simp: find_writable_def Let_def dest: db_log_code split: option.splits if_splits prod.splits sum.splits)

lemma schedule_code: "env_ok e \<Longrightarrow> schedule_expiry e a dl d = (Inl x, d') \<Longrightarrow> x \<noteq> Error value_not_integer"
  by (auto simp: schedule_expiry_def std_alloc_def env_ok_def is_bad_alloc_def Let_def split: if_splits prod.splits sum.splits option.splits)
    (metis fst_conv exn.distinct(1,3))+

text \<open>\<^verbatim>\<open>EXPIRE\<close> raises \<^verbatim>\<open>value_not_integer\<close> exactly when the key is there and the time is out of range.\<close>

lemma expire_range:
  assumes inv: "db_inv d A" and e: "env_ok e" and run: "expire e key seconds d = (res, d')"
  defines "S \<equiv> a_seen e d key A" and "bound \<equiv> (max_int - max (e_steady e 1) (e_wall e 0)) div 1000"
  shows "res = Inl (Error value_not_integer) \<Longrightarrow>
      ks_map S key \<noteq> None \<and> 0 < seconds \<and> bound < seconds \<and> db_inv d' S \<and> replaying d' = replaying d"
    and "res = Inr b \<Longrightarrow> ks_map S key = None \<or> seconds \<le> 0 \<or> seconds \<le> bound"
    and "bound < seconds \<Longrightarrow> 0 < seconds \<Longrightarrow> res = Inr b \<Longrightarrow> \<not> b \<and> ks_map S key = None \<and> db_inv d' S \<and> replaying d' = replaying d"
    and "bound < seconds \<Longrightarrow> 0 < seconds \<Longrightarrow> res = Inl x \<Longrightarrow> kept e d key A d'"
proof -
  obtain r d1 where f: "find_writable e key d = (r, d1)" by fastforce
  consider x where "r = Inl x" | "r = Inr None" | a where "r = Inr (Some a)" by (metis option.exhaust sum.exhaust)
  note cases3 = this
  show "ks_map S key \<noteq> None \<and> 0 < seconds \<and> bound < seconds \<and> db_inv d' S \<and> replaying d' = replaying d"
    if "res = Inl (Error value_not_integer)"
    using cases3
  proof cases
    case 1
    then show ?thesis using run f that find_writable_code [of e key d x d1] by (auto simp: expire_def)
  next
    case 2
    then show ?thesis using run f that by (auto simp: expire_def)
  next
    case 3
    note fc = found_case [OF inv e f [unfolded 3]]
    have "0 < seconds \<and> bound < seconds \<and> d' = d1"
      using run f 3 that db_log_code [of e _ _ _ "Error value_not_integer"] schedule_code [OF e, of _ _ _ "Error value_not_integer"]
      by (auto simp: expire_def bound_def Let_def split: if_splits prod.splits sum.splits)
    then show ?thesis using fc(1,3) fc(5) [of a] by (auto simp: S_def)
  qed
  show "ks_map S key = None \<or> seconds \<le> 0 \<or> seconds \<le> bound" if "res = Inr b"
    using cases3
  proof cases
    case 2
    then show ?thesis using found_case(4) [OF inv e f [unfolded 2]] by (simp add: S_def)
  next
    case 3
    then show ?thesis using run f that by (auto simp: expire_def bound_def Let_def split: if_splits)
  qed (use run f that in \<open>simp add: expire_def\<close>)
  show "\<not> b \<and> ks_map S key = None \<and> db_inv d' S \<and> replaying d' = replaying d" if "bound < seconds" "0 < seconds" "res = Inr b"
    using cases3
  proof cases
    case 2
    then show ?thesis using run f that found_case(1,3,4) [OF inv e f [unfolded 2]] by (auto simp: S_def expire_def)
  next
    case 3
    then show ?thesis using run f that by (auto simp: expire_def bound_def Let_def split: if_splits)
  qed (use run f that in \<open>simp add: expire_def\<close>)
  show "kept e d key A d'" if "bound < seconds" "0 < seconds" "res = Inl x"
    using cases3
  proof cases
    case 1
    then show ?thesis using run f that find_failed [OF inv e, of key] by (auto simp: expire_def)
  next
    case 3
    then show ?thesis using run f that found_case(1) [OF inv e f [unfolded 3]] by (auto simp: expire_def bound_def kept_def Let_def)
  qed (use run f that in \<open>simp add: expire_def\<close>)
qed

lemma expire_executes:
  assumes inv: "db_inv d A" and e: "env_ok e" and clk: "clock_ok e"
  shows "executes A (a_expire e d args A) output (execute_expire e args output d) d"
proof (cases "length args = 2 \<and> from_chars_i64 (args ! 1) \<noteq> None")
  case False
  then show ?thesis
    using inv
    by (auto simp: execute_expire_def a_expire_def simp del: error_message.simps intro!: executes_writes writers split: option.splits)
next
  case True
  then obtain n where n: "from_chars_i64 (args ! 1) = Some n" and l: "\<not> length args \<noteq> 2" by auto
  define key seconds where "key = args ! 0" and "seconds = sint n"
  obtain res d' where run: "expire e key seconds d = (res, d')" by fastforce
  note rg = expire_range [OF inv e run]
  have alt: "execute_expire e args output d = (case res of
      Inr b \<Rightarrow> (append_integer (if b then 1 else 0) output, d')
    | Inl x \<Rightarrow> if x = Error value_not_integer then (append_error (str (error_message value_not_integer)) output, d') else (Inl x, d'))"
    unfolding execute_expire_def if_not_P [OF l] n option.case key_def [symmetric] seconds_def [symmetric] run by (cases res) simp_all
  define S bound where "S = a_seen e d key A" and "bound = (max_int - max (e_steady e 1) (e_wall e 0)) div 1000"
  have meaning: "a_expire e d args A = (case ks_map S key of None \<Rightarrow> (Number 0, S)
      | Some (ob, _) \<Rightarrow> if seconds \<le> 0 then (Number 1, a_drop key S)
          else if bound < seconds then (err_reply value_not_integer, S)
          else (Number 1, a_put key (ob, Some (e_steady e 1 + seconds * 1000)) S))"
    unfolding a_expire_def if_not_P [OF l] n option.case Let_def S_def bound_def key_def seconds_def ..
  have in_range: "e_wall e 1 + seconds * 1000 \<le> max_int" if "\<not> (0 < seconds \<and> bound < seconds)"
  proof (cases "0 < seconds")
    case True
    then have "seconds \<le> bound" using that by simp
    then show ?thesis using clk unfolding clock_ok_def bound_def by linarith
  qed (use clk in \<open>simp add: clock_ok_def\<close>)
  have ex: "kept e d key A d'" if "res = Inl x" for x
  proof (cases "0 < seconds \<and> bound < seconds")
    case True
    then show ?thesis using rg(4) that by (simp add: bound_def)
  next
    case False
    then show ?thesis using expire_spec [OF inv e run] in_range that clk by (auto simp: clock_ok_def)
  qed
  show ?thesis
  proof (cases res)
    case (Inl x)
    show ?thesis
    proof (cases "x = Error value_not_integer")
      case True
      then show ?thesis
        using rg(1) Inl unfolding alt meaning
        by (auto simp: S_def bound_def simp del: error_message.simps intro!: executes_writes writers(2))
    next
      case False
      then show ?thesis using ex [OF Inl] Inl executes_raises unfolding alt by simp
    qed
  next
    case (Inr b)
    show ?thesis
    proof (cases "0 < seconds \<and> bound < seconds")
      case True
      then show ?thesis using rg(3) [of b] Inr unfolding alt meaning by (auto simp: S_def bound_def intro!: executes_writes writers)
    next
      case False
      then show ?thesis
        using expire_spec [OF inv e run] in_range clk Inr unfolding alt meaning
        by (auto simp: S_def clock_ok_def intro!: executes_writes writers split: option.splits)
    qed
  qed
qed

lemma a_del_replaying: "replaying d' = replaying d \<Longrightarrow> a_del es d' i ks n A = a_del es d i ks n A"
  by (induction es d i ks n A rule: a_del.induct) (auto simp: a_seen_def Let_def)

lemma del_loop_spec:
  assumes "db_inv d A" "\<And>i. env_ok (es i)" "del_loop es i ks n d = (res, d')"
  shows "case res of
      Inl x \<Rightarrow> \<exists>B. db_inv d' B \<and> ks_map B \<subseteq>\<^sub>m ks_map A
    | Inr m \<Rightarrow> m = fst (a_del es d i ks n A) \<and> db_inv d' (snd (a_del es d i ks n A)) \<and> replaying d' = replaying d"
  using assms
proof (induction es i ks n d arbitrary: A rule: del_loop.induct)
  case (1 es i n d)
  then show ?case by auto
next
  case (2 es i key ks n d)
  let ?S = "a_seen (es i) d key A"
  obtain r d1 where run: "del (es i) key d = (r, d1)" by fastforce
  note s = del_spec [OF "2.prems"(1,2) run]
  show ?case
  proof (cases r)
    case (Inl x)
    then have "kept (es i) d key A d1" "res = Inl x" "d' = d1" using s run "2.prems"(3) by auto
    then show ?thesis using seen_le [of "es i" d key A] by (auto simp: kept_def)
  next
    case (Inr b)
    have b: "b = (ks_map ?S key \<noteq> None)" "db_inv d1 (if b then a_drop key ?S else ?S)" "replaying d1 = replaying d"
      using s Inr by auto
    have "del_loop es (Suc i) ks (if b then n + 1 else n) d1 = (res, d')" using run Inr "2.prems"(3) by simp
    note IH = "2.IH" [OF run [symmetric] Inr b(2) "2.prems"(2) this]
    have "ks_map (if b then a_drop key ?S else ?S) \<subseteq>\<^sub>m ks_map ?S" by (auto simp: a_drop_def map_le_def)
    then have le: "ks_map (if b then a_drop key ?S else ?S) \<subseteq>\<^sub>m ks_map A" by (rule map_le_trans [OF _ seen_le])
    show ?thesis
    proof (cases res)
      case (Inl x)
      then obtain B where "db_inv d' B" "ks_map B \<subseteq>\<^sub>m ks_map (if b then a_drop key ?S else ?S)" using IH by auto
      then show ?thesis using Inl map_le_trans [OF _ le] by auto
    next
      case (Inr m)
      then show ?thesis using IH b(1,3) a_del_replaying [OF b(3)] by (auto simp: Let_def split: if_splits)
    qed
  qed
qed

lemma del_executes:
  assumes "db_inv d A" "\<And>i. env_ok (es i)"
  shows "executes A (if args = [] then (wrong_reply (str ''del''), A)
      else (case a_del es d 0 args 0 A of (n, B) \<Rightarrow> (Number (sint n), B))) output (execute_del es args output d) d"
proof (cases "args = []")
  case False
  obtain res d' where run: "del_loop es 0 args 0 d = (res, d')" by fastforce
  note s = del_loop_spec [OF assms run]
  then show ?thesis
    using False
    by (cases res) (auto simp: execute_del_def run executes_def [of _ _ _ "(Inl _, _)"] case_prod_beta intro!: executes_writes writers)
qed (use assms wrong_executes in \<open>simp add: execute_del_def\<close>)

lemma info_executes:
  assumes "db_inv d A"
  shows "executes A (a_info h stats d args, A) output (execute_info h stats args output d) d"
  using assms
  by (auto simp: execute_info_def a_info_def append_info_def Let_def simp del: error_message.simps
      intro!: executes_writes writers bulk_writers wrong_executes)

lemma ping_executes:
  assumes "db_inv d A"
  shows "executes A (Simple (str ''PONG''), A) output (execute_ping output d) d"
  using assms by (simp add: execute_ping_def executes_def str_def)

text \<open>Every command answers and does what it means.\<close>

lemma execute_meaning:
  assumes "db_inv d A" "\<And>i. env_ok (es i)" "\<And>i. clock_ok (es i)" "texts_fit (tl (cmd_arguments c))"
  shows "executes A (a_execute es h stats d i (cmd_name c) (cmd_arguments c) A) output (execute_into es h stats c i output d) d"
proof -
  note L = ping_executes [OF assms(1)] info_executes [OF assms(1)] get_executes [OF assms(1)] set_executes [OF assms(1,2)]
    increment_executes [OF assms(1,2), unfolded Let_def] push_executes [OF assms(1,2)] pop_executes [OF assms(1,2)] length_executes [OF assms(1)]
    hset_executes [OF assms(1,2,4)] hdel_executes [OF assms(1,2)] expire_executes [OF assms(1,2,3)] ttl_executes [OF assms(1)]
    del_executes [OF assms(1,2)]
  show ?thesis
    using assms(1) unfolding a_execute_def execute_into_def Let_def
    by (cases i) (simp_all only: command_id.case L, auto intro!: executes_writes writers)
qed

section \<open>The shape and the size of replies\<close>

lemma str_no_cr [simp]: "13 \<in> set (str s) \<longleftrightarrow> CHR 0x0D \<in> set s"
proof -
  have "(of_char c :: byte) = 13 \<longleftrightarrow> c = CHR 0x0D" for c
  proof
    assume "(of_char c :: byte) = 13"
    then have "unat (of_char c :: byte) = 13" by simp
    then have n: "(of_char c :: nat) = 13" by (simp add: unat_of_char)
    have "c = char_of (of_char c :: nat)" by simp
    also have "\<dots> = CHR 0x0D" unfolding n by (simp add: char_of_def bit_0)
    finally show "c = CHR 0x0D" .
  qed simp
  then show ?thesis by (force simp: str_def)
qed

lemma message_line [simp]: "CHR 0x0D \<notin> set (error_message c)"
  by (cases c) simp_all

lemma int64_range [simp]: "- 9223372036854775808 \<le> sint (w :: int64)" "sint (w :: int64) < 9223372036854775808"
  using sint_range_size [of w] by (simp_all add: word_size)

lemma line_replies [simp]:
  "line_ok (err_reply c)" "13 \<notin> set name \<Longrightarrow> line_ok (wrong_reply name)" "line_ok (element_reply v)" "line_ok (count_reply n)"
  by (auto simp: err_reply_def wrong_reply_def element_reply_def count_reply_def split: option.splits element.splits)

lemma a_reply_line: "(\<And>v. r = Inr v \<Longrightarrow> line_ok (fst (f v))) \<Longrightarrow> line_ok (fst (a_reply f S r))"
  by (auto simp: a_reply_def split: sum.splits)

lemma a_query_line:
  "(\<And>ob v. q ob = Inr v \<Longrightarrow> line_ok v) \<Longrightarrow> CHR 0x0D \<notin> set name \<Longrightarrow> line_ok (fst (a_query e d name n q args A))"
  by (auto simp: a_query_def intro!: a_reply_line)

lemma map_sum_line: "(\<And>v. line_ok (w v)) \<Longrightarrow> map_sum id w r = Inr v \<Longrightarrow> line_ok v"
  by (cases r) auto

lemma meaning_line:
  assumes "13 \<notin> set name"
  shows "line_ok (fst (a_execute es h stats d i name args A))"
  using assms
  by (cases i) (auto simp: a_execute_def a_info_def a_push_def a_pop_def a_hset_def a_hdel_def a_expire_def a_ttl_def Let_def
      case_prod_beta intro!: a_reply_line a_query_line elim!: map_sum_line [rotated] split: option.splits if_splits)

lemma within_writers [simp]:
  "within (Inl x)" "within (append_error t output)" "within (append_wrong_arguments name output)" "within (append_integer (sint (w :: int64)) output)"
  "within (append_integer 0 output)" "within (append_integer 1 output)" "within (append_null output)" "within (append_bulk_view t output)"
  "within (append_bulk_string t output)" "within (append_optional v output)" "within (append_guarded 5 (str ''+OK'' @ CRLF) output)"
proof -
  show e: "within (append_error t output)" for t
    by (auto simp: within_def append_error_def CRLF_def dest!: append_guarded_bound)
  then show "within (append_wrong_arguments name output)" by (simp add: append_wrong_arguments_def)
  show i: "within (append_integer (sint w) output)" for w :: int64
    using append_integer_bound by (auto simp: within_def)
  show "within (append_integer 0 output)" "within (append_integer 1 output)" using i [of 0] i [of 1] by simp_all
  show n: "within (append_null output)" "within (append_guarded 5 (str ''+OK'' @ CRLF) output)"
    by (auto simp: within_def append_null_def CRLF_def dest!: append_guarded_bound)
  show b: "within (append_bulk_view t output)" for t using append_bulk_view_bound by (auto simp: within_def)
  then show "within (append_bulk_string t output)" by (simp add: append_bulk_string_def)
  show "within (append_optional v output)"
    using b n by (auto simp: append_optional_def append_element_def append_bulk_string_def split: option.splits element.splits)
qed (simp add: within_def)

lemma within_answer: "(\<And>v. within (form v output)) \<Longrightarrow> within (fst (answer form output r))"
  by (auto simp: answer_def split: prod.splits sum.splits)

lemma execute_within:
  assumes "i \<noteq> c_ping"
  shows "within (fst (execute_into es h stats c i output d))"
  using assms
  by (cases i)
    (auto simp: execute_into_def execute_info_def append_info_def execute_get_def execute_set_def execute_increment_def
      execute_list_push_def execute_list_pop_def execute_list_length_def execute_hash_set_def execute_hash_get_def execute_hash_del_def
      execute_hash_length_def execute_expire_def execute_ttl_def execute_del_def Let_def
      intro!: within_answer split: prod.splits option.splits view.splits sum.splits)

section \<open>Results\<close>

lemma texts_fit_small: "\<forall>x \<in> set args. length x \<le> 2 ^ 25 \<Longrightarrow> texts_fit args"
  by (force simp: texts_fit_def body_size_text_def value_limit_def max_string_header_def)

lemma sample_clock: "clock_ok sample_env"
  by (simp add: clock_ok_def sample_env_def max_int_def)

text \<open>
  C4. A command executed by name appends exactly the reply its meaning on the keyspace gives, and
  leaves the keyspace its meaning leaves, for every command, every number and kind of arguments and
  every stored value. When it raises instead, its effect is complete and only the reply did not fit,
  or nothing was stored or changed: at most keys are gone.
\<close>

theorem command_refines:
  assumes "db_inv d A" "\<forall>i. env_ok (es i) \<and> clock_ok (es i)" "texts_fit (tl (cmd_arguments c))"
  shows "let m = a_execute es h stats d (cid (classify_command (cmd_name c))) (cmd_name c) (cmd_arguments c) A
    in case execute_named es h stats c output d of
         (Inr output', d') \<Rightarrow> output' = output @ encode_reply (fst m) \<and> db_inv d' (snd m)
       | (Inl x, d') \<Rightarrow> \<exists>B. db_inv d' B \<and> (x = Error request_too_large \<and> B = snd m \<or> ks_map B \<subseteq>\<^sub>m ks_map A)"
  using execute_meaning [OF assms(1) _ _ assms(3)] assms(2)
  by (fastforce simp: execute_named_def executes_def Let_def split: prod.splits sum.splits)

theorem command_refines_witness:
  "let m = a_execute (\<lambda>_. sample_env) sample_host sample_stats sample_db (cid (classify_command (cmd_name sample_command)))
        (cmd_name sample_command) (cmd_arguments sample_command) sample_keys
    in case execute_named (\<lambda>_. sample_env) sample_host sample_stats sample_command [] sample_db of
         (Inr output', d') \<Rightarrow> output' = [] @ encode_reply (fst m) \<and> db_inv d' (snd m)
       | (Inl x, d') \<Rightarrow> \<exists>B. db_inv d' B \<and> (x = Error request_too_large \<and> B = snd m \<or> ks_map B \<subseteq>\<^sub>m ks_map sample_keys)"
proof -
  have "texts_fit (tl (cmd_arguments sample_command))" by (rule texts_fit_small) (simp add: sample_command_def)
  then show ?thesis using command_refines [of sample_db sample_keys "\<lambda>_. sample_env" sample_command sample_host sample_stats "[]"]
      sample_db_inv sample_env_ok sample_clock by simp
qed

text \<open>No command has a carriage return in its name.\<close>

lemma break_unknown:
  assumes "13 \<in> set name"
  shows "cid (classify_command name) = c_unknown"
proof -
  have l: "13 \<in> set (map lower name)" using assms by (auto simp: lower_def image_iff intro!: bexI [of _ 13])
  have "\<forall>k \<in> set (map fst command_table). 13 \<notin> set k" by (simp add: command_table_def str_def)
  then have "map lower name \<notin> set (map fst command_table)" using l by blast
  then have "map_of command_table (map lower name) = None" by (simp add: map_of_eq_None_iff)
  then have "command_named name = \<lparr>cid = c_unknown, is_write = True\<rparr>" by (simp add: command_named_def)
  moreover have "classify_command name = command_named name" using classify_long classify_short by blast
  ultimately show ?thesis by simp
qed

lemma unknown_echo:
  assumes "13 \<in> set name"
  shows "execute_named es h stats (c\<lparr>cmd_name := name\<rparr>) output d =
    (if length output + (length (error_message unknown_command) + length name + 6) \<le> max_reply_bytes
     then Inr (output @ str ''-'' @ str (error_message unknown_command) @ str '' '' @ [39] @ name @ [39] @ CRLF)
     else Inl (Error request_too_large), d)"
  unfolding execute_named_def using break_unknown [OF assms]
  by (auto simp: execute_into_def append_error_def append_guarded_def require_reply_space_def
      simp del: error_message.simps split: if_splits)

text \<open>
  C39. The name of an unknown command is echoed as it was sent. A name with a line break inside is
  always unknown; where the reply fits, the error reply ends at the line break, and what the client
  put after it follows as bytes of their own: with a name that continues with any reply \<open>r\<close>, the
  answer to one request is the error, the whole of \<open>r\<close>, and the rest of the name. The database is
  unchanged.
\<close>

theorem unknown_name_splits:
  "execute_named es h stats (c\<lparr>cmd_name := before @ CRLF @ encode_reply r @ rest\<rparr>) output d =
    (if length output + (length (error_message unknown_command) + length (before @ CRLF @ encode_reply r @ rest) + 6) \<le> max_reply_bytes
     then Inr (output @ encode_reply (Err (str (error_message unknown_command) @ str '' '' @ [39] @ before))
       @ encode_reply r @ rest @ [39] @ CRLF)
     else Inl (Error request_too_large), d)"
proof -
  have "13 \<in> set (before @ CRLF @ encode_reply r @ rest)" by (simp add: CRLF_def)
  from unknown_echo [OF this] show ?thesis by (simp del: error_message.simps)
qed

text \<open>
  What every command but \<^verbatim>\<open>PING\<close> appends keeps the output within one mebibyte, and it changes no
  byte already there.
\<close>

lemma command_output_bounded:
  assumes "execute_named es h stats c output d = (Inr output', d')" "cid (classify_command (cmd_name c)) \<noteq> c_ping"
    and "db_inv d A" "\<forall>i. env_ok (es i) \<and> clock_ok (es i)" "texts_fit (tl (cmd_arguments c))"
  shows "length output' \<le> max_reply_bytes \<and> take (length output) output' = output"
proof -
  have "length output' \<le> max_reply_bytes"
    using execute_within [OF assms(2), of es h stats c "output" d] assms(1) by (simp add: within_def execute_named_def)
  moreover have "\<exists>r. output' = output @ encode_reply r"
    using execute_meaning [OF assms(3) _ _ assms(5), of es h stats "cid (classify_command (cmd_name c))" "output"] assms(1,4)
    by (auto simp: executes_def execute_named_def)
  ultimately show ?thesis by auto
qed

lemma command_output_bounded_witness:
  "\<exists>output' d'. execute_named (\<lambda>_. sample_env) sample_host sample_stats
       (sample_command\<lparr>cmd_name := str ''hello'' @ CRLF @ str ''+OK''\<rparr>) [] sample_db = (Inr output', d')
     \<and> length output' \<le> max_reply_bytes \<and> take (length ([] :: bytes)) output' = []"
proof -
  let ?c = "sample_command\<lparr>cmd_name := str ''hello'' @ CRLF @ str ''+OK''\<rparr>"
  obtain output' d' where run: "execute_named (\<lambda>_. sample_env) sample_host sample_stats ?c [] sample_db = (Inr output', d')"
    using unknown_echo [of "cmd_name ?c"] by (auto simp: CRLF_def max_reply_bytes_def)
  have "texts_fit (tl (cmd_arguments ?c))" by (rule texts_fit_small) (simp add: sample_command_def)
  moreover have "cid (classify_command (cmd_name ?c)) \<noteq> c_ping" using break_unknown [of "cmd_name ?c"] by (simp add: CRLF_def)
  ultimately show ?thesis
    using command_output_bounded [OF run _ sample_db_inv] run sample_env_ok sample_clock by blast
qed

end
