(* ===== verification/Server.thy ===== *)
theory Server
  imports Commands
begin

text \<open>
  The server of server.cpp and server.hpp: the clients with their buffers, the parsing of their
  input, the execution of a batch under the lock of the database, the wait for the maintenance
  thread, sending, connections and the event loop. Lemmas on each loop: how the input is cut into
  commands, what a batch answers and does, that the wait ends, that sending keeps the bytes for a
  client.
\<close>

section \<open>Definitions\<close>

subsection \<open>Limits\<close>

definition max_input_buffer_size :: nat where
  "max_input_buffer_size = 1024 * 1024"

definition max_output_buffer_size :: nat where
  "max_output_buffer_size = 1024 * 1024"

definition read_chunk_size :: nat where
  "read_chunk_size = 64 * 1024"

definition batch_limit :: nat where
  "batch_limit = 1024"

definition compact_buffer_threshold :: nat where
  "compact_buffer_threshold = 64 * 1024"

definition expiry_slice :: nat where
  "expiry_slice = 128"

definition eviction_slice :: nat where
  "eviction_slice = 256"

definition max_clients :: nat where
  "max_clients = 4096"

subsection \<open>State\<close>

text \<open>
  A client: its buffers with the offsets of what is consumed and sent, its flags, and, standing for
  its socket, the bytes the system has taken for sending so far.
\<close>

record client_info =
  in_buffer :: bytes
  input_offset :: nat
  out_buffer :: bytes
  output_offset :: nat
  watching_write :: bool
  close_after_write :: bool
  half_closed :: bool
  processing_queued :: bool
  wire :: bytes

record server =
  s_database :: db
  s_clients :: "(nat \<times> client_info) list"
  next_client_id :: nat
  s_started_at :: int
  input_buffer_disconnects :: u64
  output_buffer_disconnects :: u64
  pending_clients :: "nat list"
  maintenance_failed :: bool

definition find_client :: "nat \<Rightarrow> server \<Rightarrow> client_info option" where
  "find_client i s = map_of (s_clients s) i"

definition put_client :: "nat \<Rightarrow> client_info \<Rightarrow> server \<Rightarrow> server" where
  "put_client i c s = s\<lparr>s_clients := (i, c) # filter (\<lambda>p. fst p \<noteq> i) (s_clients s)\<rparr>"

definition remove_client :: "nat \<Rightarrow> server \<Rightarrow> server" where
  "remove_client i s = s\<lparr>s_clients := filter (\<lambda>p. fst p \<noteq> i) (s_clients s)\<rparr>"

definition new_client :: client_info where
  "new_client =
     \<lparr>in_buffer = [], input_offset = 0, out_buffer = [], output_offset = 0, watching_write = False,
      close_after_write = False, half_closed = False, processing_queued = False, wire = []\<rparr>"

text \<open>What the system answers to \<^verbatim>\<open>receive\<close> and to \<^verbatim>\<open>send\<close>; it takes at most the bytes it is given.\<close>

datatype receipt = Received bytes | Closed | Would_block | Receive_failed

datatype sending = Sent nat | Send_blocked | Send_failed

text \<open>
  A registration with the event queue, for a socket to be watched for reading and for writing,
  succeeds or not. Taking a new connection fails with an exception, or gives a socket, set up and
  ready to be registered.
\<close>

type_synonym watch = "bool \<Rightarrow> bool \<Rightarrow> bool"

datatype acceptance = Accept_failed exn | Accepted watch

text \<open>
  The surroundings of one operation of the server: the environments of the database calls of each
  command of a batch, of the end of the batch, and of the maintenance passes it may wait for; the
  answers of the sockets; the registrations with the event queue and the new connections.
\<close>

record world =
  w_env :: "nat \<Rightarrow> nat \<Rightarrow> env"
  w_end :: env
  w_sweep :: "nat \<Rightarrow> env"
  w_evict :: "nat \<Rightarrow> env"
  w_host :: host
  w_recv :: "nat \<Rightarrow> receipt"
  w_send :: "nat \<Rightarrow> sending"
  w_watch :: "nat \<Rightarrow> watch"
  w_accept :: "nat \<Rightarrow> acceptance"

type_synonym 'a served = "(exn + 'a) \<times> server"

subsection \<open>Maintenance\<close>

definition maintenance_pass :: "env \<Rightarrow> env \<Rightarrow> db \<Rightarrow> (exn + unit) \<times> db" where
  "maintenance_pass e1 e2 d =
     (if \<not> maintenance_needed d then (Inr (), d)
      else case remove_expired e1 expiry_slice d of
        (Inl x, d1) \<Rightarrow> (Inl x, d1)
      | (Inr _, d1) \<Rightarrow>
          if \<not> over_capacity d1 then (Inr (), d1)
          else (case evict_to e2 (max_keys d1) eviction_slice d1 of
                  (Inl x, d2) \<Rightarrow> (Inl x, d2)
                | (Inr _, d2) \<Rightarrow> (Inr (), d2)))"

text \<open>
  A batch that leaves the database over capacity waits for passes of the maintenance thread until it
  is not, or the thread has failed: whether it has, and the database then; \<open>None\<close> when the passes
  allowed are used up.
\<close>

fun await_capacity :: "(nat \<Rightarrow> env) \<Rightarrow> (nat \<Rightarrow> env) \<Rightarrow> nat \<Rightarrow> nat \<Rightarrow> bool \<Rightarrow> db \<Rightarrow> (bool \<times> db) option" where
  "await_capacity sw ev 0 i failed d = (if over_capacity d \<and> \<not> failed then None else Some (failed, d))"
| "await_capacity sw ev (Suc n) i failed d =
     (if \<not> (over_capacity d \<and> \<not> failed) then Some (failed, d)
      else case maintenance_pass (sw i) (ev i) d of (r, d1) \<Rightarrow> await_capacity sw ev n (Suc i) (isl r) d1)"

subsection \<open>Batches\<close>

definition out_of_memory :: bytes where
  "out_of_memory = str ''OOM database memory limit or allocation failure''"

fun execute_loop ::
  "(nat \<Rightarrow> nat \<Rightarrow> env) \<Rightarrow> host \<Rightarrow> server_stats \<Rightarrow> nat \<Rightarrow> command list \<Rightarrow> bytes \<Rightarrow> db \<Rightarrow> (exn + unit) \<times> bytes \<times> db"
where
  "execute_loop es h stats i [] output d = (Inr (), output, d)"
| "execute_loop es h stats i (c # cs) output d =
     (case execute_into (es i) h stats c (cid (classify_command (cmd_name c))) output d of
        (Inr output1, d1) \<Rightarrow> execute_loop es h stats (Suc i) cs output1 d1
      | (Inl x, d1) \<Rightarrow>
          if is_bad_alloc x then
            (case append_error out_of_memory output of
               Inl y \<Rightarrow> (Inl y, output, d1)
             | Inr output1 \<Rightarrow> execute_loop es h stats (Suc i) cs output1 d1)
          else (Inl x, output, d1))"

definition locked_batch :: "world \<Rightarrow> server_stats \<Rightarrow> command list \<Rightarrow> bool \<Rightarrow> bytes \<Rightarrow> db \<Rightarrow> (exn + unit) \<times> bytes \<times> db" where
  "locked_batch w stats cs has_write output d =
     (case execute_loop (w_env w) (w_host w) stats 0 cs output (if has_write then begin_wal_batch d else d) of
        (r, output1, d1) \<Rightarrow>
          (case (if has_write then end_wal_batch (w_end w) d1 else (Inr (), d1)) of
             (Inl y, d2) \<Rightarrow> (Inl y, output1, d2)
           | (Inr _, d2) \<Rightarrow> (r, output1, d2)))"

text \<open>The result of a batch, the output, whether the maintenance thread has failed, and the database.\<close>

definition execute_batch ::
  "world \<Rightarrow> server_stats \<Rightarrow> command list \<Rightarrow> bool \<Rightarrow> bytes \<Rightarrow> bool \<Rightarrow> db \<Rightarrow> ((exn + unit) \<times> bytes \<times> bool \<times> db) option"
where
  "execute_batch w stats cs has_write output failed d =
     (case locked_batch w stats cs has_write output d of
        (Inl x, output1, d1) \<Rightarrow> Some (Inl x, output1, failed, d1)
      | (Inr _, output1, d1) \<Rightarrow>
          if \<not> over_capacity d1 then Some (Inr (), output1, failed, d1)
          else map_option (\<lambda>(failed1, d2). (if failed1 then Inl (Error disk_write_failed) else Inr (), output1, failed1, d2))
            (await_capacity (w_sweep w) (w_evict w) (key_total d1) 0 failed d1))"

subsection \<open>Clients\<close>

definition compact_buffer :: "bytes \<Rightarrow> nat \<Rightarrow> bytes \<times> nat" where
  "compact_buffer buffer off =
     (if off = length buffer then ([], 0)
      else if compact_buffer_threshold \<le> off \<and> length buffer \<le> off * 2 then (drop off buffer, 0)
      else (buffer, off))"

definition request_write :: "watch \<Rightarrow> nat \<Rightarrow> server \<Rightarrow> unit served" where
  "request_write watched i s =
     (case find_client i s of
        None \<Rightarrow> (Inr (), s)
      | Some c \<Rightarrow>
          if watching_write c then (Inr (), s)
          else if \<not> watched (\<not> half_closed c) True then (Inl (Error socket_poll_failed), s)
          else (Inr (), put_client i (c\<lparr>watching_write := True\<rparr>) s))"

text \<open>The sending loop: whether the client stays, and its state.\<close>

function flush_loop :: "(nat \<Rightarrow> sending) \<Rightarrow> nat \<Rightarrow> client_info \<Rightarrow> bool \<times> client_info" where
  "flush_loop answers n c =
     (if length (out_buffer c) \<le> output_offset c then (True, c)
      else case answers n of
        Sent k \<Rightarrow>
          if k = 0 then (False, c)
          else
            let taken = take k (drop (output_offset c) (out_buffer c));
                (buffer, off) = compact_buffer (out_buffer c) (output_offset c + length taken)
            in flush_loop answers (Suc n) (c\<lparr>wire := wire c @ taken, out_buffer := buffer, output_offset := off\<rparr>)
      | Send_blocked \<Rightarrow> (True, c)
      | Send_failed \<Rightarrow> (False, c))"
  by pat_completeness auto

termination
  by (relation "measure (\<lambda>(answers, n, c). length (out_buffer c) - output_offset c)")
    (auto simp: compact_buffer_def split: if_splits)

declare flush_loop.simps [simp del]

definition flush_client :: "(nat \<Rightarrow> sending) \<Rightarrow> watch \<Rightarrow> nat \<Rightarrow> server \<Rightarrow> unit served" where
  "flush_client answers watched i s =
     (case find_client i s of
        None \<Rightarrow> (Inr (), s)
      | Some c \<Rightarrow>
          (case flush_loop answers 0 c of (stays, c1) \<Rightarrow>
             if \<not> stays then (Inr (), remove_client i s)
             else if output_offset c1 < length (out_buffer c1) then (Inr (), put_client i c1 s)
             else if watching_write c1 \<and> \<not> watched (\<not> half_closed c1) False then (Inl (Error socket_poll_failed), put_client i c1 s)
             else
               let c2 = c1\<lparr>watching_write := False\<rparr>
               in if close_after_write c2 \<and> \<not> processing_queued c2 then (Inr (), remove_client i s)
                  else (Inr (), put_client i c2 s)))"

text \<open>The parsing loop of \<^verbatim>\<open>process_client\<close>: commands, the offset after them, and a protocol error if any.\<close>

fun collect :: "nat \<Rightarrow> bytes \<Rightarrow> nat \<Rightarrow> command list \<times> nat \<times> error_code option" where
  "collect 0 buffer off = ([], off, None)"
| "collect (Suc n) buffer off =
     (if length buffer \<le> off then ([], off, None)
      else case parse_command_into (drop off buffer) of
        Inl code \<Rightarrow> ([], off, if is_incomplete_resp_error code then None else Some code)
      | Inr c \<Rightarrow> (case collect n buffer (off + bytes_consumed c) of (cs, off1, e) \<Rightarrow> (c # cs, off1, e)))"

definition has_write :: "command list \<Rightarrow> bool" where
  "has_write cs \<longleftrightarrow> (\<exists>c \<in> set cs. is_write (classify_command (cmd_name c)))"

definition count_output :: "server \<Rightarrow> server" where
  "count_output s = s\<lparr>output_buffer_disconnects := output_buffer_disconnects s + 1\<rparr>"

definition stats_of :: "server \<Rightarrow> server_stats" where
  "stats_of s =
     \<lparr>connected_clients = length (s_clients s), started_at = s_started_at s,
      input_disconnects = input_buffer_disconnects s, output_disconnects = output_buffer_disconnects s\<rparr>"

text \<open>The error reply that ends a connection.\<close>

definition refuse_client :: "world \<Rightarrow> bytes \<Rightarrow> nat \<Rightarrow> client_info \<Rightarrow> server \<Rightarrow> unit served" where
  "refuse_client w message i c s =
     (case append_error message (out_buffer c) of
        Inl _ \<Rightarrow> (Inr (), remove_client i (count_output s))
      | Inr output \<Rightarrow>
          request_write (w_watch w 0) i (put_client i
            (c\<lparr>out_buffer := output, in_buffer := [], input_offset := 0, close_after_write := True\<rparr>) s))"

text \<open>What \<^verbatim>\<open>process_client\<close> does after the batch: queue the client for the rest of its input, then send.\<close>

definition finish_client :: "world \<Rightarrow> bool \<Rightarrow> nat \<Rightarrow> client_info \<Rightarrow> server \<Rightarrow> unit served" where
  "finish_client w full i c s =
     (case compact_buffer (in_buffer c) (input_offset c) of (buffer, off) \<Rightarrow>
        let c1 = c\<lparr>in_buffer := buffer, input_offset := off\<rparr>;
            queue = (full \<and> off < length buffer \<and> \<not> processing_queued c1);
            c2 = (if queue then c1\<lparr>processing_queued := True\<rparr> else c1);
            s1 = put_client i c2 (if queue then s\<lparr>pending_clients := pending_clients s @ [i]\<rparr> else s)
        in if max_output_buffer_size < length (out_buffer c2) - output_offset c2
           then (Inr (), remove_client i (count_output s1))
           else if output_offset c2 < length (out_buffer c2) then
             (case flush_client (w_send w) (w_watch w 0) i s1 of
                (Inl x, s2) \<Rightarrow> (Inl x, s2)
              | (Inr _, s2) \<Rightarrow>
                  (case find_client i s2 of
                     None \<Rightarrow> (Inr (), s2)
                   | Some c3 \<Rightarrow>
                       if output_offset c3 < length (out_buffer c3) then request_write (w_watch w 1) i s2 else (Inr (), s2)))
           else if close_after_write c2 \<and> \<not> processing_queued c2 then (Inr (), remove_client i s1)
           else (Inr (), s1))"

definition process_client :: "world \<Rightarrow> nat \<Rightarrow> server \<Rightarrow> unit served option" where
  "process_client w i s =
     (case find_client i s of
        None \<Rightarrow> Some (Inr (), s)
      | Some c0 \<Rightarrow>
          let c = c0\<lparr>out_buffer := drop (output_offset c0) (out_buffer c0), output_offset := 0\<rparr>
          in case collect batch_limit (in_buffer c) (input_offset c) of (cs, off, problem) \<Rightarrow>
            (case (if cs = [] then Some (Inr (), out_buffer c, maintenance_failed s, s_database s)
                   else execute_batch w (stats_of s) cs (has_write cs) (out_buffer c) (maintenance_failed s) (s_database s)) of
               None \<Rightarrow> None
             | Some (r, output, failed, d) \<Rightarrow>
                 let c1 = c\<lparr>input_offset := off, out_buffer := output\<rparr>;
                     s1 = s\<lparr>s_database := d, maintenance_failed := failed\<rparr>
                 in (case r of
                       Inl x \<Rightarrow>
                         if x = Error request_too_large then Some (Inr (), remove_client i (count_output s1))
                         else Some (Inl x, put_client i c1 s1)
                     | Inr _ \<Rightarrow>
                         (case problem of
                            Some code \<Rightarrow>
                              Some (refuse_client w (str (error_message protocol_error_prefix) @ str (error_message code)) i c1 s1)
                          | None \<Rightarrow> Some (finish_client w (length cs = batch_limit) i c1 s1)))))"

text \<open>The receiving loop: at the end the client is ready, over its limit, or gone.\<close>

datatype read_end = Ready | Overflow | Gone

function read_loop :: "(nat \<Rightarrow> receipt) \<Rightarrow> nat \<Rightarrow> client_info \<Rightarrow> read_end \<times> client_info" where
  "read_loop receipts n c =
     (case receipts n of
        Received chunk \<Rightarrow>
          let c1 = c\<lparr>in_buffer := in_buffer c @ chunk\<rparr>
          in if max_input_buffer_size < length (in_buffer c1) - input_offset c1 then (Overflow, c1)
             else if length chunk < read_chunk_size then (Ready, c1)
             else read_loop receipts (Suc n) c1
      | Closed \<Rightarrow> (Ready, c\<lparr>half_closed := True, close_after_write := True\<rparr>)
      | Would_block \<Rightarrow> (Ready, c)
      | Receive_failed \<Rightarrow> (Gone, c))"
  by pat_completeness auto

termination
  by (relation "measure (\<lambda>(receipts, n, c). max_input_buffer_size + 1 + input_offset c - length (in_buffer c))")
    (auto simp: read_chunk_size_def max_input_buffer_size_def)

declare read_loop.simps [simp del]

definition read_client :: "world \<Rightarrow> nat \<Rightarrow> server \<Rightarrow> unit served option" where
  "read_client w i s =
     (case find_client i s of
        None \<Rightarrow> Some (Inr (), s)
      | Some c \<Rightarrow>
          if half_closed c then Some (Inr (), s)
          else (case read_loop (w_recv w) 0 c of
                  (Overflow, c1) \<Rightarrow>
                    Some (refuse_client w (str (error_message request_too_large)) i c1
                      (s\<lparr>input_buffer_disconnects := input_buffer_disconnects s + 1\<rparr>))
                | (Gone, c1) \<Rightarrow> Some (Inr (), remove_client i s)
                | (Ready, c1) \<Rightarrow> process_client w i (put_client i c1 s)))"

subsection \<open>Connections and the event loop\<close>

definition next_id :: "nat \<Rightarrow> nat" where
  "next_id n = (if n = 2 ^ 31 - 1 then 0 else n + 1)"

text \<open>The first identifier from a given one on that no client has; \<open>None\<close> when the steps allowed are used up.\<close>

fun free_id :: "nat \<Rightarrow> nat \<Rightarrow> server \<Rightarrow> nat option" where
  "free_id 0 n s = (if find_client n s = None then Some n else None)"
| "free_id (Suc k) n s = (if find_client n s = None then Some n else free_id k (next_id n) s)"

definition accept_one :: "acceptance \<Rightarrow> server \<Rightarrow> unit served option" where
  "accept_one attempt s =
     (case attempt of
        Accept_failed x \<Rightarrow> Some (Inl x, s)
      | Accepted watched \<Rightarrow>
          if max_clients \<le> length (s_clients s) then Some (Inr (), s)
          else (case free_id (length (s_clients s)) (next_client_id s) s of
             None \<Rightarrow> None
           | Some i \<Rightarrow>
               let s1 = put_client i new_client (s\<lparr>next_client_id := next_id i\<rparr>)
               in Some (if watched True False then Inr () else Inl (Error socket_poll_failed), s1)))"

fun accept_connections :: "(nat \<Rightarrow> acceptance) \<Rightarrow> nat \<Rightarrow> nat \<Rightarrow> server \<Rightarrow> unit served option" where
  "accept_connections attempts 0 i s = Some (Inr (), s)"
| "accept_connections attempts (Suc k) i s =
     (case accept_one (attempts i) s of
        None \<Rightarrow> None
      | Some (Inl x, s1) \<Rightarrow> Some (Inl x, s1)
      | Some (Inr _, s1) \<Rightarrow> accept_connections attempts k (Suc i) s1)"

text \<open>An event of the queue: new connections (at most 64 are taken at once), or what happened to a client.\<close>

datatype event =
    Listener_failed
  | Connections nat
  | Client_event nat bool bool bool

definition after :: "unit served option \<Rightarrow> (server \<Rightarrow> unit served option) \<Rightarrow> unit served option" where
  "after r f =
     (case r of
        None \<Rightarrow> None
      | Some (Inl x, s) \<Rightarrow> Some (Inl x, s)
      | Some (Inr _, s) \<Rightarrow> f s)"

definition client_event :: "world \<Rightarrow> world \<Rightarrow> nat \<Rightarrow> bool \<Rightarrow> bool \<Rightarrow> bool \<Rightarrow> server \<Rightarrow> unit served option" where
  "client_event w1 w2 i readable writable failed s =
     (if find_client i s = None then Some (Inr (), s)
      else after (if readable then read_client w1 i s else Some (Inr (), s)) (\<lambda>s1.
        if find_client i s1 = None then Some (Inr (), s1)
        else after (Some (if writable then flush_client (w_send w2) (w_watch w2 0) i s1 else (Inr (), s1))) (\<lambda>s2.
          if find_client i s2 = None then Some (Inr (), s2)
          else Some (Inr (), if failed then remove_client i s2 else s2))))"

definition handle_event :: "world \<Rightarrow> world \<Rightarrow> event \<Rightarrow> server \<Rightarrow> unit served option" where
  "handle_event w1 w2 ev s =
     (case ev of
        Listener_failed \<Rightarrow> Some (Inl (Error listening_socket_failed), s)
      | Connections n \<Rightarrow> accept_connections (w_accept w1) (min n 64) 0 s
      | Client_event i readable writable failed \<Rightarrow> client_event w1 w2 i readable writable failed s)"

fun handle_events :: "(nat \<Rightarrow> world) \<Rightarrow> nat \<Rightarrow> event list \<Rightarrow> server \<Rightarrow> unit served option" where
  "handle_events ws n [] s = Some (Inr (), s)"
| "handle_events ws n (ev # evs) s =
     after (handle_event (ws n) (ws (n + 1)) ev s) (handle_events ws (n + 2) evs)"

definition serve_next :: "world \<Rightarrow> server \<Rightarrow> unit served option" where
  "serve_next w s =
     (case pending_clients s of
        [] \<Rightarrow> Some (Inr (), s)
      | i # rest \<Rightarrow>
          let s1 = s\<lparr>pending_clients := rest\<rparr>
          in case find_client i s1 of
               None \<Rightarrow> Some (Inr (), s1)
             | Some c \<Rightarrow> process_client w i (put_client i (c\<lparr>processing_queued := False\<rparr>) s1))"

fun serve_pending :: "(nat \<Rightarrow> world) \<Rightarrow> nat \<Rightarrow> server \<Rightarrow> unit served option" where
  "serve_pending ws 0 s = Some (Inr (), s)"
| "serve_pending ws (Suc k) s = after (serve_next (ws k) s) (serve_pending ws k)"

definition wal_failed :: "db \<Rightarrow> bool" where
  "wal_failed d \<longleftrightarrow> (case d_wal d of None \<Rightarrow> False | Some w \<Rightarrow> w_failed w)"

text \<open>One turn of the loop of \<^verbatim>\<open>start\<close>.\<close>

definition serve_round :: "(nat \<Rightarrow> world) \<Rightarrow> (nat \<Rightarrow> world) \<Rightarrow> event list \<Rightarrow> server \<Rightarrow> unit served option" where
  "serve_round ws1 ws2 evs s =
     (if maintenance_failed s \<or> wal_failed (s_database s) then Some (Inl (Error disk_write_failed), s)
      else after (serve_pending ws1 (min (length (pending_clients s)) 64) s) (handle_events ws2 0 evs))"

text \<open>
  The maintenance thread: one locked operation at a time, between the operations of the server; it
  stops for good when one fails.
\<close>

definition maintain :: "env \<Rightarrow> bool \<Rightarrow> server \<Rightarrow> server" where
  "maintain e evicting s =
     (let d = s_database s
      in if maintenance_failed s then s
         else if evicting then
           (if \<not> over_capacity d then s
            else case evict_to e (max_keys d) eviction_slice d of
              (Inl x, d1) \<Rightarrow> s\<lparr>s_database := d1, maintenance_failed := True\<rparr>
            | (Inr _, d1) \<Rightarrow> s\<lparr>s_database := d1\<rparr>)
         else if \<not> maintenance_needed d then s
         else (case remove_expired e expiry_slice d of
                 (Inl x, d1) \<Rightarrow> s\<lparr>s_database := d1, maintenance_failed := True\<rparr>
               | (Inr _, d1) \<Rightarrow> s\<lparr>s_database := d1\<rparr>))"

definition server_init :: "int \<Rightarrow> db \<Rightarrow> server" where
  "server_init now d =
     \<lparr>s_database = d, s_clients = [], next_client_id = 0, s_started_at = now, input_buffer_disconnects = 0,
      output_buffer_disconnects = 0, pending_clients = [], maintenance_failed = False\<rparr>"

text \<open>\<^verbatim>\<open>start\<close> opens the log when one is configured; \<open>None\<close> as the path stands for no log.\<close>

definition server_start ::
  "env \<Rightarrow> (nat \<Rightarrow> env) \<Rightarrow> int \<Rightarrow> nat \<Rightarrow> nat \<Rightarrow> (wal_sync \<times> bytes option) option \<Rightarrow> unit served"
where
  "server_start e es now keys memory wal =
     (case wal of
        None \<Rightarrow> (Inr (), server_init now (db_init keys memory))
      | Some (sync, file) \<Rightarrow>
          (case open_wal e es sync file (db_init keys memory) of
             (r, _, d) \<Rightarrow> (r, server_init now d)))"

definition close_connections :: "server \<Rightarrow> server" where
  "close_connections s = s\<lparr>s_clients := []\<rparr>"

text \<open>The end of \<^verbatim>\<open>start\<close>, after the maintenance thread has joined.\<close>

definition server_finish :: "env \<Rightarrow> server \<Rightarrow> unit served" where
  "server_finish e s =
     (case flush_wal e (s_database s) of
        (Inl x, d) \<Rightarrow> (Inl x, s\<lparr>s_database := d\<rparr>)
      | (Inr _, d) \<Rightarrow>
          let s1 = close_connections (s\<lparr>s_database := d\<rparr>)
          in (if maintenance_failed s1 then Inl (Error disk_write_failed) else Inr (), s1))"

text \<open>The bytes for a client in the order it gets them: those sent and those waiting.\<close>

definition stream :: "client_info \<Rightarrow> bytes" where
  "stream c = wire c @ drop (output_offset c) (out_buffer c)"

text \<open>The identifiers in use, each once.\<close>

definition ids :: "server \<Rightarrow> nat list" where
  "ids s = map fst (s_clients s)"

definition world_ok :: "world \<Rightarrow> bool" where
  "world_ok w \<longleftrightarrow>
     (\<forall>i j. env_ok (w_env w i j) \<and> clock_ok (w_env w i j)) \<and> env_ok (w_end w)
     \<and> (\<forall>i. env_ok (w_sweep w i)) \<and> (\<forall>i. env_ok (w_evict w i))"

text \<open>
  The replies to a sequence of commands and the keyspace after them; a command that cannot get
  memory is answered with an error and has stored nothing.
\<close>

inductive replies ::
  "(nat \<Rightarrow> nat \<Rightarrow> env) \<Rightarrow> host \<Rightarrow> server_stats \<Rightarrow> nat \<Rightarrow> command list \<Rightarrow> db \<Rightarrow> keyspace \<Rightarrow> resp list \<Rightarrow> db \<Rightarrow> keyspace \<Rightarrow> bool"
  for es :: "nat \<Rightarrow> nat \<Rightarrow> env" and h :: host and stats :: server_stats where
  none_left: "replies es h stats i [] d A [] d A"
| answered: "a_execute (es i) h stats d (cid (classify_command (cmd_name c))) (cmd_name c) (cmd_arguments c) A = (r, B) \<Longrightarrow>
    db_inv d1 B \<Longrightarrow> replies es h stats (Suc i) cs d1 B rs d' C \<Longrightarrow> replies es h stats i (c # cs) d A (r # rs) d' C"
| no_memory: "ks_map B \<subseteq>\<^sub>m ks_map A \<Longrightarrow> db_inv d1 B \<Longrightarrow> replies es h stats (Suc i) cs d1 B rs d' C \<Longrightarrow>
    replies es h stats i (c # cs) d A (Err out_of_memory # rs) d' C"

text \<open>What maintenance does to a keyspace: sweeps of expired keys and evictions of the least recently used.\<close>

inductive maintained :: "keyspace \<Rightarrow> keyspace \<Rightarrow> bool" where
  settled: "maintained A A"
| pass: "swept now expiry_slice ks A \<Longrightarrow> n \<le> eviction_slice \<Longrightarrow>
    maintained (a_evict n (fold a_drop ks A)) B \<Longrightarrow> maintained A B"

section \<open>Buffers\<close>

lemma compact_buffer:
  assumes "compact_buffer b n = (b', n')" "n \<le> length b"
  shows "drop n' b' = drop n b" "n' \<le> length b'" "length b' \<le> length b" "length b' - n' = length b - n"
    "n' < compact_buffer_threshold \<or> n' * 2 < length b'"
  using assms by (auto simp: compact_buffer_def compact_buffer_threshold_def split: if_splits)

lemma take_rest: "take k xs @ drop (length (take k xs)) xs = xs"
  by (cases "k \<le> length xs") (simp_all add: min_def)

lemma flush_loop_keeps:
  assumes "flush_loop answers n c = (stays, c')" "output_offset c \<le> length (out_buffer c)"
  shows "stream c' = stream c" "output_offset c' \<le> length (out_buffer c')" "length (out_buffer c') \<le> length (out_buffer c)"
    "c' = c\<lparr>wire := wire c', out_buffer := out_buffer c', output_offset := output_offset c'\<rparr>"
    "length (wire c) \<le> length (wire c')"
proof -
  have "stream c' = stream c \<and> output_offset c' \<le> length (out_buffer c') \<and> length (out_buffer c') \<le> length (out_buffer c)
    \<and> c' = c\<lparr>wire := wire c', out_buffer := out_buffer c', output_offset := output_offset c'\<rparr> \<and> length (wire c) \<le> length (wire c')"
    using assms
  proof (induction answers n c rule: flush_loop.induct)
    case (1 answers n c)
    show ?case
    proof (cases "output_offset c < length (out_buffer c) \<and> (\<exists>k. answers n = Sent k \<and> k \<noteq> 0)")
      case False
      then have "c' = c" using "1.prems"(1)
        by (subst (asm) flush_loop.simps) (auto split: sending.splits if_splits)
      then show ?thesis using "1.prems"(2) by simp
    next
      case True
      then obtain k where k: "answers n = Sent k" "k \<noteq> 0" "\<not> length (out_buffer c) \<le> output_offset c" by auto
      let ?t = "take k (drop (output_offset c) (out_buffer c))"
      obtain b f where bf: "compact_buffer (out_buffer c) (output_offset c + length ?t) = (b, f)" by fastforce
      let ?c = "c\<lparr>wire := wire c @ ?t, out_buffer := b, output_offset := f\<rparr>"
      have run: "flush_loop answers (Suc n) ?c = (stays, c')"
        using "1.prems"(1) k bf by (subst (asm) flush_loop.simps) (simp add: Let_def)
      note cb = compact_buffer [OF bf]
      have le: "output_offset c + length ?t \<le> length (out_buffer c)" using k by simp
      have IH: "stream c' = stream ?c \<and> output_offset c' \<le> length (out_buffer c') \<and> length (out_buffer c') \<le> length (out_buffer ?c)
          \<and> c' = ?c\<lparr>wire := wire c', out_buffer := out_buffer c', output_offset := output_offset c'\<rparr> \<and> length (wire ?c) \<le> length (wire c')"
        using "1.IH" [OF k(3,1,2) refl bf [symmetric] refl run] cb(2) [OF le] by simp
      have "drop f b = drop (length ?t) (drop (output_offset c) (out_buffer c))" using cb(1) [OF le] by (simp add: add.commute)
      then have "stream ?c = wire c @ ?t @ drop (length ?t) (drop (output_offset c) (out_buffer c))" by (simp add: stream_def)
      then have "stream ?c = stream c" unfolding take_rest by (simp add: stream_def)
      then show ?thesis using IH cb(3) [OF le] by simp
    qed
  qed
  then show "stream c' = stream c" "output_offset c' \<le> length (out_buffer c')" "length (out_buffer c') \<le> length (out_buffer c)"
    "c' = c\<lparr>wire := wire c', out_buffer := out_buffer c', output_offset := output_offset c'\<rparr>" "length (wire c) \<le> length (wire c')"
    by simp_all
qed

section \<open>The table of clients\<close>

lemma map_of_without: "map_of (filter (\<lambda>p. fst p \<noteq> i) xs) j = (if j = i then None else map_of xs j)"
  by (induction xs) auto

lemma find_put [simp]: "find_client j (put_client i c s) = (if j = i then Some c else find_client j s)"
  by (simp add: find_client_def put_client_def map_of_without)

lemma find_remove [simp]: "find_client j (remove_client i s) = (if j = i then None else find_client j s)"
  by (simp add: find_client_def remove_client_def map_of_without)

lemma client_frames [simp]:
  "s_database (put_client i c s) = s_database s" "s_database (remove_client i s) = s_database s"
  "pending_clients (put_client i c s) = pending_clients s" "pending_clients (remove_client i s) = pending_clients s"
  "next_client_id (put_client i c s) = next_client_id s" "next_client_id (remove_client i s) = next_client_id s"
  "find_client i (s\<lparr>s_database := d\<rparr>) = find_client i s" "find_client i (s\<lparr>pending_clients := p\<rparr>) = find_client i s"
  "find_client i (count_output s) = find_client i s" "s_database (count_output s) = s_database s"
  "pending_clients (count_output s) = pending_clients s" "next_client_id (count_output s) = next_client_id s"
  "find_client i (s\<lparr>maintenance_failed := b\<rparr>) = find_client i s"
  "find_client i (s\<lparr>input_buffer_disconnects := n\<rparr>) = find_client i s"
  "find_client i (s\<lparr>next_client_id := m\<rparr>) = find_client i s"
  by (simp_all add: put_client_def remove_client_def find_client_def count_output_def)

lemma ids_find: "i \<in> set (ids s) \<longleftrightarrow> find_client i s \<noteq> None"
  by (simp add: ids_def find_client_def map_of_eq_None_iff)

lemma ids_remove: "ids (remove_client i s) = filter (\<lambda>j. j \<noteq> i) (ids s)"
  by (simp add: ids_def remove_client_def filter_map comp_def)

lemma ids_put: "ids (put_client i c s) = i # filter (\<lambda>j. j \<noteq> i) (ids s)"
  by (simp add: ids_def put_client_def filter_map comp_def)

lemma ids_put_distinct: "distinct (ids s) \<Longrightarrow> distinct (ids (put_client i c s))"
  by (simp add: ids_put)

lemma length_ids: "length (s_clients s) = length (ids s)"
  by (simp add: ids_def)

lemma ids_put_length:
  assumes "distinct (ids s)" "find_client i s \<noteq> None"
  shows "length (ids (put_client i c s)) = length (ids s)"
proof -
  have "i \<in> set (ids s)" using assms(2) by (simp add: ids_find)
  moreover have "filter (\<lambda>j. j \<noteq> i) (ids s) = remove1 i (ids s)" using assms(1) by (simp add: distinct_remove1_removeAll removeAll_filter_not_eq eq_commute)
  ultimately show ?thesis by (simp add: ids_put length_remove1) (metis Suc_pred length_pos_if_in_set)
qed

section \<open>Parsing\<close>

lemma slow_strings_bound:
  "slow_strings input n pos acc = Inr (ss, p) \<Longrightarrow> \<forall>x \<in> set acc. length x \<le> length input \<Longrightarrow> \<forall>x \<in> set ss. length x \<le> length input"
  by (induction input n pos acc rule: slow_strings.induct) (auto simp: Let_def split: if_splits sum.splits prod.splits)

lemma parse_arguments_bound:
  assumes "parse_command_into input = Inr c"
  shows "\<forall>x \<in> set (cmd_arguments c). length x \<le> length input"
proof -
  obtain n pos ss p where s: "slow_strings input n pos [] = Inr (ss, p)" "c = make_command ss p"
    using assms unfolding parse_fast_slow parse_command_slow_def by (auto split: if_splits sum.splits)
  have "\<forall>x \<in> set ss. length x \<le> length input" using slow_strings_bound [OF s(1)] by simp
  then show ?thesis using s(2) by (cases ss) (auto simp: make_command_def)
qed

lemma parse_consumes: "parse_command_into input = Inr c \<Longrightarrow> bytes_consumed c \<le> length input"
  using parse_consumed by (simp add: parse_fast_slow)

lemma collect_bounds:
  assumes "collect n buffer off = (cs, off', e)" "off \<le> length buffer"
  shows "off \<le> off'" "off' \<le> length buffer" "length cs \<le> n" "\<forall>c \<in> set cs. \<forall>x \<in> set (cmd_arguments c). length x \<le> length buffer"
proof -
  have "off \<le> off' \<and> off' \<le> length buffer \<and> length cs \<le> n \<and> (\<forall>c \<in> set cs. \<forall>x \<in> set (cmd_arguments c). length x \<le> length buffer)"
    using assms
  proof (induction n buffer off arbitrary: cs off' e rule: collect.induct)
    case (2 n buffer off)
    show ?case
    proof (cases "\<exists>c. off < length buffer \<and> parse_command_into (drop off buffer) = Inr c")
      case True
      then obtain c where c: "\<not> length buffer \<le> off" "parse_command_into (drop off buffer) = Inr c" by auto
      obtain cs1 where r: "collect n buffer (off + bytes_consumed c) = (cs1, off', e)" "cs = c # cs1"
        using "2.prems"(1) c by (auto split: prod.splits)
      have "off + bytes_consumed c \<le> length buffer" using parse_consumes [OF c(2)] c(1) by simp
      then show ?thesis using "2.IH" [OF c r(1)] r(2) parse_arguments_bound [OF c(2)] by fastforce
    next
      case False
      then show ?thesis using "2.prems" by (auto split: sum.splits if_splits)
    qed
  qed auto
  then show "off \<le> off'" "off' \<le> length buffer" "length cs \<le> n"
    "\<forall>c \<in> set cs. \<forall>x \<in> set (cmd_arguments c). length x \<le> length buffer" by simp_all
qed

text \<open>What the parser has settled, later bytes do not change.\<close>

lemma parse_more:
  assumes "off < length buffer" "\<And>c. parse_command_into (drop off buffer) = Inl c \<Longrightarrow> \<not> is_incomplete_resp_error c"
  shows "parse_command_into (drop off (buffer @ more_bytes)) = parse_command_into (drop off buffer)"
  using assms parse_slow_more [of "drop off buffer" more_bytes] by (simp add: parse_fast_slow)

lemma collect_more:
  assumes "collect n buffer off = (cs, off', e)" "off \<le> length buffer"
  shows "collect n (buffer @ more_bytes) off =
    (case e of
       Some code \<Rightarrow> (cs, off', e)
     | None \<Rightarrow> (case collect (n - length cs) (buffer @ more_bytes) off' of (cs2, off2, e2) \<Rightarrow> (cs @ cs2, off2, e2)))"
  using assms
proof (induction n buffer off arbitrary: cs off' e rule: collect.induct)
  case (1 buffer off)
  then show ?case by auto
next
  case (2 n buffer off)
  consider "off = length buffer" | c where "off < length buffer" "parse_command_into (drop off buffer) = Inr c"
    | code where "off < length buffer" "parse_command_into (drop off buffer) = Inl code" "is_incomplete_resp_error code"
    | code where "off < length buffer" "parse_command_into (drop off buffer) = Inl code" "\<not> is_incomplete_resp_error code"
    using "2.prems"(2) by (metis le_neq_implies_less old.sum.exhaust)
  then show ?case
  proof cases
    case 1
    then show ?thesis using "2.prems" by (auto split: prod.splits)
  next
    case 2
    obtain cs1 where r: "collect n buffer (off + bytes_consumed c) = (cs1, off', e)" "cs = c # cs1"
      using "2.prems"(1) 2 by (auto split: prod.splits)
    have le: "off + bytes_consumed c \<le> length buffer" using parse_consumes [OF 2(2)] 2(1) by simp
    have p: "parse_command_into (drop off (buffer @ more_bytes)) = Inr c" using parse_more [OF 2(1)] 2(2) by simp
    have "\<not> length buffer \<le> off" using 2(1) by simp
    note IH = "2.IH" [OF this 2(2) r(1) le]
    show ?thesis using 2(1) p IH r(2) by (auto split: prod.splits option.splits)
  next
    case 3
    then show ?thesis using "2.prems" by (auto split: prod.splits)
  next
    case 4
    then have "parse_command_into (drop off (buffer @ more_bytes)) = Inl code" using parse_more [OF 4(1)] by simp
    then show ?thesis using "2.prems" 4 by (auto split: prod.splits)
  qed
qed

section \<open>Batches\<close>

lemma execute_loop_replies:
  assumes "db_inv d A" "\<And>i j. env_ok (es i j) \<and> clock_ok (es i j)"
    and "\<forall>c \<in> set cs. \<forall>x \<in> set (cmd_arguments c). length x \<le> 2 ^ 25"
    and "execute_loop es h stats i cs out d = (res, out', d')"
  shows "case res of
      Inl x \<Rightarrow> \<exists>B. db_inv d' B
    | Inr _ \<Rightarrow> \<exists>rs B. replies es h stats i cs d A rs d' B \<and> db_inv d' B \<and> out' = out @ concat (map encode_reply rs)"
  using assms
proof (induction es h stats i cs out d arbitrary: A rule: execute_loop.induct)
  case (1 es h stats i out d)
  then have "replies es h stats i [] d A [] d A" by (intro none_left)
  then show ?case using 1 by (auto intro!: exI [of _ "[]"] exI [of _ A])
next
  case (2 es h stats i c cs out d)
  let ?id = "cid (classify_command (cmd_name c))"
  obtain r d1 where run: "execute_into (es i) h stats c ?id out d = (r, d1)" by fastforce
  have fit: "texts_fit (tl (cmd_arguments c))"
    using "2.prems"(3) by (intro texts_fit_small) (cases "cmd_arguments c", auto)
  have m: "executes A (a_execute (es i) h stats d ?id (cmd_name c) (cmd_arguments c) A) out (r, d1) d"
    using execute_meaning [OF "2.prems"(1) _ _ fit, of "es i" h stats ?id out] "2.prems"(2) run by simp
  have small: "\<forall>c \<in> set cs. \<forall>x \<in> set (cmd_arguments c). length x \<le> 2 ^ 25" using "2.prems"(3) by simp
  show ?case
  proof (cases r)
    case (Inr out1)
    obtain r1 B1 where a: "a_execute (es i) h stats d ?id (cmd_name c) (cmd_arguments c) A = (r1, B1)" by fastforce
    have o: "out1 = out @ encode_reply r1" "db_inv d1 B1" using m a Inr by (auto simp: executes_def)
    have run1: "execute_loop es h stats (Suc i) cs out1 d1 = (res, out', d')" using "2.prems"(4) run Inr by simp
    note IH = "2.IH"(2) [OF run [symmetric] Inr o(2) "2.prems"(2) small run1]
    show ?thesis
    proof (cases res)
      case (Inr u)
      then obtain rs B where "replies es h stats (Suc i) cs d1 B1 rs d' B" "db_inv d' B" "out' = out1 @ concat (map encode_reply rs)"
        using IH by auto
      moreover from this have "replies es h stats i (c # cs) d A (r1 # rs) d' B" using a o(2) by (intro answered)
      ultimately show ?thesis using Inr o(1) by (auto intro!: exI [of _ "r1 # rs"])
    qed (use IH in simp)
  next
    case (Inl x)
    obtain B1 where B1: "db_inv d1 B1" and le: "is_bad_alloc x \<Longrightarrow> ks_map B1 \<subseteq>\<^sub>m ks_map A"
      using m Inl by (auto simp: executes_def is_bad_alloc_def)
    show ?thesis
    proof (cases "is_bad_alloc x")
      case False
      then show ?thesis using "2.prems"(4) run Inl B1 by auto
    next
      case True
      show ?thesis
      proof (cases "append_error out_of_memory out")
        case (Inl y)
        then show ?thesis using "2.prems"(4) run \<open>r = Inl x\<close> True B1 by auto
      next
        case (Inr out1)
        have run1: "execute_loop es h stats (Suc i) cs out1 d1 = (res, out', d')"
          using "2.prems"(4) run \<open>r = Inl x\<close> True Inr by simp
        have o: "out1 = out @ encode_reply (Err out_of_memory)" 
          using Inr writers(1) [of out_of_memory, unfolded writes_def, rule_format, of out] by simp
        note IH = "2.IH"(1) [OF run [symmetric] \<open>r = Inl x\<close> True Inr B1 "2.prems"(2) small run1]
        show ?thesis
        proof (cases res)
          case (Inr u)
          then obtain rs B where "replies es h stats (Suc i) cs d1 B1 rs d' B" "db_inv d' B" "out' = out1 @ concat (map encode_reply rs)"
            using IH by auto
          moreover from this have "replies es h stats i (c # cs) d A (Err out_of_memory # rs) d' B" using le [OF True] B1 by (intro no_memory)
          ultimately show ?thesis using Inr o by (auto intro!: exI [of _ "Err out_of_memory # rs"])
        qed (use IH in simp)
      qed
    qed
  qed
qed

lemma locked_batch_replies:
  assumes "db_inv d A" "world_ok w" "\<forall>c \<in> set cs. \<forall>x \<in> set (cmd_arguments c). length x \<le> 2 ^ 25"
    and "locked_batch w stats cs hw out d = (res, out', d')"
  shows "case res of
      Inl x \<Rightarrow> \<exists>B. db_inv d' B
    | Inr _ \<Rightarrow> \<exists>rs d1 B. replies (w_env w) (w_host w) stats 0 cs (if hw then begin_wal_batch d else d) A rs d1 B
        \<and> db_inv d' B \<and> out' = out @ concat (map encode_reply rs)"
proof -
  let ?d = "if hw then begin_wal_batch d else d"
  have i: "db_inv ?d A" using assms(1) batch_inv(1) by simp
  obtain r o1 d1 where run: "execute_loop (w_env w) (w_host w) stats 0 cs out ?d = (r, o1, d1)" by (rule prod_cases3)
  note ex = execute_loop_replies [OF i _ assms(3) run]
  have w: "\<And>i j. env_ok (w_env w i j) \<and> clock_ok (w_env w i j)" using assms(2) by (simp add: world_ok_def)
  obtain r2 d2 where en: "(if hw then end_wal_batch (w_end w) d1 else (Inr (), d1)) = (r2, d2)" by fastforce
  have keep: "db_inv d2 B" if "db_inv d1 B" for B using en that batch_inv(2) by (auto split: if_splits)
  have d': "d' = d2" "out' = o1" "res = (case r2 of Inl y \<Rightarrow> Inl y | Inr _ \<Rightarrow> r)"
    using assms(4) run en by (auto simp: locked_batch_def split: sum.splits)
  obtain B where B: "db_inv d1 B" using ex [OF w] by (cases r) auto
  show ?thesis
  proof (cases r2)
    case (Inl y)
    then show ?thesis using d' keep B by auto
  next
    case (Inr u)
    then have "res = r" using d' by simp
    then show ?thesis using ex [OF w] keep d' by (cases r) (auto, blast+)
  qed
qed

section \<open>Waiting for maintenance\<close>

lemma log_max [simp]: "max_keys (snd (db_log e opr a d)) = max_keys d"
  by (auto simp: db_log_def split: option.splits prod.splits)

lemma clear_max [simp]: "max_keys (clear_expiry e p d) = max_keys d"
  by (simp add: clear_expiry_def std_free_def put_node_def Let_def split: option.splits)

lemma destroy_max [simp]: "max_keys (destroy e p d) = max_keys d"
  by (simp add: destroy_def std_free_def Let_def)

lemma erase_max [simp]: "max_keys (erase_node e p d) = max_keys d"
  by (simp add: erase_node_def unlink_def bump_sequence_def set_key_total_def Let_def)

lemma batch_max [simp]: "max_keys (begin_wal_batch d) = max_keys d" "max_keys (snd (end_wal_batch e d)) = max_keys d"
  by (auto simp: begin_wal_batch_def end_wal_batch_def split: option.splits prod.splits)

lemma evict_loop_max: "max_keys (snd (evict_loop e target n k d)) = max_keys d"
proof (induction e target n k d rule: evict_loop.induct)
  case (2 e target limit evicted d)
  have l: "max_keys d1 = max_keys d" if "db_log e op_del [stored_key (node_at d a)] d = (r, d1)" for a r d1
    using log_max [of e op_del "[stored_key (node_at d a)]" d] that by simp
  show ?case using 2 by (auto simp: Let_def l split: option.splits prod.splits sum.splits)
qed simp

lemma expire_loop_max: "max_keys (snd (expire_loop e now n d)) = max_keys d"
proof (induction e now n d rule: expire_loop.induct)
  case (2 e now limit d)
  have l: "max_keys d1 = max_keys d" if "db_log e op_del [stored_key (node_at d a)] d = (r, d1)" for a r d1
    using log_max [of e op_del "[stored_key (node_at d a)]" d] that by simp
  show ?case using 2 by (auto simp: Let_def l split: option.splits prod.splits sum.splits)
qed simp

lemma in_batch_max:
  assumes "\<And>d. max_keys (snd (work d)) = max_keys d"
  shows "max_keys (snd (in_batch e work d)) = max_keys d"
proof -
  obtain r d1 where w: "work (begin_wal_batch d) = (r, d1)" by fastforce
  obtain r2 d2 where en: "end_wal_batch e d1 = (r2, d2)" by fastforce
  have "max_keys d1 = max_keys d" using assms [of "begin_wal_batch d"] w by simp
  moreover have "max_keys d2 = max_keys d1" using batch_max(2) [of e d1] en by simp
  ultimately show ?thesis by (simp add: in_batch_def w en split: sum.splits)
qed

lemma maintenance_max:
  "max_keys (snd (evict_to e target n d)) = max_keys d" "max_keys (snd (remove_expired e n d)) = max_keys d"
  by (simp_all add: evict_to_def remove_expired_def remove_expired_locked_def in_batch_max evict_loop_max expire_loop_max)

lemma fold_drop_length: "length (ks_order (fold a_drop ks A)) \<le> length (ks_order A)"
proof (induction ks arbitrary: A)
  case (Cons k ks)
  have "length (ks_order (a_drop k A)) \<le> length (ks_order A)" by (simp add: a_drop_def length_remove1)
  then show ?case using Cons.IH [of "a_drop k A"] by simp
qed simp

lemma evict_length: "k \<le> length (ks_order A) \<Longrightarrow> length (ks_order (a_evict k A)) = length (ks_order A) - k"
proof (induction k arbitrary: A)
  case (Suc k)
  then have l: "last (ks_order A) \<in> set (ks_order A)" by (intro last_in_set) auto
  have "length (ks_order (a_drop (last (ks_order A)) A)) = length (ks_order A) - 1"
    using length_remove1 [of "last (ks_order A)" "ks_order A"] l by (simp add: a_drop_def)
  then show ?case using Suc.IH [of "a_drop (last (ks_order A)) A"] Suc.prems by simp
qed simp

lemma inv_total: "db_inv d A \<Longrightarrow> key_total d = length (ks_order A) \<and> key_hint d = key_total d"
  using db_inv_rep(1) order_length db_repD(7) unfolding counts_ok_def by blast

lemma maintenance_pass_spec:
  assumes "db_inv d A" "env_ok e1" "env_ok e2" "maintenance_pass e1 e2 d = (res, d')"
  shows "max_keys d' = max_keys d \<and> (\<exists>ks n. swept (e_steady e1 0) expiry_slice ks A \<and> n \<le> eviction_slice
      \<and> db_inv d' (a_evict n (fold a_drop ks A))
      \<and> (res = Inr () \<longrightarrow> \<not> over_capacity d' \<or> key_total d' < key_total d))"
proof (cases "maintenance_needed d")
  case False
  then show ?thesis
    using assms(1,4)
    by (auto simp: maintenance_pass_def maintenance_needed_def over_capacity_def swept_def intro!: exI [of _ "[]"] exI [of _ 0])
next
  case True
  obtain r1 d1 where sw: "remove_expired e1 expiry_slice d = (r1, d1)" by fastforce
  obtain ks where ks: "swept (e_steady e1 0) expiry_slice ks A" "db_inv d1 (fold a_drop ks A)"
    using remove_expired_spec [OF assms(1,2) sw] by blast
  have m1: "max_keys d1 = max_keys d" using maintenance_max(2) [of e1 expiry_slice d] sw by simp
  show ?thesis
  proof (cases "(\<exists>x. r1 = Inl x) \<or> \<not> over_capacity d1")
    case True
    then have "d' = d1" "res = Inr () \<longrightarrow> \<not> over_capacity d'"
      using assms(4) sw \<open>maintenance_needed d\<close> by (auto simp: maintenance_pass_def split: sum.splits)
    then show ?thesis using ks m1 by (auto intro!: exI [of _ ks] exI [of _ 0])
  next
    case False
    then obtain u where r1: "r1 = Inr u" and over: "over_capacity d1" by (cases r1) auto
    obtain r2 d2 where ev: "evict_to e2 (max_keys d1) eviction_slice d1 = (r2, d2)" by fastforce
    let ?F = "fold a_drop ks A"
    obtain k where k: "k \<le> eviction_slice" "k \<le> length (ks_order ?F)" "db_inv d2 (a_evict k ?F)"
      "\<And>v. r2 = Inr v \<Longrightarrow> k = min eviction_slice (length (ks_order ?F) - max_keys d1)"
      using evict_to_spec [OF ks(2) assms(3) ev] by blast
    have m2: "max_keys d2 = max_keys d1" using maintenance_max(1) [of e2 "max_keys d1" eviction_slice d1] ev by simp
    have d': "d' = d2" "\<And>w. res = Inr w \<Longrightarrow> \<exists>v. r2 = Inr v"
      using assms(4) sw \<open>maintenance_needed d\<close> r1 over ev by (auto simp: maintenance_pass_def split: sum.splits)
    have "key_total d2 < key_total d" if "res = Inr w" for w
    proof -
      have "max_keys d1 < length (ks_order ?F)" using over inv_total [OF ks(2)] by (simp add: over_capacity_def)
      then have "0 < k" using k(4) d'(2) [OF that] by (auto simp: eviction_slice_def)
      then show ?thesis
        using inv_total [OF k(3)] inv_total [OF assms(1)] evict_length [OF k(2)] fold_drop_length [of ks A] k(2) by linarith
    qed
    then show ?thesis using ks(1) k(1,3) m1 m2 d' by (intro conjI exI [of _ ks] exI [of _ k]) auto
  qed
qed

text \<open>The wait of a batch ends: as many passes as there are keys are enough.\<close>

lemma await_capacity_ends:
  assumes "db_inv d A" "\<And>i. env_ok (sw i)" "\<And>i. env_ok (ev i)" "key_total d \<le> n"
  shows "\<exists>failed' d' B. await_capacity sw ev n i failed d = Some (failed', d') \<and> db_inv d' B \<and> maintained A B
     \<and> max_keys d' = max_keys d \<and> (failed' \<or> key_total d' \<le> max_keys d')"
  using assms
proof (induction n arbitrary: i d A failed)
  case 0
  then have "\<not> over_capacity d" using inv_total by (fastforce simp: over_capacity_def)
  then show ?case using 0 inv_total [OF 0(1)] settled [of A] by (intro exI [of _ failed] exI [of _ d] exI [of _ A]) (simp add: over_capacity_def)
next
  case (Suc n)
  show ?case
  proof (cases "over_capacity d \<and> \<not> failed")
    case False
    then show ?thesis
      using Suc.prems(1) inv_total [OF Suc.prems(1)] settled [of A]
      by (intro exI [of _ failed] exI [of _ d] exI [of _ A]) (auto simp: over_capacity_def)
  next
    case True
    obtain r d1 where run: "maintenance_pass (sw i) (ev i) d = (r, d1)" by fastforce
    obtain ks k where m: "swept (e_steady (sw i) 0) expiry_slice ks A" "k \<le> eviction_slice"
      "db_inv d1 (a_evict k (fold a_drop ks A))" "max_keys d1 = max_keys d"
      "r = Inr () \<Longrightarrow> \<not> over_capacity d1 \<or> key_total d1 < key_total d"
      using maintenance_pass_spec [OF Suc.prems(1-3) run] by blast
    have go: "await_capacity sw ev (Suc n) i failed d = await_capacity sw ev n (Suc i) (isl r) d1" using True run by simp
    note step = pass [OF m(1,2)]
    show ?thesis
    proof (cases "key_total d1 \<le> n")
      case True
      from Suc.IH [OF m(3) Suc.prems(2,3) this] obtain f2 d2 B where r2: "await_capacity sw ev n (Suc i) (isl r) d1 = Some (f2, d2)"
        "db_inv d2 B" "maintained (a_evict k (fold a_drop ks A)) B" "max_keys d2 = max_keys d1" "f2 \<or> key_total d2 \<le> max_keys d2"
        by blast
      show ?thesis unfolding go using r2(1,2,4,5) step [OF r2(3)] m(4) by auto
    next
      case False
      then have "isl r \<or> \<not> over_capacity d1" using m(5) Suc.prems(4) by (cases r) auto
      moreover from this have "await_capacity sw ev n (Suc i) (isl r) d1 = Some (isl r, d1)" by (cases n) auto
      ultimately show ?thesis
        unfolding go using m(3,4) step [OF settled] inv_total [OF m(3)]
        by (intro exI [of _ "isl r"] exI [of _ d1] exI [of _ "a_evict k (fold a_drop ks A)"]) (auto simp: over_capacity_def)
    qed
  qed
qed

lemma execute_batch_spec:
  assumes inv: "db_inv d A" and w: "world_ok w" and small: "\<forall>c \<in> set cs. \<forall>x \<in> set (cmd_arguments c). length x \<le> 2 ^ 25"
  shows "\<exists>res out' failed' d' C. execute_batch w stats cs hw out failed d = Some (res, out', failed', d') \<and> db_inv d' C
     \<and> (res = Inr () \<longrightarrow> key_total d' \<le> max_keys d'
         \<and> (\<exists>rs d1 B. replies (w_env w) (w_host w) stats 0 cs (if hw then begin_wal_batch d else d) A rs d1 B
             \<and> maintained B C \<and> out' = out @ concat (map encode_reply rs)))"
proof -
  obtain r o1 d1 where run: "locked_batch w stats cs hw out d = (r, o1, d1)" by (rule prod_cases3)
  note lb = locked_batch_replies [OF inv w small run]
  show ?thesis
  proof (cases r)
    case (Inl x)
    then show ?thesis using lb run by (auto simp: execute_batch_def)
  next
    case (Inr u)
    obtain rs d0 B where rep: "replies (w_env w) (w_host w) stats 0 cs (if hw then begin_wal_batch d else d) A rs d0 B"
      and B: "db_inv d1 B" and o1: "o1 = out @ concat (map encode_reply rs)" using lb Inr by (simp only: sum.case) blast
    have concl: ?thesis if "execute_batch w stats cs hw out failed d = Some (res, o1, f2, d2)" "db_inv d2 C" "maintained B C"
      "res = Inr () \<Longrightarrow> key_total d2 \<le> max_keys d2" for res f2 d2 C
      using that rep o1 by blast
    show ?thesis
    proof (cases "over_capacity d1")
      case False
      then show ?thesis
        using run Inr inv_total [OF B] by (intro concl [OF _ B settled]) (simp_all add: execute_batch_def over_capacity_def)
    next
      case True
      have ws: "\<And>i. env_ok (w_sweep w i)" "\<And>i. env_ok (w_evict w i)" using w by (simp_all add: world_ok_def)
      obtain f2 d2 C where "await_capacity (w_sweep w) (w_evict w) (key_total d1) 0 failed d1 = Some (f2, d2)" "db_inv d2 C"
        "maintained B C" "f2 \<or> key_total d2 \<le> max_keys d2"
        using await_capacity_ends [of d1 B "w_sweep w" "w_evict w" "key_total d1" 0 failed, OF B ws order_refl] by blast
      then show ?thesis using True run Inr by (intro concl [of _ f2 d2 C]) (auto simp: execute_batch_def)
    qed
  qed
qed

end
