(* ===== verification/ServerLoop.thy ===== *)
theory ServerLoop
  imports Server
begin

text \<open>
  The invariant of the server and its event loop: the bounds of the buffers and of the table of
  clients, that no client with work left is forgotten, and that every operation ends and keeps both.
  The loop is treated once, over what it needs of the operations it calls, and is applied twice: to
  the invariant and to the reachable states.
\<close>

section \<open>The invariant of the server\<close>

definition rest :: "client_info \<Rightarrow> bytes" where
  "rest c = drop (input_offset c) (in_buffer c)"

text \<open>Input that holds no complete request: nothing, or the beginning of one.\<close>

definition awaits_input :: "bytes \<Rightarrow> bool" where
  "awaits_input r \<longleftrightarrow> r = [] \<or> (\<exists>code. parse_command_into r = Inl code \<and> is_incomplete_resp_error code)"

definition client_sized :: "client_info \<Rightarrow> bool" where
  "client_sized c \<longleftrightarrow>
     input_offset c \<le> length (in_buffer c) \<and> length (rest c) \<le> max_input_buffer_size
     \<and> (input_offset c < compact_buffer_threshold \<or> input_offset c * 2 < length (in_buffer c))
     \<and> output_offset c \<le> length (out_buffer c) \<and> length (out_buffer c) \<le> max_output_buffer_size"

text \<open>
  A client is never forgotten: complete requests are queued, queued clients are in the queue, waiting
  output is watched, and a client that is to be closed still has something to be done.
\<close>

definition client_live :: "nat list \<Rightarrow> nat \<Rightarrow> client_info \<Rightarrow> bool" where
  "client_live queue i c \<longleftrightarrow>
     (processing_queued c \<longrightarrow> i \<in> set queue) \<and> (processing_queued c \<or> awaits_input (rest c))
     \<and> (output_offset c < length (out_buffer c) \<longrightarrow> watching_write c)
     \<and> (close_after_write c \<longrightarrow> output_offset c < length (out_buffer c) \<or> processing_queued c)"

definition client_ok :: "nat list \<Rightarrow> nat \<Rightarrow> client_info \<Rightarrow> bool" where
  "client_ok queue i c \<longleftrightarrow> client_sized c \<and> client_live queue i c"

text \<open>The server, with the client \<open>i\<close> left out.\<close>

definition table_sized :: "server \<Rightarrow> bool" where
  "table_sized s \<longleftrightarrow>
     distinct (ids s) \<and> length (ids s) \<le> max_clients \<and> (\<forall>i \<in> set (ids s). i < 2 ^ 31) \<and> next_client_id s < 2 ^ 31"

definition server_but :: "nat \<Rightarrow> server \<Rightarrow> bool" where
  "server_but i s \<longleftrightarrow>
     (\<exists>A. db_inv (s_database s) A) \<and> table_sized s \<and> find_client i s \<noteq> None
     \<and> (\<forall>j c. j \<noteq> i \<longrightarrow> find_client j s = Some c \<longrightarrow> client_ok (pending_clients s) j c)"

definition server_ok :: "server \<Rightarrow> bool" where
  "server_ok s \<longleftrightarrow>
     (\<exists>A. db_inv (s_database s) A) \<and> table_sized s
     \<and> (\<forall>j c. find_client j s = Some c \<longrightarrow> client_ok (pending_clients s) j c)"

text \<open>What flushing does to a client that stays.\<close>

definition flushed :: "client_info \<Rightarrow> client_info \<Rightarrow> bool" where
  "flushed c x \<longleftrightarrow>
     stream x = stream c \<and> output_offset x \<le> length (out_buffer x)
     \<and> length (out_buffer x) - output_offset x \<le> length (out_buffer c) - output_offset c
     \<and> length (out_buffer x) \<le> length (out_buffer c)
     \<and> in_buffer x = in_buffer c \<and> input_offset x = input_offset c \<and> processing_queued x = processing_queued c
     \<and> close_after_write x = close_after_write c
     \<and> (if output_offset x < length (out_buffer x) then watching_write x = watching_write c
        else close_after_write c \<longrightarrow> processing_queued c)"

definition protocol_reply :: "error_code option \<Rightarrow> bytes" where
  "protocol_reply problem =
     (case problem of
        None \<Rightarrow> []
      | Some code \<Rightarrow> encode_reply (Err (str (error_message protocol_error_prefix) @ str (error_message code))))"

text \<open>
  A turn of a client: the complete requests at the head of its input are executed in order, its
  stream grows by their replies in the same order, the requests leave the input, and maintenance
  has brought the keyspace within its capacity.
\<close>

definition answered :: "world \<Rightarrow> server \<Rightarrow> keyspace \<Rightarrow> client_info \<Rightarrow> server \<Rightarrow> client_info \<Rightarrow> bool" where
  "answered w s A c s' c' \<longleftrightarrow>
     (case collect batch_limit (in_buffer c) (input_offset c) of (cs, off, problem) \<Rightarrow>
        (\<exists>rs d1 B C. replies (w_env w) (w_host w) (stats_of s) 0 cs
            (if has_write cs then begin_wal_batch (s_database s) else s_database s) A rs d1 B
          \<and> maintained B C \<and> db_inv (s_database s') C
          \<and> (cs \<noteq> [] \<longrightarrow> key_total (s_database s') \<le> max_keys (s_database s'))
          \<and> length (concat (map encode_reply rs)) \<le> max_output_buffer_size
          \<and> stream c' = stream c @ concat (map encode_reply rs) @ protocol_reply problem
          \<and> rest c' = (if problem = None then drop off (in_buffer c) else [])))"

definition turn_batch ::
  "world \<Rightarrow> server \<Rightarrow> command list \<Rightarrow> bytes \<Rightarrow> ((exn + unit) \<times> bytes \<times> bool \<times> db) option"
where
  "turn_batch w s cs out =
     (if cs = [] then Some (Inr (), out, maintenance_failed s, s_database s)
      else execute_batch w (stats_of s) cs (has_write cs) out (maintenance_failed s) (s_database s))"

text \<open>An operation of the server ends, and when it does not raise it keeps a property.\<close>

definition returns :: "(server \<Rightarrow> bool) \<Rightarrow> unit served option \<Rightarrow> bool" where
  "returns P r \<longleftrightarrow> (\<exists>x s'. r = Some (x, s') \<and> (x = Inr () \<longrightarrow> P s'))"

text \<open>
  The states a server can be in: new, on a database that was opened, and after any operation of the
  event loop or of the maintenance thread that did not raise, in any order.
\<close>

inductive server_reachable :: "server \<Rightarrow> bool" where
  opened: "reachable d \<Longrightarrow> server_reachable (server_init now d)"
| accepting: "server_reachable s \<Longrightarrow> accept_connections attempts k i s = Some (Inr (), s') \<Longrightarrow> server_reachable s'"
| reading: "server_reachable s \<Longrightarrow> world_ok w \<Longrightarrow> read_client w i s = Some (Inr (), s') \<Longrightarrow> server_reachable s'"
| flushing: "server_reachable s \<Longrightarrow> flush_client answers b i s = (Inr (), s') \<Longrightarrow> server_reachable s'"
| serving: "server_reachable s \<Longrightarrow> world_ok w \<Longrightarrow> serve_next w s = Some (Inr (), s') \<Longrightarrow> server_reachable s'"
| dropping: "server_reachable s \<Longrightarrow> server_reachable (remove_client i s)"
| maintaining: "server_reachable s \<Longrightarrow> env_ok e \<Longrightarrow> server_reachable (maintain e evicting s)"

definition sample_world :: world where
  "sample_world =
     \<lparr>w_env = (\<lambda>_ _. sample_env), w_end = sample_env, w_sweep = (\<lambda>_. sample_env), w_evict = (\<lambda>_. sample_env),
      w_host = sample_host, w_recv = (\<lambda>_. Would_block), w_send = (\<lambda>_. Sent 1), w_watch = (\<lambda>_ _ _. True),
      w_accept = (\<lambda>_. Accepted (\<lambda>_ _. True))\<rparr>"

definition sample_client :: client_info where
  "sample_client =
     new_client\<lparr>in_buffer := str ''*1'' @ CRLF @ str ''$4'' @ CRLF @ str ''PING'' @ CRLF, out_buffer := str ''+OK'' @ CRLF,
       output_offset := 1, watching_write := True, processing_queued := True, wire := str ''+''\<rparr>"

definition sample_server :: server where
  "sample_server = put_client 0 sample_client ((server_init 0 sample_db)\<lparr>pending_clients := [0], next_client_id := 1\<rparr>)"

text \<open>One server after the first connection.\<close>

definition joined_server :: server where
  "joined_server = put_client 0 new_client ((server_init 0 (db_init 16 0))\<lparr>next_client_id := 1\<rparr>)"

lemma ids_frames [simp]:
  "ids (s\<lparr>s_database := d\<rparr>) = ids s" "ids (s\<lparr>pending_clients := p\<rparr>) = ids s" "ids (count_output s) = ids s"
  "ids (s\<lparr>maintenance_failed := b\<rparr>) = ids s" "ids (s\<lparr>input_buffer_disconnects := n\<rparr>) = ids s" "ids (s\<lparr>next_client_id := m\<rparr>) = ids s"
  by (simp_all add: ids_def count_output_def)

lemma table_remove: "table_sized s \<Longrightarrow> table_sized (remove_client i s)"
  by (simp add: table_sized_def ids_remove le_trans [OF length_filter_le])

lemma table_put:
  assumes "table_sized s" "find_client i s \<noteq> None"
  shows "table_sized (put_client i c s)"
proof -
  have "i \<in> set (ids s)" using assms(2) ids_find by blast
  then have "\<forall>j \<in> set (ids (put_client i c s)). j < 2 ^ 31" using assms(1) by (auto simp: table_sized_def ids_put)
  then show ?thesis using assms ids_put_length ids_put_distinct by (simp add: table_sized_def)
qed

lemma server_ok_but:
  assumes "server_ok s" "find_client i s = Some c"
  shows "server_but i s" "client_ok (pending_clients s) i c"
  using assms by (auto simp: server_ok_def server_but_def)

lemma but_whole: "server_but i s \<Longrightarrow> find_client i s = Some c \<Longrightarrow> client_ok (pending_clients s) i c \<Longrightarrow> server_ok s"
  by (auto simp: server_ok_def server_but_def) (metis option.inject)

lemma but_put: "server_but i s \<Longrightarrow> server_but i (put_client i c s)"
  using table_put by (auto simp: server_but_def)

lemma but_whole_put: "server_but i s \<Longrightarrow> client_ok (pending_clients s) i c \<Longrightarrow> server_ok (put_client i c s)"
  using but_whole [OF but_put, of i s c c] by simp

lemma but_remove: "server_but i s \<Longrightarrow> server_ok (remove_client i s)"
  using table_remove by (auto simp: server_but_def server_ok_def)

lemma but_count [simp]: "server_but i (count_output s) = server_but i s"
  by (simp add: server_but_def table_sized_def)

lemma but_queue: "server_but i s \<Longrightarrow> server_but i (s\<lparr>pending_clients := pending_clients s @ [i]\<rparr>)"
  by (auto simp: server_but_def table_sized_def client_ok_def client_live_def)

lemma but_database: "server_but i s \<Longrightarrow> db_inv d A \<Longrightarrow> server_but i (s\<lparr>s_database := d, maintenance_failed := f\<rparr>)"
  by (auto simp: server_but_def table_sized_def)

section \<open>The operations on a client\<close>

lemma request_write_ok:
  assumes "server_but i s" "find_client i s = Some c" "client_ok (pending_clients s) i (c\<lparr>watching_write := True\<rparr>)"
    and "request_write b i s = (Inr (), s')"
  shows "server_ok s' \<and> find_client i s' = Some (c\<lparr>watching_write := True\<rparr>) \<and> s_database s' = s_database s"
proof (cases "watching_write c")
  case True
  then have "c\<lparr>watching_write := True\<rparr> = c" by simp
  moreover have "s' = s" using assms(2,4) True by (simp add: request_write_def)
  ultimately show ?thesis using but_whole [OF assms(1,2)] assms(2,3) by simp
next
  case False
  then have "s' = put_client i (c\<lparr>watching_write := True\<rparr>) s"
    using assms(2,4) by (auto simp: request_write_def split: if_splits)
  then show ?thesis using but_whole_put [OF assms(1,3)] by simp
qed

lemma stream_simps [simp]:
  "stream (c\<lparr>watching_write := b\<rparr>) = stream c" "stream (c\<lparr>in_buffer := x, input_offset := k\<rparr>) = stream c"
  "stream (c\<lparr>processing_queued := b\<rparr>) = stream c" "stream (c\<lparr>input_offset := k\<rparr>) = stream c"
  "rest (c\<lparr>watching_write := b\<rparr>) = rest c" "rest (c\<lparr>processing_queued := b\<rparr>) = rest c"
  by (simp_all add: stream_def rest_def)

text \<open>A connection that is refused gets the error reply as its last bytes.\<close>

lemma refuse_client_ok:
  assumes but: "server_but i s" and off: "output_offset c \<le> length (out_buffer c)"
    and q: "processing_queued c \<Longrightarrow> i \<in> set (pending_clients s)"
    and run: "refuse_client w message i c s = (Inr (), s')"
  shows "server_ok s' \<and> s_database s' = s_database s
    \<and> (\<forall>c'. find_client i s' = Some c' \<longrightarrow> stream c' = stream c @ encode_reply (Err message) \<and> rest c' = []
        \<and> length (out_buffer c) \<le> max_output_buffer_size)"
proof (cases "append_error message (out_buffer c)")
  case (Inl x)
  then have "s' = remove_client i (count_output s)" using run by (simp add: refuse_client_def)
  then show ?thesis using but but_remove by simp
next
  case (Inr out)
  have o: "out = out_buffer c @ encode_reply (Err message)"
    using Inr writers(1) [of message, unfolded writes_def, rule_format, of "out_buffer c"] by simp
  have len: "length out \<le> max_output_buffer_size"
    using Inr within_writers(2) [of message "out_buffer c"] by (simp add: within_def max_reply_bytes_def max_output_buffer_size_def)
  let ?c = "c\<lparr>out_buffer := out, in_buffer := [], input_offset := 0, close_after_write := True\<rparr>"
  have run': "request_write (w_watch w 0) i (put_client i ?c s) = (Inr (), s')" using run Inr by (simp add: refuse_client_def)
  have "output_offset c < length out" using o off by (simp add: CRLF_def)
  then have "client_ok (pending_clients (put_client i ?c s)) i (?c\<lparr>watching_write := True\<rparr>)"
    using q len by (simp add: client_ok_def client_sized_def client_live_def awaits_input_def rest_def compact_buffer_threshold_def)
  from request_write_ok [OF but_put [OF but] _ this run'] show ?thesis using o off len by (simp add: stream_def rest_def)
qed

lemma flush_client_cases:
  assumes find: "find_client i s = Some c" and off: "output_offset c \<le> length (out_buffer c)"
    and run: "flush_client answers b i s = (Inr (), s')"
  shows "s' = remove_client i s \<or> (\<exists>x. s' = put_client i x s \<and> flushed c x)"
proof -
  obtain stays c1 where l: "flush_loop answers 0 c = (stays, c1)" by fastforce
  note k = flush_loop_keeps [OF l off]
  have f: "in_buffer c1 = in_buffer c \<and> input_offset c1 = input_offset c \<and> processing_queued c1 = processing_queued c
      \<and> close_after_write c1 = close_after_write c \<and> watching_write c1 = watching_write c"
    using arg_cong [OF k(4), of in_buffer] arg_cong [OF k(4), of input_offset] arg_cong [OF k(4), of processing_queued]
      arg_cong [OF k(4), of close_after_write] arg_cong [OF k(4), of watching_write] by simp
  have "length (stream c1) = length (stream c)" using k(1) by simp
  then have left: "length (out_buffer c1) - output_offset c1 \<le> length (out_buffer c) - output_offset c"
    using k(5) by (simp add: stream_def)
  have "s' = remove_client i s \<or> s' = put_client i c1 s \<and> output_offset c1 < length (out_buffer c1)
    \<or> s' = put_client i (c1\<lparr>watching_write := False\<rparr>) s \<and> \<not> output_offset c1 < length (out_buffer c1)
      \<and> \<not> (close_after_write c1 \<and> \<not> processing_queued c1)"
    using run find l by (simp add: flush_client_def Let_def split: if_splits)
  then consider "s' = remove_client i s" | "s' = put_client i c1 s" "output_offset c1 < length (out_buffer c1)"
    | "s' = put_client i (c1\<lparr>watching_write := False\<rparr>) s" "\<not> output_offset c1 < length (out_buffer c1)"
      "\<not> (close_after_write c1 \<and> \<not> processing_queued c1)"
    by (elim disjE conjE)
  then show ?thesis
  proof cases
    case 2
    then show ?thesis using k(1-3) left f by (intro disjI2 exI [of _ c1]) (simp add: flushed_def)
  next
    case 3
    then show ?thesis using k(1-3) left f by (intro disjI2 exI [of _ "c1\<lparr>watching_write := False\<rparr>"]) (auto simp: flushed_def)
  qed simp
qed

lemma flush_client_ok:
  assumes ok: "server_ok s" and run: "flush_client answers b i s = (Inr (), s')"
  shows "server_ok s' \<and> s_database s' = s_database s
    \<and> (\<forall>c c'. find_client i s = Some c \<longrightarrow> find_client i s' = Some c' \<longrightarrow> stream c' = stream c)"
proof (cases "find_client i s")
  case None
  then show ?thesis using run ok by (simp add: flush_client_def)
next
  case (Some c)
  note but = server_ok_but [OF ok Some]
  have sized: "client_sized c" "client_live (pending_clients s) i c" using but(2) by (simp_all add: client_ok_def)
  then have off: "output_offset c \<le> length (out_buffer c)" by (simp add: client_sized_def)
  from flush_client_cases [OF Some off run] show ?thesis
  proof
    assume "s' = remove_client i s"
    then show ?thesis using but_remove [OF but(1)] by simp
  next
    assume "\<exists>x. s' = put_client i x s \<and> flushed c x"
    then obtain x where x: "s' = put_client i x s" and fl: "flushed c x" by blast
    have more: "output_offset c < length (out_buffer c)" if "output_offset x < length (out_buffer x)" using that fl by (auto simp: flushed_def)
    have "client_sized x" using fl sized(1) by (simp add: client_sized_def rest_def flushed_def)
    moreover have "client_live (pending_clients s) i x"
      using fl sized(2) more by (auto simp: client_live_def rest_def flushed_def split: if_splits)
    ultimately show ?thesis using but_whole_put [OF but(1)] x fl Some by (simp add: client_ok_def flushed_def)
  qed
qed

text \<open>The end of a turn of a client: its input is compacted, what is left is queued, and its output is sent.\<close>

lemma finish_client_ok:
  assumes but: "server_but i s" and inp: "input_offset c \<le> length (in_buffer c)" "length (rest c) \<le> max_input_buffer_size"
    and out: "output_offset c = 0" and q: "processing_queued c \<Longrightarrow> i \<in> set (pending_clients s)"
    and full: "\<not> full \<Longrightarrow> awaits_input (rest c)" and run: "finish_client w full i c s = (Inr (), s')"
  shows "server_ok s' \<and> s_database s' = s_database s
    \<and> (\<forall>c'. find_client i s' = Some c' \<longrightarrow> stream c' = stream c \<and> rest c' = rest c \<and> length (out_buffer c) \<le> max_output_buffer_size)"
proof -
  obtain b k where cb: "compact_buffer (in_buffer c) (input_offset c) = (b, k)" by fastforce
  note cf = compact_buffer [OF cb inp(1)]
  define queue where "queue \<longleftrightarrow> full \<and> k < length b \<and> \<not> processing_queued c"
  define c2 where "c2 = c\<lparr>in_buffer := b, input_offset := k, processing_queued := processing_queued c \<or> queue\<rparr>"
  define s0 where "s0 = (if queue then s\<lparr>pending_clients := pending_clients s @ [i]\<rparr> else s)"
  define s1 where "s1 = put_client i c2 s0"
  have c2: "c2 = (if queue then c\<lparr>in_buffer := b, input_offset := k, processing_queued := True\<rparr> else c\<lparr>in_buffer := b, input_offset := k\<rparr>)"
    by (cases c) (auto simp: c2_def queue_def)
  have but0: "server_but i s0" using but but_queue by (simp add: s0_def)
  have but1: "server_but i s1" using but_put [OF but0] by (simp add: s1_def)
  have db: "s_database s1 = s_database s" by (simp add: s1_def s0_def)
  have rest2: "rest c2 = rest c" using cf(1) by (simp add: c2_def rest_def)
  have st2: "stream c2 = stream c" "out_buffer c2 = out_buffer c" "output_offset c2 = 0" "watching_write c2 = watching_write c"
    using out by (simp_all add: c2_def stream_def)
  have sized2: "length (out_buffer c) \<le> max_output_buffer_size \<Longrightarrow> client_sized c2"
    using cf(2,5) inp(2) rest2 out by (simp add: client_sized_def c2_def)
  have q2: "processing_queued c2 \<Longrightarrow> i \<in> set (pending_clients s1)" using q by (auto simp: c2_def s1_def s0_def)
  have "processing_queued c2 \<or> awaits_input (rest c2)"
  proof (cases "full \<and> k < length b")
    case True
    then show ?thesis by (auto simp: c2_def queue_def)
  next
    case False
    then have "awaits_input (rest c) \<or> rest c2 = []" using full cf(1) by (auto simp: c2_def rest_def)
    then show ?thesis using rest2 by (auto simp: awaits_input_def)
  qed
  note live2 = q2 this
  have alt: "finish_client w full i c s =
      (if max_output_buffer_size < length (out_buffer c) then (Inr (), remove_client i (count_output s1))
       else if out_buffer c \<noteq> [] then
         (case flush_client (w_send w) (w_watch w 0) i s1 of
            (Inl x, s2) \<Rightarrow> (Inl x, s2)
          | (Inr _, s2) \<Rightarrow>
              (case find_client i s2 of
                 None \<Rightarrow> (Inr (), s2)
               | Some c3 \<Rightarrow>
                   if output_offset c3 < length (out_buffer c3) then request_write (w_watch w 1) i s2 else (Inr (), s2)))
       else if close_after_write c2 \<and> \<not> processing_queued c2 then (Inr (), remove_client i s1)
       else (Inr (), s1))"
    unfolding finish_client_def cb prod.case Let_def
    by (auto simp: c2 s1_def s0_def queue_def out)
  consider "max_output_buffer_size < length (out_buffer c)" | "length (out_buffer c) \<le> max_output_buffer_size" "out_buffer c = []"
    | "length (out_buffer c) \<le> max_output_buffer_size" "out_buffer c \<noteq> []" by fastforce
  then show ?thesis
  proof cases
    case 1
    then have "s' = remove_client i (count_output s1)" using run unfolding alt by simp
    then show ?thesis using but_remove but1 db by simp
  next
    case 2
    then have e: "if close_after_write c2 \<and> \<not> processing_queued c2 then s' = remove_client i s1 else s' = s1"
      using run unfolding alt by (auto split: if_splits)
    show ?thesis
    proof (cases "close_after_write c2 \<and> \<not> processing_queued c2")
      case True
      then show ?thesis using e but_remove [OF but1] db by simp
    next
      case False
      then have "client_ok (pending_clients s1) i c2" using sized2 2 live2 st2 by (auto simp: client_ok_def client_live_def)
      then show ?thesis using but_whole [OF but1, of c2] e False db st2(1) rest2 2 by (simp add: s1_def)
    qed
  next
    case 3
    note n = 3
    obtain r s2 where fl: "flush_client (w_send w) (w_watch w 0) i s1 = (r, s2)" by fastforce
    have r: "r = Inr ()" using run 3 fl unfolding alt by (auto split: sum.splits if_splits)
    have f1: "find_client i s1 = Some c2" by (simp add: s1_def)
    have "output_offset c2 \<le> length (out_buffer c2)" using st2 by simp
    from flush_client_cases [OF f1 this fl [unfolded r]] show ?thesis
    proof
      assume s2: "s2 = remove_client i s1"
      then have "s' = s2" using run 3 fl r unfolding alt by simp
      then show ?thesis using s2 but_remove [OF but1] db by simp
    next
      assume "\<exists>x. s2 = put_client i x s1 \<and> flushed c2 x"
      then obtain x where x: "s2 = put_client i x s1" and fd: "flushed c2 x" by blast
      have run': "(if output_offset x < length (out_buffer x) then request_write (w_watch w 1) i s2 else (Inr (), s2)) = (Inr (), s')"
        using run 3 fl r x unfolding alt by (auto split: if_splits)
      have sx: "client_sized x" using fd sized2 n by (auto simp: flushed_def client_sized_def rest_def)
      have px: "pending_clients s2 = pending_clients s1" "s_database s2 = s_database s" using x db by simp_all
      have rx: "rest x = rest c" "stream x = stream c" using fd rest2 st2(1) by (simp_all add: flushed_def rest_def)
      have lx: "client_live (pending_clients s2) i (x\<lparr>watching_write := watching_write x \<or> output_offset x < length (out_buffer x)\<rparr>)"
        using fd live2 px rest2 rx by (auto simp: client_live_def flushed_def rest_def split: if_splits)
      show ?thesis
      proof (cases "output_offset x < length (out_buffer x)")
        case True
        then have "client_ok (pending_clients s2) i (x\<lparr>watching_write := True\<rparr>)"
          using sx lx by (simp add: client_ok_def client_sized_def)
        moreover have "server_but i s2" "find_client i s2 = Some x" using but_put [OF but1] x by simp_all
        ultimately show ?thesis using request_write_ok [of i s2 x "w_watch w 1" s'] px rx run' True n by simp
      next
        case False
        then have "client_ok (pending_clients s2) i x" using sx lx by (simp add: client_ok_def)
        moreover have "server_but i s2" "find_client i s2 = Some x" using but_put [OF but1] x by simp_all
        moreover have "s' = s2" using run' False by simp
        ultimately show ?thesis using but_whole [of i s2 x] px rx n by simp
      qed
    qed
  qed
qed

lemma collect_settled:
  assumes "collect n buffer off = (cs, off', None)" "off \<le> length buffer" "length cs < n"
  shows "awaits_input (drop off' buffer)"
  using assms
proof (induction n buffer off arbitrary: cs off' rule: collect.induct)
  case (2 n buffer off)
  show ?case
  proof (cases "\<exists>c. off < length buffer \<and> parse_command_into (drop off buffer) = Inr c")
    case True
    then obtain c where c: "\<not> length buffer \<le> off" "parse_command_into (drop off buffer) = Inr c" by auto
    obtain cs1 where r: "collect n buffer (off + bytes_consumed c) = (cs1, off', None)" "cs = c # cs1"
      using "2.prems"(1) c by (auto split: prod.splits)
    have "off + bytes_consumed c \<le> length buffer" using parse_consumes [OF c(2)] c(1) by simp
    then show ?thesis using "2.IH" [OF c r(1)] r(2) "2.prems"(3) by simp
  next
    case False
    then show ?thesis using "2.prems" by (auto simp: awaits_input_def split: sum.splits if_splits)
  qed
qed simp

lemma input_small:
  assumes "input_offset c \<le> length (in_buffer c)" "length (rest c) \<le> max_input_buffer_size"
    and "input_offset c < compact_buffer_threshold \<or> input_offset c * 2 < length (in_buffer c)"
  shows "length (in_buffer c) \<le> 2 * max_input_buffer_size"
  using assms by (auto simp: rest_def max_input_buffer_size_def compact_buffer_threshold_def)

lemma turn_batch_spec:
  assumes inv: "db_inv (s_database s) A" and w: "world_ok w"
    and small: "\<forall>c \<in> set cs. \<forall>x \<in> set (cmd_arguments c). length x \<le> 2 ^ 25"
  shows "\<exists>r out' f d C. turn_batch w s cs out = Some (r, out', f, d) \<and> db_inv d C
    \<and> (r = Inr () \<longrightarrow> (cs \<noteq> [] \<longrightarrow> key_total d \<le> max_keys d)
         \<and> (\<exists>rs d1 B. replies (w_env w) (w_host w) (stats_of s) 0 cs
              (if has_write cs then begin_wal_batch (s_database s) else s_database s) A rs d1 B
            \<and> maintained B C \<and> out' = out @ concat (map encode_reply rs)))"
proof (cases "cs = []")
  case True
  have "replies (w_env w) (w_host w) (stats_of s) 0 [] (s_database s) A [] (s_database s) A" by (rule none_left)
  then show ?thesis using True inv settled [of A] by (auto simp: turn_batch_def has_write_def intro!: exI [of _ A] exI [of _ "[]"])
next
  case False
  then show ?thesis
    using execute_batch_spec [OF inv w small, of "stats_of s" "has_write cs" out "maintenance_failed s"] unfolding turn_batch_def by simp
qed

lemma process_client_ok:
  assumes but: "server_but i s" and find: "find_client i s = Some c"
    and inp: "input_offset c \<le> length (in_buffer c)" "length (rest c) \<le> max_input_buffer_size"
      "input_offset c < compact_buffer_threshold \<or> input_offset c * 2 < length (in_buffer c)"
    and off: "output_offset c \<le> length (out_buffer c)" and q: "processing_queued c \<Longrightarrow> i \<in> set (pending_clients s)"
    and w: "world_ok w" and inv: "db_inv (s_database s) A"
  shows "\<exists>r s'. process_client w i s = Some (r, s')
    \<and> (r = Inr () \<longrightarrow> server_ok s' \<and> (\<forall>c'. find_client i s' = Some c' \<longrightarrow> answered w s A c s' c'))"
proof -
  obtain cs k problem where col: "collect batch_limit (in_buffer c) (input_offset c) = (cs, k, problem)" by (rule prod_cases3)
  note cb = collect_bounds [OF col inp(1)]
  define c0 where "c0 = c\<lparr>out_buffer := drop (output_offset c) (out_buffer c), output_offset := 0\<rparr>"
  have st0: "stream c0 = stream c" "in_buffer c0 = in_buffer c" "processing_queued c0 = processing_queued c" "output_offset c0 = 0"
    by (simp_all add: c0_def stream_def)
  have small: "\<forall>c \<in> set cs. \<forall>x \<in> set (cmd_arguments c). length x \<le> 2 ^ 25"
    using cb(4) input_small [OF inp] by (fastforce simp: max_input_buffer_size_def)
  let ?d0 = "if has_write cs then begin_wal_batch (s_database s) else s_database s"
  obtain r out f d C where ex: "turn_batch w s cs (out_buffer c0) = Some (r, out, f, d)" and C: "db_inv d C"
    and good: "r = Inr () \<longrightarrow> (cs \<noteq> [] \<longrightarrow> key_total d \<le> max_keys d)
         \<and> (\<exists>rs d1 B. replies (w_env w) (w_host w) (stats_of s) 0 cs ?d0 A rs d1 B
             \<and> maintained B C \<and> out = out_buffer c0 @ concat (map encode_reply rs))"
    using turn_batch_spec [OF inv w small, of "out_buffer c0"] by blast
  define c1 where "c1 = c0\<lparr>input_offset := k, out_buffer := out\<rparr>"
  define s1 where "s1 = s\<lparr>s_database := d, maintenance_failed := f\<rparr>"
  have alt: "process_client w i s = Some (case r of
        Inl x \<Rightarrow> if x = Error request_too_large then (Inr (), remove_client i (count_output s1)) else (Inl x, put_client i c1 s1)
      | Inr _ \<Rightarrow>
          (case problem of
             Some code \<Rightarrow> refuse_client w (str (error_message protocol_error_prefix) @ str (error_message code)) i c1 s1
           | None \<Rightarrow> finish_client w (length cs = batch_limit) i c1 s1))"
    unfolding process_client_def find option.case Let_def c0_def [symmetric]
    using col ex [unfolded turn_batch_def] st0 by (auto simp: c0_def c1_def s1_def split: sum.splits option.splits)
  have but1: "server_but i s1" using but_database [OF but C] by (simp add: s1_def)
  have d1: "s_database s1 = d" "pending_clients s1 = pending_clients s" by (simp_all add: s1_def)
  have i1: "in_buffer c1 = in_buffer c" "input_offset c1 = k" "output_offset c1 = 0" "processing_queued c1 = processing_queued c"
    "out_buffer c1 = out" by (simp_all add: c1_def c0_def)
  show ?thesis
  proof (cases r)
    case (Inl x)
    then show ?thesis unfolding alt using but_remove [of i "count_output s1"] but1 by simp
  next
    case (Inr u)
    then obtain rs e1 B where rep: "replies (w_env w) (w_host w) (stats_of s) 0 cs ?d0 A rs e1 B" "maintained B C"
      "out = out_buffer c0 @ concat (map encode_reply rs)" "cs \<noteq> [] \<longrightarrow> key_total d \<le> max_keys d" using good by auto
    have st1: "stream c1 = stream c @ concat (map encode_reply rs)"
      using rep(3) st0(1) by (simp add: stream_def i1) (simp add: stream_def c1_def c0_def)
    have ans: "answered w s A c s' c'" if "s_database s' = d" "stream c' = stream c1 @ protocol_reply problem" "length out \<le> max_output_buffer_size"
      "rest c' = (if problem = None then drop k (in_buffer c) else [])" for s' c'
      unfolding answered_def col prod.case using rep C that st1 by (intro exI [of _ rs] exI [of _ e1] exI [of _ B] exI [of _ C]) simp
    show ?thesis
    proof (cases problem)
      case None
      obtain r2 s2 where fin: "finish_client w (length cs = batch_limit) i c1 s1 = (r2, s2)" by fastforce
      have aw: "awaits_input (rest c1)" if "length cs \<noteq> batch_limit"
        using collect_settled [OF col [unfolded None] inp(1)] cb(3) that by (simp add: rest_def i1)
      have "length (rest c1) \<le> max_input_buffer_size" using inp(2) cb(1) by (simp add: rest_def i1)
      then have "server_ok s2 \<and> s_database s2 = s_database s1 \<and>
          (\<forall>c'. find_client i s2 = Some c' \<longrightarrow> stream c' = stream c1 \<and> rest c' = rest c1 \<and> length out \<le> max_output_buffer_size)" if "r2 = Inr ()"
        using finish_client_ok [OF but1, of c1 "length cs = batch_limit" w s2] fin that aw cb(2) q d1(2) by (simp add: i1)
      then show ?thesis
        unfolding alt using Inr None fin ans d1(1) by (auto simp: protocol_reply_def rest_def i1)
    next
      case (Some code)
      let ?m = "str (error_message protocol_error_prefix) @ str (error_message code)"
      obtain r2 s2 where fin: "refuse_client w ?m i c1 s1 = (r2, s2)" by fastforce
      have "server_ok s2 \<and> s_database s2 = s_database s1 \<and>
          (\<forall>c'. find_client i s2 = Some c' \<longrightarrow> stream c' = stream c1 @ encode_reply (Err ?m) \<and> rest c' = []
             \<and> length out \<le> max_output_buffer_size)" if "r2 = Inr ()"
        using refuse_client_ok [OF but1, of c1 w ?m s2] fin that q d1(2) by (simp add: i1)
      then show ?thesis
        unfolding alt using Inr Some fin ans d1(1) by (auto simp: protocol_reply_def simp del: error_message.simps encode_reply.simps)
    qed
  qed
qed

text \<open>
  When a turn drops a client that asked one thing, is not closing and whose connection holds: the
  reply was too large, and the drop is counted.
\<close>

lemma flush_loop_stays:
  assumes "\<And>n. answers n \<noteq> Send_failed \<and> answers n \<noteq> Sent 0"
  shows "fst (flush_loop answers n c)"
  using assms
proof (induction answers n c rule: flush_loop.induct)
  case (1 answers n c)
  show ?case
  proof (cases "length (out_buffer c) \<le> output_offset c \<or> answers n = Send_blocked")
    case True
    then show ?thesis by (subst flush_loop.simps) auto
  next
    case False
    then obtain k where k: "answers n = Sent k" "k \<noteq> 0" using "1.prems" [of n] by (cases "answers n") auto
    show ?thesis using "1.IH" [of k] "1.prems" False k
      by (subst flush_loop.simps) (auto simp: Let_def split: prod.splits)
  qed
qed

lemma flush_client_stays:
  assumes "find_client i s = Some c" "output_offset c \<le> length (out_buffer c)" "\<not> close_after_write c"
    and "\<And>n. answers n \<noteq> Send_failed \<and> answers n \<noteq> Sent 0" and "flush_client answers b i s = (Inr (), s')"
  shows "find_client i s' \<noteq> None"
proof -
  obtain c1 where l: "flush_loop answers 0 c = (True, c1)" using flush_loop_stays [where answers = answers and n = 0 and c = c, OF assms(4)]
    by (cases "flush_loop answers 0 c") simp
  have "close_after_write c1 = close_after_write c"
    using arg_cong [OF flush_loop_keeps(4) [OF l assms(2)], of close_after_write] by simp
  then show ?thesis using assms(1,3,5) l by (auto simp: flush_client_def Let_def split: if_splits)
qed

lemma finish_client_stays:
  assumes "input_offset c \<le> length (in_buffer c)" "output_offset c = 0" "\<not> close_after_write c" "length (out_buffer c) \<le> max_output_buffer_size"
    and "\<And>n. w_send w n \<noteq> Send_failed \<and> w_send w n \<noteq> Sent 0" and run: "finish_client w False i c s = (Inr (), s')"
  shows "find_client i s' \<noteq> None"
proof -
  obtain b k where cb: "compact_buffer (in_buffer c) (input_offset c) = (b, k)" by fastforce
  define c1 where "c1 = c\<lparr>in_buffer := b, input_offset := k\<rparr>"
  have c1: "output_offset c1 = 0" "out_buffer c1 = out_buffer c" "\<not> close_after_write c1" using assms(2,3) by (simp_all add: c1_def)
  have f: "find_client i (put_client i c1 s) = Some c1" by simp
  show ?thesis
  proof (cases "out_buffer c = []")
    case True
    then have "s' = put_client i c1 s" using run cb assms(2,3) by (simp add: finish_client_def Let_def c1_def)
    then show ?thesis using f by simp
  next
    case False
    obtain r2 s2 where fl: "flush_client (w_send w) (w_watch w 0) i (put_client i c1 s) = (r2, s2)" by fastforce
    have r2: "r2 = Inr ()" using run cb fl False assms(2,4) by (cases r2) (simp_all add: finish_client_def Let_def c1_def)
    have "find_client i s2 \<noteq> None" by (rule flush_client_stays [OF f _ c1(3) assms(5) fl [unfolded r2]]) (simp add: c1)
    then obtain c3 where c3: "find_client i s2 = Some c3" by blast
    have "s' = s2 \<or> request_write (w_watch w 1) i s2 = (Inr (), s')"
      using run cb fl r2 False assms(2,4) c3 by (auto simp: finish_client_def Let_def c1_def split: if_splits)
    then show ?thesis using c3 by (auto simp: request_write_def split: if_splits)
  qed
qed

lemma end_batch_error:
  assumes "end_wal_batch e d = (Inl y, d')"
  shows "y = Error disk_write_failed"
proof -
  obtain w w' where "end_batch (e_io e) w = (Inl y, w')"
    using assms by (auto simp: end_wal_batch_def split: option.splits prod.splits)
  then have "flush_locked (e_io e) (w\<lparr>w_defer := False\<rparr>) = (Inl y, w')" by (simp add: end_batch_def Let_def split: if_splits)
  from flush_locked_cases [OF this] show ?thesis by simp
qed

lemma single_batch:
  assumes run: "execute_batch w stats [cmd] hw [] failed d = Some (r, out, f, d')"
  defines "reply \<equiv> fst (execute_named (w_env w 0) (w_host w) stats cmd [] (if hw then begin_wal_batch d else d))"
  shows "r = Inl (Error request_too_large) \<Longrightarrow> reply = Inl (Error request_too_large)"
    and "r = Inr () \<Longrightarrow> max_output_buffer_size < length out \<Longrightarrow> reply = Inr out"
    and "r = Inl z \<Longrightarrow> z = Error disk_write_failed \<or> reply = Inl z \<and> \<not> is_bad_alloc z"
proof -
  obtain x d1 where ex: "execute_named (w_env w 0) (w_host w) stats cmd [] (if hw then begin_wal_batch d else d) = (x, d1)" by fastforce
  obtain m where m: "append_error out_of_memory [] = Inr m" "length m \<le> max_output_buffer_size"
    by (simp add: append_error_def append_guarded_def require_reply_space_def out_of_memory_def max_reply_bytes_def max_output_buffer_size_def CRLF_def)
  have loop: "execute_loop (w_env w) (w_host w) stats 0 [cmd] [] (if hw then begin_wal_batch d else d) =
      (case x of Inr o1 \<Rightarrow> (Inr (), o1, d1) | Inl y \<Rightarrow> if is_bad_alloc y then (Inr (), m, d1) else (Inl y, [], d1))"
    using ex m by (auto simp: execute_named_def split: sum.splits)
  obtain y d2 where en: "(if hw then end_wal_batch (w_end w) d1 else (Inr (), d1)) = (y, d2)" by fastforce
  have y: "y = Inl z \<Longrightarrow> z = Error disk_write_failed" for z using en end_batch_error by (auto split: if_splits)
  have lb: "locked_batch w stats [cmd] hw [] d = (case x of
      Inr o1 \<Rightarrow> (case y of Inl z \<Rightarrow> (Inl z, o1, d2) | Inr _ \<Rightarrow> (Inr (), o1, d2))
    | Inl v \<Rightarrow> if is_bad_alloc v then (case y of Inl z \<Rightarrow> (Inl z, m, d2) | Inr _ \<Rightarrow> (Inr (), m, d2))
        else (case y of Inl z \<Rightarrow> (Inl z, [], d2) | Inr _ \<Rightarrow> (Inl v, [], d2)))"
    unfolding locked_batch_def loop using en by (cases x) (auto split: sum.splits)
  obtain r0 d3 where l: "locked_batch w stats [cmd] hw [] d = (r0, out, d3)" "r0 = r \<or> r0 = Inr () \<and> r = Inl (Error disk_write_failed)"
    using run unfolding execute_batch_def by (auto split: prod.splits sum.splits if_splits)
  show "reply = Inl (Error request_too_large)" if "r = Inl (Error request_too_large)"
  proof -
    have "r0 = Inl (Error request_too_large)" using l(2) that by simp
    then show ?thesis using l(1) y unfolding lb reply_def ex by (auto split: sum.splits if_splits)
  qed
  show "reply = Inr out" if "r = Inr ()" "max_output_buffer_size < length out"
  proof -
    have "r0 = Inr ()" using l(2) that by simp
    then show ?thesis using l(1) m(2) that(2) unfolding lb reply_def ex by (auto split: sum.splits if_splits)
  qed
  show "z = Error disk_write_failed \<or> reply = Inl z \<and> \<not> is_bad_alloc z" if "r = Inl z"
    using l that y unfolding lb reply_def ex by (auto split: sum.splits if_splits)
qed

lemma process_client_dropped:
  assumes find: "find_client i s = Some c" and inp: "input_offset c \<le> length (in_buffer c)"
    and col: "collect batch_limit (in_buffer c) (input_offset c) = ([cmd], k, None)" and quiet: "drop (output_offset c) (out_buffer c) = []"
    and stay: "\<not> close_after_write c" "\<And>n. w_send w n \<noteq> Send_failed \<and> w_send w n \<noteq> Sent 0"
    and run: "process_client w i s = Some (Inr (), s')" and gone: "find_client i s' = None"
  shows "output_buffer_disconnects s' = output_buffer_disconnects s + 1
    \<and> (case fst (execute_named (w_env w 0) (w_host w) (stats_of s) cmd []
          (if has_write [cmd] then begin_wal_batch (s_database s) else s_database s)) of
         Inl x \<Rightarrow> x = Error request_too_large
       | Inr reply \<Rightarrow> max_output_buffer_size < length reply)"
proof -
  obtain r out f d where ex: "execute_batch w (stats_of s) [cmd] (has_write [cmd]) [] (maintenance_failed s) (s_database s) = Some (r, out, f, d)"
    using run find col quiet by (auto simp: process_client_def Let_def split: option.splits)
  note sb = single_batch [OF ex]
  define c1 where "c1 = c\<lparr>output_offset := 0, input_offset := k, out_buffer := out\<rparr>"
  define s1 where "s1 = s\<lparr>s_database := d, maintenance_failed := f\<rparr>"
  have alt: "(Inr (), s') = (case r of
      Inl x \<Rightarrow> if x = Error request_too_large then (Inr (), remove_client i (count_output s1)) else (Inl x, put_client i c1 s1)
    | Inr _ \<Rightarrow> finish_client w False i c1 s1)"
    using run find col quiet ex by (simp add: process_client_def Let_def c1_def s1_def batch_limit_def split: sum.splits if_splits)
  show ?thesis
  proof (cases r)
    case (Inl x)
    then have "x = Error request_too_large" "s' = remove_client i (count_output s1)" using alt by (auto split: if_splits)
    then show ?thesis using sb(1) Inl by (simp add: remove_client_def count_output_def s1_def)
  next
    case (Inr u)
    have fin: "finish_client w False i c1 s1 = (Inr (), s')" using alt Inr by simp
    have "input_offset c1 \<le> length (in_buffer c1)" using collect_bounds [OF col inp] by (simp add: c1_def)
    then have big: "max_output_buffer_size < length out"
      using finish_client_stays [OF _ _ _ _ stay(2) fin] stay(1) gone by (fastforce simp: c1_def)
    then have "s' = remove_client i (count_output (put_client i c1 s1)) \<or> output_buffer_disconnects s' = output_buffer_disconnects s + 1"
      using fin by (auto simp: finish_client_def Let_def c1_def remove_client_def count_output_def put_client_def s1_def split: prod.splits)
    then show ?thesis using sb(2) Inr big by (auto simp: remove_client_def count_output_def put_client_def s1_def)
  qed
qed

text \<open>What such a turn may raise: a failure of the disk or of the event queue, or what the command raised.\<close>

lemma finish_client_raises:
  assumes "finish_client w full i c s = (Inl x, s')"
  shows "x = Error socket_poll_failed \<and> (\<exists>n readable writable. \<not> w_watch w n readable writable)"
  using assms
  by (auto simp: finish_client_def flush_client_def request_write_def Let_def split: prod.splits if_splits option.splits sum.splits)

lemma process_client_raised:
  assumes find: "find_client i s = Some c"
    and col: "collect batch_limit (in_buffer c) (input_offset c) = ([cmd], k, None)" and quiet: "drop (output_offset c) (out_buffer c) = []"
    and run: "process_client w i s = Some (Inl x, s')"
  shows "x = Error disk_write_failed \<or> x = Error socket_poll_failed \<and> (\<exists>n readable writable. \<not> w_watch w n readable writable)
    \<or> fst (execute_named (w_env w 0) (w_host w) (stats_of s) cmd []
          (if has_write [cmd] then begin_wal_batch (s_database s) else s_database s)) = Inl x \<and> \<not> is_bad_alloc x"
proof -
  obtain r out f d where ex: "execute_batch w (stats_of s) [cmd] (has_write [cmd]) [] (maintenance_failed s) (s_database s) = Some (r, out, f, d)"
    using run find col quiet by (auto simp: process_client_def Let_def split: option.splits)
  have "r = Inl x \<or> (\<exists>c1 s1. finish_client w (1 = batch_limit) i c1 s1 = (Inl x, s'))"
    using run find col quiet ex by (cases r) (auto simp: process_client_def Let_def split: if_splits)
  then show ?thesis using single_batch(3) [OF ex, of x] finish_client_raises by blast
qed

lemma read_loop_keeps:
  assumes "read_loop receipts n c = (e, c')" "length (rest c) \<le> max_input_buffer_size"
  shows "(\<exists>bs. in_buffer c' = in_buffer c @ bs) \<and> input_offset c' = input_offset c \<and> out_buffer c' = out_buffer c
    \<and> output_offset c' = output_offset c \<and> processing_queued c' = processing_queued c \<and> wire c' = wire c
    \<and> (e = Ready \<longrightarrow> length (rest c') \<le> max_input_buffer_size)"
  using assms
proof (induction receipts n c rule: read_loop.induct)
  case (1 receipts n c)
  show ?case
  proof (cases "receipts n")
    case (Received chunk)
    let ?c = "c\<lparr>in_buffer := in_buffer c @ chunk\<rparr>"
    consider "e = Overflow" "c' = ?c" | "e = Ready" "c' = ?c" "\<not> max_input_buffer_size < length (in_buffer ?c) - input_offset ?c"
      | "\<not> max_input_buffer_size < length (in_buffer ?c) - input_offset ?c" "\<not> length chunk < read_chunk_size"
        "read_loop receipts (Suc n) ?c = (e, c')"
      using "1.prems"(1) Received unfolding read_loop.simps [of receipts n c] Let_def by (auto split: if_splits)
    then show ?thesis
    proof cases
      case 3
      then have "length (rest ?c) \<le> max_input_buffer_size" by (simp add: rest_def)
      then show ?thesis using "1.IH" [OF Received refl 3(1,2,3)] by auto
    qed (auto simp: rest_def)
  qed (use "1.prems" in \<open>auto simp: read_loop.simps [of receipts n c] rest_def\<close>)
qed

lemma read_client_ok:
  assumes ok: "server_ok s" and w: "world_ok w"
  shows "returns server_ok (read_client w i s)"
proof (cases "find_client i s")
  case None
  then show ?thesis using ok by (simp add: read_client_def returns_def)
next
  case (Some c)
  note but = server_ok_but [OF ok Some]
  then have sz: "client_sized c" and live: "client_live (pending_clients s) i c" by (simp_all add: client_ok_def)
  obtain A where A: "db_inv (s_database s) A" using ok by (auto simp: server_ok_def)
  obtain e c1 where l: "read_loop (w_recv w) 0 c = (e, c1)" by fastforce
  have k: "(\<exists>bs. in_buffer c1 = in_buffer c @ bs) \<and> input_offset c1 = input_offset c \<and> out_buffer c1 = out_buffer c
    \<and> output_offset c1 = output_offset c \<and> processing_queued c1 = processing_queued c
    \<and> (e = Ready \<longrightarrow> length (rest c1) \<le> max_input_buffer_size)"
    using read_loop_keeps [OF l] sz by (simp add: client_sized_def)
  have off: "output_offset c1 \<le> length (out_buffer c1)" and inp: "input_offset c1 \<le> length (in_buffer c1)"
      "input_offset c1 < compact_buffer_threshold \<or> input_offset c1 * 2 < length (in_buffer c1)"
    and q: "processing_queued c1 \<Longrightarrow> i \<in> set (pending_clients s)"
    using k sz live by (auto simp: client_sized_def client_live_def)
  show ?thesis
  proof (cases "half_closed c")
    case True
    then show ?thesis using ok Some by (simp add: read_client_def returns_def)
  next
    case False
    show ?thesis
    proof (cases e)
      case Ready
      have "\<exists>r s'. process_client w i (put_client i c1 s) = Some (r, s') \<and> (r = Inr () \<longrightarrow> server_ok s' \<and>
          (\<forall>c'. find_client i s' = Some c' \<longrightarrow> answered w (put_client i c1 s) A c1 s' c'))"
        by (rule process_client_ok [OF but_put [OF but(1)]]) (use k Ready off inp q w A in auto)
      then show ?thesis using False Some l Ready by (auto simp: read_client_def returns_def)
    next
      case Overflow
      let ?s = "s\<lparr>input_buffer_disconnects := input_buffer_disconnects s + 1\<rparr>"
      have "server_but i ?s" using but(1) by (simp add: server_but_def table_sized_def)
      then show ?thesis
        using False Some l Overflow refuse_client_ok [OF _ off, of i ?s w "str (error_message request_too_large)"] q
        by (cases "refuse_client w (str (error_message request_too_large)) i c1 ?s")
          (auto simp: read_client_def returns_def simp del: error_message.simps)
    next
      case Gone
      then show ?thesis using False Some l but_remove [OF but(1)] by (simp add: read_client_def returns_def)
    qed
  qed
qed

lemma serve_next_ok:
  assumes ok: "server_ok s" and w: "world_ok w"
  shows "returns server_ok (serve_next w s)"
proof (cases "pending_clients s")
  case Nil
  then show ?thesis using ok by (simp add: serve_next_def returns_def)
next
  case (Cons i ps)
  let ?s = "s\<lparr>pending_clients := ps\<rparr>"
  obtain A where A: "db_inv (s_database s) A" using ok by (auto simp: server_ok_def)
  have others: "client_ok ps j c" if "j \<noteq> i" "find_client j s = Some c" for j c
    using ok that Cons by (auto simp: server_ok_def client_ok_def client_live_def)
  show ?thesis
  proof (cases "find_client i s")
    case None
    then have "client_ok ps j c" if "find_client j s = Some c" for j c using others [of j c] that by (cases "j = i") auto
    then have "server_ok ?s" using ok by (auto simp: server_ok_def table_sized_def)
    then show ?thesis using Cons None by (simp add: serve_next_def returns_def)
  next
    case (Some c)
    have but: "server_but i ?s" using ok others Some by (auto simp: server_ok_def server_but_def table_sized_def)
    have sz: "client_sized c" using ok Some by (auto simp: server_ok_def client_ok_def)
    let ?c = "c\<lparr>processing_queued := False\<rparr>"
    have "\<exists>r s'. process_client w i (put_client i ?c ?s) = Some (r, s') \<and> (r = Inr () \<longrightarrow> server_ok s' \<and>
        (\<forall>c'. find_client i s' = Some c' \<longrightarrow> answered w (put_client i ?c ?s) A ?c s' c'))"
      by (rule process_client_ok [OF but_put [OF but]]) (use sz w A in \<open>auto simp: client_sized_def\<close>)
    then show ?thesis using Cons Some by (auto simp: serve_next_def returns_def)
  qed
qed

section \<open>Connections\<close>

lemma next_id_mod: "n < 2 ^ 31 \<Longrightarrow> next_id n = (n + 1) mod 2 ^ 31"
  by (auto simp: next_id_def)

lemma free_id_none:
  assumes "n < 2 ^ 31" "free_id k n s = None" "j \<le> k"
  shows "(n + j) mod 2 ^ 31 \<in> set (ids s)"
  using assms
proof (induction k n s arbitrary: j rule: free_id.induct)
  case (1 n s)
  then show ?case by (auto simp: ids_find split: if_splits)
next
  case (2 k n s)
  have f: "find_client n s \<noteq> None" "free_id k (next_id n) s = None" using "2.prems"(2) by (auto split: if_splits)
  show ?case
  proof (cases j)
    case 0
    then show ?thesis using f(1) "2.prems"(1) by (simp add: ids_find)
  next
    case (Suc j')
    have "next_id n < 2 ^ 31" using "2.prems"(1) by (auto simp: next_id_def)
    then have "(next_id n + j') mod 2 ^ 31 \<in> set (ids s)" using "2.IH" [OF _ _ f(2)] f(1) "2.prems"(3) Suc by auto
    then show ?thesis using next_id_mod [OF "2.prems"(1)] Suc by (simp add: mod_add_left_eq)
  qed
qed

lemma free_id_some:
  assumes "free_id k n s = Some i" "n < 2 ^ 31"
  shows "find_client i s = None \<and> i < 2 ^ 31"
  using assms
proof (induction k n s rule: free_id.induct)
  case (2 k n s)
  have "next_id n < 2 ^ 31" using "2.prems"(2) by (auto simp: next_id_def)
  then show ?case using 2 by (auto split: if_splits)
qed (auto split: if_splits)

text \<open>The search for an identifier ends: there are more of them than clients.\<close>

lemma free_id_found:
  assumes "table_sized s" "length (ids s) < max_clients"
  shows "free_id (length (ids s)) (next_client_id s) s \<noteq> None"
proof
  assume none: "free_id (length (ids s)) (next_client_id s) s = None"
  let ?f = "\<lambda>j. (next_client_id s + j) mod 2 ^ 31" and ?J = "{..length (ids s)}"
  have n: "next_client_id s < 2 ^ 31" using assms(1) by (simp add: table_sized_def)
  have "inj_on ?f ?J"
  proof (rule inj_onI)
    fix x y assume xy: "x \<in> ?J" "y \<in> ?J" "?f x = ?f y"
    then have b: "x < 2 ^ 31" "y < 2 ^ 31" using assms(2) by (auto simp: max_clients_def)
    have m: "(next_client_id s + z) mod 2 ^ 31 = (if next_client_id s + z < 2 ^ 31 then next_client_id s + z else next_client_id s + z - 2 ^ 31)"
      if "z < 2 ^ 31" for z using that n by (simp add: mod_if)
    show "x = y" using xy(3) unfolding m [OF b(1)] m [OF b(2)] using b n by (simp split: if_splits)
  qed
  then have "card (?f ` ?J) = length (ids s) + 1" by (simp add: card_image)
  moreover have "?f ` ?J \<subseteq> set (ids s)" using free_id_none [OF n none] by auto
  ultimately have "length (ids s) + 1 \<le> card (set (ids s))" by (metis card_mono finite_set)
  then show False using card_length [of "ids s"] by simp
qed

lemma accept_one_ok:
  assumes ok: "server_ok s"
  shows "returns server_ok (accept_one attempt s)"
proof (cases "max_clients \<le> length (s_clients s)")
  case True
  then show ?thesis using ok by (cases attempt) (simp_all add: accept_one_def returns_def)
next
  case False
  have t: "table_sized s" using ok by (simp add: server_ok_def)
  have n: "next_client_id s < 2 ^ 31" using t by (simp add: table_sized_def)
  obtain i where i: "free_id (length (ids s)) (next_client_id s) s = Some i"
    using free_id_found [OF t] False by (auto simp: length_ids)
  note fi = free_id_some [OF i n]
  let ?s = "put_client i new_client (s\<lparr>next_client_id := next_id i\<rparr>)"
  have "i \<notin> set (ids s)" using fi ids_find by blast
  then have "filter (\<lambda>j. j \<noteq> i) (ids s) = ids s" by (auto simp: filter_id_conv)
  then have "table_sized ?s" using t fi False \<open>i \<notin> set (ids s)\<close> by (auto simp: table_sized_def ids_put length_ids next_id_def)
  moreover have "client_ok queue i new_client" for queue
    by (simp add: client_ok_def client_sized_def client_live_def new_client_def rest_def awaits_input_def compact_buffer_threshold_def)
  ultimately have "server_ok ?s" using ok by (auto simp: server_ok_def)
  then show ?thesis using False i by (cases attempt) (simp_all add: accept_one_def returns_def Let_def length_ids)
qed

lemma accept_connections_ok: "server_ok s \<Longrightarrow> returns server_ok (accept_connections attempts k i s)"
proof (induction attempts k i s rule: accept_connections.induct)
  case (2 attempts k i s)
  obtain x s1 where a: "accept_one (attempts i) s = Some (x, s1)" "x = Inr () \<longrightarrow> server_ok s1"
    using accept_one_ok [OF "2.prems", of "attempts i"] unfolding returns_def by blast
  show ?case
  proof (cases x)
    case (Inl y)
    then show ?thesis using a by (simp add: returns_def)
  next
    case (Inr u)
    then show ?thesis using a "2.IH" [OF a(1) [unfolded Inr] refl refl] by (simp add: returns_def)
  qed
qed (simp add: returns_def)

lemma maintain_ok:
  assumes ok: "server_ok s" and e: "env_ok e"
  shows "server_ok (maintain e evicting s)"
proof -
  obtain A where A: "db_inv (s_database s) A" using ok by (auto simp: server_ok_def)
  have set: "server_ok (s\<lparr>s_database := d\<rparr>)" "server_ok (s\<lparr>s_database := d, maintenance_failed := True\<rparr>)" if "db_inv d B" for d B
    using ok that by (auto simp: server_ok_def table_sized_def)
  show ?thesis
  proof (cases evicting)
    case True
    obtain r d where run: "evict_to e (max_keys (s_database s)) eviction_slice (s_database s) = (r, d)" by fastforce
    then obtain B where "db_inv d B" using evict_to_spec [OF A e run] by blast
    then show ?thesis using True run ok set by (cases r) (auto simp: maintain_def Let_def)
  next
    case False
    obtain r d where run: "remove_expired e expiry_slice (s_database s) = (r, d)" by fastforce
    then obtain B where "db_inv d B" using remove_expired_spec [OF A e run] by blast
    then show ?thesis using False run ok set by (cases r) (auto simp: maintain_def Let_def)
  qed
qed

lemma server_init_ok: "db_inv d A \<Longrightarrow> server_ok (server_init now d)"
  by (auto simp: server_ok_def server_init_def table_sized_def ids_def find_client_def)

lemma remove_client_ok: "server_ok s \<Longrightarrow> server_ok (remove_client i s)"
  using table_remove by (auto simp: server_ok_def)

section \<open>The event loop\<close>

text \<open>
  What the loop relies on: every operation it calls ends, and keeps a property of the server unless
  it raises. The loop then ends its turn and keeps the property.
\<close>

locale event_loop =
  fixes ok :: "server \<Rightarrow> bool" and fine :: "world \<Rightarrow> bool"
  assumes reads: "ok s \<Longrightarrow> fine w \<Longrightarrow> returns ok (read_client w i s)"
    and flushes: "ok s \<Longrightarrow> returns ok (Some (flush_client answers b i s))"
    and serves: "ok s \<Longrightarrow> fine w \<Longrightarrow> returns ok (serve_next w s)"
    and accepts: "ok s \<Longrightarrow> returns ok (accept_connections attempts k i s)"
    and drops: "ok s \<Longrightarrow> ok (remove_client i s)"
begin

lemma after_returns: "returns ok r \<Longrightarrow> (\<And>s. ok s \<Longrightarrow> returns ok (f s)) \<Longrightarrow> returns ok (after r f)"
  unfolding returns_def after_def by (elim exE conjE) (auto split: sum.splits)

lemma quiet: "ok s \<Longrightarrow> returns ok (Some (Inr (), s))"
  by (simp add: returns_def)

lemma client_event_returns:
  assumes "ok s" "fine w1"
  shows "returns ok (client_event w1 w2 i readable writable failed s)"
proof -
  let ?last = "\<lambda>s2. if find_client i s2 = None then Some (Inr (), s2) else Some (Inr (), if failed then remove_client i s2 else s2)"
  have l: "returns ok (?last s2)" if "ok s2" for s2 using that drops quiet by simp
  let ?mid = "\<lambda>s1. if find_client i s1 = None then Some (Inr (), s1)
    else after (Some (if writable then flush_client (w_send w2) (w_watch w2 0) i s1 else (Inr (), s1))) ?last"
  have m: "returns ok (?mid s1)" if "ok s1" for s1
    using that quiet flushes after_returns [OF _ l] by simp
  show ?thesis
    unfolding client_event_def using assms quiet reads after_returns [OF _ m] by simp
qed

lemma handle_event_returns: "ok s \<Longrightarrow> fine w1 \<Longrightarrow> returns ok (handle_event w1 w2 ev s)"
  by (cases ev) (simp_all add: handle_event_def accepts client_event_returns, simp add: returns_def)

lemma handle_events_returns: "ok s \<Longrightarrow> (\<And>n. fine (ws n)) \<Longrightarrow> returns ok (handle_events ws n evs s)"
proof (induction evs arbitrary: n s)
  case (Cons ev evs)
  then show ?case using after_returns [OF handle_event_returns] by simp
qed (simp add: quiet)

lemma serve_pending_returns: "ok s \<Longrightarrow> (\<And>n. fine (ws n)) \<Longrightarrow> returns ok (serve_pending ws k s)"
proof (induction k arbitrary: s)
  case (Suc k)
  then show ?case using after_returns [OF serves] by simp
qed (simp add: quiet)

lemma serve_round_returns:
  assumes "ok s" "\<And>n. fine (ws1 n)" "\<And>n. fine (ws2 n)"
  shows "returns ok (serve_round ws1 ws2 evs s)"
  using assms after_returns [OF serve_pending_returns handle_events_returns] by (simp add: serve_round_def) (simp add: returns_def)

end

lemma flush_returns: "server_ok s \<Longrightarrow> returns server_ok (Some (flush_client answers b i s))"
  using flush_client_ok by (cases "flush_client answers b i s") (auto simp: returns_def)

interpretation kept: event_loop server_ok world_ok
  by unfold_locales (simp_all add: read_client_ok flush_returns serve_next_ok accept_connections_ok remove_client_ok)

lemma returns_some: "returns P r \<Longrightarrow> r = Some (Inr (), s') \<Longrightarrow> P s'"
  by (auto simp: returns_def)

lemma server_reachable_ok: "server_reachable s \<Longrightarrow> server_ok s"
proof (induction rule: server_reachable.induct)
  case (opened d now)
  then show ?case using reachable_inv server_init_ok by blast
next
  case (accepting s attempts k i s')
  then show ?case using returns_some [OF accept_connections_ok] by blast
next
  case (reading s w i s')
  then show ?case using returns_some [OF read_client_ok] by blast
next
  case (flushing s answers b i s')
  then show ?case using flush_client_ok by blast
next
  case (serving s w s')
  then show ?case using returns_some [OF serve_next_ok] by blast
next
  case (dropping s i)
  then show ?case using remove_client_ok by blast
next
  case (maintaining s e evicting)
  then show ?case using maintain_ok by blast
qed

lemma returns_strong: "returns P r \<Longrightarrow> (\<And>s'. r = Some (Inr (), s') \<Longrightarrow> Q s') \<Longrightarrow> returns Q r"
  by (auto simp: returns_def)

interpretation reached: event_loop server_reachable world_ok
proof unfold_locales
  show "returns server_reachable (read_client w i s)" if "server_reachable s" "world_ok w" for s w i
    by (rule returns_strong [OF read_client_ok [OF server_reachable_ok [OF that(1)] that(2)]]) (rule reading [OF that])
  show "returns server_reachable (Some (flush_client answers b i s))" if "server_reachable s" for s answers b i
    by (rule returns_strong [OF flush_returns [OF server_reachable_ok [OF that]]]) (rule flushing [OF that], simp)
  show "returns server_reachable (serve_next w s)" if "server_reachable s" "world_ok w" for s w
    by (rule returns_strong [OF serve_next_ok [OF server_reachable_ok [OF that(1)] that(2)]]) (rule serving [OF that])
  show "returns server_reachable (accept_connections attempts k i s)" if "server_reachable s" for s attempts k i
    by (rule returns_strong [OF accept_connections_ok [OF server_reachable_ok [OF that]]]) (rule accepting [OF that])
qed (rule dropping)

section \<open>Results\<close>

lemma sample_world_ok: "world_ok sample_world"
  by (simp add: world_ok_def sample_world_def sample_env_ok sample_clock)

lemma sample_server_ok: "server_ok sample_server" "find_client 0 sample_server = Some sample_client" "s_database sample_server = sample_db"
proof -
  have c: "client_ok [0] 0 sample_client"
    by (simp add: client_ok_def client_sized_def client_live_def sample_client_def new_client_def rest_def CRLF_def
        max_input_buffer_size_def max_output_buffer_size_def compact_buffer_threshold_def)
  show f: "find_client 0 sample_server = Some sample_client" by (simp add: sample_server_def)
  show d: "s_database sample_server = sample_db" by (simp add: sample_server_def server_init_def)
  have "find_client j sample_server = (if j = 0 then Some sample_client else None)" for j
    by (simp add: sample_server_def server_init_def find_client_def put_client_def)
  moreover have "table_sized sample_server" "pending_clients sample_server = [0]"
    by (simp_all add: table_sized_def sample_server_def ids_def put_client_def server_init_def max_clients_def)
  ultimately show "server_ok sample_server" using c d sample_db_inv by (auto simp: server_ok_def)
qed

text \<open>
  C2. A turn of a client ends. Unless it raises, the server keeps its invariant and a client that is
  still connected has been served: the complete requests at the head of its input were executed in
  the order they were sent, each with the reply and the effect its meaning gives, the bytes for the
  client grew by exactly those replies in the same order, followed by one error when the input is not
  a request, the executed requests left the input and nothing else did, and the keyspace was brought
  within its capacity; the replies of a turn fit one mebibyte.
\<close>

theorem turn_answers:
  assumes "server_ok s" "world_ok w" "db_inv (s_database s) A" "find_client i s = Some c"
  shows "case process_client w i s of
      None \<Rightarrow> False
    | Some (Inl x, s') \<Rightarrow> True
    | Some (Inr _, s') \<Rightarrow> server_ok s' \<and>
        (case find_client i s' of
           None \<Rightarrow> True
         | Some c' \<Rightarrow>
             (case collect batch_limit (in_buffer c) (input_offset c) of (cs, off, problem) \<Rightarrow>
                \<exists>rs d1 B C. replies (w_env w) (w_host w) (stats_of s) 0 cs
                    (if has_write cs then begin_wal_batch (s_database s) else s_database s) A rs d1 B
                  \<and> maintained B C \<and> db_inv (s_database s') C
                  \<and> (cs = [] \<or> key_total (s_database s') \<le> max_keys (s_database s'))
                  \<and> length (concat (map encode_reply rs)) \<le> max_output_buffer_size
                  \<and> stream c' = stream c @ concat (map encode_reply rs) @ protocol_reply problem
                  \<and> rest c' = (if problem = None then drop off (in_buffer c) else [])))"
proof -
  note but = server_ok_but [OF assms(1,4)]
  have "\<exists>r s'. process_client w i s = Some (r, s')
    \<and> (r = Inr () \<longrightarrow> server_ok s' \<and> (\<forall>c'. find_client i s' = Some c' \<longrightarrow> answered w s A c s' c'))"
    by (rule process_client_ok [OF but(1) assms(4)])
      (use but(2) assms(2,3) in \<open>auto simp: client_ok_def client_sized_def client_live_def\<close>)
  then obtain r s' where r: "process_client w i s = Some (r, s')"
    "r = Inr () \<longrightarrow> server_ok s' \<and> (\<forall>c'. find_client i s' = Some c' \<longrightarrow> answered w s A c s' c')" by (elim exE conjE)
  show ?thesis
  proof (cases r)
    case (Inr u)
    then have ok: "server_ok s'" and a: "\<And>c'. find_client i s' = Some c' \<Longrightarrow> answered w s A c s' c'" using r(2) by simp_all
    show ?thesis
    proof (cases "find_client i s'")
      case (Some c')
      show ?thesis using a [OF Some, unfolded answered_def imp_conv_disj not_not] ok Some r(1) Inr by simp
    qed (use r(1) Inr ok in simp)
  qed (use r(1) in simp)
qed

theorem turn_answers_witness:
  "case process_client sample_world 0 sample_server of
      None \<Rightarrow> False
    | Some (Inl x, s') \<Rightarrow> True
    | Some (Inr _, s') \<Rightarrow> server_ok s' \<and>
        (case find_client 0 s' of
           None \<Rightarrow> True
         | Some c' \<Rightarrow>
             (case collect batch_limit (in_buffer sample_client) (input_offset sample_client) of (cs, off, problem) \<Rightarrow>
                \<exists>rs d1 B C. replies (w_env sample_world) (w_host sample_world) (stats_of sample_server) 0 cs
                    (if has_write cs then begin_wal_batch (s_database sample_server) else s_database sample_server) sample_keys rs d1 B
                  \<and> maintained B C \<and> db_inv (s_database s') C
                  \<and> (cs = [] \<or> key_total (s_database s') \<le> max_keys (s_database s'))
                  \<and> length (concat (map encode_reply rs)) \<le> max_output_buffer_size
                  \<and> stream c' = stream sample_client @ concat (map encode_reply rs) @ protocol_reply problem
                  \<and> rest c' = (if problem = None then drop off (in_buffer sample_client) else [])))"
  using turn_answers [OF sample_server_ok(1) sample_world_ok _ sample_server_ok(2), of sample_keys] sample_db_inv sample_server_ok(3) by simp

text \<open>A server that starts without a log, or with a new one, is in a reachable state.\<close>

lemma server_start_reachable:
  assumes "server_start e es now keys memory wal = (Inr (), s)" "env_ok e" "wal = None \<or> wal = Some (sync, None)"
  shows "server_reachable s"
proof (cases wal)
  case None
  then show ?thesis using assms(1) opened [OF reachable.start] by (auto simp: server_start_def)
next
  case (Some p)
  then have w: "wal = Some (sync, None)" using assms(3) by simp
  obtain r path d where o: "open_wal e es sync None (db_init keys memory) = (r, path, d)" by (rule prod_cases3)
  then show ?thesis using assms(1) w opened [OF reachable.fresh [OF o assms(2)]] by (auto simp: server_start_def)
qed

lemma joined_reachable: "server_reachable joined_server"
proof -
  have "accept_connections (\<lambda>_. Accepted (\<lambda>_ _. True)) 1 0 (server_init 0 (db_init 16 0)) = Some (Inr (), joined_server)"
    by (simp add: accept_one_def server_init_def max_clients_def find_client_def joined_server_def next_id_def)
  then show ?thesis by (rule accepting [OF opened [OF reachable.start]])
qed

lemma joined_clients: "s_clients joined_server = [(0, new_client)]"
  by (simp add: joined_server_def put_client_def server_init_def)

lemma client_found:
  assumes "server_ok s" "(i, c) \<in> set (s_clients s)"
  shows "find_client i s = Some c"
  using assms by (simp add: server_ok_def table_sized_def ids_def find_client_def)

text \<open>
  C5. In every state of the server, reached by any sequence of connections, reads of any size,
  partial sends, turns, failures and maintenance, there are at most 4096 clients with distinct
  identifiers that fit a C++ int, and no client holds more than two mebibytes of input, one of them
  unread, or more than one of output.
\<close>

theorem server_bounded:
  assumes "server_reachable s"
  shows "length (s_clients s) \<le> max_clients \<and> distinct (map fst (s_clients s))
    \<and> list_all (\<lambda>(i, c). i < 2 ^ 31 \<and> length (in_buffer c) \<le> 2 * max_input_buffer_size
         \<and> input_offset c \<le> length (in_buffer c) \<and> length (in_buffer c) - input_offset c \<le> max_input_buffer_size
         \<and> output_offset c \<le> length (out_buffer c) \<and> length (out_buffer c) \<le> max_output_buffer_size) (s_clients s)"
proof -
  note ok = server_reachable_ok [OF assms]
  then have t: "table_sized s" by (simp add: server_ok_def)
  have "client_sized c \<and> i < 2 ^ 31" if "(i, c) \<in> set (s_clients s)" for i c
    using ok client_found [OF ok that] t that by (force simp: server_ok_def client_ok_def table_sized_def ids_def)
  then show ?thesis
    using t input_small by (force simp: table_sized_def ids_def list_all_iff client_sized_def rest_def)
qed

theorem server_bounded_witness:
  "server_reachable joined_server \<and> s_clients joined_server = [(0, new_client)]
    \<and> length (s_clients joined_server) \<le> max_clients \<and> distinct (map fst (s_clients joined_server))
    \<and> list_all (\<lambda>(i, c). i < 2 ^ 31 \<and> length (in_buffer c) \<le> 2 * max_input_buffer_size
         \<and> input_offset c \<le> length (in_buffer c) \<and> length (in_buffer c) - input_offset c \<le> max_input_buffer_size
         \<and> output_offset c \<le> length (out_buffer c) \<and> length (out_buffer c) \<le> max_output_buffer_size) (s_clients joined_server)"
  using joined_reachable joined_clients server_bounded [OF joined_reachable] by blast

text \<open>
  C6. No client is forgotten: in every reachable state a client whose input holds a complete request
  is in the queue of clients to be served, output that waits is watched for, and a client that is to
  be closed still has output or queued input, after which it is closed.
\<close>

theorem no_client_forgotten:
  assumes "server_reachable s"
  shows "list_all (\<lambda>(i, c).
      (i \<in> set (pending_clients s) \<and> processing_queued c \<or> (\<not> processing_queued c \<and> awaits_input (drop (input_offset c) (in_buffer c))))
      \<and> (length (out_buffer c) \<le> output_offset c \<or> watching_write c)
      \<and> (\<not> close_after_write c \<or> output_offset c < length (out_buffer c) \<or> processing_queued c)) (s_clients s)"
proof -
  note ok = server_reachable_ok [OF assms]
  have "client_live (pending_clients s) i c" if "(i, c) \<in> set (s_clients s)" for i c
    using ok client_found [OF ok that] by (auto simp: server_ok_def client_ok_def)
  then show ?thesis by (force simp: list_all_iff client_live_def rest_def)
qed

theorem no_client_forgotten_witness:
  "server_reachable joined_server \<and> s_clients joined_server = [(0, new_client)] \<and> list_all (\<lambda>(i, c).
      (i \<in> set (pending_clients joined_server) \<and> processing_queued c
        \<or> (\<not> processing_queued c \<and> awaits_input (drop (input_offset c) (in_buffer c))))
      \<and> (length (out_buffer c) \<le> output_offset c \<or> watching_write c)
      \<and> (\<not> close_after_write c \<or> output_offset c < length (out_buffer c) \<or> processing_queued c)) (s_clients joined_server)"
  by (intro conjI joined_reachable joined_clients no_client_forgotten)

text \<open>
  C7. Every turn of the event loop ends, whatever the events, the sizes of the reads and writes and
  the answers of the system: the parsing, receiving and sending loops, the search for a free
  identifier and the wait for maintenance all stop. Unless it raises, the server is again in a
  reachable state.
\<close>

theorem round_ends:
  assumes "server_reachable s" "\<forall>n. world_ok (ws1 n) \<and> world_ok (ws2 n)"
  shows "case serve_round ws1 ws2 evs s of
      None \<Rightarrow> False
    | Some (Inl x, s') \<Rightarrow> True
    | Some (Inr _, s') \<Rightarrow> server_reachable s'"
proof -
  have "returns server_reachable (serve_round ws1 ws2 evs s)"
    using assms by (intro reached.serve_round_returns) auto
  then obtain r s' where "serve_round ws1 ws2 evs s = Some (r, s')" "r = Inr () \<longrightarrow> server_reachable s'"
    by (auto simp: returns_def)
  then show ?thesis by (cases r) simp_all
qed

theorem round_ends_witness:
  "case serve_round (\<lambda>_. sample_world) (\<lambda>_. sample_world) [Connections 2, Client_event 0 True True False] joined_server of
      None \<Rightarrow> False
    | Some (Inl x, s') \<Rightarrow> True
    | Some (Inr _, s') \<Rightarrow> server_reachable s'"
  using round_ends [OF joined_reachable, of "\<lambda>_. sample_world" "\<lambda>_. sample_world"] sample_world_ok by simp

text \<open>
  C15. The wait of a batch for the maintenance thread ends: as many passes as there are keys are
  enough, every one of them only sweeps expired keys and evicts the least recently used, and
  afterwards the thread has failed or the keys are within the capacity.
\<close>

theorem batch_wait_ends:
  assumes "db_inv d A" "\<forall>i. env_ok (sw i) \<and> env_ok (ev i)"
  shows "case await_capacity sw ev (key_total d) 0 failed d of
      None \<Rightarrow> False
    | Some (failed', d') \<Rightarrow> (\<exists>B. db_inv d' B \<and> maintained A B) \<and> (failed' \<or> key_total d' \<le> max_keys d')"
  using await_capacity_ends [of d A sw ev "key_total d" 0 failed] assms by auto

theorem batch_wait_ends_witness:
  "case await_capacity (\<lambda>_. sample_env) (\<lambda>_. sample_env) (key_total sample_db) 0 False sample_db of
      None \<Rightarrow> False
    | Some (failed', d') \<Rightarrow> (\<exists>B. db_inv d' B \<and> maintained sample_keys B) \<and> (failed' \<or> key_total d' \<le> max_keys d')"
  using batch_wait_ends [OF sample_db_inv, of "\<lambda>_. sample_env" "\<lambda>_. sample_env"] sample_env_ok by simp

text \<open>
  C17. How the network cuts the input does not matter: parsing a first piece, and going on from where
  it stopped when more bytes have come, gives the commands, the position and the error that parsing
  all of it at once gives.
\<close>

theorem input_chunks:
  assumes "off \<le> length first"
  shows "collect n (first @ more_bytes) off =
    (case collect n first off of
       (cs, off', Some code) \<Rightarrow> (cs, off', Some code)
     | (cs, off', None) \<Rightarrow> (case collect (n - length cs) (first @ more_bytes) off' of (cs2, off2, e2) \<Rightarrow> (cs @ cs2, off2, e2)))"
  using collect_more [OF _ assms, of n _ _ _ more_bytes]
  by (cases "collect n first off") (auto split: option.splits)

theorem input_chunks_witness:
  "collect 2 ((str ''*1'' @ CRLF @ str ''$4'' @ CRLF @ str ''PI'') @ (str ''NG'' @ CRLF)) 0 =
    (case collect 2 (str ''*1'' @ CRLF @ str ''$4'' @ CRLF @ str ''PI'') 0 of
       (cs, off', Some code) \<Rightarrow> (cs, off', Some code)
     | (cs, off', None) \<Rightarrow>
         (case collect (2 - length cs) ((str ''*1'' @ CRLF @ str ''$4'' @ CRLF @ str ''PI'') @ (str ''NG'' @ CRLF)) off' of
            (cs2, off2, e2) \<Rightarrow> (cs @ cs2, off2, e2)))"
  by (rule input_chunks) simp

text \<open>
  C16. Sending loses, repeats and reorders nothing: however many bytes each call of the system takes,
  and however the buffer is compacted between them, the bytes sent followed by the bytes waiting are
  the same before and after.
\<close>

theorem flush_keeps_stream:
  assumes "server_ok s" "find_client i s = Some c"
  shows "case flush_client answers watched i s of
      (Inl x, s') \<Rightarrow> True
    | (Inr _, s') \<Rightarrow> server_ok s' \<and>
        (case find_client i s' of
           None \<Rightarrow> True
         | Some c' \<Rightarrow> wire c' @ drop (output_offset c') (out_buffer c') = wire c @ drop (output_offset c) (out_buffer c))"
  using flush_client_ok [OF assms(1), of answers watched i] assms(2)
  by (cases "flush_client answers watched i s") (auto simp: stream_def split: sum.splits option.splits)

theorem flush_keeps_stream_witness:
  "case flush_client (\<lambda>_. Sent 1) (\<lambda>_ _. True) 0 sample_server of
      (Inl x, s') \<Rightarrow> True
    | (Inr _, s') \<Rightarrow> server_ok s' \<and>
        (case find_client 0 s' of
           None \<Rightarrow> True
         | Some c' \<Rightarrow> wire c' @ drop (output_offset c') (out_buffer c')
             = wire sample_client @ drop (output_offset sample_client) (out_buffer sample_client))"
  using flush_keeps_stream [OF sample_server_ok(1,2)] .

end
