(* ===== verification/Client.thy ===== *)
theory Client
  imports ServerLoop
begin

text \<open>
  The C++ client library (client.cpp and socket.cpp under src/client): the request of a call, the
  sending and receiving loops with their interruptions, the scan of the reply, and the calls. A call
  is followed through the server and back, and always returns.
\<close>

section \<open>Definitions\<close>

text \<open>
  The answers of the system to \<^verbatim>\<open>::recv\<close> and to \<^verbatim>\<open>::send\<close>: bytes, of which none means that the
  server has closed the connection, an interruption, or a failure.
\<close>

datatype receiving = Got bytes | Recv_interrupted | Recv_failed

datatype putting = Took nat | Send_interrupted | Send_refused

text \<open>A result is a value or a message.\<close>

type_synonym 'a expected = "bytes + 'a"

definition closed_message :: bytes where
  "closed_message = str ''Server closed connection''"

definition client_limit :: nat where
  "client_limit = 16 * 1024 * 1024"

text \<open>
  \<^verbatim>\<open>Socket::receive\<close> and \<^verbatim>\<open>Socket::send\<close>. The call starts with the \<open>n\<close>-th answer and gives the number
  of the next one; an endless run of interruptions is \<open>None\<close>. Sending also gives the bytes the system
  has taken.
\<close>

partial_function (option) socket_receive :: "(nat \<Rightarrow> receiving) \<Rightarrow> nat \<Rightarrow> (bytes expected \<times> nat) option" where
  "socket_receive rs n =
     (case rs n of
        Recv_interrupted \<Rightarrow> socket_receive rs (Suc n)
      | Recv_failed \<Rightarrow> Some (Inl closed_message, Suc n)
      | Got chunk \<Rightarrow> Some (if chunk = [] then Inl closed_message else Inr chunk, Suc n))"

partial_function (option) send_loop :: "(nat \<Rightarrow> putting) \<Rightarrow> nat \<Rightarrow> bytes \<Rightarrow> nat \<Rightarrow> (nat expected \<times> bytes) option" where
  "send_loop ps n data off =
     (if length data \<le> off then Some (Inr off, take off data)
      else case ps n of
        Send_interrupted \<Rightarrow> send_loop ps (Suc n) data off
      | Send_refused \<Rightarrow> Some (Inl (str ''Failed to send command''), take off data)
      | Took k \<Rightarrow>
          if k = 0 then Some (Inl closed_message, take off data)
          else send_loop ps (Suc n) data (off + min k (length data - off)))"

definition socket_send :: "(nat \<Rightarrow> putting) \<Rightarrow> bytes \<Rightarrow> (nat expected \<times> bytes) option" where
  "socket_send ps data =
     (if 2 ^ 31 - 1 < length data then Some (Inl (str ''Command too large''), []) else send_loop ps 0 data 0)"

definition client_request :: "bytes list \<Rightarrow> bytes" where
  "client_request command =
     str ''*'' @ decimal_nat (length command) @ CRLF
     @ concat (map (\<lambda>part. str ''$'' @ decimal_nat (length part) @ CRLF @ part @ CRLF) command)"

text \<open>One look at the response from a position on: it is refused, more bytes are needed, or a reply ends.\<close>

datatype scan = Reject bytes | More_needed | Advance nat nat

definition advance :: "nat \<Rightarrow> nat \<Rightarrow> nat \<Rightarrow> scan" where
  "advance position pending extra =
     (let pending1 = pending - 1 + extra
      in if client_limit < pending1 then Reject (str ''RESP reply too large'') else Advance position pending1)"

definition reply_step :: "bytes \<Rightarrow> nat \<Rightarrow> nat \<Rightarrow> scan" where
  "reply_step response position pending =
     (case find_crlf (drop position response) of
        None \<Rightarrow> More_needed
      | Some n \<Rightarrow>
          let line_end = position + n;
              kind = response ! position;
              number = from_chars_i64 (take (n - 1) (drop (position + 1) response));
              after = line_end + 2
          in if kind = 58 \<and> number = None then Reject (str ''Invalid RESP integer'')
             else if kind = 36 \<or> kind = 42 then
               (case number of
                  None \<Rightarrow> Reject (str ''Invalid RESP length'')
                | Some v \<Rightarrow>
                    if sint v < -1 \<or> int client_limit < sint v then Reject (str ''Invalid RESP length'')
                    else if kind = 36 \<and> 0 \<le> sint v then
                      let stop = after + nat (sint v) + 2
                      in if client_limit < stop then Reject (str ''RESP reply too large'')
                         else if length response < stop then More_needed
                         else if take 2 (drop (stop - 2) response) \<noteq> CRLF then Reject (str ''Invalid RESP bulk terminator'')
                         else advance stop pending 0
                    else advance after pending (if kind = 42 \<and> 0 < sint v then nat (sint v) else 0))
             else if kind \<noteq> 43 \<and> kind \<noteq> 45 \<and> kind \<noteq> 58 then Reject (str ''Invalid RESP reply type'')
             else advance after pending 0)"

text \<open>The loop of \<^verbatim>\<open>execute\<close>.\<close>

partial_function (option) reply_loop ::
  "(nat \<Rightarrow> receiving) \<Rightarrow> nat \<Rightarrow> bytes \<Rightarrow> nat \<Rightarrow> nat \<Rightarrow> (bytes expected \<times> nat) option"
where
  "reply_loop rs n response position pending =
     (if pending = 0 then
        Some (if position \<noteq> length response then Inl (str ''Unexpected data after RESP reply'') else Inr response, n)
      else case reply_step response position pending of
        Reject message \<Rightarrow> Some (Inl message, n)
      | Advance position1 pending1 \<Rightarrow> reply_loop rs n response position1 pending1
      | More_needed \<Rightarrow>
          Option.bind (socket_receive rs n) (\<lambda>(r, n1).
            case r of
              Inl message \<Rightarrow> Some (Inl message, n1)
            | Inr chunk \<Rightarrow>
                if client_limit < length response + length chunk then Some (Inl (str ''RESP reply too large''), n1)
                else reply_loop rs n1 (response @ chunk) position pending))"

text \<open>A call: its result, the bytes that went out, and whether the connection is still open.\<close>

definition client_execute ::
  "(nat \<Rightarrow> putting) \<Rightarrow> (nat \<Rightarrow> receiving) \<Rightarrow> bytes list \<Rightarrow> (bytes expected \<times> bytes \<times> bool) option"
where
  "client_execute ps rs command =
     Option.bind (socket_send ps (client_request command)) (\<lambda>(sent, wired).
       case sent of
         Inl message \<Rightarrow> Some (Inl message, wired, False)
       | Inr _ \<Rightarrow> Option.bind (reply_loop rs 0 [] 0 1) (\<lambda>(r, n). Some (r, wired, \<not> isl r)))"

text \<open>The calls of the library, as the command each sends.\<close>

definition call_ping :: "bytes list" where
  "call_ping = [str ''PING'']"

definition call_set :: "bytes \<Rightarrow> bytes \<Rightarrow> bytes list" where
  "call_set key val = [str ''SET'', key, val]"

definition call_get :: "bytes \<Rightarrow> bytes list" where
  "call_get key = [str ''GET'', key]"

definition call_increment :: "bytes \<Rightarrow> bytes list" where
  "call_increment key = [str ''INCR'', key]"

definition call_del :: "bytes \<Rightarrow> bytes list" where
  "call_del key = [str ''DEL'', key]"

definition call_expire :: "bytes \<Rightarrow> int64 \<Rightarrow> bytes list" where
  "call_expire key seconds = [str ''EXPIRE'', key, decimal (sint seconds)]"

definition call_ttl :: "bytes \<Rightarrow> bytes list" where
  "call_ttl key = [str ''TTL'', key]"

definition call_lpush :: "bytes \<Rightarrow> bytes \<Rightarrow> bytes list" where
  "call_lpush key val = [str ''LPUSH'', key, val]"

definition call_rpush :: "bytes \<Rightarrow> bytes \<Rightarrow> bytes list" where
  "call_rpush key val = [str ''RPUSH'', key, val]"

definition call_lpop :: "bytes \<Rightarrow> bytes list" where
  "call_lpop key = [str ''LPOP'', key]"

definition call_rpop :: "bytes \<Rightarrow> bytes list" where
  "call_rpop key = [str ''RPOP'', key]"

definition call_llen :: "bytes \<Rightarrow> bytes list" where
  "call_llen key = [str ''LLEN'', key]"

definition call_hset :: "bytes \<Rightarrow> bytes \<Rightarrow> bytes \<Rightarrow> bytes list" where
  "call_hset key field val = [str ''HSET'', key, field, val]"

definition call_hget :: "bytes \<Rightarrow> bytes \<Rightarrow> bytes list" where
  "call_hget key field = [str ''HGET'', key, field]"

definition call_hdel :: "bytes \<Rightarrow> bytes \<Rightarrow> bytes list" where
  "call_hdel key field = [str ''HDEL'', key, field]"

definition call_hlen :: "bytes \<Rightarrow> bytes list" where
  "call_hlen key = [str ''HLEN'', key]"

definition call_info :: "bytes \<Rightarrow> bytes list" where
  "call_info part = (if part = [] then [str ''INFO''] else [str ''INFO'', part])"

text \<open>The answers from the \<open>n\<close>-th on, up to another one, bring given bytes, in pieces and with interruptions.\<close>

inductive delivers :: "(nat \<Rightarrow> receiving) \<Rightarrow> nat \<Rightarrow> bytes \<Rightarrow> nat \<Rightarrow> bool" for rs where
  all_there: "delivers rs n [] n"
| interrupted: "rs n = Recv_interrupted \<Longrightarrow> delivers rs (Suc n) bs n' \<Longrightarrow> bs \<noteq> [] \<Longrightarrow> delivers rs n bs n'"
| piece: "rs n = Got chunk \<Longrightarrow> chunk \<noteq> [] \<Longrightarrow> delivers rs (Suc n) bs n' \<Longrightarrow> delivers rs n (chunk @ bs) n'"

definition always_answers :: "('a \<Rightarrow> bool) \<Rightarrow> (nat \<Rightarrow> 'a) \<Rightarrow> bool" where
  "always_answers P xs \<longleftrightarrow> (\<forall>n. \<exists>m \<ge> n. P (xs m))"

text \<open>Bytes cut into pieces of given sizes, and the system that brings them one by one.\<close>

fun chop :: "nat list \<Rightarrow> bytes \<Rightarrow> bytes list" where
  "chop sizes [] = []"
| "chop [] bs = [bs]"
| "chop (k # ks) bs = take (Suc k) bs # chop ks (drop (Suc k) bs)"

definition feed :: "bytes list \<Rightarrow> nat \<Rightarrow> receiving" where
  "feed pieces k = (if k < length pieces then Got (pieces ! k) else Recv_failed)"

inductive_cases replies_noneE: "replies es h stats i [] d A rs d' B"

inductive_cases replies_oneE: "replies es h stats i (c # cs) d A rs d' B"

text \<open>A reply a command may be answered with, and the keyspace after it.\<close>

definition one_answer :: "(nat \<Rightarrow> env) \<Rightarrow> host \<Rightarrow> server_stats \<Rightarrow> db \<Rightarrow> bytes list \<Rightarrow> keyspace \<Rightarrow> resp \<Rightarrow> keyspace \<Rightarrow> bool" where
  "one_answer es h stats d command A r B \<longleftrightarrow>
     a_execute es h stats d (cid (classify_command (hd command))) (hd command) (tl command) A = (r, B)
     \<or> r = Err out_of_memory \<and> ks_map B \<subseteq>\<^sub>m ks_map A"

definition calling_client :: client_info where
  "calling_client = new_client\<lparr>in_buffer := client_request (call_set (str ''k'') (str ''8'')), processing_queued := True,
     wire := str ''+OK'' @ CRLF\<rparr>"

definition calling_server :: server where
  "calling_server = put_client 0 calling_client ((server_init 0 sample_db)\<lparr>pending_clients := [0], next_client_id := 1\<rparr>)"

section \<open>Reading one reply\<close>

lemma request_eq: "client_request ss = encode_request ss"
  by (simp add: client_request_def encode_request_def encode_bulk_def [abs_def])

lemma number_decimal:
  assumes "- (2 ^ 63) \<le> i" "i < 2 ^ 63"
  shows "\<exists>v. from_chars_i64 (decimal i) = Some v \<and> sint v = i"
proof -
  have "sint (word_of_int i :: int64) = i" using assms by (simp add: sint_sbintrunc' signed_take_bit_int_eq_self)
  then show ?thesis using from_chars_decimal [of "word_of_int i"] by metis
qed

lemma number_length:
  assumes "n < 2 ^ 63"
  shows "\<exists>v. from_chars_i64 (decimal_nat n) = Some v \<and> sint v = int n"
  using number_decimal [of "int n"] assms by (simp add: decimal_def)

lemma no_cr_decimal: "13 \<notin> set (decimal i)"
  using decimal_nat_no_sign(2) by (simp add: decimal_def)

text \<open>A line break is found only when both of its bytes are there.\<close>

lemma find_crlf_absent: "13 \<notin> set xs \<Longrightarrow> find_crlf xs = None"
  by (induction xs rule: find_crlf.induct) auto

lemma find_crlf_cut:
  assumes "13 \<notin> set line" "p @ q = line @ CRLF" "q \<noteq> []"
  shows "find_crlf p = None"
  using assms
proof (induction line arbitrary: p)
  case Nil
  then have "p = [] \<or> p = [13]" by (auto simp: CRLF_def append_eq_Cons_conv)
  then show ?case by auto
next
  case (Cons a line)
  show ?case
  proof (cases p)
    case (Cons b p')
    then have b: "b = a" "p' @ q = line @ CRLF" using Cons.prems by auto
    then have "find_crlf p' = None" using Cons.IH [of p'] Cons.prems by simp
    moreover have "a \<noteq> 13" using Cons.prems by auto
    ultimately show ?thesis using b Cons by (cases p') auto
  qed simp
qed

lemma advance_last [simp]: "advance k (Suc 0) 0 = Advance k 0"
  by (simp add: advance_def)

text \<open>A reply of one line.\<close>

lemma line_step:
  assumes "13 \<notin> set line" "kind \<in> {43, 45, 58} \<or> kind = 36 \<and> (\<exists>v. from_chars_i64 line = Some v \<and> sint v = -1)"
    "kind = 58 \<longrightarrow> from_chars_i64 line \<noteq> None"
  shows "reply_step (kind # line @ CRLF) 0 1 = Advance (length line + 3) 0"
    and "p @ q = kind # line @ CRLF \<Longrightarrow> q \<noteq> [] \<Longrightarrow> reply_step p 0 1 = More_needed"
proof -
  have k: "13 \<notin> set (kind # line)" using assms(1,2) by auto
  have f: "find_crlf (kind # line @ CRLF) = Some (Suc (length line))"
    using find_crlf_line [OF k, of "[]"] by simp
  have t: "take (length line) (line @ CRLF) = line" by simp
  show "reply_step (kind # line @ CRLF) 0 1 = Advance (length line + 3) 0"
    using assms(2,3) f by (auto simp: reply_step_def Let_def advance_last client_limit_def)
  show "reply_step p 0 1 = More_needed" if "p @ q = kind # line @ CRLF" "q \<noteq> []"
    using find_crlf_cut [OF k, of p q] that by (simp add: reply_step_def)
qed

text \<open>A reply with a length.\<close>

lemma bulk_step:
  assumes "length (encode_bulk s) \<le> client_limit"
  shows "reply_step (encode_bulk s) 0 1 = Advance (length (encode_bulk s)) 0"
    and "p @ q = encode_bulk s \<Longrightarrow> q \<noteq> [] \<Longrightarrow> reply_step p 0 1 = More_needed"
proof -
  let ?d = "decimal_nat (length s)"
  have e: "encode_bulk s = 36 # ?d @ CRLF @ s @ CRLF" by (simp add: encode_bulk_def str_def)
  have k: "13 \<notin> set (36 # ?d)" using decimal_nat_no_sign(2) by simp
  have len: "length s + length ?d + 5 \<le> client_limit" using assms by (simp add: e CRLF_def)
  then have "length s < 2 ^ 63" by (simp add: client_limit_def)
  then obtain v where v: "from_chars_i64 ?d = Some v" "sint v = int (length s)" using number_length by blast
  have f: "find_crlf (36 # ?d @ CRLF @ t) = Some (Suc (length ?d))" for t
    using find_crlf_line [OF k, of t] by simp
  have step: "reply_step (36 # ?d @ CRLF @ t) 0 1 =
      (if length t < length s + 2 then More_needed
       else if take 2 (drop (length s) t) \<noteq> CRLF then Reject (str ''Invalid RESP bulk terminator'')
       else Advance (length ?d + length s + 5) 0)" for t
    using f [of t] v len
    by (simp add: reply_step_def Let_def advance_last CRLF_def numeral_eq_Suc)
  show "reply_step (encode_bulk s) 0 1 = Advance (length (encode_bulk s)) 0"
    unfolding e step by (simp add: CRLF_def)
  have hd3: "take (length ?d + 3) (encode_bulk s) = (36 # ?d) @ CRLF" "drop (length ?d + 3) (encode_bulk s) = s @ CRLF"
    by (simp_all add: e CRLF_def numeral_3_eq_3)
  show "reply_step p 0 1 = More_needed" if pq: "p @ q = encode_bulk s" "q \<noteq> []"
  proof (cases "length p < length ?d + 3")
    case True
    then have "p @ take (length ?d + 3 - length p) q = (36 # ?d) @ CRLF"
      using arg_cong [OF pq(1), of "take (length ?d + 3)"] hd3 by simp
    moreover have "take (length ?d + 3 - length p) q \<noteq> []" using True pq(2) by (cases q) auto
    ultimately show ?thesis using find_crlf_cut [OF k] by (simp add: reply_step_def)
  next
    case False
    define t where "t = drop (length ?d + 3) p"
    have "take (length ?d + 3) p = (36 # ?d) @ CRLF" "t @ q = s @ CRLF"
      using False arg_cong [OF pq(1), of "take (length ?d + 3)"] arg_cong [OF pq(1), of "drop (length ?d + 3)"] hd3
      by (simp_all add: t_def)
    then have t: "p = 36 # ?d @ CRLF @ t" "t @ q = s @ CRLF"
      using append_take_drop_id [of "length ?d + 3" p] by (simp_all add: t_def)
    have "length t < length s + 2" using arg_cong [OF t(2), of length] pq(2) by (cases q) (auto simp: CRLF_def)
    then show ?thesis unfolding t(1) step by simp
  qed
qed

lemma reply_steps:
  assumes "line_ok r" "length (encode_reply r) \<le> client_limit"
  shows "reply_step (encode_reply r) 0 1 = Advance (length (encode_reply r)) 0"
    and "p @ q = encode_reply r \<Longrightarrow> q \<noteq> [] \<Longrightarrow> reply_step p 0 1 = More_needed"
proof -
  have line: "reply_step (kind # line @ CRLF) 0 1 = Advance (length (kind # line @ CRLF)) 0 \<and>
      (p @ q = kind # line @ CRLF \<longrightarrow> q \<noteq> [] \<longrightarrow> reply_step p 0 1 = More_needed)"
    if "13 \<notin> set line" "kind \<in> {43, 45, 58} \<or> kind = 36 \<and> (\<exists>v. from_chars_i64 line = Some v \<and> sint v = -1)"
      "kind = 58 \<longrightarrow> from_chars_i64 line \<noteq> None" for kind line
    using line_step [OF that] by (simp add: CRLF_def)
  have "reply_step (encode_reply r) 0 1 = Advance (length (encode_reply r)) 0 \<and>
      (p @ q = encode_reply r \<longrightarrow> q \<noteq> [] \<longrightarrow> reply_step p 0 1 = More_needed)"
  proof (cases r)
    case (Simple t)
    then show ?thesis using line [of t 43] assms(1) by (simp add: str_def)
  next
    case (Err t)
    then show ?thesis using line [of t 45] assms(1) by (simp add: str_def)
  next
    case (Number i)
    then have "from_chars_i64 (decimal i) \<noteq> None" using number_decimal [of i] assms(1) by auto
    then show ?thesis using Number line [of "decimal i" 58] no_cr_decimal by (simp add: str_def)
  next
    case Null
    have "decimal (-1) = [45, 49]" by (simp add: decimal_def decimal_nat.simps)
    then have "\<exists>v. from_chars_i64 [45, 49] = Some v \<and> sint v = -1" using number_decimal [of "-1"] by simp
    then show ?thesis using Null line [of "[45, 49]" 36] by (simp add: str_def)
  next
    case (Bulk s)
    then show ?thesis using bulk_step [of s] assms(2) by simp
  qed
  then show "reply_step (encode_reply r) 0 1 = Advance (length (encode_reply r)) 0"
    and "p @ q = encode_reply r \<Longrightarrow> q \<noteq> [] \<Longrightarrow> reply_step p 0 1 = More_needed" by simp_all
qed

lemma more_loop:
  assumes "reply_step p 0 1 = More_needed"
  shows "reply_loop rs n p 0 1 = Option.bind (socket_receive rs n) (\<lambda>(r, n1).
            case r of
              Inl message \<Rightarrow> Some (Inl message, n1)
            | Inr chunk \<Rightarrow>
                if client_limit < length p + length chunk then Some (Inl (str ''RESP reply too large''), n1)
                else reply_loop rs n1 (p @ chunk) 0 1)"
  using assms by (subst reply_loop.simps) simp

lemma reply_loop_reads:
  assumes "delivers rs n bs n'" "p @ bs = encode_reply r" "line_ok r" "length (encode_reply r) \<le> client_limit"
  shows "reply_loop rs n p 0 1 = Some (Inr (encode_reply r), n')"
  using assms
proof (induction arbitrary: p rule: delivers.induct)
  case (all_there n)
  then have p: "p = encode_reply r" by simp
  have "reply_loop rs n p 0 1 = reply_loop rs n p (length p) 0"
    using reply_steps(1) [OF all_there.prems(2,3)] unfolding p by (subst reply_loop.simps) simp
  also have "\<dots> = Some (Inr p, n)" by (subst reply_loop.simps) simp
  finally show ?case unfolding p .
next
  case (interrupted n bs n')
  have "socket_receive rs n = socket_receive rs (Suc n)" using interrupted.hyps(1) by (subst socket_receive.simps) simp
  moreover have "reply_step p 0 1 = More_needed"
    using reply_steps(2) [OF interrupted.prems(2,3,1)] interrupted.hyps(3) by simp
  ultimately have "reply_loop rs n p 0 1 = reply_loop rs (Suc n) p 0 1" using more_loop by simp
  then show ?case using interrupted.IH [OF interrupted.prems] by simp
next
  case (piece n chunk bs n')
  have "socket_receive rs n = Some (Inr chunk, Suc n)" using piece.hyps(1,2) by (subst socket_receive.simps) simp
  moreover have "reply_step p 0 1 = More_needed"
    using reply_steps(2) [OF piece.prems(2,3,1)] piece.hyps(2) by simp
  moreover have "length p + length chunk \<le> client_limit"
    using piece.prems(3) arg_cong [OF piece.prems(1), of length] by simp
  ultimately have "reply_loop rs n p 0 1 = reply_loop rs (Suc n) (p @ chunk) 0 1" using more_loop by simp
  then show ?case using piece.IH [of "p @ chunk"] piece.prems by simp
qed

section \<open>Calls return\<close>

lemma receive_returns:
  assumes "always_answers (\<lambda>x. x \<noteq> Recv_interrupted) rs"
  shows "\<exists>r n1. socket_receive rs n = Some (r, n1) \<and> (\<forall>c. r = Inr c \<longrightarrow> c \<noteq> [])"
proof -
  obtain m where m: "n \<le> m" "rs m \<noteq> Recv_interrupted" using assms by (auto simp: always_answers_def)
  show ?thesis using m(1)
  proof (induction n rule: inc_induct)
    case base
    show ?case using m(2) by (cases "rs m") (subst socket_receive.simps, force)+
  next
    case (step k)
    then show ?case by (cases "rs k") (subst socket_receive.simps, force)+
  qed
qed

lemma advance_progress:
  assumes "reply_step response position pending = Advance position1 pending1"
  shows "position < position1 \<and> position1 \<le> length response"
proof -
  obtain n where n: "find_crlf (drop position response) = Some n" using assms by (auto simp: reply_step_def split: option.splits)
  then have "n + 2 \<le> length (drop position response)" using find_crlf_more [of _ n "[]"] by blast
  then show ?thesis
    using assms n by (auto simp: reply_step_def advance_def Let_def split: if_splits option.splits)
qed

lemma reply_loop_returns:
  assumes "always_answers (\<lambda>x. x \<noteq> Recv_interrupted) rs" "position \<le> length response" "length response \<le> client_limit"
  shows "\<exists>y. reply_loop rs n response position pending = Some y \<and> (\<forall>x. fst y = Inr x \<longrightarrow> length x \<le> client_limit)"
  using assms(2,3)
proof (induction "(client_limit - length response) * (client_limit + 1) + (length response - position)"
    arbitrary: n response position pending rule: less_induct)
  case less
  consider "pending = 0" | message where "reply_step response position pending = Reject message"
    | p1 q1 where "reply_step response position pending = Advance p1 q1" "pending \<noteq> 0"
    | "reply_step response position pending = More_needed" "pending \<noteq> 0" by (metis scan.exhaust)
  then show ?case
  proof cases
    case 3
    note p = advance_progress [OF 3(1)]
    have "\<exists>y. reply_loop rs n response p1 q1 = Some y \<and> (\<forall>x. fst y = Inr x \<longrightarrow> length x \<le> client_limit)"
      by (rule less.hyps) (use p less.prems in auto)
    moreover have "reply_loop rs n response position pending = reply_loop rs n response p1 q1"
      using 3 by (subst reply_loop.simps) simp
    ultimately show ?thesis by simp
  next
    case 4
    obtain r n1 where r: "socket_receive rs n = Some (r, n1)" "\<And>c. r = Inr c \<Longrightarrow> c \<noteq> []" using receive_returns [OF assms(1)] by blast
    show ?thesis
    proof (cases "\<exists>c. r = Inr c \<and> length response + length c \<le> client_limit")
      case True
      then obtain c where c: "r = Inr c" "length response + length c \<le> client_limit" by blast
      then have "c \<noteq> []" using r(2) by blast
      define x where "x = client_limit - (length response + length c)"
      have "client_limit - length response = x + length c" using c(2) by (simp add: x_def)
      then have "(client_limit - length response) * (client_limit + 1) = x * (client_limit + 1) + length c * client_limit + length c"
        by (simp add: algebra_simps)
      moreover have "0 < length c * client_limit" using \<open>c \<noteq> []\<close> by (simp add: client_limit_def)
      ultimately have "(client_limit - length (response @ c)) * (client_limit + 1) + (length (response @ c) - position)
          < (client_limit - length response) * (client_limit + 1) + (length response - position)"
        using less.prems(1) unfolding length_append x_def [symmetric] by linarith
      then have "\<exists>y. reply_loop rs n1 (response @ c) position pending = Some y \<and> (\<forall>x. fst y = Inr x \<longrightarrow> length x \<le> client_limit)"
        by (rule less.hyps) (use c less.prems in auto)
      moreover have "reply_loop rs n response position pending = reply_loop rs n1 (response @ c) position pending"
        using 4 r(1) c by (subst reply_loop.simps) simp
      ultimately show ?thesis by simp
    next
      case False
      then show ?thesis using 4 r(1) by (subst reply_loop.simps) (auto split: sum.splits)
    qed
  next
    case 1
    then show ?thesis using less.prems(2) by (subst reply_loop.simps) simp
  next
    case 2
    then show ?thesis using less.prems(2) by (subst reply_loop.simps) simp
  qed
qed

lemma send_loop_returns:
  assumes "always_answers (\<lambda>x. x \<noteq> Send_interrupted) ps"
  shows "\<exists>y. send_loop ps n data off = Some y"
proof (induction "length data - off" arbitrary: n off rule: less_induct)
  case less
  have go: "\<exists>y. send_loop ps n data off = Some y" if "ps n \<noteq> Send_interrupted" for n
  proof (cases "\<exists>k. ps n = Took (Suc k) \<and> off < length data")
    case True
    then obtain k where k: "ps n = Took (Suc k)" "off < length data" by blast
    have "\<exists>y. send_loop ps (Suc n) data (off + min (Suc k) (length data - off)) = Some y" by (rule less) (use k(2) in simp)
    moreover have "send_loop ps n data off = send_loop ps (Suc n) data (off + min (Suc k) (length data - off))"
      using k by (subst send_loop.simps) simp
    ultimately show ?thesis by simp
  next
    case False
    then show ?thesis using that by (subst send_loop.simps) (auto split: putting.splits simp: gr0_conv_Suc)
  qed
  obtain m where m: "n \<le> m" "ps m \<noteq> Send_interrupted" using assms by (auto simp: always_answers_def)
  show ?case using m(1)
  proof (induction n rule: inc_induct)
    case base
    show ?case using go m(2) by blast
  next
    case (step n)
    show ?case
    proof (cases "ps n = Send_interrupted \<and> off < length data")
      case True
      then have "send_loop ps n data off = send_loop ps (Suc n) data off" by (subst send_loop.simps) simp
      then show ?thesis using step.IH by simp
    next
      case False
      show ?thesis
      proof (cases "length data \<le> off")
        case True
        then show ?thesis by (subst send_loop.simps) simp
      next
        case inside: False
        then show ?thesis using False by (intro go) simp
      qed
    qed
  qed
qed

lemma send_loop_all:
  assumes "\<And>n. \<exists>k. ps n = Took (Suc k)" "off \<le> length data"
  shows "send_loop ps n data off = Some (Inr (length data), data)"
  using assms(2)
proof (induction "length data - off" arbitrary: n off rule: less_induct)
  case less
  show ?case
  proof (cases "off = length data")
    case True
    then show ?thesis by (subst send_loop.simps) simp
  next
    case False
    obtain k where k: "ps n = Took (Suc k)" using assms(1) by blast
    have "send_loop ps n data off = send_loop ps (Suc n) data (off + min (Suc k) (length data - off))"
      using k False less.prems by (subst send_loop.simps) simp
    also have "\<dots> = Some (Inr (length data), data)" by (rule less.hyps) (use False less.prems in auto)
    finally show ?thesis .
  qed
qed

text \<open>What went out is a first part of the data, and all of it when sending reports success.\<close>

lemma send_loop_prefix:
  assumes "send_loop ps n data off = Some y"
  shows "take (length (snd y)) data = snd y \<and> (isl (fst y) \<or> snd y = data)"
proof (rule send_loop.raw_induct [where P = "\<lambda>ps n data off y. take (length (snd y)) data = snd y \<and> (isl (fst y) \<or> snd y = data)", OF _ assms])
  fix f :: "(nat \<Rightarrow> putting) \<Rightarrow> nat \<Rightarrow> bytes \<Rightarrow> nat \<Rightarrow> (nat expected \<times> bytes) option" and ps n data off y
  assume IH: "\<And>ps n data off y. f ps n data off = Some y \<Longrightarrow> take (length (snd y)) data = snd y \<and> (isl (fst y) \<or> snd y = data)"
  assume "(if length data \<le> off then Some (Inr off, take off data)
      else case ps n of
        Took k \<Rightarrow>
          if k = 0 then Some (Inl closed_message, take off data)
          else f ps (Suc n) data (off + min k (length data - off))
      | Send_interrupted \<Rightarrow> f ps (Suc n) data off
      | Send_refused \<Rightarrow> Some (Inl (str ''Failed to send command''), take off data)) = Some y"
  then show "take (length (snd y)) data = snd y \<and> (isl (fst y) \<or> snd y = data)"
    using IH by (auto split: if_splits putting.splits)
qed

lemma chop_pieces: "concat (chop sizes bs) = bs \<and> [] \<notin> set (chop sizes bs)"
  by (induction sizes bs rule: chop.induct) auto

lemma feed_delivers:
  assumes "[] \<notin> set pieces" "n \<le> length pieces"
  shows "delivers (feed pieces) n (concat (drop n pieces)) (length pieces)"
  using assms(2)
proof (induction n rule: inc_induct)
  case base
  show ?case by (simp add: all_there)
next
  case (step n)
  then have "feed pieces n = Got (pieces ! n)" "pieces ! n \<noteq> []" using assms(1) by (auto simp: feed_def in_set_conv_nth)
  from piece [OF this step.IH] show ?case using step.hyps by (simp add: Cons_nth_drop_Suc [symmetric])
qed

lemma chop_delivers: "delivers (feed (chop sizes bs)) 0 bs (length (chop sizes bs))"
  using feed_delivers [of "chop sizes bs" 0] chop_pieces by auto

section \<open>A call, from the client through the server and back\<close>

lemma replies_one:
  assumes "replies es h stats 0 [make_command command k] d A rs d' B"
  shows "\<exists>r. rs = [r] \<and> one_answer (es 0) h stats d command A r B"
  using assms
  by (elim replies_oneE; elim replies_noneE) (auto simp: one_answer_def make_command_def)

lemma oom_line: "line_ok (Err out_of_memory)"
  by (simp add: out_of_memory_def)

lemma one_answer_line: "one_answer es h stats d command A r B \<Longrightarrow> 13 \<notin> set (hd command) \<Longrightarrow> line_ok r"
  using meaning_line [of "hd command" es h stats d "cid (classify_command (hd command))" "tl command" A] oom_line
  by (auto simp: one_answer_def)

lemma request_sizes:
  "length command \<le> length (encode_request command)" "s \<in> set command \<Longrightarrow> length s \<le> length (encode_request command)"
proof -
  have "length command \<le> length (concat (map encode_bulk command))" by (induction command) (auto simp: encode_bulk_def)
  then show "length command \<le> length (encode_request command)" by (simp add: encode_request_def)
  have "s \<in> set command \<Longrightarrow> length s \<le> length (concat (map encode_bulk command))" by (induction command) (auto simp: encode_bulk_def)
  then show "s \<in> set command \<Longrightarrow> length s \<le> length (encode_request command)" by (simp add: encode_request_def)
qed

lemma collect_request:
  assumes "drop off buffer = client_request command" "off \<le> length buffer" "length buffer - off \<le> max_input_buffer_size" "command \<noteq> []"
  shows "collect batch_limit buffer off = ([make_command command (length (client_request command))], length buffer, None)"
proof -
  have e: "drop off buffer = encode_request command" using assms(1) request_eq by simp
  have len: "length (encode_request command) \<le> max_input_buffer_size" using assms(3) arg_cong [OF e, of length] by simp
  have "length command < 2 ^ 64" "\<forall>s \<in> set command. length s < 2 ^ 64"
    using le_trans [OF request_sizes(1) len] le_trans [OF request_sizes(2) len] by (fastforce simp: max_input_buffer_size_def)+
  then have p: "parse_command_into (drop off buffer) = Inr (make_command command (length (encode_request command)))"
    using parse_encoded [OF assms(4), of "[]"] e by (simp add: parse_fast_slow)
  have "encode_request command \<noteq> []" by (simp add: encode_request_def CRLF_def)
  then have "off < length buffer" using e by (metis drop_all not_le)
  moreover have "off + length (encode_request command) = length buffer" using arg_cong [OF e, of length] assms(2) by simp
  moreover have "bytes_consumed (make_command command k) = k" for k by (simp add: make_command_def)
  ultimately have "collect (Suc (Suc n)) buffer off = ([make_command command (length (encode_request command))], length buffer, None)" for n
    using p by simp
  from this [of 1022] show ?thesis by (simp add: request_eq batch_limit_def)
qed

lemma client_call:
  assumes "\<And>n. \<exists>k. ps n = Took (Suc k)" "length (client_request command) \<le> 2 ^ 31 - 1"
    and "delivers rs 0 (encode_reply r) n" "line_ok r" "length (encode_reply r) \<le> client_limit"
  shows "client_execute ps rs command = Some (Inr (encode_reply r), client_request command, True)"
proof -
  have "socket_send ps (client_request command) = Some (Inr (length (client_request command)), client_request command)"
    using send_loop_all [of ps 0 "client_request command" 0, OF assms(1)] assms(2) by (simp add: socket_send_def)
  then show ?thesis using reply_loop_reads [OF assms(3) _ assms(4,5), of "[]"] by (simp add: client_execute_def)
qed

section \<open>Results\<close>

text \<open>
  C1. A call of the client library gives what the command means, the first on a connection and every
  later one. The request of a call has arrived, it is all the client has asked, no earlier reply
  waits, and the connection neither fails nor is closing. Then the server takes its turn, which ends.
  It raises only for a failure of the disk or of the event queue, or what executing the command
  raises. Otherwise the client is still connected and the call returns the encoding of the reply that
  the meaning of the command gives on the keyspace, or the error for lack of memory, in which case
  nothing was stored, whatever the pieces in which the network takes the request and brings the
  reply, and the bytes sent are the request. The client is dropped only when the reply does not fit
  its limit, and then that is counted.
\<close>

theorem call_roundtrip:
  assumes "server_ok s" "world_ok w" "db_inv (s_database s) A" "find_client i s = Some c"
    and "drop (input_offset c) (in_buffer c) = client_request command" "command \<noteq> []" "13 \<notin> set (hd command)"
    and "drop (output_offset c) (out_buffer c) = []" "\<not> close_after_write c" "\<And>n. w_send w n \<noteq> Send_failed \<and> w_send w n \<noteq> Sent 0"
  shows "case process_client w i s of
      None \<Rightarrow> False
    | Some (Inl x, s') \<Rightarrow>
        x = Error disk_write_failed \<or> x = Error socket_poll_failed \<and> (\<exists>n readable writable. \<not> w_watch w n readable writable)
        \<or> (\<exists>d. d \<in> {s_database s, begin_wal_batch (s_database s)} \<and> \<not> is_bad_alloc x
             \<and> fst (execute_named (w_env w 0) (w_host w) (stats_of s) (make_command command (length (client_request command))) [] d) = Inl x)
    | Some (Inr _, s') \<Rightarrow>
        \<exists>d. d \<in> {s_database s, begin_wal_batch (s_database s)} \<and>
        (case find_client i s' of
           None \<Rightarrow>
             output_buffer_disconnects s' = output_buffer_disconnects s + 1
             \<and> (case fst (execute_named (w_env w 0) (w_host w) (stats_of s) (make_command command (length (client_request command))) [] d) of
                  Inl x \<Rightarrow> x = Error request_too_large
                | Inr reply \<Rightarrow> max_output_buffer_size < length reply)
         | Some c' \<Rightarrow>
             \<exists>r B C. one_answer (w_env w 0) (w_host w) (stats_of s) d command A r B
               \<and> maintained B C \<and> db_inv (s_database s') C \<and> drop (input_offset c') (in_buffer c') = []
               \<and> stream c' = stream c @ encode_reply r
               \<and> (\<forall>taken sizes. client_execute (\<lambda>n. Took (Suc (taken n))) (feed (chop sizes (drop (length (stream c)) (stream c')))) command
                    = Some (Inr (encode_reply r), client_request command, True)))"
proof -
  note but = server_ok_but [OF assms(1,4)]
  then have sz: "client_sized c" by (simp add: client_ok_def)
  then have inp: "input_offset c \<le> length (in_buffer c)" "length (in_buffer c) - input_offset c \<le> max_input_buffer_size"
    by (simp_all add: client_sized_def rest_def)
  note col = collect_request [OF assms(5) inp assms(6)]
  have len: "length (client_request command) \<le> 2 ^ 31 - 1"
    using inp(2) arg_cong [OF assms(5), of length] by (simp add: max_input_buffer_size_def)
  have "\<exists>r s'. process_client w i s = Some (r, s')
    \<and> (r = Inr () \<longrightarrow> server_ok s' \<and> (\<forall>c'. find_client i s' = Some c' \<longrightarrow> answered w s A c s' c'))"
    by (rule process_client_ok [OF but(1) assms(4)])
      (use but(2) assms(2,3) in \<open>auto simp: client_ok_def client_sized_def client_live_def\<close>)
  then obtain r s' where run: "process_client w i s = Some (r, s')"
    "r = Inr () \<longrightarrow> server_ok s' \<and> (\<forall>c'. find_client i s' = Some c' \<longrightarrow> answered w s A c s' c')" by (elim exE conjE)
  let ?cmd = "make_command command (length (client_request command))"
  let ?d = "if has_write [?cmd] then begin_wal_batch (s_database s) else s_database s"
  have d: "?d \<in> {s_database s, begin_wal_batch (s_database s)}" by simp
  show ?thesis
  proof (cases "r = Inr ()")
    case False
    then obtain x where x: "r = Inl x" by (cases r) auto
    from process_client_raised [OF assms(4) col assms(8) run(1) [unfolded x]] show ?thesis
      unfolding run(1) x option.case prod.case sum.case using d by blast
  next
    case ok: True
    show ?thesis
    proof (cases "find_client i s'")
      case None
      have "process_client w i s = Some (Inr (), s')" using run(1) ok by simp
      from process_client_dropped [OF assms(4) inp(1) col assms(8,9,10) this None] show ?thesis
        using run(1) ok None d by auto
    next
      case (Some c')
      then have an: "answered w s A c s' c'" using run(2) ok by blast
      obtain rs d1 B C where a: "replies (w_env w) (w_host w) (stats_of s) 0 [?cmd] ?d A rs d1 B"
        "maintained B C" "db_inv (s_database s') C" "length (concat (map encode_reply rs)) \<le> max_output_buffer_size"
        "stream c' = stream c @ concat (map encode_reply rs)" "rest c' = []"
        using an unfolding answered_def col prod.case by (auto simp: protocol_reply_def)
      obtain q where q: "rs = [q]" "one_answer (w_env w 0) (w_host w) (stats_of s) ?d command A q B"
        using replies_one [OF a(1)] by blast
      have st: "stream c' = stream c @ encode_reply q" "length (encode_reply q) \<le> client_limit"
        using a(4,5) q(1) by (simp_all add: client_limit_def max_output_buffer_size_def)
      have "client_execute (\<lambda>n. Took (Suc (taken n))) (feed (chop sizes (encode_reply q))) command
          = Some (Inr (encode_reply q), client_request command, True)" for taken sizes
        by (rule client_call [OF _ len chop_delivers one_answer_line [OF q(2) assms(7)] st(2)]) simp
      then have "\<exists>r B C. one_answer (w_env w 0) (w_host w) (stats_of s) ?d command A r B
          \<and> maintained B C \<and> db_inv (s_database s') C \<and> drop (input_offset c') (in_buffer c') = []
          \<and> stream c' = stream c @ encode_reply r
          \<and> (\<forall>taken sizes. client_execute (\<lambda>n. Took (Suc (taken n))) (feed (chop sizes (drop (length (stream c)) (stream c')))) command
               = Some (Inr (encode_reply r), client_request command, True))"
        using a(2,3) a(6) [unfolded rest_def] q(2) st(1)
        by (intro exI [of _ q] exI [of _ B] exI [of _ C]) simp
      then show ?thesis using run(1) ok Some d by auto
    qed
  qed
qed

lemma calling_server_ok: "server_ok calling_server" "find_client 0 calling_server = Some calling_client" "s_database calling_server = sample_db"
proof -
  have l: "length (client_request (call_set (str ''k'') (str ''8''))) \<le> 100"
    by (simp add: client_request_def call_set_def CRLF_def decimal_nat.simps)
  have c: "client_ok [0] 0 calling_client"
    using l by (simp add: client_ok_def client_sized_def client_live_def calling_client_def new_client_def rest_def
        max_input_buffer_size_def max_output_buffer_size_def compact_buffer_threshold_def)
  show f: "find_client 0 calling_server = Some calling_client" by (simp add: calling_server_def)
  show d: "s_database calling_server = sample_db" by (simp add: calling_server_def server_init_def)
  have "find_client j calling_server = (if j = 0 then Some calling_client else None)" for j
    by (simp add: calling_server_def server_init_def find_client_def put_client_def)
  moreover have "table_sized calling_server" "pending_clients calling_server = [0]"
    by (simp_all add: table_sized_def calling_server_def ids_def put_client_def server_init_def max_clients_def)
  ultimately show "server_ok calling_server" using c d sample_db_inv by (auto simp: server_ok_def)
qed

theorem call_roundtrip_witness:
  "case process_client sample_world 0 calling_server of
      None \<Rightarrow> False
    | Some (Inl x, s') \<Rightarrow>
        x = Error disk_write_failed \<or> x = Error socket_poll_failed \<and> (\<exists>n readable writable. \<not> w_watch sample_world n readable writable)
        \<or> (\<exists>d. d \<in> {s_database calling_server, begin_wal_batch (s_database calling_server)} \<and> \<not> is_bad_alloc x
             \<and> fst (execute_named (w_env sample_world 0) (w_host sample_world) (stats_of calling_server)
                 (make_command (call_set (str ''k'') (str ''8'')) (length (client_request (call_set (str ''k'') (str ''8''))))) [] d) = Inl x)
    | Some (Inr _, s') \<Rightarrow>
        \<exists>d. d \<in> {s_database calling_server, begin_wal_batch (s_database calling_server)} \<and>
        (case find_client 0 s' of
           None \<Rightarrow>
             output_buffer_disconnects s' = output_buffer_disconnects calling_server + 1
             \<and> (case fst (execute_named (w_env sample_world 0) (w_host sample_world) (stats_of calling_server)
                    (make_command (call_set (str ''k'') (str ''8'')) (length (client_request (call_set (str ''k'') (str ''8''))))) [] d) of
                  Inl x \<Rightarrow> x = Error request_too_large
                | Inr reply \<Rightarrow> max_output_buffer_size < length reply)
         | Some c' \<Rightarrow>
             \<exists>r B C. one_answer (w_env sample_world 0) (w_host sample_world) (stats_of calling_server) d
                   (call_set (str ''k'') (str ''8'')) sample_keys r B
               \<and> maintained B C \<and> db_inv (s_database s') C \<and> drop (input_offset c') (in_buffer c') = []
               \<and> stream c' = stream calling_client @ encode_reply r
               \<and> (\<forall>taken sizes. client_execute (\<lambda>n. Took (Suc (taken n)))
                      (feed (chop sizes (drop (length (stream calling_client)) (stream c')))) (call_set (str ''k'') (str ''8''))
                    = Some (Inr (encode_reply r), client_request (call_set (str ''k'') (str ''8'')), True)))"
proof (rule call_roundtrip [OF calling_server_ok(1) sample_world_ok _ calling_server_ok(2)])
  show "db_inv (s_database calling_server) sample_keys" using sample_db_inv calling_server_ok(3) by simp
  show "drop (input_offset calling_client) (in_buffer calling_client) = client_request (call_set (str ''k'') (str ''8''))"
    by (simp add: calling_client_def new_client_def)
  show "call_set (str ''k'') (str ''8'') \<noteq> []" "13 \<notin> set (hd (call_set (str ''k'') (str ''8'')))" by (simp_all add: call_set_def)
  show "drop (output_offset calling_client) (out_buffer calling_client) = []" "\<not> close_after_write calling_client"
    by (simp_all add: calling_client_def new_client_def)
  show "w_send sample_world n \<noteq> Send_failed \<and> w_send sample_world n \<noteq> Sent 0" for n by (simp add: sample_world_def)
qed

text \<open>
  C18. A call returns, whatever the server sends: when the system does not interrupt for ever, the
  sending and the reading of the reply end, with a reply of at most sixteen mebibytes or an error,
  and what went out is the request or, with an error, a first part of it.
\<close>

theorem client_returns:
  assumes "\<forall>n. \<exists>m \<ge> n. ps m \<noteq> Send_interrupted" "\<forall>n. \<exists>m \<ge> n. rs m \<noteq> Recv_interrupted"
  shows "case client_execute ps rs command of
      None \<Rightarrow> False
    | Some (Inl message, wired, opened) \<Rightarrow> \<not> opened \<and> take (length wired) (client_request command) = wired
    | Some (Inr response, wired, opened) \<Rightarrow> opened \<and> wired = client_request command \<and> length response \<le> client_limit"
proof -
  obtain sent wired where s: "send_loop ps 0 (client_request command) 0 = Some (sent, wired)"
    using send_loop_returns [of ps 0 "client_request command" 0] assms(1) by (auto simp: always_answers_def)
  have w: "take (length wired) (client_request command) = wired" "isl sent \<or> wired = client_request command"
    using send_loop_prefix [OF s] by simp_all
  obtain r n where r: "reply_loop rs 0 [] 0 1 = Some (r, n)" "\<forall>x. r = Inr x \<longrightarrow> length x \<le> client_limit"
    using reply_loop_returns [of rs 0 "[]" 0 1] assms(2) by (auto simp: always_answers_def)
  show ?thesis
    using s w r by (cases sent; cases r) (auto simp: client_execute_def socket_send_def)
qed

theorem client_returns_witness:
  "case client_execute (\<lambda>_. Took 3) (\<lambda>_. Got (str ''$'')) (call_get (str ''k'')) of
      None \<Rightarrow> False
    | Some (Inl message, wired, opened) \<Rightarrow> \<not> opened \<and> take (length wired) (client_request (call_get (str ''k''))) = wired
    | Some (Inr response, wired, opened) \<Rightarrow>
        opened \<and> wired = client_request (call_get (str ''k'')) \<and> length response \<le> client_limit"
  by (rule client_returns) auto

end
