(* ===== verification/Program.thy ===== *)
theory Program
  imports ServerLoop
begin

text \<open>
  The program of main.cpp: the arguments of the command line with their defaults and errors, and
  what the process does with them, which is to compact a log offline or to serve.
\<close>

section \<open>Definitions\<close>

record server_config =
  cf_port :: "16 word"
  cf_max_keys :: nat
  cf_max_memory :: nat
  cf_wal_path :: bytes
  cf_wal_sync :: wal_sync

definition default_config :: server_config where
  "default_config =
     \<lparr>cf_port = 6379, cf_max_keys = 1024, cf_max_memory = 0, cf_wal_path = [], cf_wal_sync = Everysec\<rparr>"

text \<open>The local variables of \<^verbatim>\<open>main\<close> while the arguments are read.\<close>

record options =
  op_config :: server_config
  disable_wal :: bool
  port_supplied :: bool
  compacting :: bool

definition initial_options :: options where
  "initial_options =
     \<lparr>op_config = default_config\<lparr>cf_wal_path := str ''reddish.wal''\<rparr>, disable_wal = False, port_supplied = False,
      compacting = False\<rparr>"

definition number :: "bytes \<Rightarrow> nat option" where
  "number t = (case from_chars_u64 t of None \<Rightarrow> None | Some n \<Rightarrow> if n = 0 then None else Some n)"

definition set_config :: "(server_config \<Rightarrow> server_config) \<Rightarrow> options \<Rightarrow> options" where
  "set_config f o1 = o1\<lparr>op_config := f (op_config o1)\<rparr>"

text \<open>A flag with its value; \<open>None\<close> is the usage message.\<close>

definition valued :: "bytes \<Rightarrow> bool" where
  "valued flag \<longleftrightarrow> flag = str ''--max-keys'' \<or> flag = str ''--max-memory'' \<or> flag = str ''--wal-path'' \<or> flag = str ''--wal-sync''"

definition valued_flag :: "bytes \<Rightarrow> bytes \<Rightarrow> options \<Rightarrow> options option" where
  "valued_flag flag v o1 =
     (if flag = str ''--max-keys'' \<or> flag = str ''--max-memory'' then
        (case number v of
           None \<Rightarrow> None
         | Some n \<Rightarrow>
             Some (set_config (if flag = str ''--max-keys'' then cf_max_keys_update (\<lambda>_. n) else cf_max_memory_update (\<lambda>_. n)) o1))
      else if flag = str ''--wal-path'' then
        (if v = [] then None else Some (set_config (cf_wal_path_update (\<lambda>_. v)) o1))
      else if v = str ''always'' then Some (set_config (cf_wal_sync_update (\<lambda>_. Always)) o1)
      else if v = str ''everysec'' then Some (set_config (cf_wal_sync_update (\<lambda>_. Everysec)) o1)
      else if v = str ''none'' then Some (set_config (cf_wal_sync_update (\<lambda>_. NoSync)) o1)
      else None)"

definition port_flag :: "bytes \<Rightarrow> options \<Rightarrow> options option" where
  "port_flag flag o1 =
     (case number flag of
        None \<Rightarrow> None
      | Some n \<Rightarrow>
          if port_supplied o1 \<or> 2 ^ 16 - 1 < n then None
          else Some ((set_config (cf_port_update (\<lambda>_. of_nat n)) o1)\<lparr>port_supplied := True\<rparr>))"

fun read_options :: "bytes list \<Rightarrow> options \<Rightarrow> options option" where
  "read_options [] o1 = Some o1"
| "read_options (flag # more_args) o1 =
     (if flag = str ''--compact-wal'' then read_options more_args (o1\<lparr>compacting := True\<rparr>)
      else if flag = str ''--no-wal'' then read_options more_args (o1\<lparr>disable_wal := True\<rparr>)
      else if valued flag then
        (case more_args of
           [] \<Rightarrow> None
         | v # others \<Rightarrow> (case valued_flag flag v o1 of None \<Rightarrow> None | Some o2 \<Rightarrow> read_options others o2))
      else (case port_flag flag o1 of None \<Rightarrow> None | Some o2 \<Rightarrow> read_options more_args o2))"

text \<open>What the process does: print the usage and fail, compact a log, or serve.\<close>

datatype action = Usage | Compact server_config | Serve server_config

definition main_action :: "(bytes \<Rightarrow> bool) \<Rightarrow> bytes list \<Rightarrow> action" where
  "main_action file_exists args =
     (case read_options args initial_options of
        None \<Rightarrow> Usage
      | Some o1 \<Rightarrow>
          let c = (if disable_wal o1 then (op_config o1)\<lparr>cf_wal_path := []\<rparr> else op_config o1)
          in if compacting o1 then
               (if disable_wal o1 \<or> \<not> file_exists (cf_wal_path c) then Usage else Compact c)
             else Serve c)"

text \<open>Offline compaction of the log with the given contents: the exit code and the database at the end.\<close>

definition main_compact :: "env \<Rightarrow> (nat \<Rightarrow> env) \<Rightarrow> env \<Rightarrow> server_config \<Rightarrow> bytes \<Rightarrow> nat \<times> db" where
  "main_compact e es e2 c file =
     (case open_wal e es (cf_wal_sync c) (Some file) (db_init (cf_max_keys c) (cf_max_memory c)) of
        (Inl x, _, d) \<Rightarrow> (1, d)
      | (Inr _, _, d) \<Rightarrow> (case compact_wal e2 d of (Inl x, d1) \<Rightarrow> (1, d1) | (Inr _, d1) \<Rightarrow> (0, d1)))"

text \<open>
  What offline compaction keeps of a log with the records \<open>rs\<close> and the values \<open>V\<close>: its result is the
  keyspace \<open>C\<close> and the records \<open>new\<close>. Every key keeps its object; a key with a deadline gets a new stamp
  for the deadline that its last stamp stood for, and is missing only when that deadline has passed.
\<close>

definition compacted :: "(nat \<Rightarrow> env) \<Rightarrow> env \<Rightarrow> env \<Rightarrow> log_record list \<Rightarrow> vals \<Rightarrow> keyspace \<Rightarrow> log_record list \<Rightarrow> bool" where
  "compacted es e e2 rs V C new \<longleftrightarrow>
     (\<forall>key. case V key of
        None \<Rightarrow> ks_map C key = None
      | Some (ob, timed) \<Rightarrow>
          if timed then \<exists>i s t. last_stamp key rs = Some (i, s) \<and> t = due (es i) s
            \<and> (ks_map C key = Some (ob, Some t)
                 \<and> map_option snd (last_stamp key new) = Some (stamp_for (e_steady e2 1) (e_wall e2 0) t)
               \<or> ks_map C key = None \<and> (t \<le> e_steady e 0 \<or> t \<le> e_steady e2 0))
          else ks_map C key = Some (ob, None) \<and> last_stamp key new = None)"

text \<open>The server of a configuration; an empty path is no log.\<close>

definition main_serve :: "env \<Rightarrow> (nat \<Rightarrow> env) \<Rightarrow> int \<Rightarrow> server_config \<Rightarrow> bytes option \<Rightarrow> unit served" where
  "main_serve e es now c file =
     server_start e es now (cf_max_keys c) (cf_max_memory c) (if cf_wal_path c = [] then None else Some (cf_wal_sync c, file))"

section \<open>Arguments\<close>

definition config_ok :: "server_config \<Rightarrow> bool" where
  "config_ok c \<longleftrightarrow> 0 < cf_max_keys c \<and> cf_max_keys c < 2 ^ 64 \<and> cf_max_memory c < 2 ^ 64 \<and> cf_port c \<noteq> 0"

fun sync_name :: "wal_sync \<Rightarrow> bytes" where
  "sync_name Always = str ''always''"
| "sync_name Everysec = str ''everysec''"
| "sync_name NoSync = str ''none''"

text \<open>The arguments that ask for a configuration.\<close>

definition config_args :: "server_config \<Rightarrow> bytes list" where
  "config_args c =
     [decimal_nat (unat (cf_port c)), str ''--max-keys'', decimal_nat (cf_max_keys c)]
     @ (if cf_max_memory c = 0 then [] else [str ''--max-memory'', decimal_nat (cf_max_memory c)])
     @ [str ''--wal-sync'', sync_name (cf_wal_sync c)]
     @ (if cf_wal_path c = [] then [str ''--no-wal''] else [str ''--wal-path'', cf_wal_path c])"

lemma number_range: "number t = Some n \<Longrightarrow> 0 < n \<and> n < 2 ^ 64"
  by (auto simp: number_def from_chars_u64_def split: option.splits if_splits)

lemma number_reads: "0 < n \<Longrightarrow> n < 2 ^ 64 \<Longrightarrow> number (decimal_nat n) = Some n"
  by (simp add: number_def from_chars_decimal_nat)

lemma port_nonzero:
  assumes "0 < n" "n \<le> 2 ^ 16 - 1"
  shows "(of_nat n :: 16 word) \<noteq> 0"
proof -
  have "unat (of_nat n :: 16 word) = n" using assms(2) by (simp add: unat_of_nat)
  then show ?thesis using assms(1) by (metis less_numeral_extra(3) unat_0)
qed

lemma valued_flag_ok: "valued_flag flag v o1 = Some o2 \<Longrightarrow> config_ok (op_config o1) \<Longrightarrow> config_ok (op_config o2)"
  by (auto simp: valued_flag_def set_config_def config_ok_def dest!: number_range split: if_splits option.splits)

lemma port_flag_ok: "port_flag flag o1 = Some o2 \<Longrightarrow> config_ok (op_config o1) \<Longrightarrow> config_ok (op_config o2)"
  using port_nonzero by (auto simp: port_flag_def set_config_def config_ok_def dest!: number_range split: if_splits option.splits)

lemma read_options_ok: "read_options args o1 = Some o2 \<Longrightarrow> config_ok (op_config o1) \<Longrightarrow> config_ok (op_config o2)"
proof (induction args o1 rule: read_options.induct)
  case (2 flag more_args o1)
  then show ?case by (auto split: if_splits list.splits option.splits intro: valued_flag_ok port_flag_ok)
qed simp

text \<open>Whatever the arguments, a configuration that is used is within range.\<close>

lemma main_config_ok: "main_action file_exists args = Serve c \<or> main_action file_exists args = Compact c \<Longrightarrow> config_ok c"
  using read_options_ok [of args initial_options]
  by (auto simp: main_action_def Let_def initial_options_def default_config_def config_ok_def split: option.splits if_splits)

lemma decimal_no_flag: "decimal_nat n \<noteq> str (CHR ''-'' # s)"
  using decimal_nat_no_sign(1) [of n] by (auto simp: str_def)

lemma of_char_eqI: "(of_char a :: nat) = of_char b \<Longrightarrow> a = b"
  using arg_cong [of "of_char a :: nat" "of_char b" char_of] by simp

lemma str_eq [simp]: "str s = str t \<longleftrightarrow> s = t"
proof -
  have "inj (of_char :: char \<Rightarrow> byte)"
  proof (rule injI)
    fix a b :: char assume "(of_char a :: byte) = of_char b"
    then have "unat (of_char a :: byte) = unat (of_char b :: byte)" by (rule arg_cong)
    then have "(of_char a :: nat) = of_char b" unfolding unat_of_char .
    then show "a = b" by (rule of_char_eqI)
  qed
  then show ?thesis by (simp add: str_def inj_map_eq_map)
qed

text \<open>
  C40. The arguments of the program are read back: for every configuration with a port, at least one
  key, sizes of 64 bits, any way of syncing and a path or none, the arguments that ask for it make
  the program serve with exactly this configuration.
\<close>

theorem arguments_roundtrip:
  assumes "config_ok c"
  shows "main_action file_exists (config_args c) = Serve c"
proof -
  have "unat (cf_port c) < 2 ^ LENGTH(16)" by (rule unsigned_less)
  moreover have "0 < unat (cf_port c)" using assms by (simp add: config_ok_def unat_gt_0)
  ultimately have u: "unat (cf_port c) < 2 ^ 16" "0 < unat (cf_port c)" by simp_all
  have n: "number (decimal_nat (unat (cf_port c))) = Some (unat (cf_port c))" "number (decimal_nat (cf_max_keys c)) = Some (cf_max_keys c)"
    "cf_max_memory c \<noteq> 0 \<Longrightarrow> number (decimal_nat (cf_max_memory c)) = Some (cf_max_memory c)"
    "unat (cf_port c) \<le> 2 ^ 16 - 1"
    using assms number_reads u by (simp_all add: config_ok_def)
  show ?thesis
    using n decimal_no_flag
    by (cases "cf_wal_sync c"; cases "cf_wal_path c = []"; cases "cf_max_memory c = 0"; cases c)
      (simp_all add: main_action_def config_args_def valued_def valued_flag_def port_flag_def initial_options_def default_config_def
        set_config_def Let_def)
qed

theorem arguments_roundtrip_witness:
  "main_action (\<lambda>_. False) (config_args default_config) = Serve default_config"
  by (rule arguments_roundtrip) (simp add: config_ok_def default_config_def)

section \<open>Offline compaction\<close>

lemma recovered_compacted:
  assumes rc: "recovers es (e_steady e 0) rs V B" and sw: "swept (e_steady e2 0) n ks B"
    and st: "\<And>key. map_option snd (last_stamp key new) = map_option (stamp_for (e_steady e2 1) (e_wall e2 0)) (ttl_of (fold a_drop ks B) key)"
  shows "compacted es e e2 rs V (fold a_drop ks B) new"
  unfolding compacted_def
proof
  fix key
  have g: "\<exists>ob t. ks_map B key = Some (ob, Some t) \<and> t \<le> e_steady e2 0" if "key \<in> set ks"
    using sw that by (fastforce simp: swept_def is_expired_def split: option.splits)
  have m: "ks_map (fold a_drop ks B) key = (if key \<in> set ks then None else ks_map B key)" by (simp add: fold_drop_map)
  show "case V key of
      None \<Rightarrow> ks_map (fold a_drop ks B) key = None
    | Some (ob, timed) \<Rightarrow>
        if timed then \<exists>i s t. last_stamp key rs = Some (i, s) \<and> t = due (es i) s
          \<and> (ks_map (fold a_drop ks B) key = Some (ob, Some t)
               \<and> map_option snd (last_stamp key new) = Some (stamp_for (e_steady e2 1) (e_wall e2 0) t)
             \<or> ks_map (fold a_drop ks B) key = None \<and> (t \<le> e_steady e 0 \<or> t \<le> e_steady e2 0))
        else ks_map (fold a_drop ks B) key = Some (ob, None) \<and> last_stamp key new = None"
    using recovers_key [OF rc, of key] g st [of key] unfolding ttl_of_def m
    by (cases "key \<in> set ks") (auto split: option.splits if_splits)
qed

text \<open>Where the two clocks tick alike, a stamp that lies ahead is written again as it was.\<close>

lemma stamp_kept:
  assumes "e_wall e 0 = e_steady e 0 + c" "wall = steady + c" "e_wall e 0 \<le> wall"
  shows "stamp_for steady wall (due e s) = max s wall"
  using assms by (simp add: stamp_for_def due_def)

lemma compacted_stamps:
  assumes c: "compacted es e e2 rs V C new" and t: "ttl_of C key = Some t"
    and clocks: "\<And>i. e_wall (es i) 0 = e_steady (es i) 0 + c" "\<And>i. e_wall (es i) 0 \<le> e_wall e2 0" "e_wall e2 0 = e_steady e2 1 + c"
  shows "\<exists>i s. last_stamp key rs = Some (i, s) \<and> map_option snd (last_stamp key new) = Some (max s (e_wall e2 0))"
proof -
  obtain ob where "ks_map C key = Some (ob, Some t)" using t by (auto simp: ttl_of_def split: option.splits)
  then obtain i s where s: "last_stamp key rs = Some (i, s)"
    "map_option snd (last_stamp key new) = Some (stamp_for (e_steady e2 1) (e_wall e2 0) (due (es i) s))"
    using c [unfolded compacted_def, rule_format, of key] by (auto split: option.splits if_splits)
  then show ?thesis using stamp_kept [OF clocks(1,3,2), of i s] by auto
qed

lemma compact_tool:
  assumes "db_inv d A" "\<not> replaying d" "d_wal d = Some w" "\<not> w_failed w" "8 \<le> k" "k \<le> length (w_file w)"
    and "\<And>i. env_ok (es i) \<and> 0 \<le> e_steady (es i) 0" "env_ok e" "\<And>i. io_ok (e_io e) i" "io_bad (e_io e) 5 = None"
    and "env_ok e2" "0 \<le> e_wall e2 0"
    and "main_compact e es e2 c (take k (w_file w)) = (code, d')"
  shows "\<exists>rs V. log_inv w rs \<and> v_replay rs Map.empty = Some (vals A)
    \<and> v_replay (take (complete_records (k - 8) rs) rs) Map.empty = Some V \<and> (k = length (w_file w) \<longrightarrow> V = vals A)
    \<and> (code = 0 \<longrightarrow> (\<exists>C w' new. db_inv d' C \<and> d_wal d' = Some w' \<and> log_inv w' new \<and> \<not> w_failed w'
         \<and> w_durable w' = length (w_file w') \<and> v_replay new Map.empty = Some (vals C)
         \<and> compacted es e e2 (take (complete_records (k - 8) rs) rs) V C new))"
proof -
  obtain res path d1 where o: "open_wal e es (cf_wal_sync c) (Some (take k (w_file w))) (db_init (cf_max_keys c) (cf_max_memory c)) = (res, path, d1)"
    by (rule prod_cases3)
  obtain rs V where rs: "log_inv w rs" "v_replay rs Map.empty = Some (vals A)"
    "v_replay (take (complete_records (k - 8) rs) rs) Map.empty = Some V" "k = length (w_file w) \<longrightarrow> V = vals A"
    and good: "\<And>u. res = Inr u \<Longrightarrow> \<exists>B. db_inv d1 B
      \<and> recovers es (e_steady e 0) (take (complete_records (k - 8) rs) rs) V B \<and> \<not> replaying d1"
    using crash_reopen [OF assms(1-10) o] by (elim exE conjE) (cases res, auto)
  have "\<exists>C w' new. db_inv d' C \<and> d_wal d' = Some w' \<and> log_inv w' new \<and> \<not> w_failed w'
         \<and> w_durable w' = length (w_file w') \<and> v_replay new Map.empty = Some (vals C)
         \<and> compacted es e e2 (take (complete_records (k - 8) rs) rs) V C new" if "code = 0"
  proof -
    have "(\<exists>u. res = Inr u) \<and> compact_wal e2 d1 = (Inr (), d')"
      using assms(13) [unfolded main_compact_def o prod.case] that by (cases res) (auto split: sum.splits prod.splits)
    then obtain u where r: "res = Inr u" "compact_wal e2 d1 = (Inr (), d')" by blast
    obtain B where B: "db_inv d1 B" "recovers es (e_steady e 0) (take (complete_records (k - 8) rs) rs) V B" "\<not> replaying d1"
      using good [OF r(1)] by blast
    from compact_wal_spec [OF B(1) assms(11) B(3) assms(12) r(2)] recovered_compacted [OF B(2)] show ?thesis by blast
  qed
  then show ?thesis using rs by blast
qed

end
