(* ===== verification/Spec2Isabelle.thy ===== *)
theory Spec2Isabelle
  imports Pack Lru Expiry NodeMeta Slab Wal Resp KeyspaceRep Client Program
begin

text \<open>
  Verification of Reddish, a key-value server with a Redis-like protocol, written in C++. The sources
  are under src/src, the client library under src/client/C++/src.

  \<^bold>\<open>The program and its parts.\<close> A process reads its arguments (main.cpp) and then compacts a log offline or
  serves. The server (server.cpp) runs one event loop over its clients: it receives bytes, parses
  requests (resp.cpp), executes them in batches under the lock of the database, and sends the
  replies. The database (database.cpp, database.hpp) keeps keys in nodes, which are blocks of a slab
  allocator (slab.cpp) within a memory budget (memory.hpp). A node carries a packed header, its key,
  and a body that holds a string, an integer, a list or a hash; lists and small hashes are runs of
  packed elements (pack.cpp). A chained hash table finds a node, an intrusive list orders nodes by
  use, and an indexed heap orders deadlines. Every change is appended to a write-ahead log (wal.cpp)
  before it is made; opening the log replays it. A maintenance thread removes expired keys and
  evicts the least recently used ones when there are too many. A client library sends calls and
  reads their replies.

  \<^bold>\<open>Theories, from the bottom up.\<close>
  \<^item> Prelude: bytes, words, literals, little-endian integers. Errors: error codes, messages, exceptions
    (error.cpp, result.hpp).
  \<^item> Pack (pack.cpp): the element codec; encoding and decoding are inverse, forwards and from the end.
  \<^item> Slab (slab.cpp, memory.hpp): the budget and the size classes with their chunks and free lists. Live
    blocks never overlap, reclaiming frees exactly the chunks without a live block, and the budget is
    the sum of what is held.
  \<^item> Lru, Expiry, NodeMeta (database.hpp): the pointer list refines a list of nodes, the indexed heap a
    set of deadlines with its least element, the header words their fields.
  \<^item> Wal (wal.cpp): records, checksum, appending with short and failed writes, batches, recovery and
    compaction. The log holds exactly the records that were accepted, a crash keeps a prefix of them,
    and a changed record is not replayed.
  \<^item> Resp (resp.cpp): the two request parsers, which agree, the argument list, the classification of
    names, and the writers of replies.
  \<^item> Keyspace, KeyspaceRep (database.cpp): the state \<open>db\<close> with nodes, table, recency list, schedule, pool
    and log, the operations that create, grow, link, touch and erase nodes, and the abstract keyspace
    it represents: a map from keys to objects with deadlines, and an order of use.
  \<^item> Database with DatabaseState, DatabaseLists, DatabaseHashes and DatabaseKeys: each command of the
    database as one definition, and for each the lemma that it keeps the invariant \<open>db_inv\<close> and does to the
    keyspace what the abstract command does, on every branch. The invariant includes that the
    log replays to the objects of the keyspace and to a deadline for exactly the keys that have one.
  \<^item> Recovery: sweeps, eviction, replay, opening a log, compaction. A deadline in memory is a time of the
    steady clock, which begins anew with each run; in the log it is a time stamp of the wall clock.
    \<open>last_stamp\<close> is the stamp that counts for a key, \<open>due\<close> the deadline that replaying it gives, \<open>stamp_for\<close> the stamp that
    compaction writes for a deadline; \<open>recovers\<close> says exactly which keys an opened log has, with which
    objects and deadlines. Sessions: the calls as a step relation, the reachable states with
    crashes and restarts, and the properties of the database.
  \<^item> Commands (resp.cpp): \<open>execute_into\<close> and the handler of each command. \<open>a_execute\<close> is the meaning of a
    command, a reply and a keyspace; the handlers implement it.
  \<^item> Server and ServerLoop (server.cpp): clients and buffers, turns of a client, batches, the wait for
    maintenance, sending, connections, the event loop. The invariant \<open>server_ok\<close> bounds the buffers and says
    that no client with work left is forgotten; every operation ends and keeps it.
  \<^item> Client (client.cpp, socket.cpp of the client): a call followed through the server and back. Program
    (main.cpp): the arguments and offline compaction.

  \<^bold>\<open>How the code is translated.\<close> Functions that may throw return \<open>(exn + 'a) \<times> state\<close>, so that the state
  a failure leaves is part of the model; \<^verbatim>\<open>Result\<close> values are sums. Addresses are numbers and the blocks of the
  pool a map from them to nodes. What lies outside the code is the record \<open>env\<close> for calls of the
  database and \<open>world\<close> for turns of the server: where new chunks are placed and whether memory is
  granted, the iteration order of unordered maps, bytes of fresh memory, the clocks, the outcome
  of each file operation and how many bytes it takes, the bytes each receive brings, the bytes each
  send takes, the events. \<open>env_ok\<close> states what the code relies on, such as that fresh memory does not
  overlap memory in use and that iteration visits every entry once; \<open>clock_ok\<close> that clocks do not run
  before 1970 and that, where \<^verbatim>\<open>EXPIRE\<close> reads the wall clock a second time after its check, the sum it computes
  does not overflow, which the code does not test; \<open>texts_fit\<close> that the encoding of a hash value is
  within the limit on values when the value is. Sizes are natural numbers with the
  subtractions of \<^verbatim>\<open>std::size_t\<close> written out where they can wrap; header words, counters and integers
  stored by commands are words of their width.

  \<^bold>\<open>Interfaces.\<close> The locales \<open>block_allocator\<close>, \<open>recency\<close>, \<open>deadline_queue\<close>, \<open>record_log\<close>, \<open>sequence\<close>, \<open>store\<close> and
  \<open>event_loop\<close> state what a component promises its client, with the lemmas the client needs; each is
  interpreted on the definitions of the model, the last one on the invariant and on the reachable
  states of the server.

  \<^bold>\<open>Loops, bounds and fuel.\<close> Loops are recursion on their data. \<open>flush_loop\<close> and \<open>read_loop\<close> end because the
  bytes to send shrink and the room for input does. \<open>await_capacity\<close>, the wait of a batch for maintenance, is
  given as many passes as there are keys, and it is shown that they are enough, since every pass
  that does not fail evicts a key while there are too many. \<open>free_id\<close> is given as many steps as there are clients,
  which are fewer than identifiers. \<open>write_nodes\<close> walks the recency list with the number of keys as fuel. The
  loops of the client may be interrupted for ever by the system; they are partial functions, and
  calls are shown to return when the interruptions end. The limits of the code (64 MiB
  values, 1 MiB of unread input, of output and of reply, 16 MiB at the client, batches of 1024, 4096 clients,
  slices of 128 and 256 keys) are those of the source.

  \<^bold>\<open>Concurrency.\<close> The database is used by the event loop and by the maintenance thread, each under
  its lock for one operation. The reachable states of the server therefore take the operations
  of both, in any order; within a wait of a batch only the maintenance thread runs.

  \<^bold>\<open>Not modelled.\<close> The calls of the operating system in socket.cpp, on both sides, except for what
  they answer: creating, binding, connecting, configuring and closing sockets, and the queues of
  events. Exhaustion of memory in containers outside
  the budget of the database, such as the buffers of a client. Messages on the terminal. The
  handlers of signals, which only set the flag that ends the loop. The background flush of the log is
  one step, not its schedule in time. When the directory cannot be synced after a compaction has renamed
  the new log into place, the model has the new file with nothing of it known to be durable and the log marked as
  failed; that a crash may then bring back the old file is not represented. Benchmarks and tests.
\<close>

section \<open>From one run of the program to the next\<close>

text \<open>
  C9. Offline compaction loses nothing. A server has kept its data in a log and stopped, or crashed
  with any prefix of the log that holds its header; the program is then run to compact the file. If
  it exits with success, the new log is complete, on disk, and replays to exactly the objects of the
  complete records that survived; when the whole file survived these are the objects the server held.
  A key with a deadline is missing only when the deadline has passed, and otherwise has a stamp in the
  new log for the deadline that its last stamp stood for: where the wall clock and the steady clock
  tick alike, the very stamp it had, unless that time has come meanwhile.
\<close>

theorem offline_compaction_keeps:
  assumes "db_inv d A" "\<not> replaying d" "d_wal d = Some w" "\<not> w_failed w" "8 \<le> k" "k \<le> length (w_file w)"
    and "\<And>i. env_ok (es i) \<and> 0 \<le> e_steady (es i) 0" "env_ok e" "\<And>i. io_ok (e_io e) i" "io_bad (e_io e) 5 = None"
    and "env_ok e2" "0 \<le> e_wall e2 0"
  shows "\<exists>rs V. log_inv w rs \<and> v_replay rs Map.empty = Some (vals A)
    \<and> v_replay (take (complete_records (k - 8) rs) rs) Map.empty = Some V \<and> (k = length (w_file w) \<longrightarrow> V = vals A)
    \<and> (case main_compact e es e2 c (take k (w_file w)) of (code, d') \<Rightarrow>
         code \<noteq> 0 \<or> (\<exists>C w' new. db_inv d' C \<and> d_wal d' = Some w' \<and> log_inv w' new \<and> \<not> w_failed w'
           \<and> w_durable w' = length (w_file w') \<and> v_replay new Map.empty = Some (vals C)
           \<and> compacted es e e2 (take (complete_records (k - 8) rs) rs) V C new
           \<and> (\<forall>skew key t. (\<forall>i. e_wall (es i) 0 = e_steady (es i) 0 + skew \<and> e_wall (es i) 0 \<le> e_wall e2 0)
                \<and> e_wall e2 0 = e_steady e2 1 + skew \<and> ttl_of C key = Some t \<longrightarrow>
                (\<exists>i s. last_stamp key (take (complete_records (k - 8) rs) rs) = Some (i, s)
                   \<and> map_option snd (last_stamp key new) = Some (max s (e_wall e2 0))))))"
proof -
  obtain code d' where run: "main_compact e es e2 c (take k (w_file w)) = (code, d')" by fastforce
  let ?lasting = "\<lambda>rs C new. \<forall>skew key t. (\<forall>i. e_wall (es i) 0 = e_steady (es i) 0 + skew \<and> e_wall (es i) 0 \<le> e_wall e2 0)
      \<and> e_wall e2 0 = e_steady e2 1 + skew \<and> ttl_of C key = Some t \<longrightarrow>
      (\<exists>i s. last_stamp key rs = Some (i, s) \<and> map_option snd (last_stamp key new) = Some (max s (e_wall e2 0)))"
  have lasting: "?lasting rs C new" if "compacted es e e2 rs V C new" for rs V C new
    by (intro allI impI, elim conjE) (rule compacted_stamps [OF that], assumption, blast, blast, assumption)
  obtain rs V where "log_inv w rs \<and> v_replay rs Map.empty = Some (vals A)
      \<and> v_replay (take (complete_records (k - 8) rs) rs) Map.empty = Some V \<and> (k = length (w_file w) \<longrightarrow> V = vals A)"
    and c: "code = 0 \<longrightarrow> (\<exists>C w' new. db_inv d' C \<and> d_wal d' = Some w' \<and> log_inv w' new \<and> \<not> w_failed w'
         \<and> w_durable w' = length (w_file w') \<and> v_replay new Map.empty = Some (vals C)
         \<and> compacted es e e2 (take (complete_records (k - 8) rs) rs) V C new)"
    using compact_tool [OF assms run] by (elim exE conjE) (rule that, simp_all)
  moreover have "code \<noteq> 0 \<or> (\<exists>C w' new. db_inv d' C \<and> d_wal d' = Some w' \<and> log_inv w' new \<and> \<not> w_failed w'
         \<and> w_durable w' = length (w_file w') \<and> v_replay new Map.empty = Some (vals C)
         \<and> compacted es e e2 (take (complete_records (k - 8) rs) rs) V C new \<and> ?lasting (take (complete_records (k - 8) rs) rs) C new)"
    using c lasting by metis
  ultimately show ?thesis unfolding run prod.case by (intro exI [of _ rs] exI [of _ V]) simp
qed

theorem offline_compaction_keeps_witness:
  "case main_compact sample_env (\<lambda>_. sample_env) sample_env default_config (w_file logged_wal) of (code, d') \<Rightarrow>
     code \<noteq> 0 \<or> (\<exists>C w' new. db_inv d' C \<and> d_wal d' = Some w' \<and> log_inv w' new \<and> \<not> w_failed w'
       \<and> w_durable w' = length (w_file w') \<and> v_replay new Map.empty = Some (vals C)
       \<and> ks_map C (str ''k'') = Some (OString (str ''7''), Some 9000) \<and> map_option snd (last_stamp (str ''k'') new) = Some 9000)"
proof -
  let ?f = "w_file logged_wal" and ?n = "complete_records (length (w_file logged_wal) - 8) logged_records"
  have f: "8 \<le> length ?f" "take (length ?f) ?f = ?f" "take ?n logged_records = logged_records"
    by (simp_all add: logged_wal_def Let_def complete_all)
  have io: "io_ok (e_io sample_env) i" "io_bad (e_io sample_env) 5 = None" for i by (simp_all add: sample_env_def calm_def)
  have es: "env_ok sample_env \<and> 0 \<le> e_steady sample_env 0" "0 \<le> e_wall sample_env 0" using sample_env_ok by (simp_all add: sample_env_def)
  have k: "ks_map C (str ''k'') = Some (OString (str ''7''), Some 9000) \<and> map_option snd (last_stamp (str ''k'') new) = Some 9000"
    if "compacted (\<lambda>_. sample_env) sample_env sample_env logged_records (vals logged_keys) C new" for C new
    using that [unfolded compacted_def, rule_format, of "str ''k''"] logged_stamp
    by (simp add: logged_vals due_def stamp_for_def sample_env_def)
  obtain code d' where run: "main_compact sample_env (\<lambda>_. sample_env) sample_env default_config (take (length ?f) ?f) = (code, d')" by fastforce
  from offline_compaction_keeps [OF logged_db_inv f(1) order.refl es(1) sample_env_ok io sample_env_ok es(2), of default_config, unfolded run prod.case]
  obtain rs V where rs: "log_inv logged_wal rs" "V = vals logged_keys"
    and c: "code \<noteq> 0 \<or> (\<exists>C w' new. db_inv d' C \<and> d_wal d' = Some w' \<and> log_inv w' new \<and> \<not> w_failed w'
           \<and> w_durable w' = length (w_file w') \<and> v_replay new Map.empty = Some (vals C)
           \<and> compacted (\<lambda>_. sample_env) sample_env sample_env (take (complete_records (length ?f - 8) rs) rs) V C new)"
    by blast
  have "rs = logged_records" by (rule log_unique [OF rs(1) logged_log logged_db_inv(4)])
  with c have "code \<noteq> 0 \<or> (\<exists>C w' new. db_inv d' C \<and> d_wal d' = Some w' \<and> log_inv w' new \<and> \<not> w_failed w'
           \<and> w_durable w' = length (w_file w') \<and> v_replay new Map.empty = Some (vals C)
           \<and> compacted (\<lambda>_. sample_env) sample_env sample_env logged_records (vals logged_keys) C new)"
    unfolding rs(2) by (simp only: f(3))
  then show ?thesis using k unfolding run [unfolded f(2)] prod.case by metis
qed

end
